(* ===== verification/Prelude.thy ===== *)
theory Prelude
  imports Main "HOL-Library.Word" "HOL-Library.Char_ord" "HOL-Library.List_Lexorder"
begin

text \<open>
  Shared vocabulary of the development.

  \<^item> Rust's \<^verbatim>\<open>Result\<close> as a datatype with its \<^verbatim>\<open>?\<close> operator as \<open>and_then\<close>.
  \<^item> Checked and saturating machine arithmetic on \<^typ>\<open>'a::len word\<close>.
  \<^item> \<^verbatim>\<open>BTreeMap\<close> as an association list in ascending key order (\<open>bt_insert\<close>,
    \<open>bt_remove\<close>, lookup by \<^const>\<open>map_of\<close>), so that iteration order is the list order.
  \<^item> Byte strings: big-endian integers (\<^verbatim>\<open>to_be_bytes\<close>, \<^verbatim>\<open>from_be_bytes\<close>) and text as
    UTF-8 bytes.
  \<^item> Byte readers, the remaining input being the state.
  \<^item> Three interfaces as locales: \<open>ordered_map\<close> (what a map promises), \<open>codec\<close> (an encoder
    with its decoder) and \<open>invariant_system\<close> (a transition system with an inductive
    invariant). The components interpret them on their own definitions.
\<close>

named_theorems bt_simps \<open>laws of ordered maps\<close>
named_theorems codec_intros \<open>decoding what was encoded\<close>
named_theorems be_simps \<open>big-endian byte strings\<close>

type_synonym u8 = "8 word"
type_synonym u16 = "16 word"
type_synonym u32 = "32 word"
type_synonym u64 = "64 word"
type_synonym u128 = "128 word"

subsection \<open>Results\<close>

datatype ('a, 'e) result = Ok 'a | Err 'e

primrec and_then :: "('a, 'e) result \<Rightarrow> ('a \<Rightarrow> ('b, 'e) result) \<Rightarrow> ('b, 'e) result" where
  "and_then (Ok x) f = f x"
| "and_then (Err e) f = Err e"

primrec is_ok :: "('a, 'e) result \<Rightarrow> bool" where
  "is_ok (Ok x) = True"
| "is_ok (Err e) = False"

definition ok_or :: "'a option \<Rightarrow> 'e \<Rightarrow> ('a, 'e) result" where
  "ok_or x e = (case x of Some y \<Rightarrow> Ok y | None \<Rightarrow> Err e)"

primrec map_err :: "('e \<Rightarrow> 'f) \<Rightarrow> ('a, 'e) result \<Rightarrow> ('a, 'f) result" where
  "map_err f (Ok x) = Ok x"
| "map_err f (Err e) = Err (f e)"

definition require :: "bool \<Rightarrow> 'e \<Rightarrow> (unit, 'e) result" where
  "require b e = (if b then Ok () else Err e)"

lemma and_then_Ok_iff [simp]:
  "and_then r f = Ok y \<longleftrightarrow> (\<exists>x. r = Ok x \<and> f x = Ok y)"
  by (cases r) auto

lemma and_then_Err_iff:
  "and_then r f = Err e \<longleftrightarrow> r = Err e \<or> (\<exists>x. r = Ok x \<and> f x = Err e)"
  by (cases r) auto

lemma and_then_cong [fundef_cong]:
  "r = r' \<Longrightarrow> (\<And>x. r' = Ok x \<Longrightarrow> f x = g x) \<Longrightarrow> and_then r f = and_then r' g"
  by (cases r) auto

lemma ok_or_simps [simp]:
  "ok_or (Some y) e = Ok y"
  "ok_or None e = Err e"
  "ok_or x e = Ok y \<longleftrightarrow> x = Some y"
  "ok_or x e = Err f \<longleftrightarrow> x = None \<and> f = e"
  by (auto simp: ok_or_def split: option.splits)

lemma require_simps [simp]:
  "require True e = Ok ()"
  "require False e = Err e"
  "require b e = Ok u \<longleftrightarrow> b"
  "require b e = Err f \<longleftrightarrow> \<not> b \<and> f = e"
  by (auto simp: require_def)

lemma is_ok_iff: "is_ok r \<longleftrightarrow> (\<exists>x. r = Ok x)"
  by (cases r) auto

lemma map_err_Ok_iff [simp]: "map_err f r = Ok x \<longleftrightarrow> r = Ok x"
  by (cases r) auto

subsection \<open>Machine arithmetic\<close>

definition checked_add :: "'a::len word \<Rightarrow> 'a word \<Rightarrow> 'a word option" where
  "checked_add a b = (if unat a + unat b < 2 ^ LENGTH('a) then Some (a + b) else None)"

definition checked_sub :: "'a::len word \<Rightarrow> 'a word \<Rightarrow> 'a word option" where
  "checked_sub a b = (if b \<le> a then Some (a - b) else None)"

definition saturating_add :: "'a::len word \<Rightarrow> 'a word \<Rightarrow> 'a word" where
  "saturating_add a b = (case checked_add a b of Some c \<Rightarrow> c | None \<Rightarrow> - 1)"

definition saturating_mul :: "'a::len word \<Rightarrow> 'a word \<Rightarrow> 'a word" where
  "saturating_mul a b = (if unat a * unat b < 2 ^ LENGTH('a) then a * b else - 1)"

definition saturating_sub :: "'a::len word \<Rightarrow> 'a word \<Rightarrow> 'a word" where
  "saturating_sub a b = (if b \<le> a then a - b else 0)"

lemma checked_add_Some_iff:
  fixes a b :: "'a::len word"
  shows "checked_add a b = Some c \<longleftrightarrow> unat c = unat a + unat b"
proof
  assume "checked_add a b = Some c"
  then show "unat c = unat a + unat b"
    by (auto simp: checked_add_def unat_word_ariths split: if_splits)
next
  assume u: "unat c = unat a + unat b"
  then have lt: "unat a + unat b < 2 ^ LENGTH('a)"
    by (metis unsigned_less)
  then have "unat (a + b) = unat c"
    using u by (simp add: unat_word_ariths)
  then show "checked_add a b = Some c"
    using lt by (simp add: checked_add_def word_unat_eq_iff)
qed

lemma checked_add_None_iff:
  fixes a b :: "'a::len word"
  shows "checked_add a b = None \<longleftrightarrow> 2 ^ LENGTH('a) \<le> unat a + unat b"
  by (auto simp: checked_add_def)

lemma checked_add_None_max:
  fixes a :: "'a::len word"
  shows "checked_add a 1 = None \<longleftrightarrow> a = -1"
proof -
  have "unat (-1 :: 'a word) = 2 ^ LENGTH('a) - 1" by (simp add: unsigned_minus_1_eq_mask mask_eq_exp_minus_1)
  moreover have "unat a < 2 ^ LENGTH('a)" by (rule unsigned_less)
  ultimately have "2 ^ LENGTH('a) \<le> unat a + 1 \<longleftrightarrow> unat a = unat (-1 :: 'a word)" by linarith
  then show ?thesis by (simp add: checked_add_None_iff word_unat_eq_iff)
qed

lemma checked_add_greater:
  "checked_add a b = Some c \<Longrightarrow> b \<noteq> 0 \<Longrightarrow> a < c"
  by (simp add: checked_add_Some_iff word_less_nat_alt unat_gt_0)

lemma checked_add_le: "checked_add a b = Some c \<Longrightarrow> a \<le> c"
  by (simp add: checked_add_Some_iff word_le_nat_alt)

lemma unat_checked_sub: "checked_sub a b = Some c \<Longrightarrow> unat c = unat a - unat b"
  by (auto simp: checked_sub_def unat_sub split: if_splits)

lemma unat_saturating_mul:
  fixes a b :: "'a::len word"
  shows "unat (saturating_mul a b) = min (unat a * unat b) (2 ^ LENGTH('a) - 1)"
proof (cases "unat a * unat b < 2 ^ LENGTH('a)")
  case True
  then show ?thesis by (auto simp: saturating_mul_def unat_word_ariths)
next
  case False
  then show ?thesis by (simp add: saturating_mul_def unsigned_minus_1_eq_mask mask_eq_exp_minus_1)
qed

lemma unat_saturating_add:
  fixes a b :: "'a::len word"
  shows "unat (saturating_add a b) = min (unat a + unat b) (2 ^ LENGTH('a) - 1)"
proof (cases "checked_add a b")
  case None
  then have "2 ^ LENGTH('a) \<le> unat a + unat b" by (simp add: checked_add_None_iff)
  with None show ?thesis
    by (simp add: saturating_add_def unsigned_minus_1_eq_mask mask_eq_exp_minus_1)
next
  case (Some c)
  then have "unat c = unat a + unat b" by (simp add: checked_add_Some_iff)
  moreover have "unat c < 2 ^ LENGTH('a)" by (rule unsigned_less)
  ultimately show ?thesis using Some by (simp add: saturating_add_def)
qed

lemma unat_less_u64: "unat (x :: u64) < 18446744073709551616"
proof -
  have "unat x < 2 ^ LENGTH(64)" by (rule unsigned_less)
  then show ?thesis by simp
qed

lemma unat_ucast_u128 [simp]: "unat (ucast (x :: u64) :: u128) = unat x"
proof -
  have "unat x < 2 ^ 128" using unat_less_u64 [of x] by simp
  then show ?thesis
    by (simp add: unsigned_ucast_eq take_bit_eq_mod)
qed

subsection \<open>Ordered maps\<close>

text \<open>A \<^verbatim>\<open>BTreeMap\<close> is the list of its entries in iteration order.\<close>

type_synonym ('k, 'v) btree_map = "('k \<times> 'v) list"

fun bt_insert :: "'k::linorder \<Rightarrow> 'v \<Rightarrow> ('k, 'v) btree_map \<Rightarrow> ('k, 'v) btree_map" where
  "bt_insert k v [] = [(k, v)]"
| "bt_insert k v (e # m) =
     (if fst e < k then e # bt_insert k v m
      else if fst e = k then (k, v) # m
      else (k, v) # e # m)"

definition bt_remove :: "'k \<Rightarrow> ('k, 'v) btree_map \<Rightarrow> ('k, 'v) btree_map" where
  "bt_remove k m = filter (\<lambda>e. fst e \<noteq> k) m"

definition bt_retain :: "('k \<Rightarrow> 'v \<Rightarrow> bool) \<Rightarrow> ('k, 'v) btree_map \<Rightarrow> ('k, 'v) btree_map" where
  "bt_retain P m = filter (\<lambda>e. P (fst e) (snd e)) m"

definition bt_contains :: "'k \<Rightarrow> ('k, 'v) btree_map \<Rightarrow> bool" where
  "bt_contains k m \<longleftrightarrow> k \<in> set (map fst m)"

definition bt_sorted :: "('k::linorder, 'v) btree_map \<Rightarrow> bool" where
  "bt_sorted m \<longleftrightarrow> sorted_wrt (<) (map fst m)"

lemma bt_sorted_Nil [simp]: "bt_sorted []"
  by (simp add: bt_sorted_def)

lemma bt_sorted_Cons [simp]:
  "bt_sorted (e # m) \<longleftrightarrow> (\<forall>k \<in> fst ` set m. fst e < k) \<and> bt_sorted m"
  by (simp add: bt_sorted_def)

lemma bt_contains_iff: "bt_contains k m \<longleftrightarrow> map_of m k \<noteq> None"
  by (simp add: bt_contains_def map_of_eq_None_iff)

lemma fst_set_bt_insert [bt_simps]:
  "fst ` set (bt_insert k v m) = insert k (fst ` set m)"
  by (induction m) auto

lemma map_of_bt_insert [bt_simps]:
  "map_of (bt_insert k v m) = (map_of m)(k \<mapsto> v)"
  by (induction m) (auto simp: fun_eq_iff)

lemma map_of_bt_remove [bt_simps]:
  "map_of (bt_remove k m) = (map_of m)(k := None)"
  by (induction m) (auto simp: bt_remove_def fun_eq_iff)

lemma bt_sorted_insert [bt_simps]: "bt_sorted m \<Longrightarrow> bt_sorted (bt_insert k v m)"
proof (induction m)
  case Nil
  then show ?case by simp
next
  case (Cons e m)
  then show ?case
    by (cases e) (auto simp: fst_set_bt_insert)
qed

lemma bt_sorted_filter [bt_simps]: "bt_sorted m \<Longrightarrow> bt_sorted (filter P m)"
  by (induction m) auto

lemma bt_sorted_remove [bt_simps]: "bt_sorted m \<Longrightarrow> bt_sorted (bt_remove k m)"
  by (simp add: bt_remove_def bt_sorted_filter)

lemma bt_sorted_retain [bt_simps]: "bt_sorted m \<Longrightarrow> bt_sorted (bt_retain P m)"
  by (simp add: bt_retain_def bt_sorted_filter)

lemma bt_sorted_distinct: "bt_sorted m \<Longrightarrow> distinct (map fst m)"
  by (induction m) auto

lemma bt_entry_iff: "bt_sorted m \<Longrightarrow> (k, v) \<in> set m \<longleftrightarrow> map_of m k = Some v"
  using bt_sorted_distinct map_of_is_SomeI map_of_SomeD by metis

lemma map_of_bt_retain:
  "bt_sorted m \<Longrightarrow>
   map_of (bt_retain P m) k =
     (case map_of m k of None \<Rightarrow> None | Some v \<Rightarrow> if P k v then Some v else None)"
proof (induction m)
  case Nil
  then show ?case by (simp add: bt_retain_def)
next
  case (Cons e m)
  have "map_of m (fst e) = None"
    using Cons.prems by (auto simp: map_of_eq_None_iff)
  with Cons show ?case
    by (cases e) (auto simp: bt_retain_def)
qed

lemma bt_ext:
  assumes "bt_sorted m" "bt_sorted n" "map_of m = map_of n"
  shows "m = n"
proof -
  have "set m = set n"
    using assms by (auto simp: set_eq_iff bt_entry_iff)
  then have keys: "set (map fst m) = set (map fst n)" by simp
  have "map fst m = map fst n"
    using strict_sorted_equal keys assms(1,2) unfolding bt_sorted_def by blast
  moreover have "map snd m = map snd n"
  proof (rule nth_equalityI)
    show len: "length (map snd m) = length (map snd n)"
      using \<open>map fst m = map fst n\<close> map_eq_imp_length_eq by fastforce
    fix i assume i: "i < length (map snd m)"
    have "fst (m ! i) = fst (n ! i)"
      using \<open>map fst m = map fst n\<close> i len by (metis length_map nth_map)
    moreover have "map_of m (fst (m ! i)) = Some (snd (m ! i))"
      using i assms(1) by (simp add: bt_entry_iff [symmetric])
    moreover have "map_of n (fst (n ! i)) = Some (snd (n ! i))"
      using i len assms(2) by (simp add: bt_entry_iff [symmetric])
    ultimately show "map snd m ! i = map snd n ! i"
      using assms(3) i len by simp
  qed
  ultimately show ?thesis
    by (metis zip_map_fst_snd)
qed

lemma bt_insert_same: "bt_sorted m \<Longrightarrow> map_of m k = Some v \<Longrightarrow> bt_insert k v m = m"
  by (intro bt_ext bt_sorted_insert) (auto simp: map_of_bt_insert fun_upd_idem)

lemma bt_insert_last:
  "\<forall>k' \<in> fst ` set m. k' < k \<Longrightarrow> bt_insert k v m = m @ [(k, v)]"
  by (induction m) auto

lemma bt_sorted_append_last:
  "bt_sorted m \<Longrightarrow> \<forall>k' \<in> fst ` set m. k' < k \<Longrightarrow> bt_sorted (m @ [(k, v)])"
  by (induction m) auto

lemma set_bt_insert:
  "bt_sorted m \<Longrightarrow> set (bt_insert k v m) = insert (k, v) {e \<in> set m. fst e \<noteq> k}"
proof (induction m)
  case Nil
  then show ?case by simp
next
  case (Cons e m)
  then show ?case by (cases e) (auto split: if_splits)
qed

lemma length_bt_insert:
  "bt_sorted m \<Longrightarrow>
   length (bt_insert k v m) = (if map_of m k = None then Suc (length m) else length m)"
proof (induction m)
  case Nil
  then show ?case by simp
next
  case (Cons e m)
  have "k \<le> fst e \<Longrightarrow> map_of m k = None"
    using Cons.prems by (force simp: map_of_eq_None_iff)
  with Cons show ?case by (cases e) auto
qed

text \<open>Mapping over the values of a map keeps its keys and their order.\<close>

lemma map_fst_map_snd: "map fst (map (\<lambda>(k, v). (k, f v)) m) = map fst m"
  by (induction m) auto

lemma bt_sorted_map_snd: "bt_sorted (map (\<lambda>(k, v). (k, f v)) m) = bt_sorted m"
  by (simp only: bt_sorted_def map_fst_map_snd)

lemma map_of_map_snd: "map_of (map (\<lambda>(k, v). (k, f v)) m) k = map_option f (map_of m k)"
  by (induction m) auto

text \<open>What the components rely on of a map, independent of its representation.\<close>

locale ordered_map =
  fixes empty :: "'m"
    and insert_at :: "'k::linorder \<Rightarrow> 'v \<Rightarrow> 'm \<Rightarrow> 'm"
    and remove_at :: "'k \<Rightarrow> 'm \<Rightarrow> 'm"
    and get :: "'m \<Rightarrow> 'k \<Rightarrow> 'v option"
    and entries :: "'m \<Rightarrow> ('k \<times> 'v) list"
    and invar :: "'m \<Rightarrow> bool"
  assumes get_empty: "get empty k = None"
    and get_insert: "invar m \<Longrightarrow> get (insert_at k v m) = (get m)(k \<mapsto> v)"
    and get_remove: "invar m \<Longrightarrow> get (remove_at k m) = (get m)(k := None)"
    and invar_empty: "invar empty"
    and invar_insert: "invar m \<Longrightarrow> invar (insert_at k v m)"
    and invar_remove: "invar m \<Longrightarrow> invar (remove_at k m)"
    and entries_get: "invar m \<Longrightarrow> (k, v) \<in> set (entries m) \<longleftrightarrow> get m k = Some v"
    and entries_sorted: "invar m \<Longrightarrow> sorted_wrt (<) (map fst (entries m))"
    and get_ext: "invar m \<Longrightarrow> invar n \<Longrightarrow> get m = get n \<Longrightarrow> m = n"
begin

lemma insert_remove_fresh: "invar m \<Longrightarrow> get m k = None \<Longrightarrow> remove_at k (insert_at k v m) = m"
  by (intro get_ext) (auto simp: get_remove get_insert invar_insert invar_remove fun_upd_idem)

lemma insert_commute:
  "invar m \<Longrightarrow> k \<noteq> l \<Longrightarrow> insert_at k v (insert_at l w m) = insert_at l w (insert_at k v m)"
  by (intro get_ext) (auto simp: get_insert invar_insert fun_upd_twist)

lemma insert_overwrites: "invar m \<Longrightarrow> insert_at k v (insert_at k w m) = insert_at k v m"
  by (intro get_ext) (auto simp: get_insert invar_insert)

lemma get_fold_insert:
  assumes "invar m"
  shows "get (fold (\<lambda>e. insert_at (fst e) (snd e)) es m) k =
           (case map_of (rev es) k of None \<Rightarrow> get m k | Some v \<Rightarrow> Some v)"
    and "invar (fold (\<lambda>e. insert_at (fst e) (snd e)) es m)"
  using assms
proof (induction es arbitrary: m)
  case Nil
  { case 1 then show ?case by simp }
  { case 2 then show ?case by simp }
next
  case (Cons e es)
  { case 1
    then show ?case
      using Cons.IH(1) [OF invar_insert [OF 1]]
      by (simp add: get_insert map_add_def split: option.splits) }
  { case 2 then show ?case using Cons.IH(2) [OF invar_insert [OF 2]] by simp }
qed

end

interpretation bt: ordered_map "[]" bt_insert bt_remove map_of "\<lambda>m. m" bt_sorted
  by unfold_locales
    (auto simp: bt_simps bt_entry_iff bt_sorted_def [symmetric] intro: bt_ext)

subsection \<open>Byte strings\<close>

text \<open>\<^verbatim>\<open>to_be_bytes\<close> and \<^verbatim>\<open>from_be_bytes\<close> of an \<open>n\<close>-byte unsigned integer.\<close>

fun be_bytes :: "nat \<Rightarrow> nat \<Rightarrow> u8 list" where
  "be_bytes 0 x = []"
| "be_bytes (Suc n) x = be_bytes n (x div 256) @ [word_of_nat (x mod 256)]"

definition be_value :: "u8 list \<Rightarrow> nat" where
  "be_value bs = foldl (\<lambda>acc b. acc * 256 + unat b) 0 bs"

lemma length_be_bytes [simp, be_simps]: "length (be_bytes n x) = n"
  by (induction n arbitrary: x) auto

lemma be_value_snoc [be_simps]: "be_value (bs @ [b]) = be_value bs * 256 + unat b"
  by (simp add: be_value_def)

lemma be_value_Nil [simp]: "be_value [] = 0"
  by (simp add: be_value_def)

lemma be_value_be_bytes [be_simps]: "be_value (be_bytes n x) = x mod 256 ^ n"
proof (induction n arbitrary: x)
  case 0
  then show ?case by simp
next
  case (Suc n)
  have "unat (word_of_nat (x mod 256) :: u8) = x mod 256"
    by (simp add: unat_of_nat)
  then show ?case
    by (simp add: be_value_snoc Suc.IH mod_mult2_eq)
qed

lemma be_value_less: "be_value bs < 256 ^ length bs"
proof (induction bs rule: rev_induct)
  case Nil
  then show ?case by simp
next
  case (snoc b bs)
  have "unat b < 256" using unsigned_less [of b] by simp
  with snoc show ?case by (simp add: be_value_snoc)
qed

lemma be_bytes_be_value [be_simps]: "be_bytes (length bs) (be_value bs) = bs"
proof (induction bs rule: rev_induct)
  case Nil
  then show ?case by simp
next
  case (snoc b bs)
  have b: "unat b < 256" using unsigned_less [of b] by simp
  then have "(be_value bs * 256 + unat b) div 256 = be_value bs"
    and "(be_value bs * 256 + unat b) mod 256 = unat b" by simp_all
  with snoc show ?case by (simp add: be_value_snoc)
qed

lemma be_bytes_inject:
  "x < 256 ^ n \<Longrightarrow> y < 256 ^ n \<Longrightarrow> be_bytes n x = be_bytes n y \<longleftrightarrow> x = y"
  by (metis be_value_be_bytes mod_less)

text \<open>
  Text is a sequence of bytes (\<^verbatim>\<open>str::len\<close> counts bytes); \<open>utf8_valid\<close> is the check of
  \<^verbatim>\<open>String::from_utf8\<close>: shortest form, no surrogates, nothing above U+10FFFF.
\<close>

definition byte_of_char :: "char \<Rightarrow> u8" where
  "byte_of_char c = word_of_nat (of_char c)"

definition char_of_byte :: "u8 \<Rightarrow> char" where
  "char_of_byte b = char_of (unat b)"

definition str_bytes :: "string \<Rightarrow> u8 list" where
  "str_bytes s = map byte_of_char s"

definition bytes_str :: "u8 list \<Rightarrow> string" where
  "bytes_str bs = map char_of_byte bs"

definition utf8_tail :: "nat \<Rightarrow> bool" where
  "utf8_tail b \<longleftrightarrow> 128 \<le> b \<and> b < 192"

fun utf8_codes :: "nat list \<Rightarrow> bool" where
  "utf8_codes [] = True"
| "utf8_codes (a # as) =
     (if a < 128 then utf8_codes as
      else if 194 \<le> a \<and> a < 224 then
        (case as of b # r \<Rightarrow> utf8_tail b \<and> utf8_codes r | _ \<Rightarrow> False)
      else if 224 \<le> a \<and> a < 240 then
        (case as of b # c # r \<Rightarrow>
           utf8_tail b \<and> utf8_tail c \<and> (a = 224 \<longrightarrow> 160 \<le> b) \<and> (a = 237 \<longrightarrow> b < 160) \<and>
           utf8_codes r
         | _ \<Rightarrow> False)
      else if 240 \<le> a \<and> a < 245 then
        (case as of b # c # d # r \<Rightarrow>
           utf8_tail b \<and> utf8_tail c \<and> utf8_tail d \<and> (a = 240 \<longrightarrow> 144 \<le> b) \<and>
           (a = 244 \<longrightarrow> b < 144) \<and> utf8_codes r
         | _ \<Rightarrow> False)
      else False)"

definition utf8_valid :: "string \<Rightarrow> bool" where
  "utf8_valid s \<longleftrightarrow> utf8_codes (map of_char s)"

lemma char_of_byte_of_char [simp]: "char_of_byte (byte_of_char c) = c"
proof -
  have "(of_char c :: nat) < 256" by simp
  then show ?thesis
    by (simp add: char_of_byte_def byte_of_char_def unat_of_nat)
qed

lemma byte_of_char_of_byte [simp]: "byte_of_char (char_of_byte b) = b"
proof -
  have "unat b < 256" using unsigned_less [of b] by simp
  then show ?thesis
    by (simp add: char_of_byte_def byte_of_char_def)
qed

lemma bytes_str_str_bytes [simp]: "bytes_str (str_bytes s) = s"
  by (simp add: bytes_str_def str_bytes_def comp_def)

lemma str_bytes_bytes_str [simp]: "str_bytes (bytes_str bs) = bs"
  by (simp add: bytes_str_def str_bytes_def comp_def)

lemma length_str_bytes [simp]: "length (str_bytes s) = length s"
  by (simp add: str_bytes_def)

lemma length_bytes_str [simp]: "length (bytes_str bs) = length bs"
  by (simp add: bytes_str_def)

lemma utf8_valid_ascii: "\<forall>c \<in> set s. (of_char c :: nat) < 128 \<Longrightarrow> utf8_valid s"
  unfolding utf8_valid_def by (induction s) auto

subsection \<open>Readers and codecs\<close>

text \<open>A reader consumes a prefix of the remaining bytes.\<close>

type_synonym ('a, 'e) reader = "u8 list \<Rightarrow> ('a \<times> u8 list, 'e) result"

definition rd_return :: "'a \<Rightarrow> ('a, 'e) reader" where
  "rd_return x = (\<lambda>bs. Ok (x, bs))"

definition rd_fail :: "'e \<Rightarrow> ('a, 'e) reader" where
  "rd_fail e = (\<lambda>bs. Err e)"

definition rd_bind :: "('a, 'e) reader \<Rightarrow> ('a \<Rightarrow> ('b, 'e) reader) \<Rightarrow> ('b, 'e) reader" where
  "rd_bind r f = (\<lambda>bs. and_then (r bs) (\<lambda>p. f (fst p) (snd p)))"

primrec rd_repeat :: "nat \<Rightarrow> ('a, 'e) reader \<Rightarrow> ('a list, 'e) reader" where
  "rd_repeat 0 r = rd_return []"
| "rd_repeat (Suc n) r = rd_bind r (\<lambda>x. rd_bind (rd_repeat n r) (\<lambda>xs. rd_return (x # xs)))"

text \<open>
  \<open>decodes r bs x\<close>: on input that starts with \<open>bs\<close> the reader returns \<open>x\<close> and leaves what
  follows. \<open>exact r enc valid\<close>: whatever the reader accepts is the encoding of the well-formed
  value it returns.
\<close>

definition decodes :: "('a, 'e) reader \<Rightarrow> u8 list \<Rightarrow> 'a \<Rightarrow> bool" where
  "decodes r bs x \<longleftrightarrow> (\<forall>rest. r (bs @ rest) = Ok (x, rest))"

definition exact :: "('a, 'e) reader \<Rightarrow> ('a \<Rightarrow> u8 list) \<Rightarrow> ('a \<Rightarrow> bool) \<Rightarrow> bool" where
  "exact r enc valid \<longleftrightarrow> (\<forall>bs x rest. r bs = Ok (x, rest) \<longrightarrow> valid x \<and> bs = enc x @ rest)"

lemma decodesD: "decodes r bs x \<Longrightarrow> r (bs @ rest) = Ok (x, rest)"
  by (simp add: decodes_def)

lemma exactD: "exact r enc valid \<Longrightarrow> r bs = Ok (x, rest) \<Longrightarrow> valid x \<and> bs = enc x @ rest"
  by (simp add: exact_def)

lemma exactI:
  "(\<And>bs x rest. r bs = Ok (x, rest) \<Longrightarrow> valid x \<and> bs = enc x @ rest) \<Longrightarrow> exact r enc valid"
  by (simp add: exact_def)

lemma decodes_return [codec_intros]: "decodes (rd_return x) [] x"
  by (simp add: decodes_def rd_return_def)

lemma decodes_bind [codec_intros]:
  "decodes r bs x \<Longrightarrow> decodes (f x) cs y \<Longrightarrow> decodes (rd_bind r f) (bs @ cs) y"
  by (simp add: decodes_def rd_bind_def)

lemma rd_bind_Ok_iff:
  "rd_bind r f bs = Ok (y, rest) \<longleftrightarrow> (\<exists>x mid. r bs = Ok (x, mid) \<and> f x mid = Ok (y, rest))"
  by (auto simp: rd_bind_def)

lemma rd_return_Ok_iff [simp]: "rd_return x bs = Ok (y, rest) \<longleftrightarrow> y = x \<and> rest = bs"
  by (auto simp: rd_return_def)

lemma rd_fail_Ok_iff [simp]: "rd_fail e bs = Ok p \<longleftrightarrow> False"
  by (simp add: rd_fail_def)

locale codec =
  fixes enc :: "'a \<Rightarrow> u8 list"
    and dec :: "('a, 'e) reader"
    and valid :: "'a \<Rightarrow> bool"
  assumes decode_encode: "valid x \<Longrightarrow> decodes dec (enc x) x"
begin

lemma prefix_free:
  assumes "valid x" "valid y" "enc x @ r = enc y @ s"
  shows "x = y \<and> r = s"
proof -
  have "dec (enc x @ r) = Ok (x, r)"
    using decode_encode [OF assms(1)] by (rule decodesD)
  moreover have "dec (enc y @ s) = Ok (y, s)"
    using decode_encode [OF assms(2)] by (rule decodesD)
  ultimately show ?thesis using assms(3) by (metis prod.inject result.inject(1))
qed

lemma enc_inject: "valid x \<Longrightarrow> valid y \<Longrightarrow> enc x = enc y \<longleftrightarrow> x = y"
  using prefix_free [of x y "[]" "[]"] by auto

lemma decodes_repeat:
  "\<forall>x \<in> set xs. valid x \<Longrightarrow> decodes (rd_repeat (length xs) dec) (concat (map enc xs)) xs"
proof (induction xs)
  case Nil
  then show ?case by (simp add: decodes_return)
next
  case (Cons x xs)
  have "decodes dec (enc x) x" using Cons.prems by (simp add: decode_encode)
  moreover have "decodes (rd_repeat (length xs) dec) (concat (map enc xs)) xs"
    using Cons by simp
  ultimately show ?case
    by (simp add: decodes_def rd_bind_def rd_return_def)
qed

lemma concat_inject:
  assumes "\<forall>x \<in> set xs. valid x" "\<forall>y \<in> set ys. valid y" "length xs = length ys"
    and "concat (map enc xs) @ r = concat (map enc ys) @ s"
  shows "xs = ys \<and> r = s"
proof -
  have "rd_repeat (length xs) dec (concat (map enc xs) @ r) = Ok (xs, r)"
    using decodes_repeat [OF assms(1)] by (rule decodesD)
  moreover have "rd_repeat (length ys) dec (concat (map enc ys) @ s) = Ok (ys, s)"
    using decodes_repeat [OF assms(2)] by (rule decodesD)
  ultimately show ?thesis using assms(3,4) by (metis prod.inject result.inject(1))
qed

end

text \<open>A codec whose decoder is strict: it accepts canonical encodings only.\<close>

locale strict_codec = codec +
  assumes decode_exact: "exact dec enc valid"
begin

lemma decode_iff: "dec bs = Ok (x, rest) \<longleftrightarrow> valid x \<and> bs = enc x @ rest"
  using decode_exact decode_encode by (auto simp: exact_def decodes_def)

lemma exact_repeat:
  "rd_repeat n dec bs = Ok (xs, rest) \<Longrightarrow>
   length xs = n \<and> (\<forall>x \<in> set xs. valid x) \<and> bs = concat (map enc xs) @ rest"
proof (induction n arbitrary: bs xs)
  case 0
  then show ?case by simp
next
  case (Suc n)
  from Suc.prems obtain x mid ys where
    "dec bs = Ok (x, mid)" and ys: "rd_repeat n dec mid = Ok (ys, rest)" and "xs = x # ys"
    by (auto simp: rd_bind_Ok_iff)
  moreover have "valid x \<and> bs = enc x @ mid"
    using \<open>dec bs = Ok (x, mid)\<close> by (simp add: decode_iff)
  ultimately show ?case using Suc.IH [OF ys] by simp
qed

lemma repeat_iff:
  "rd_repeat n dec bs = Ok (xs, rest) \<longleftrightarrow>
   length xs = n \<and> (\<forall>x \<in> set xs. valid x) \<and> bs = concat (map enc xs) @ rest"
  using exact_repeat decodesD [OF decodes_repeat] by metis

end

subsection \<open>Transition systems\<close>

inductive reach :: "('s \<Rightarrow> bool) \<Rightarrow> ('s \<Rightarrow> 's \<Rightarrow> bool) \<Rightarrow> 's \<Rightarrow> bool"
  for init :: "'s \<Rightarrow> bool" and step :: "'s \<Rightarrow> 's \<Rightarrow> bool" where
  reach_init: "init s \<Longrightarrow> reach init step s"
| reach_step: "reach init step s \<Longrightarrow> step s t \<Longrightarrow> reach init step t"

locale invariant_system =
  fixes init :: "'s \<Rightarrow> bool"
    and step :: "'s \<Rightarrow> 's \<Rightarrow> bool"
    and inv :: "'s \<Rightarrow> bool"
  assumes init_inv: "init s \<Longrightarrow> inv s"
    and step_inv: "inv s \<Longrightarrow> step s t \<Longrightarrow> inv t"
begin

lemma reach_inv: "reach init step s \<Longrightarrow> inv s"
  by (induction rule: reach.induct) (auto intro: init_inv step_inv)

lemma steps_inv: "inv s \<Longrightarrow> step\<^sup>*\<^sup>* s t \<Longrightarrow> inv t"
  by (erule rtranclp_induct) (auto intro: step_inv)

lemma steps_monotone:
  assumes "\<And>s t. inv s \<Longrightarrow> step s t \<Longrightarrow> le (f s) (f t)"
    and "\<And>x. le x x" and "\<And>x y z. le x y \<Longrightarrow> le y z \<Longrightarrow> le x z"
    and "inv s" "step\<^sup>*\<^sup>* s t"
  shows "le (f s) (f t)"
  using assms(5)
proof (induction rule: rtranclp_induct)
  case base
  then show ?case by (rule assms(2))
next
  case (step y z)
  have "inv y" using assms(4) step.hyps(1) by (rule steps_inv)
  then show ?case using step assms(1,3) by blast
qed

end

end
