(* ===== verification/Errors.thy ===== *)
theory Errors
  imports Prelude
begin

text \<open>
  \<^verbatim>\<open>crates/dfmcp-core/src/error.rs\<close>: the closed set of error codes and the error value every
  fallible operation returns. The free-form message and detail strings are diagnostics no
  operation inspects; the model keeps the code and the retry flag.
\<close>

datatype error_code =
    VersionMismatch
  | SessionNotFound
  | FortressNotLoaded
  | AdapterUnavailable
  | CursorGap
  | StaleAnchor
  | InvalidRequest
  | InvalidIntent
  | InvalidPlan
  | CapabilityDenied
  | RiskCeilingExceeded
  | BudgetExceeded
  | PreconditionsFailed
  | Conflict
  | LeaseDenied
  | CheckpointRequired
  | AdapterRejected
  | AdapterFailure
  | EffectIndeterminate
  | VerificationTimeout
  | CancellationRequested
  | CancellationIncomplete
  | RestoreRequired
  | CorruptLedger
  | ChecksumMismatch
  | CompatibilityUnknown
  | InternalInvariantViolation

primrec error_code_str :: "error_code \<Rightarrow> string" where
  "error_code_str VersionMismatch = ''version_mismatch''"
| "error_code_str SessionNotFound = ''session_not_found''"
| "error_code_str FortressNotLoaded = ''fortress_not_loaded''"
| "error_code_str AdapterUnavailable = ''adapter_unavailable''"
| "error_code_str CursorGap = ''cursor_gap''"
| "error_code_str StaleAnchor = ''stale_anchor''"
| "error_code_str InvalidRequest = ''invalid_request''"
| "error_code_str InvalidIntent = ''invalid_intent''"
| "error_code_str InvalidPlan = ''invalid_plan''"
| "error_code_str CapabilityDenied = ''capability_denied''"
| "error_code_str RiskCeilingExceeded = ''risk_ceiling_exceeded''"
| "error_code_str BudgetExceeded = ''budget_exceeded''"
| "error_code_str PreconditionsFailed = ''preconditions_failed''"
| "error_code_str Conflict = ''conflict''"
| "error_code_str LeaseDenied = ''lease_denied''"
| "error_code_str CheckpointRequired = ''checkpoint_required''"
| "error_code_str AdapterRejected = ''adapter_rejected''"
| "error_code_str AdapterFailure = ''adapter_failure''"
| "error_code_str EffectIndeterminate = ''effect_indeterminate''"
| "error_code_str VerificationTimeout = ''verification_timeout''"
| "error_code_str CancellationRequested = ''cancellation_requested''"
| "error_code_str CancellationIncomplete = ''cancellation_incomplete''"
| "error_code_str RestoreRequired = ''restore_required''"
| "error_code_str CorruptLedger = ''corrupt_ledger''"
| "error_code_str ChecksumMismatch = ''checksum_mismatch''"
| "error_code_str CompatibilityUnknown = ''compatibility_unknown''"
| "error_code_str InternalInvariantViolation = ''internal_invariant_violation''"

record dfmcp_error =
  err_code :: error_code
  err_retryable :: bool

definition dfmcp_error :: "error_code \<Rightarrow> dfmcp_error" where
  "dfmcp_error c = \<lparr>err_code = c, err_retryable = False\<rparr>"

definition with_retryable :: "bool \<Rightarrow> dfmcp_error \<Rightarrow> dfmcp_error" where
  "with_retryable b e = e\<lparr>err_retryable := b\<rparr>"

type_synonym 'a res = "('a, dfmcp_error) result"

definition fail :: "error_code \<Rightarrow> 'a res" where
  "fail c = Err (dfmcp_error c)"

definition fail_retryable :: "error_code \<Rightarrow> 'a res" where
  "fail_retryable c = Err (with_retryable True (dfmcp_error c))"

lemma fail_simps [simp]:
  "fail c = Ok x \<longleftrightarrow> False"
  "fail_retryable c = Ok x \<longleftrightarrow> False"
  "fail c = fail d \<longleftrightarrow> c = d"
  "fail c = Err (dfmcp_error d) \<longleftrightarrow> c = d"
  by (auto simp: fail_def fail_retryable_def dfmcp_error_def)

lemma and_then_fail [simp]:
  "and_then (fail c) f = fail c"
  "and_then (fail_retryable c) f = fail_retryable c"
  by (simp_all add: fail_def fail_retryable_def)

lemma err_code_simps [simp]:
  "err_code (dfmcp_error c) = c"
  "err_retryable (dfmcp_error c) = False"
  "err_code (with_retryable b e) = err_code e"
  "err_retryable (with_retryable b e) = b"
  by (simp_all add: dfmcp_error_def with_retryable_def)

end
