(* ===== verification/Ids.thy ===== *)
theory Ids
  imports Prelude
begin

unbundle bit_operations_syntax

text \<open>
  \<^verbatim>\<open>crates/dfmcp-core/src/ids.rs\<close>: identifiers are machine integers; session identifiers in the
  raw live namespace (bit 127 set, bit 126 clear) are rewritten with one process incarnation.
  The incarnation is drawn from a randomised hasher at start-up, so it is the parameter
  \<open>scope\<close> here.
\<close>

type_synonym session_id = u128
type_synonym lease_id = u128
type_synonym edge_id = u128
type_synonym event_id = u128
type_synonym request_id = u128
type_synonym plan_id = u128
type_synonym fortress_id = u64
type_synonym entity_id = u64

definition live_session_namespace :: u128 where
  "live_session_namespace = push_bit 127 1"

definition process_scoped_session_marker :: u128 where
  "process_scoped_session_marker = push_bit 126 1"

definition live_session_sequence_mask :: u128 where
  "live_session_sequence_mask = push_bit 62 1 - 1"

definition is_raw_live_session_id :: "u128 \<Rightarrow> bool" where
  "is_raw_live_session_id v \<longleftrightarrow>
     v AND live_session_namespace \<noteq> 0 \<and> v AND process_scoped_session_marker = 0"

definition encode_process_scoped_live_session :: "u64 \<Rightarrow> u128 \<Rightarrow> u128" where
  "encode_process_scoped_live_session scope raw =
     live_session_namespace OR process_scoped_session_marker OR
     push_bit 62 (ucast scope) OR (raw AND live_session_sequence_mask)"

definition session_id_new :: "u64 \<Rightarrow> u128 \<Rightarrow> session_id" where
  "session_id_new scope v =
     (if is_raw_live_session_id v then encode_process_scoped_live_session scope v else v)"

definition is_process_scoped_live :: "session_id \<Rightarrow> bool" where
  "is_process_scoped_live s \<longleftrightarrow>
     s AND (live_session_namespace OR process_scoped_session_marker) =
       live_session_namespace OR process_scoped_session_marker"

subsection \<open>Bit-level characterisation\<close>

lemma live_session_sequence_mask_eq: "live_session_sequence_mask = mask 62"
  by (simp add: live_session_sequence_mask_def mask_eq_exp_minus_1)

lemma bit_single: "bit (push_bit n 1 :: 'a::len word) i \<longleftrightarrow> i = n \<and> n < LENGTH('a)"
  by (subst bit_push_bit_iff) (auto simp: bit_1_iff)

lemma bit_namespace: "bit live_session_namespace i \<longleftrightarrow> i = 127"
  unfolding live_session_namespace_def by (subst bit_single) simp

lemma bit_marker: "bit process_scoped_session_marker i \<longleftrightarrow> i = 126"
  unfolding process_scoped_session_marker_def by (subst bit_single) simp

lemma bit_sequence_mask: "bit live_session_sequence_mask i \<longleftrightarrow> i < 62"
  by (simp only: live_session_sequence_mask_eq bit_mask_iff) auto

lemmas session_bits = bit_namespace bit_marker bit_sequence_mask bit_and_iff bit_or_iff

lemma u128_eq_iff: "x = y \<longleftrightarrow> (\<forall>n < 128. bit x n \<longleftrightarrow> bit y n)" for x y :: u128
  by (auto intro: bit_word_eqI)

lemma and_namespace_0: "v AND live_session_namespace = 0 \<longleftrightarrow> \<not> bit v 127"
  by (auto simp: u128_eq_iff session_bits dest: spec [of _ 127])

lemma and_marker_0: "v AND process_scoped_session_marker = 0 \<longleftrightarrow> \<not> bit v 126"
  by (auto simp: u128_eq_iff session_bits dest: spec [of _ 126])

lemma is_raw_iff: "is_raw_live_session_id v \<longleftrightarrow> bit v 127 \<and> \<not> bit v 126"
  by (simp add: is_raw_live_session_id_def and_namespace_0 and_marker_0)

lemma is_process_scoped_live_iff: "is_process_scoped_live s \<longleftrightarrow> bit s 127 \<and> bit s 126"
  unfolding is_process_scoped_live_def u128_eq_iff session_bits
  by (auto dest: spec [of _ 126] spec [of _ 127])

lemma bit_encode:
  "bit (encode_process_scoped_live_session scope raw) i \<longleftrightarrow>
     i = 127 \<or> i = 126 \<or> (62 \<le> i \<and> i < 126 \<and> bit scope (i - 62)) \<or> (i < 62 \<and> bit raw i)"
proof -
  have "bit scope (i - 62) \<Longrightarrow> i - 62 < 64"
    using bit_imp_le_length [of scope "i - 62"] by simp
  then show ?thesis
    unfolding encode_process_scoped_live_session_def session_bits
    by (auto simp: bit_push_bit_iff bit_ucast_iff possible_bit_word)
qed

lemma encode_not_raw: "\<not> is_raw_live_session_id (encode_process_scoped_live_session scope raw)"
  by (simp add: is_raw_iff bit_encode)

lemma encode_inject:
  "encode_process_scoped_live_session s r = encode_process_scoped_live_session t q \<longleftrightarrow>
     s = t \<and> r AND live_session_sequence_mask = q AND live_session_sequence_mask"
proof
  assume eq: "encode_process_scoped_live_session s r = encode_process_scoped_live_session t q"
  have bits: "bit (encode_process_scoped_live_session s r) i
      = bit (encode_process_scoped_live_session t q) i" for i
    using eq by simp
  have "bit s i = bit t i" for i
  proof (cases "i < 64")
    case True
    then show ?thesis using bits [of "i + 62"] by (auto simp: bit_encode)
  next
    case False
    then show ?thesis using bit_imp_le_length [of s i] bit_imp_le_length [of t i] by auto
  qed
  moreover have "i < 62 \<Longrightarrow> bit r i = bit q i" for i
    using bits [of i] by (auto simp: bit_encode)
  ultimately show "s = t \<and> r AND live_session_sequence_mask = q AND live_session_sequence_mask"
    by (auto simp: u128_eq_iff session_bits intro: bit_word_eqI)
next
  assume h: "s = t \<and> r AND live_session_sequence_mask = q AND live_session_sequence_mask"
  then show "encode_process_scoped_live_session s r = encode_process_scoped_live_session t q"
    by (simp add: encode_process_scoped_live_session_def)
qed

text \<open>The encoding as an integer: marker bits, then the scope, then the 62-bit sequence.\<close>

lemma encode_eq_plus:
  "encode_process_scoped_live_session scope raw =
     encode_process_scoped_live_session scope 0 + (raw AND live_session_sequence_mask)"
proof -
  have "encode_process_scoped_live_session scope 0 AND (raw AND live_session_sequence_mask) = 0"
    by (auto simp: u128_eq_iff bit_encode session_bits)
  then have "encode_process_scoped_live_session scope 0 + (raw AND live_session_sequence_mask) =
      encode_process_scoped_live_session scope 0 OR (raw AND live_session_sequence_mask)"
    by (rule disjunctive_add_eq_or)
  also have "\<dots> = encode_process_scoped_live_session scope raw"
    by (simp add: encode_process_scoped_live_session_def or.assoc)
  finally show ?thesis by simp
qed

lemma namespace_sequence:
  assumes "n < 2 ^ 62"
  shows "(live_session_namespace OR word_of_nat n) AND live_session_sequence_mask = word_of_nat n"
proof -
  have "bit (word_of_nat n :: u128) i \<longleftrightarrow> bit n i \<and> i < 128" for i
    by (auto simp: bit_of_nat_iff)
  moreover have "bit n i \<Longrightarrow> i < 62" for i
    using assms by (metis bit_iff_odd div_less even_zero leI less_le_trans numeral_le_iff
        one_less_numeral_iff power_increasing_iff semiring_norm(76))
  ultimately show ?thesis by (auto simp: u128_eq_iff session_bits)
qed

subsection \<open>Session identity properties\<close>

text \<open>parsing a displayed session identity never scopes it a second time, whatever
  incarnation parses it; raw live identities become process-scoped and no other identity
  changes.\<close>

theorem session_id_new_idempotent:
  "session_id_new t (session_id_new s v) = session_id_new s v \<and>
   (if is_raw_live_session_id v
    then is_process_scoped_live (session_id_new s v) \<and>
         session_id_new s v AND live_session_sequence_mask = v AND live_session_sequence_mask
    else session_id_new s v = v)"
proof -
  have "is_process_scoped_live (encode_process_scoped_live_session s v)"
    by (simp add: is_process_scoped_live_iff bit_encode)
  moreover have "encode_process_scoped_live_session s v AND live_session_sequence_mask
      = v AND live_session_sequence_mask"
    by (auto simp: u128_eq_iff session_bits bit_encode)
  ultimately show ?thesis
    by (simp add: session_id_new_def encode_not_raw)
qed

lemma namespace_sequence_raw:
  assumes "k < 2 ^ 62"
  shows "is_raw_live_session_id (live_session_namespace OR word_of_nat k)"
proof -
  have "\<not> bit k 126"
    using assms by (simp add: bit_iff_odd div_less)
  then show ?thesis
    by (simp add: is_raw_iff session_bits bit_of_nat_iff)
qed

lemma session_id_new_sequence:
  assumes "k < 2 ^ 62"
  shows "session_id_new s (live_session_namespace OR word_of_nat k) =
    encode_process_scoped_live_session s 0 + word_of_nat k"
  using namespace_sequence_raw [OF assms] assms
  by (simp add: session_id_new_def encode_eq_plus [of s "live_session_namespace OR _"]
      namespace_sequence)

text \<open>two process incarnations never hand out the same live session identity, and one
  incarnation hands out consecutive sequence numbers as consecutive identities.\<close>

theorem live_session_ids_never_alias:
  assumes "is_raw_live_session_id v" "is_raw_live_session_id w" "s \<noteq> t"
    and "n + 1 < 2 ^ 62"
  shows "session_id_new s v \<noteq> session_id_new t w \<and>
    session_id_new s (live_session_namespace OR word_of_nat (n + 1)) =
      session_id_new s (live_session_namespace OR word_of_nat n) + 1"
  using assms session_id_new_sequence [of "n + 1" s] session_id_new_sequence [of n s]
  by (simp add: session_id_new_def encode_inject)

theorem live_session_ids_never_alias_witness:
  "is_raw_live_session_id (live_session_namespace OR 99) \<and>
   session_id_new 1 (live_session_namespace OR 99) \<noteq>
   session_id_new 2 (live_session_namespace OR 99)"
proof -
  have raw: "is_raw_live_session_id (live_session_namespace OR 99)"
    by (simp add: is_raw_live_session_id_def live_session_namespace_def
        process_scoped_session_marker_def)
  show ?thesis
    using live_session_ids_never_alias [OF raw raw, of 1 2 10] raw by simp
qed

end
