(* ===== verification/Digest.thy ===== *)
theory Digest
  imports Prelude
begin

unbundle bit_operations_syntax

text \<open>
  \<^verbatim>\<open>crates/dfmcp-core/src/digest.rs\<close>: the 32-byte digest, its hexadecimal form and SHA-256
  itself. A digest is a byte list of length 32.
\<close>

type_synonym digest32 = "u8 list"

definition digest_zero :: digest32 where
  "digest_zero = replicate 32 0"

definition is_digest :: "digest32 \<Rightarrow> bool" where
  "is_digest d \<longleftrightarrow> length d = 32"

subsection \<open>Hexadecimal form\<close>

definition hex_digits :: string where
  "hex_digits = ''0123456789abcdef''"

definition to_hex :: "digest32 \<Rightarrow> string" where
  "to_hex d =
     concat (map (\<lambda>b. [hex_digits ! unat (drop_bit 4 b), hex_digits ! unat (b AND 15)]) d)"

definition decode_nibble :: "u8 \<Rightarrow> u8 option" where
  "decode_nibble b =
     (if 48 \<le> b \<and> b \<le> 57 then Some (b - 48)
      else if 97 \<le> b \<and> b \<le> 102 then Some (b - 97 + 10)
      else if 65 \<le> b \<and> b \<le> 70 then Some (b - 65 + 10)
      else None)"

fun decode_pairs :: "u8 list \<Rightarrow> u8 list option" where
  "decode_pairs (a # b # r) =
     (case decode_nibble a of None \<Rightarrow> None
      | Some high \<Rightarrow>
          (case decode_nibble b of None \<Rightarrow> None
           | Some low \<Rightarrow>
               (case decode_pairs r of None \<Rightarrow> None
                | Some out \<Rightarrow> Some ((push_bit 4 high OR low) # out))))"
| "decode_pairs _ = Some []"

definition from_hex :: "string \<Rightarrow> digest32 option" where
  "from_hex value =
     (if length value \<noteq> 64 then None else decode_pairs (str_bytes value))"

subsection \<open>SHA-256\<close>

definition sha_initial :: "u32 list" where
  "sha_initial =
     [0x6a09e667, 0xbb67ae85, 0x3c6ef372, 0xa54ff53a, 0x510e527f, 0x9b05688c, 0x1f83d9ab,
      0x5be0cd19]"

definition sha_round :: "u32 list" where
  "sha_round = concat
     [[0x428a2f98, 0x71374491, 0xb5c0fbcf, 0xe9b5dba5, 0x3956c25b, 0x59f111f1, 0x923f82a4],
      [0xab1c5ed5, 0xd807aa98, 0x12835b01, 0x243185be, 0x550c7dc3, 0x72be5d74, 0x80deb1fe],
      [0x9bdc06a7, 0xc19bf174, 0xe49b69c1, 0xefbe4786, 0x0fc19dc6, 0x240ca1cc, 0x2de92c6f],
      [0x4a7484aa, 0x5cb0a9dc, 0x76f988da, 0x983e5152, 0xa831c66d, 0xb00327c8, 0xbf597fc7],
      [0xc6e00bf3, 0xd5a79147, 0x06ca6351, 0x14292967, 0x27b70a85, 0x2e1b2138, 0x4d2c6dfc],
      [0x53380d13, 0x650a7354, 0x766a0abb, 0x81c2c92e, 0x92722c85, 0xa2bfe8a1, 0xa81a664b],
      [0xc24b8b70, 0xc76c51a3, 0xd192e819, 0xd6990624, 0xf40e3585, 0x106aa070, 0x19a4c116],
      [0x1e376c08, 0x2748774c, 0x34b0bcb5, 0x391c0cb3, 0x4ed8aa4a, 0x5b9cca4f, 0x682e6ff3],
      [0x748f82ee, 0x78a5636f, 0x84c87814, 0x8cc70208, 0x90befffa, 0xa4506ceb, 0xbef9a3f7],
      [0xc67178f2]]"

text \<open>The padding loop pushes zero bytes until the length is 56 modulo 64.\<close>

function sha_pad_zeros :: "u8 list \<Rightarrow> u8 list" where
  "sha_pad_zeros p = (if length p mod 64 \<noteq> 56 then sha_pad_zeros (p @ [0]) else p)"
  by pat_completeness auto
termination
proof (relation "measure (\<lambda>p. (if length p mod 64 \<le> 56 then 56 else 120) - length p mod 64)",
    goal_cases)
  case 1
  then show ?case by simp
next
  case (2 p)
  have "length p mod 64 < 64" by simp
  with 2 show ?case by (auto simp: mod_Suc)
qed

declare sha_pad_zeros.simps [simp del]

definition sha_padded :: "u8 list \<Rightarrow> u8 list" where
  "sha_padded input =
     sha_pad_zeros (input @ [0x80]) @ be_bytes 8 (length input * 8 mod 2 ^ 64)"

fun sha_chunks :: "u8 list \<Rightarrow> u8 list list" where
  "sha_chunks bs = (if length bs < 64 then [] else take 64 bs # sha_chunks (drop 64 bs))"

declare sha_chunks.simps [simp del]

definition sha_word :: "u8 list \<Rightarrow> nat \<Rightarrow> u32" where
  "sha_word chunk index = word_of_nat (be_value (take 4 (drop (index * 4) chunk)))"

definition sha_extend :: "u32 list \<Rightarrow> nat \<Rightarrow> u32 list" where
  "sha_extend schedule index =
     (let x = schedule ! (index - 15);
          y = schedule ! (index - 2);
          small0 = word_rotr 7 x XOR word_rotr 18 x XOR drop_bit 3 x;
          small1 = word_rotr 17 y XOR word_rotr 19 y XOR drop_bit 10 y
      in schedule @ [schedule ! (index - 16) + small0 + schedule ! (index - 7) + small1])"

definition sha_schedule :: "u8 list \<Rightarrow> u32 list" where
  "sha_schedule chunk = foldl sha_extend (map (sha_word chunk) [0..<16]) [16..<64]"

type_synonym sha_regs = "u32 \<times> u32 \<times> u32 \<times> u32 \<times> u32 \<times> u32 \<times> u32 \<times> u32"

fun sha_step :: "sha_regs \<Rightarrow> u32 \<times> u32 \<Rightarrow> sha_regs" where
  "sha_step (a, b, c, d, e, f, g, h) (k, w) =
     (let big1 = word_rotr 6 e XOR word_rotr 11 e XOR word_rotr 25 e;
          choice = (e AND f) XOR (NOT e AND g);
          temp1 = h + big1 + choice + k + w;
          big0 = word_rotr 2 a XOR word_rotr 13 a XOR word_rotr 22 a;
          majority = (a AND b) XOR (a AND c) XOR (b AND c);
          temp2 = big0 + majority
      in (temp1 + temp2, a, b, c, d + temp1, e, f, g))"

fun sha_regs_list :: "sha_regs \<Rightarrow> u32 list" where
  "sha_regs_list (a, b, c, d, e, f, g, h) = [a, b, c, d, e, f, g, h]"

definition sha_regs_of :: "u32 list \<Rightarrow> sha_regs" where
  "sha_regs_of s = (s ! 0, s ! 1, s ! 2, s ! 3, s ! 4, s ! 5, s ! 6, s ! 7)"

definition sha_compress :: "u32 list \<Rightarrow> u8 list \<Rightarrow> u32 list" where
  "sha_compress state chunk =
     map2 (+) state
       (sha_regs_list (foldl sha_step (sha_regs_of state) (zip sha_round (sha_schedule chunk))))"

definition sha256 :: "u8 list \<Rightarrow> digest32" where
  "sha256 input =
     concat (map (\<lambda>w. be_bytes 4 (unat w))
       (foldl sha_compress sha_initial (sha_chunks (sha_padded input))))"

definition digest_of_bytes :: "u8 list \<Rightarrow> digest32" where
  "digest_of_bytes bs = sha256 bs"

subsection \<open>Hexadecimal round trip\<close>

lemma u8_bound: "unat (b :: u8) < 256"
  using unsigned_less [of b] by simp

lemma nibble_split: "push_bit 4 (drop_bit 4 b) OR (b AND 15) = (b :: u8)"
proof -
  have "b AND 15 = take_bit 4 b"
    by (simp add: take_bit_eq_mask mask_eq_exp_minus_1)
  then show ?thesis
    by (simp only:) (rule bit_word_eqI, auto simp: bit_simps)
qed

lemma nibble_table:
  "list_all (\<lambda>k. decode_nibble (byte_of_char (hex_digits ! k)) = Some (word_of_nat k)) [0..<16]"
  by (simp add: hex_digits_def upt_rec byte_of_char_def decode_nibble_def)

lemma nibble_cases:
  assumes "unat n < 16"
  shows "decode_nibble (byte_of_char (hex_digits ! unat n)) = Some n"
  using nibble_table assms by (simp add: list_all_iff)

lemma unat_high_nibble: "unat (drop_bit 4 b :: u8) < 16"
  using u8_bound [of b] by (simp add: drop_bit_eq_div unat_div)

lemma unat_low_nibble: "unat (b AND 15 :: u8) < 16"
proof -
  have "b AND 15 = take_bit 4 b"
    by (simp add: take_bit_eq_mask mask_eq_exp_minus_1)
  then show ?thesis by (simp add: take_bit_eq_mod unat_mod)
qed

lemma decode_pairs_to_hex: "decode_pairs (str_bytes (to_hex d)) = Some d"
proof (induction d)
  case Nil
  then show ?case by (simp add: to_hex_def str_bytes_def)
next
  case (Cons b d)
  then show ?case
    by (simp add: to_hex_def str_bytes_def nibble_cases unat_high_nibble unat_low_nibble nibble_split)
qed

lemma length_to_hex: "length (to_hex d) = 2 * length d"
  by (induction d) (auto simp: to_hex_def)

lemma length_decode_pairs:
  "decode_pairs bs = Some out \<Longrightarrow> length out = length bs div 2"
  by (induction bs arbitrary: out rule: decode_pairs.induct) (auto split: option.splits)

subsection \<open>Shape of the SHA-256 computation\<close>

lemma sha_pad_zeros_shape:
  "\<exists>k. sha_pad_zeros p = p @ replicate k 0 \<and> k < 64 \<and> (length p + k) mod 64 = 56"
proof (induction p rule: sha_pad_zeros.induct)
  case (1 p)
  show ?case
  proof (cases "length p mod 64 = 56")
    case True
    then show ?thesis
      by (subst sha_pad_zeros.simps) (auto intro: exI [of _ 0])
  next
    case False
    then obtain k where k: "sha_pad_zeros (p @ [0]) = (p @ [0]) @ replicate k 0"
      "k < 64" "(length (p @ [0]) + k) mod 64 = 56"
      using "1.IH" by blast
    have "k \<noteq> 63"
    proof
      assume "k = 63"
      with k(3) have "(length p + 64) mod 64 = 56" by simp
      with False show False by simp
    qed
    moreover have "sha_pad_zeros p = p @ replicate (Suc k) 0"
      using False k(1) by (subst sha_pad_zeros.simps) simp
    ultimately show ?thesis using k(2,3) by (intro exI [of _ "Suc k"]) simp
  qed
qed

lemma length_sha_pad_zeros: "length (sha_pad_zeros p) mod 64 = 56"
  using sha_pad_zeros_shape [of p] by auto

lemma length_sha_padded: "length (sha_padded input) = 64 * ((length input + 9 + 63) div 64)"
proof -
  obtain k where k: "sha_pad_zeros (input @ [0x80]) = (input @ [0x80]) @ replicate k 0"
    "k < 64" "(length (input @ [0x80 :: u8]) + k) mod 64 = 56"
    using sha_pad_zeros_shape [of "input @ [0x80]"] by blast
  then have len: "length (sha_padded input) = length input + 9 + k"
    by (simp add: sha_padded_def)
  define q where "q = Suc ((length input + 1 + k) div 64)"
  have "length input + 1 + k = 64 * ((length input + 1 + k) div 64) + 56"
    using k(3) mult_div_mod_eq [of 64 "length input + 1 + k"] by simp
  then have q: "length input + 9 + k = 64 * q" by (simp add: q_def)
  have "(length input + 9 + 63) div 64 = q"
  proof (rule div_nat_eqI)
    show "64 * q \<le> length input + 9 + 63" using q k(2) by linarith
    show "length input + 9 + 63 < 64 * Suc q" using q by simp
  qed
  with len q show ?thesis by simp
qed

lemma concat_sha_chunks:
  "length bs = 64 * n \<Longrightarrow> concat (sha_chunks bs) = bs \<and> length (sha_chunks bs) = n"
proof (induction n arbitrary: bs)
  case 0
  then show ?case by (simp add: sha_chunks.simps)
next
  case (Suc n)
  have "length (drop 64 bs) = 64 * n" using Suc.prems by simp
  from Suc.IH [OF this] show ?case
    using Suc.prems by (simp add: sha_chunks.simps [of bs])
qed

lemma length_sha_regs_list [simp]: "length (sha_regs_list r) = 8"
  by (cases r rule: sha_regs_list.cases) simp

lemma length_sha_compress: "length state = 8 \<Longrightarrow> length (sha_compress state chunk) = 8"
  by (simp add: sha_compress_def)

lemma length_sha_state:
  "length state = 8 \<Longrightarrow> length (foldl sha_compress state chunks) = 8"
  by (induction chunks arbitrary: state) (simp_all add: length_sha_compress)

lemma length_sha256 [simp]: "length (sha256 input) = 32"
proof -
  have "length (foldl sha_compress sha_initial (sha_chunks (sha_padded input))) = 8"
    by (rule length_sha_state) (simp add: sha_initial_def)
  then show ?thesis
    by (simp add: sha256_def length_concat comp_def sum_list_triv)
qed

lemma is_digest_of_bytes [simp]: "is_digest (digest_of_bytes bs)"
  by (simp add: is_digest_def digest_of_bytes_def)

lemma is_digest_zero [simp]: "is_digest digest_zero"
  by (simp add: is_digest_def digest_zero_def)

text \<open>hexadecimal digests round trip, and nothing but 64 hexadecimal digits is read as a
  digest.\<close>

theorem digest_hex_roundtrip:
  "(is_digest d \<longrightarrow> from_hex (to_hex d) = Some d) \<and>
   (from_hex s = Some e \<longrightarrow> is_digest e \<and> length s = 64)"
  using length_decode_pairs [of "str_bytes s" e]
  by (auto simp: from_hex_def is_digest_def length_to_hex decode_pairs_to_hex split: if_splits)

text \<open>SHA-256 pads every message to whole 64-byte blocks, compresses each byte of the padded
  message exactly once, and returns 32 bytes.\<close>

theorem sha256_block_structure:
  "length (sha_padded input) = 64 * ((length input + 9 + 63) div 64) \<and>
   concat (sha_chunks (sha_padded input)) = sha_padded input \<and>
   length (sha_chunks (sha_padded input)) = (length input + 9 + 63) div 64 \<and>
   take (length input) (sha_padded input) = input \<and>
   is_digest (sha256 input)"
proof -
  obtain k where "sha_pad_zeros (input @ [0x80]) = (input @ [0x80]) @ replicate k 0"
    using sha_pad_zeros_shape by blast
  then have "take (length input) (sha_padded input) = input"
    by (simp add: sha_padded_def)
  then show ?thesis
    using length_sha_padded concat_sha_chunks [OF length_sha_padded]
    by (simp add: is_digest_def)
qed

theorem digest_hex_roundtrip_witness:
  "from_hex (to_hex digest_zero) = Some digest_zero \<and> length (to_hex digest_zero) = 64"
  using digest_hex_roundtrip [of digest_zero "to_hex digest_zero" digest_zero] by simp

end
