(* ===== verification/Core_Model.thy ===== *)
theory Core_Model
  imports Errors Ids Digest
begin

text \<open>
  \<^verbatim>\<open>crates/dfmcp-core/src/model.rs\<close>: ticks and observation cursors, anchors, map regions,
  risk tiers, capability scopes and grants, work budgets and the authorization of an operation
  against the grants of its context. Coordinates are \<^verbatim>\<open>i32\<close>, written as integers with their
  range (\<open>i32_range\<close>).
\<close>

type_synonym game_tick = u64

definition i32_range :: "int \<Rightarrow> bool" where
  "i32_range x \<longleftrightarrow> - (2 ^ 31) \<le> x \<and> x < 2 ^ 31"

subsection \<open>Cursors and anchors\<close>

datatype observation_cursor = ObservationCursor (cur_epoch: u64) (cur_sequence: u64)

text \<open>The derived \<^verbatim>\<open>Ord\<close>: epoch first, then sequence.\<close>

instantiation observation_cursor :: linorder
begin

definition less_observation_cursor :: "observation_cursor \<Rightarrow> observation_cursor \<Rightarrow> bool" where
  "less_observation_cursor a b \<longleftrightarrow>
     cur_epoch a < cur_epoch b \<or> (cur_epoch a = cur_epoch b \<and> cur_sequence a < cur_sequence b)"

definition less_eq_observation_cursor :: "observation_cursor \<Rightarrow> observation_cursor \<Rightarrow> bool" where
  "less_eq_observation_cursor a b \<longleftrightarrow> a < b \<or> a = b"

instance
proof
  fix a b c :: observation_cursor
  show "(a < b) = (a \<le> b \<and> \<not> b \<le> a)"
    by (cases a; cases b) (auto simp: less_observation_cursor_def less_eq_observation_cursor_def)
  show "a \<le> a"
    by (simp add: less_eq_observation_cursor_def)
  show "a \<le> b \<Longrightarrow> b \<le> c \<Longrightarrow> a \<le> c"
    by (cases a; cases b; cases c)
      (auto simp: less_observation_cursor_def less_eq_observation_cursor_def)
  show "a \<le> b \<Longrightarrow> b \<le> a \<Longrightarrow> a = b"
    by (cases a; cases b) (auto simp: less_observation_cursor_def less_eq_observation_cursor_def)
  show "a \<le> b \<or> b \<le> a"
    by (cases a; cases b) (auto simp: less_observation_cursor_def less_eq_observation_cursor_def)
qed

end

definition cursor_origin :: observation_cursor where
  "cursor_origin = ObservationCursor 0 0"

definition cursor_next :: "observation_cursor \<Rightarrow> observation_cursor" where
  "cursor_next c = ObservationCursor (cur_epoch c) (saturating_add (cur_sequence c) 1)"

definition cursor_checked_next :: "observation_cursor \<Rightarrow> observation_cursor option" where
  "cursor_checked_next c =
     (case checked_add (cur_sequence c) 1 of
        Some s \<Rightarrow> Some (ObservationCursor (cur_epoch c) s)
      | None \<Rightarrow> None)"

definition cursor_reset_epoch :: "observation_cursor \<Rightarrow> observation_cursor" where
  "cursor_reset_epoch c = ObservationCursor (saturating_add (cur_epoch c) 1) 0"

definition cursor_checked_reset_epoch :: "observation_cursor \<Rightarrow> observation_cursor option" where
  "cursor_checked_reset_epoch c =
     (case checked_add (cur_epoch c) 1 of
        Some e \<Rightarrow> Some (ObservationCursor e 0)
      | None \<Rightarrow> None)"

record state_anchor =
  sa_fortress_id :: fortress_id
  sa_cursor :: observation_cursor
  sa_tick :: game_tick
  sa_state_hash :: digest32

lemma cursor_checked_next_greater:
  "cursor_checked_next c = Some d \<Longrightarrow>
     c < d \<and> cur_epoch d = cur_epoch c \<and> unat (cur_sequence d) = Suc (unat (cur_sequence c))"
  by (auto simp: cursor_checked_next_def less_observation_cursor_def checked_add_Some_iff
      word_less_nat_alt split: option.splits)

lemma cursor_checked_reset_greater: "cursor_checked_reset_epoch c = Some d \<Longrightarrow> c < d"
  by (auto simp: cursor_checked_reset_epoch_def less_observation_cursor_def
      checked_add_greater split: option.splits)

lemma cursor_checked_next_unique:
  "cursor_checked_next c = Some d \<Longrightarrow> c < e \<Longrightarrow> d \<le> e"
  by (cases c; cases e)
    (auto simp: cursor_checked_next_def less_observation_cursor_def less_eq_observation_cursor_def
      checked_add_Some_iff word_less_nat_alt word_unat_eq_iff split: option.splits)

subsection \<open>Map regions\<close>

record map_coord =
  mx :: int
  my :: int
  mz :: int

record map_cuboid =
  cmin :: map_coord
  cmax :: map_coord

definition cuboid_ordered :: "map_cuboid \<Rightarrow> bool" where
  "cuboid_ordered c \<longleftrightarrow>
     mx (cmin c) \<le> mx (cmax c) \<and> my (cmin c) \<le> my (cmax c) \<and> mz (cmin c) \<le> mz (cmax c)"

definition map_cuboid_new :: "map_coord \<Rightarrow> map_coord \<Rightarrow> map_cuboid res" where
  "map_cuboid_new lo hi =
     (if mx lo > mx hi \<or> my lo > my hi \<or> mz lo > mz hi then fail InvalidRequest
      else Ok \<lparr>cmin = lo, cmax = hi\<rparr>)"

definition map_cuboid_from_corners :: "map_coord \<Rightarrow> map_coord \<Rightarrow> map_cuboid" where
  "map_cuboid_from_corners c1 c2 =
     \<lparr>cmin = \<lparr>mx = min (mx c1) (mx c2), my = min (my c1) (my c2), mz = min (mz c1) (mz c2)\<rparr>,
      cmax = \<lparr>mx = max (mx c1) (mx c2), my = max (my c1) (my c2), mz = max (mz c1) (mz c2)\<rparr>\<rparr>"

definition cuboid_contains :: "map_cuboid \<Rightarrow> map_coord \<Rightarrow> bool" where
  "cuboid_contains c p \<longleftrightarrow>
     mx p \<ge> mx (cmin c) \<and> mx p \<le> mx (cmax c) \<and>
     my p \<ge> my (cmin c) \<and> my p \<le> my (cmax c) \<and>
     mz p \<ge> mz (cmin c) \<and> mz p \<le> mz (cmax c)"

definition contains_cuboid :: "map_cuboid \<Rightarrow> map_cuboid \<Rightarrow> bool" where
  "contains_cuboid c d \<longleftrightarrow> cuboid_contains c (cmin d) \<and> cuboid_contains c (cmax d)"

definition u64_try_from :: "int \<Rightarrow> u64 option" where
  "u64_try_from i = (if 0 \<le> i \<and> i < 2 ^ 64 then Some (word_of_int i) else None)"

definition checked_mul_u64 :: "u64 \<Rightarrow> u64 \<Rightarrow> u64 option" where
  "checked_mul_u64 a b = (if unat a * unat b < 2 ^ 64 then Some (a * b) else None)"

definition cuboid_tile_count :: "map_cuboid \<Rightarrow> u64 option" where
  "cuboid_tile_count c =
     (case u64_try_from (mx (cmax c) - mx (cmin c) + 1) of None \<Rightarrow> None
      | Some width \<Rightarrow>
     (case u64_try_from (my (cmax c) - my (cmin c) + 1) of None \<Rightarrow> None
      | Some height \<Rightarrow>
     (case u64_try_from (mz (cmax c) - mz (cmin c) + 1) of None \<Rightarrow> None
      | Some depth \<Rightarrow>
     (case checked_mul_u64 width height of None \<Rightarrow> None
      | Some area \<Rightarrow> checked_mul_u64 area depth))))"

text \<open>The tiles a region denotes, and its relation to containment.\<close>

definition cuboid_tiles :: "map_cuboid \<Rightarrow> map_coord set" where
  "cuboid_tiles c = {p. cuboid_contains c p}"

lemma cuboid_corners_in_tiles:
  "cuboid_ordered c \<Longrightarrow> cmin c \<in> cuboid_tiles c \<and> cmax c \<in> cuboid_tiles c"
  by (simp add: cuboid_tiles_def cuboid_contains_def cuboid_ordered_def)

lemma contains_cuboid_tiles:
  assumes "cuboid_ordered d"
  shows "contains_cuboid c d \<longleftrightarrow> cuboid_tiles d \<subseteq> cuboid_tiles c"
proof
  assume "contains_cuboid c d"
  then show "cuboid_tiles d \<subseteq> cuboid_tiles c"
    by (force simp: contains_cuboid_def cuboid_tiles_def cuboid_contains_def)
next
  assume "cuboid_tiles d \<subseteq> cuboid_tiles c"
  then show "contains_cuboid c d"
    using cuboid_corners_in_tiles [OF assms]
    by (auto simp: contains_cuboid_def cuboid_tiles_def)
qed

lemma map_cuboid_new_Ok:
  "map_cuboid_new lo hi = Ok c \<longleftrightarrow> c = \<lparr>cmin = lo, cmax = hi\<rparr> \<and> cuboid_ordered c"
  by (auto simp: map_cuboid_new_def cuboid_ordered_def)

lemma from_corners_ordered: "cuboid_ordered (map_cuboid_from_corners a b)"
  by (auto simp: cuboid_ordered_def map_cuboid_from_corners_def)

lemma contains_cuboid_trans:
  "contains_cuboid a b \<Longrightarrow> contains_cuboid b c \<Longrightarrow> contains_cuboid a c"
  by (force simp: contains_cuboid_def cuboid_contains_def)

definition cuboid_in_range :: "map_cuboid \<Rightarrow> bool" where
  "cuboid_in_range c \<longleftrightarrow>
     (\<forall>p \<in> {cmin c, cmax c}. i32_range (mx p) \<and> i32_range (my p) \<and> i32_range (mz p))"

definition span :: "int \<Rightarrow> int \<Rightarrow> nat" where
  "span lo hi = nat (hi - lo + 1)"

lemma card_cuboid_tiles:
  "card (cuboid_tiles c) =
     span (mx (cmin c)) (mx (cmax c)) * span (my (cmin c)) (my (cmax c)) *
     span (mz (cmin c)) (mz (cmax c))"
proof -
  let ?B = "{mx (cmin c)..mx (cmax c)} \<times> {my (cmin c)..my (cmax c)} \<times> {mz (cmin c)..mz (cmax c)}"
  let ?f = "\<lambda>(x, y, z). \<lparr>mx = x, my = y, mz = z\<rparr>"
  have "cuboid_tiles c = ?f ` ?B"
  proof (intro equalityI subsetI)
    fix p assume "p \<in> cuboid_tiles c"
    then have "(mx p, my p, mz p) \<in> ?B" and "p = ?f (mx p, my p, mz p)"
      by (auto simp: cuboid_tiles_def cuboid_contains_def)
    then show "p \<in> ?f ` ?B" by blast
  next
    fix p assume "p \<in> ?f ` ?B"
    then show "p \<in> cuboid_tiles c"
      by (auto simp: cuboid_tiles_def cuboid_contains_def)
  qed
  moreover have "inj_on ?f ?B" by (auto simp: inj_on_def)
  ultimately have "card (cuboid_tiles c) = card ?B" by (simp add: card_image)
  then show ?thesis by (simp add: card_cartesian_product span_def mult.assoc)
qed

lemma len_num_u64: "LENGTH(64) = 64"
  by simp

lemma unat_u64_less: "unat (c :: u64) < 2 ^ 64"
  using unsigned_less [where w = c and 'a = nat] by simp

lemma u64_try_from_extent:
  assumes "i32_range lo" "i32_range hi" "lo \<le> hi"
  shows "\<exists>w. u64_try_from (hi - lo + 1) = Some w \<and> unat w = span lo hi \<and>
    0 < unat w \<and> unat w \<le> 2 ^ 32"
proof -
  have b: "0 \<le> hi - lo + 1" "hi - lo + 1 < 2 ^ 64" "hi - lo + 1 \<le> 2 ^ 32"
    using assms by (auto simp: i32_range_def)
  have "take_bit 64 (hi - lo + 1) = hi - lo + 1"
    using b(1,2) by (rule take_bit_int_eq_self)
  then have "uint (word_of_int (hi - lo + 1) :: u64) = hi - lo + 1"
    by (simp only: uint_word_of_int_eq len_num_u64)
  then have "unat (word_of_int (hi - lo + 1) :: u64) = span lo hi"
    by (simp only: unat_eq_nat_uint span_def)
  moreover have "u64_try_from (hi - lo + 1) = Some (word_of_int (hi - lo + 1))"
    using b by (simp only: u64_try_from_def) simp
  moreover have "0 < span lo hi" "span lo hi \<le> 2 ^ 32"
    using b(3) assms(3) by (simp_all add: span_def)
  ultimately show ?thesis by metis
qed

lemma checked_mul_u64_Some_iff:
  "checked_mul_u64 a b = Some c \<longleftrightarrow> unat c = unat a * unat b"
proof
  assume "checked_mul_u64 a b = Some c"
  then show "unat c = unat a * unat b"
    by (auto simp: checked_mul_u64_def unat_word_ariths split: if_splits)
next
  assume u: "unat c = unat a * unat b"
  then have lt: "unat a * unat b < 2 ^ 64"
    using unat_u64_less [of c] by simp
  then have "unat (a * b) = unat c" using u by (simp add: unat_word_ariths)
  then show "checked_mul_u64 a b = Some c"
    using lt by (simp add: checked_mul_u64_def word_unat_eq_iff)
qed

lemma checked_mul_u64_None_iff: "checked_mul_u64 a b = None \<longleftrightarrow> 2 ^ 64 \<le> unat a * unat b"
  by (auto simp: checked_mul_u64_def)

text \<open>the checked tile count of a well-formed region is its exact number of tiles, and it
  is refused exactly when that number does not fit 64 bits.\<close>

theorem cuboid_tile_count_exact:
  assumes "cuboid_ordered c" "cuboid_in_range c"
  shows "cuboid_tile_count c =
    (if card (cuboid_tiles c) < 2 ^ 64 then Some (word_of_nat (card (cuboid_tiles c))) else None)"
proof -
  obtain w h d where
    w: "u64_try_from (mx (cmax c) - mx (cmin c) + 1) = Some w"
      "unat w = span (mx (cmin c)) (mx (cmax c))" and
    h: "u64_try_from (my (cmax c) - my (cmin c) + 1) = Some h"
      "unat h = span (my (cmin c)) (my (cmax c))" and
    d: "u64_try_from (mz (cmax c) - mz (cmin c) + 1) = Some d"
      "unat d = span (mz (cmin c)) (mz (cmax c))" "0 < unat d"
    using assms u64_try_from_extent unfolding cuboid_ordered_def cuboid_in_range_def
    by (metis insertCI)
  have card: "card (cuboid_tiles c) = unat w * unat h * unat d"
    by (simp add: card_cuboid_tiles w h d)
  show ?thesis
  proof (cases "checked_mul_u64 w h")
    case None
    then have "2 ^ 64 \<le> unat w * unat h" by (simp add: checked_mul_u64_None_iff)
    also have "\<dots> \<le> card (cuboid_tiles c)" using d(3) by (simp add: card)
    finally show ?thesis using None by (simp add: cuboid_tile_count_def w h d)
  next
    case (Some a)
    then have a: "unat a = unat w * unat h" by (simp add: checked_mul_u64_Some_iff)
    have "checked_mul_u64 a d =
        (if card (cuboid_tiles c) < 2 ^ 64 then Some (word_of_nat (card (cuboid_tiles c))) else None)"
      unfolding card a [symmetric] by (simp add: checked_mul_u64_def)
    with Some show ?thesis by (simp add: cuboid_tile_count_def w(1) h(1) d(1))
  qed
qed

theorem cuboid_tile_count_exact_witness:
  "cuboid_tile_count \<lparr>cmin = \<lparr>mx = 0, my = 0, mz = 0\<rparr>, cmax = \<lparr>mx = 9, my = 9, mz = 2\<rparr>\<rparr>
     = Some 300"
proof -
  let ?c = "\<lparr>cmin = \<lparr>mx = 0, my = 0, mz = 0\<rparr>, cmax = \<lparr>mx = 9, my = 9, mz = 2\<rparr>\<rparr>"
  have "cuboid_ordered ?c" "cuboid_in_range ?c"
    by (simp_all add: cuboid_ordered_def cuboid_in_range_def i32_range_def)
  from cuboid_tile_count_exact [OF this] show ?thesis
    by (simp add: card_cuboid_tiles span_def)
qed

subsection \<open>Risk tiers, capabilities, grants\<close>

datatype risk_tier = ReadOnly | Reversible | Guarded | Irreversible

primrec risk_rank :: "risk_tier \<Rightarrow> nat" where
  "risk_rank ReadOnly = 0"
| "risk_rank Reversible = 1"
| "risk_rank Guarded = 2"
| "risk_rank Irreversible = 3"

lemma risk_rank_inject: "risk_rank a = risk_rank b \<longleftrightarrow> a = b"
  by (cases a; cases b) auto

instantiation risk_tier :: linorder
begin

definition less_eq_risk_tier :: "risk_tier \<Rightarrow> risk_tier \<Rightarrow> bool" where
  "less_eq_risk_tier a b \<longleftrightarrow> risk_rank a \<le> risk_rank b"

definition less_risk_tier :: "risk_tier \<Rightarrow> risk_tier \<Rightarrow> bool" where
  "less_risk_tier a b \<longleftrightarrow> risk_rank a < risk_rank b"

instance
  by standard (auto simp: less_eq_risk_tier_def less_risk_tier_def risk_rank_inject)

end

primrec risk_tier_str :: "risk_tier \<Rightarrow> string" where
  "risk_tier_str ReadOnly = ''read_only''"
| "risk_tier_str Reversible = ''reversible''"
| "risk_tier_str Guarded = ''guarded''"
| "risk_tier_str Irreversible = ''irreversible''"

datatype capability =
    CapObserve | CapQuery | CapPlan | CapDesignate | CapConstruct | CapConfigureLabor
  | CapConfigureProduction | CapConfigureLogistics | CapConfigureMilitary | CapControlClock
  | CapCheckpoint | CapRestore | CapExtension | CapDiagnosticRaw | CapDoctor | CapRepairPlan
  | CapRepairApply | CapAdmin

primrec capability_str :: "capability \<Rightarrow> string" where
  "capability_str CapObserve = ''observe''"
| "capability_str CapQuery = ''query''"
| "capability_str CapPlan = ''plan''"
| "capability_str CapDesignate = ''designate''"
| "capability_str CapConstruct = ''construct''"
| "capability_str CapConfigureLabor = ''configure_labor''"
| "capability_str CapConfigureProduction = ''configure_production''"
| "capability_str CapConfigureLogistics = ''configure_logistics''"
| "capability_str CapConfigureMilitary = ''configure_military''"
| "capability_str CapControlClock = ''control_clock''"
| "capability_str CapCheckpoint = ''checkpoint''"
| "capability_str CapRestore = ''restore''"
| "capability_str CapExtension = ''extension''"
| "capability_str CapDiagnosticRaw = ''diagnostic_raw''"
| "capability_str CapDoctor = ''doctor''"
| "capability_str CapRepairPlan = ''repair_plan''"
| "capability_str CapRepairApply = ''repair_apply''"
| "capability_str CapAdmin = ''admin''"

text \<open>\<^verbatim>\<open>entity_ids\<close> is a \<^verbatim>\<open>BTreeSet\<close>: its elements in ascending order.\<close>

record capability_scope =
  scope_fortress_id :: "fortress_id option"
  scope_entity_ids :: "entity_id list"
  scope_map_area :: "map_cuboid option"

definition scope_default :: capability_scope where
  "scope_default = \<lparr>scope_fortress_id = None, scope_entity_ids = [], scope_map_area = None\<rparr>"

definition scope_permits ::
  "capability_scope \<Rightarrow> fortress_id \<Rightarrow> entity_id list \<Rightarrow> map_cuboid option \<Rightarrow> bool" where
  "scope_permits s fid ids area =
     (if (case scope_fortress_id s of Some allowed \<Rightarrow> allowed \<noteq> fid | None \<Rightarrow> False) then False
      else if scope_entity_ids s \<noteq> [] \<and>
        (ids = [] \<or> (\<exists>i \<in> set ids. i \<notin> set (scope_entity_ids s))) then False
      else
        (case (scope_map_area s, area) of
           (Some allowed, Some requested) \<Rightarrow> contains_cuboid allowed requested
         | (Some _, None) \<Rightarrow> False
         | (None, _) \<Rightarrow> True))"

record capability_grant =
  grant_capability :: capability
  grant_scope :: capability_scope
  grant_max_risk :: risk_tier
  grant_expires_at_tick :: "game_tick option"
  grant_remaining_uses :: "u32 option"

definition grant_allows ::
  "capability_grant \<Rightarrow> capability \<Rightarrow> risk_tier \<Rightarrow> game_tick \<Rightarrow> fortress_id \<Rightarrow> entity_id list
     \<Rightarrow> map_cuboid option \<Rightarrow> bool" where
  "grant_allows g cap risk tick fid ids area \<longleftrightarrow>
     (grant_capability g = cap \<or> grant_capability g = CapAdmin) \<and>
     risk \<le> grant_max_risk g \<and>
     (case grant_expires_at_tick g of Some e \<Rightarrow> tick \<le> e | None \<Rightarrow> True) \<and>
     (case grant_remaining_uses g of Some r \<Rightarrow> r > 0 | None \<Rightarrow> True) \<and>
     scope_permits (grant_scope g) fid ids area"

definition grant_is_limited :: "capability_grant \<Rightarrow> bool" where
  "grant_is_limited g \<longleftrightarrow> grant_remaining_uses g \<noteq> None"

definition consume_one_use :: "capability_grant \<Rightarrow> capability_grant res" where
  "consume_one_use g =
     (case grant_remaining_uses g of
        None \<Rightarrow> Ok g
      | Some remaining \<Rightarrow>
          (case checked_sub remaining 1 of
             None \<Rightarrow> fail CapabilityDenied
           | Some left \<Rightarrow> Ok (g\<lparr>grant_remaining_uses := Some left\<rparr>)))"

subsection \<open>Budgets and authorization\<close>

record work_budget =
  max_wall_millis :: u64
  max_game_ticks :: u64
  max_entities :: u32
  max_bytes :: u64
  max_output_tokens :: u32
  max_actions :: u32

definition conservative_budget :: work_budget where
  "conservative_budget =
     \<lparr>max_wall_millis = 2000, max_game_ticks = 10000, max_entities = 2000,
      max_bytes = 4 * 1024 * 1024, max_output_tokens = 1500, max_actions = 64\<rparr>"

definition budget_validate :: "work_budget \<Rightarrow> unit res" where
  "budget_validate b =
     (if max_wall_millis b = 0 \<or> max_entities b = 0 \<or> max_bytes b = 0 \<or>
         max_output_tokens b = 0 \<or> max_actions b = 0
      then fail InvalidRequest else Ok ())"

record operation_context =
  ctx_session_id :: session_id
  ctx_request_id :: request_id
  ctx_anchor :: state_anchor
  ctx_budget :: work_budget
  ctx_grants :: "capability_grant list"
  ctx_cancellation_requested :: bool

definition validate_authorization_request :: "operation_context \<Rightarrow> unit res" where
  "validate_authorization_request ctx =
     (if ctx_cancellation_requested ctx then fail CancellationRequested
      else budget_validate (ctx_budget ctx))"

definition ctx_allows ::
  "operation_context \<Rightarrow> capability \<Rightarrow> risk_tier \<Rightarrow> entity_id list \<Rightarrow> map_cuboid option
     \<Rightarrow> capability_grant \<Rightarrow> bool" where
  "ctx_allows ctx cap risk ids area g =
     grant_allows g cap risk (sa_tick (ctx_anchor ctx)) (sa_fortress_id (ctx_anchor ctx)) ids area"

fun authorize_loop :: "(capability_grant \<Rightarrow> bool) \<Rightarrow> capability_grant list \<Rightarrow> bool \<Rightarrow> unit res" where
  "authorize_loop ok [] limited_match = fail CapabilityDenied"
| "authorize_loop ok (g # gs) limited_match =
     (if ok g then
        (if grant_is_limited g then authorize_loop ok gs True else Ok ())
      else authorize_loop ok gs limited_match)"

definition authorize ::
  "operation_context \<Rightarrow> capability \<Rightarrow> risk_tier \<Rightarrow> entity_id list \<Rightarrow> map_cuboid option \<Rightarrow> unit res"
  where
  "authorize ctx cap risk ids area =
     and_then (validate_authorization_request ctx)
       (\<lambda>_. authorize_loop (ctx_allows ctx cap risk ids area) (ctx_grants ctx) False)"

fun consume_loop ::
  "(capability_grant \<Rightarrow> bool) \<Rightarrow> capability_grant list \<Rightarrow> capability_grant list \<times> unit res" where
  "consume_loop ok [] = ([], fail CapabilityDenied)"
| "consume_loop ok (g # gs) =
     (if ok g then
        (case consume_one_use g of
           Ok g' \<Rightarrow> (g' # gs, Ok ())
         | Err e \<Rightarrow> (g # gs, Err e))
      else (let r = consume_loop ok gs in (g # fst r, snd r)))"

definition authorize_and_consume ::
  "operation_context \<Rightarrow> capability \<Rightarrow> risk_tier \<Rightarrow> entity_id list \<Rightarrow> map_cuboid option
     \<Rightarrow> operation_context \<times> unit res" where
  "authorize_and_consume ctx cap risk ids area =
     (case validate_authorization_request ctx of
        Err e \<Rightarrow> (ctx, Err e)
      | Ok _ \<Rightarrow>
          (let r = consume_loop (ctx_allows ctx cap risk ids area) (ctx_grants ctx)
           in (ctx\<lparr>ctx_grants := fst r\<rparr>, snd r)))"

subsection \<open>Commit states\<close>

datatype commit_state =
    Prepared | Committing | AppliedAwaitingVerification | Verified | CompensationPending
  | Compensated | CancelRequested | Cancelled | Failed | Indeterminate

definition commit_is_terminal :: "commit_state \<Rightarrow> bool" where
  "commit_is_terminal s \<longleftrightarrow> s \<in> {Verified, Compensated, Cancelled, Failed}"

subsection \<open>What authorization establishes\<close>

lemma authorize_loop_Ok:
  "authorize_loop ok gs lim = Ok u \<longleftrightarrow> (\<exists>g \<in> set gs. ok g \<and> \<not> grant_is_limited g)"
  by (induction gs arbitrary: lim) auto

lemma authorize_loop_Err:
  "authorize_loop ok gs lim = Err e \<Longrightarrow> err_code e = CapabilityDenied"
  by (induction gs arbitrary: lim) (auto simp: fail_def split: if_splits)

lemma consume_one_use_Ok:
  assumes "grant_allows g cap risk tick fid ids area"
  shows "\<exists>g'. consume_one_use g = Ok g' \<and>
    g' = g\<lparr>grant_remaining_uses := map_option (\<lambda>r. r - 1) (grant_remaining_uses g)\<rparr>"
proof (cases "grant_remaining_uses g")
  case None
  then show ?thesis by (simp add: consume_one_use_def)
next
  case (Some r)
  then have "1 \<le> r" using assms by (simp add: grant_allows_def word_le_nat_alt word_less_nat_alt)
  with Some show ?thesis by (simp add: consume_one_use_def checked_sub_def)
qed

lemma validate_authorization_request_Ok:
  "validate_authorization_request ctx = Ok u \<longleftrightarrow>
     \<not> ctx_cancellation_requested ctx \<and> budget_validate (ctx_budget ctx) = Ok ()"
  by (simp add: validate_authorization_request_def)

definition spend :: "capability_grant \<Rightarrow> capability_grant" where
  "spend g = g\<lparr>grant_remaining_uses := map_option (\<lambda>r. r - 1) (grant_remaining_uses g)\<rparr>"

lemma consume_loop_cases:
  assumes "\<And>g. ok g \<Longrightarrow> consume_one_use g = Ok (spend g)"
  shows "(\<forall>g \<in> set gs. \<not> ok g) \<and> consume_loop ok gs = (gs, fail CapabilityDenied) \<or>
    (\<exists>i < length gs. ok (gs ! i) \<and> (\<forall>j < i. \<not> ok (gs ! j)) \<and>
       consume_loop ok gs = (gs[i := spend (gs ! i)], Ok ()))"
proof (induction gs)
  case Nil
  then show ?case by simp
next
  case (Cons g gs)
  show ?case
  proof (cases "ok g")
    case True
    then show ?thesis using assms by (intro disjI2 exI [of _ 0]) simp
  next
    case False
    from Cons show ?thesis
    proof (elim disjE exE conjE)
      assume "\<forall>g \<in> set gs. \<not> ok g" "consume_loop ok gs = (gs, fail CapabilityDenied)"
      with False show ?thesis by simp
    next
      fix i assume "i < length gs" "ok (gs ! i)" "\<forall>j < i. \<not> ok (gs ! j)"
        "consume_loop ok gs = (gs[i := spend (gs ! i)], Ok ())"
      with False show ?thesis
        by (intro disjI2 exI [of _ "Suc i"]) (auto simp: less_Suc_eq_0_disj)
    qed
  qed
qed

lemma ctx_allows_spend:
  "ctx_allows ctx cap risk ids area g \<Longrightarrow> consume_one_use g = Ok (spend g)"
  using consume_one_use_Ok unfolding ctx_allows_def spend_def by metis

text \<open>read-only authorization succeeds exactly when the request is neither cancelled nor
  without budget and some unlimited grant covers it; a limited-use grant never authorizes
  without being spent.\<close>

theorem authorize_iff_unlimited_grant:
  "authorize ctx cap risk ids area = Ok () \<longleftrightarrow>
     \<not> ctx_cancellation_requested ctx \<and> budget_validate (ctx_budget ctx) = Ok () \<and>
     (\<exists>g \<in> set (ctx_grants ctx). grant_remaining_uses g = None \<and>
        grant_allows g cap risk (sa_tick (ctx_anchor ctx)) (sa_fortress_id (ctx_anchor ctx)) ids area)"
  by (auto simp: authorize_def validate_authorization_request_Ok authorize_loop_Ok
      ctx_allows_def grant_is_limited_def)

lemma authorize_and_consume_cases:
  "case authorize_and_consume ctx cap risk ids area of
     (ctx', Ok _) \<Rightarrow>
       (\<exists>i < length (ctx_grants ctx).
          ctx_allows ctx cap risk ids area (ctx_grants ctx ! i) \<and>
          (\<forall>j < i. \<not> ctx_allows ctx cap risk ids area (ctx_grants ctx ! j)) \<and>
          ctx' = ctx\<lparr>ctx_grants := (ctx_grants ctx)[i := spend (ctx_grants ctx ! i)]\<rparr>)
   | (ctx', Err e) \<Rightarrow> ctx' = ctx"
proof (cases "validate_authorization_request ctx")
  case (Err e)
  then show ?thesis by (simp add: authorize_and_consume_def)
next
  case (Ok u)
  have "\<And>g. ctx_allows ctx cap risk ids area g \<Longrightarrow> consume_one_use g = Ok (spend g)"
    by (rule ctx_allows_spend)
  from consume_loop_cases [where ok = "ctx_allows ctx cap risk ids area"
      and gs = "ctx_grants ctx", OF this] Ok show ?thesis
    by (auto simp: authorize_and_consume_def fail_def)
qed

text \<open>consuming authorization spends exactly one use of the first grant that covers the
  request and changes nothing else; when it fails the context is unchanged.\<close>

theorem authorize_and_consume_effect:
  "case authorize_and_consume ctx cap risk ids area of
     (ctx', Ok _) \<Rightarrow>
       (\<exists>i < length (ctx_grants ctx).
          ctx_allows ctx cap risk ids area (ctx_grants ctx ! i) \<and>
          (\<forall>j < i. \<not> ctx_allows ctx cap risk ids area (ctx_grants ctx ! j)) \<and>
          ctx' = ctx\<lparr>ctx_grants := (ctx_grants ctx)[i := spend (ctx_grants ctx ! i)]\<rparr>)
   | (ctx', Err e) \<Rightarrow> ctx' = ctx"
  by (rule authorize_and_consume_cases)

text \<open>The uses left over all limited grants.\<close>

definition uses_left :: "capability_grant \<Rightarrow> nat" where
  "uses_left g = (case grant_remaining_uses g of None \<Rightarrow> 0 | Some r \<Rightarrow> unat r)"

definition total_uses :: "operation_context \<Rightarrow> nat" where
  "total_uses ctx = sum_list (map uses_left (ctx_grants ctx))"

definition all_limited :: "operation_context \<Rightarrow> bool" where
  "all_limited ctx \<longleftrightarrow> (\<forall>g \<in> set (ctx_grants ctx). grant_is_limited g)"

type_synonym auth_request =
  "capability \<times> risk_tier \<times> entity_id list \<times> map_cuboid option"

fun consume_run :: "operation_context \<Rightarrow> auth_request list \<Rightarrow> operation_context \<times> nat" where
  "consume_run ctx [] = (ctx, 0)"
| "consume_run ctx ((cap, risk, ids, area) # rs) =
     (let step = authorize_and_consume ctx cap risk ids area;
          rest = consume_run (fst step) rs
      in (fst rest, snd rest + (if is_ok (snd step) then 1 else 0)))"

lemma sum_list_update_decr:
  "i < length xs \<Longrightarrow> Suc v = f (xs ! i) \<Longrightarrow> f y = v \<Longrightarrow>
   Suc (sum_list (map f (xs[i := y]))) = sum_list (map f xs)"
proof (induction xs arbitrary: i)
  case Nil
  then show ?case by simp
next
  case (Cons x xs)
  then show ?case by (cases i) auto
qed

lemma spend_uses_left:
  assumes "ctx_allows ctx cap risk ids area g" "grant_is_limited g"
  shows "Suc (uses_left (spend g)) = uses_left g \<and> grant_is_limited (spend g)"
proof -
  obtain r where r: "grant_remaining_uses g = Some r"
    using assms(2) by (auto simp: grant_is_limited_def)
  then have "r > 0" using assms(1) by (simp add: ctx_allows_def grant_allows_def)
  then have "Suc (unat (r - 1)) = unat r" by (simp add: unat_minus_one unat_gt_0 word_gt_0)
  then show ?thesis
    by (simp add: uses_left_def spend_def grant_is_limited_def r)
qed

lemma consume_step_total:
  assumes "all_limited ctx" "authorize_and_consume ctx cap risk ids area = (ctx', r)"
  shows "all_limited ctx' \<and> total_uses ctx' + (if is_ok r then 1 else 0) = total_uses ctx"
proof (cases r)
  case (Err e)
  then show ?thesis
    using authorize_and_consume_cases [of ctx cap risk ids area] assms by simp
next
  case (Ok u)
  then obtain i where i: "i < length (ctx_grants ctx)"
    "ctx_allows ctx cap risk ids area (ctx_grants ctx ! i)"
    "ctx' = ctx\<lparr>ctx_grants := (ctx_grants ctx)[i := spend (ctx_grants ctx ! i)]\<rparr>"
    using authorize_and_consume_cases [of ctx cap risk ids area] assms(2) by auto
  have "grant_is_limited (ctx_grants ctx ! i)"
    using assms(1) i(1) by (simp add: all_limited_def)
  note spent = spend_uses_left [OF i(2) this]
  have "Suc (total_uses ctx') = total_uses ctx"
    using sum_list_update_decr [OF i(1), of "uses_left (spend (ctx_grants ctx ! i))" uses_left]
      spent i(3) by (simp add: total_uses_def)
  moreover have "all_limited ctx'"
    using assms(1) spent i(3) set_update_subset_insert [of "ctx_grants ctx" i]
    by (auto simp: all_limited_def)
  ultimately show ?thesis using Ok by simp
qed

lemma consume_run_total:
  "all_limited ctx \<Longrightarrow> snd (consume_run ctx rs) + total_uses (fst (consume_run ctx rs)) = total_uses ctx"
proof (induction rs arbitrary: ctx)
  case Nil
  then show ?case by simp
next
  case (Cons q rs)
  obtain cap risk ids area where q: "q = (cap, risk, ids, area)" by (cases q) auto
  obtain ctx' r where step: "authorize_and_consume ctx cap risk ids area = (ctx', r)" by fastforce
  note total = consume_step_total [OF Cons.prems step]
  then have "snd (consume_run ctx' rs) + total_uses (fst (consume_run ctx' rs)) = total_uses ctx'"
    using Cons.IH by blast
  with total show ?case by (simp add: q step Let_def)
qed

text \<open>C11: limited grants cannot be replayed: over any sequence of requests the number of
  authorizations granted is exactly the number of uses spent, so it never exceeds the uses the
  grants started with.\<close>

theorem limited_uses_never_replayed:
  assumes "all_limited ctx"
  shows "snd (consume_run ctx rs) = total_uses ctx - total_uses (fst (consume_run ctx rs)) \<and>
    snd (consume_run ctx rs) \<le> total_uses ctx"
  using consume_run_total [OF assms, of rs] by linarith

definition sample_context :: "u32 \<Rightarrow> operation_context" where
  "sample_context uses =
     \<lparr>ctx_session_id = 1, ctx_request_id = 2,
      ctx_anchor = \<lparr>sa_fortress_id = 7, sa_cursor = ObservationCursor 1 3, sa_tick = 99,
                    sa_state_hash = digest_zero\<rparr>,
      ctx_budget = conservative_budget,
      ctx_grants = [\<lparr>grant_capability = CapConfigureLabor, grant_scope = scope_default,
                     grant_max_risk = Reversible, grant_expires_at_tick = Some 100,
                     grant_remaining_uses = Some uses\<rparr>],
      ctx_cancellation_requested = False\<rparr>"

lemma sample_context_admits:
  "is_ok (snd (authorize_and_consume (sample_context 1) CapConfigureLabor Reversible [] None))"
  by (simp add: authorize_and_consume_def validate_authorization_request_def sample_context_def
      budget_validate_def conservative_budget_def ctx_allows_def grant_allows_def
      scope_permits_def scope_default_def consume_one_use_def checked_sub_def
      less_eq_risk_tier_def)

theorem limited_uses_never_replayed_witness:
  "snd (consume_run (sample_context 1)
      [(CapConfigureLabor, Reversible, [], None), (CapConfigureLabor, Reversible, [], None)]) \<le> 1 \<and>
   is_ok (snd (authorize_and_consume (sample_context 1) CapConfigureLabor Reversible [] None))"
proof -
  have lim: "all_limited (sample_context 1)"
    by (simp add: all_limited_def sample_context_def grant_is_limited_def)
  have "total_uses (sample_context 1) = 1"
    by (simp add: total_uses_def sample_context_def uses_left_def)
  then show ?thesis
    using limited_uses_never_replayed [OF lim] sample_context_admits by metis
qed

theorem authorize_and_consume_effect_witness:
  "fst (authorize_and_consume (sample_context 1) CapConfigureLabor Reversible [] None) =
   (sample_context 1)\<lparr>ctx_grants := [spend (hd (ctx_grants (sample_context 1)))]\<rparr>"
  using authorize_and_consume_effect [of "sample_context 1" CapConfigureLabor Reversible "[]" None]
    sample_context_admits
  by (auto simp: sample_context_def is_ok_iff split: prod.splits result.splits)

end
