(* ===== verification/Leases.thy ===== *)
theory Leases
  imports Core_Model
begin

text \<open>
  \<^verbatim>\<open>crates/dfmcp-core/src/lease.rs\<close>: the lease manager that fences map regions and entities
  between agent sessions. Every operation is a function from the manager to the manager and
  its result. The properties are stated over the runs of a manager whose callers pass a tick
  that never goes back (\<open>lease_step\<close>): exclusive leases of different sessions are never live
  together, identifiers are never reused, and a verified lease really covers the area.
\<close>

datatype lease_kind =
    SpatialExclusive map_cuboid
  | SpatialShared map_cuboid
  | EntityExclusive entity_id
  | EntityShared entity_id

record lease_record =
  lr_lease_id :: lease_id
  lr_holder_session :: session_id
  lr_kind :: lease_kind
  lr_acquired_tick :: game_tick
  lr_expires_at_tick :: game_tick

definition cuboids_intersect :: "map_cuboid \<Rightarrow> map_cuboid \<Rightarrow> bool" where
  "cuboids_intersect a b =
     (let a_min_x = min (mx (cmin a)) (mx (cmax a)); a_max_x = max (mx (cmin a)) (mx (cmax a));
          a_min_y = min (my (cmin a)) (my (cmax a)); a_max_y = max (my (cmin a)) (my (cmax a));
          a_min_z = min (mz (cmin a)) (mz (cmax a)); a_max_z = max (mz (cmin a)) (mz (cmax a));
          b_min_x = min (mx (cmin b)) (mx (cmax b)); b_max_x = max (mx (cmin b)) (mx (cmax b));
          b_min_y = min (my (cmin b)) (my (cmax b)); b_max_y = max (my (cmin b)) (my (cmax b));
          b_min_z = min (mz (cmin b)) (mz (cmax b)); b_max_z = max (mz (cmin b)) (mz (cmax b))
      in a_min_x \<le> b_max_x \<and> a_max_x \<ge> b_min_x \<and> a_min_y \<le> b_max_y \<and> a_max_y \<ge> b_min_y \<and>
         a_min_z \<le> b_max_z \<and> a_max_z \<ge> b_min_z)"

record lease_manager =
  lm_next_lease_seq :: u64
  lm_leases :: "(lease_id, lease_record) btree_map"

definition lease_manager_new :: lease_manager where
  "lease_manager_new = \<lparr>lm_next_lease_seq = 1, lm_leases = []\<rparr>"

definition checked_expiry :: "game_tick \<Rightarrow> u64 \<Rightarrow> game_tick res" where
  "checked_expiry current_tick ttl_ticks =
     (if ttl_ticks = 0 then fail InvalidRequest
      else ok_or (checked_add current_tick ttl_ticks) (dfmcp_error BudgetExceeded))"

definition next_lease_id :: "lease_manager \<Rightarrow> (lease_id \<times> u64) res" where
  "next_lease_id m =
     and_then (ok_or (checked_add (lm_next_lease_seq m) 1) (dfmcp_error InternalInvariantViolation))
       (\<lambda>next_sequence. Ok (ucast (lm_next_lease_seq m), next_sequence))"

text \<open>The tail shared by both acquisitions: allocate, insert, refuse a collision.\<close>

definition grant_lease ::
  "lease_manager \<Rightarrow> session_id \<Rightarrow> lease_kind \<Rightarrow> game_tick \<Rightarrow> game_tick \<Rightarrow> lease_manager \<times> lease_id res"
  where
  "grant_lease m session_id kind current_tick expires_at_tick =
     (case next_lease_id m of
        Err e \<Rightarrow> (m, Err e)
      | Ok (lease_id, next_sequence) \<Rightarrow>
          (let r = \<lparr>lr_lease_id = lease_id, lr_holder_session = session_id, lr_kind = kind,
                    lr_acquired_tick = current_tick, lr_expires_at_tick = expires_at_tick\<rparr>;
               m' = m\<lparr>lm_leases := bt_insert lease_id r (lm_leases m)\<rparr>
           in if map_of (lm_leases m) lease_id \<noteq> None
              then (m', fail InternalInvariantViolation)
              else (m'\<lparr>lm_next_lease_seq := next_sequence\<rparr>, Ok lease_id)))"

definition spatial_conflict ::
  "session_id \<Rightarrow> map_cuboid \<Rightarrow> bool \<Rightarrow> game_tick \<Rightarrow> lease_record \<Rightarrow> bool" where
  "spatial_conflict session_id cuboid exclusive current_tick existing =
     (if lr_expires_at_tick existing \<le> current_tick then False
      else
        (case lr_kind existing of
           SpatialExclusive c \<Rightarrow>
             cuboids_intersect cuboid c \<and> lr_holder_session existing \<noteq> session_id
         | SpatialShared c \<Rightarrow>
             exclusive \<and> cuboids_intersect cuboid c \<and> lr_holder_session existing \<noteq> session_id
         | _ \<Rightarrow> False))"

definition acquire_spatial_lease ::
  "lease_manager \<Rightarrow> session_id \<Rightarrow> map_cuboid \<Rightarrow> bool \<Rightarrow> game_tick \<Rightarrow> u64 \<Rightarrow> lease_manager \<times> lease_id res"
  where
  "acquire_spatial_lease m session_id cuboid exclusive current_tick ttl_ticks =
     (case checked_expiry current_tick ttl_ticks of
        Err e \<Rightarrow> (m, Err e)
      | Ok expires_at_tick \<Rightarrow>
          if \<exists>existing \<in> set (map snd (lm_leases m)).
               spatial_conflict session_id cuboid exclusive current_tick existing
          then (m, fail Conflict)
          else grant_lease m session_id
                 (if exclusive then SpatialExclusive cuboid else SpatialShared cuboid)
                 current_tick expires_at_tick)"

definition entity_conflict ::
  "session_id \<Rightarrow> entity_id \<Rightarrow> bool \<Rightarrow> game_tick \<Rightarrow> lease_record \<Rightarrow> bool" where
  "entity_conflict session_id entity exclusive current_tick existing =
     (if lr_expires_at_tick existing \<le> current_tick then False
      else
        (case lr_kind existing of
           EntityExclusive target \<Rightarrow>
             target = entity \<and> lr_holder_session existing \<noteq> session_id
         | EntityShared target \<Rightarrow>
             exclusive \<and> target = entity \<and> lr_holder_session existing \<noteq> session_id
         | _ \<Rightarrow> False))"

definition acquire_entity_lease ::
  "lease_manager \<Rightarrow> session_id \<Rightarrow> entity_id \<Rightarrow> bool \<Rightarrow> game_tick \<Rightarrow> u64 \<Rightarrow> lease_manager \<times> lease_id res"
  where
  "acquire_entity_lease m session_id entity exclusive current_tick ttl_ticks =
     (case checked_expiry current_tick ttl_ticks of
        Err e \<Rightarrow> (m, Err e)
      | Ok expires_at_tick \<Rightarrow>
          if \<exists>existing \<in> set (map snd (lm_leases m)).
               entity_conflict session_id entity exclusive current_tick existing
          then (m, fail Conflict)
          else grant_lease m session_id
                 (if exclusive then EntityExclusive entity else EntityShared entity)
                 current_tick expires_at_tick)"

definition verify_exclusive_spatial ::
  "lease_manager \<Rightarrow> lease_id \<Rightarrow> session_id \<Rightarrow> map_cuboid \<Rightarrow> game_tick \<Rightarrow> unit res" where
  "verify_exclusive_spatial m lease_id holder area current_tick =
     and_then (map_cuboid_new (cmin area) (cmax area)) (\<lambda>_.
     and_then (ok_or (map_of (lm_leases m) lease_id) (dfmcp_error LeaseDenied)) (\<lambda>r.
       if lr_holder_session r \<noteq> holder \<or> current_tick < lr_acquired_tick r \<or>
          current_tick \<ge> lr_expires_at_tick r
       then fail LeaseDenied
       else
         (case lr_kind r of
            SpatialExclusive held \<Rightarrow>
              and_then (map_cuboid_new (cmin held) (cmax held)) (\<lambda>_.
                if contains_cuboid held area then Ok () else fail LeaseDenied)
          | _ \<Rightarrow> fail LeaseDenied)))"

definition renew_lease ::
  "lease_manager \<Rightarrow> lease_id \<Rightarrow> game_tick \<Rightarrow> u64 \<Rightarrow> lease_manager \<times> unit res" where
  "renew_lease m lease_id current_tick extension_ticks =
     (case map_of (lm_leases m) lease_id of
        None \<Rightarrow> (m, fail LeaseDenied)
      | Some r \<Rightarrow>
          if lr_expires_at_tick r \<le> current_tick then (m, fail StaleAnchor)
          else if extension_ticks = 0 then (m, fail InvalidRequest)
          else
            (case checked_add (lr_expires_at_tick r) extension_ticks of
               None \<Rightarrow> (m, fail BudgetExceeded)
             | Some e \<Rightarrow>
                 (m\<lparr>lm_leases := bt_insert lease_id (r\<lparr>lr_expires_at_tick := e\<rparr>) (lm_leases m)\<rparr>,
                  Ok ())))"

definition release_lease ::
  "lease_manager \<Rightarrow> lease_id \<Rightarrow> session_id \<Rightarrow> lease_manager \<times> unit res" where
  "release_lease m lease_id session_id =
     (case map_of (lm_leases m) lease_id of
        None \<Rightarrow> (m, fail LeaseDenied)
      | Some r \<Rightarrow>
          if lr_holder_session r \<noteq> session_id then (m, fail CapabilityDenied)
          else (m\<lparr>lm_leases := bt_remove lease_id (lm_leases m)\<rparr>, Ok ()))"

definition release_session_leases :: "lease_manager \<Rightarrow> session_id \<Rightarrow> lease_manager" where
  "release_session_leases m session_id =
     m\<lparr>lm_leases := bt_retain (\<lambda>_ r. lr_holder_session r \<noteq> session_id) (lm_leases m)\<rparr>"

definition cleanup_expired_leases :: "lease_manager \<Rightarrow> game_tick \<Rightarrow> lease_manager \<times> nat" where
  "cleanup_expired_leases m current_tick =
     (let kept = bt_retain (\<lambda>_ r. \<not> lr_expires_at_tick r \<le> current_tick) (lm_leases m)
      in (m\<lparr>lm_leases := kept\<rparr>, length (lm_leases m) - length kept))"

definition active_lease_count :: "lease_manager \<Rightarrow> nat" where
  "active_lease_count m = length (lm_leases m)"

subsection \<open>Overlap of regions\<close>

definition normalized :: "map_cuboid \<Rightarrow> map_cuboid" where
  "normalized c = map_cuboid_from_corners (cmin c) (cmax c)"

lemma intervals_meet:
  fixes a b c d :: int
  assumes "a \<le> b" "c \<le> d"
  shows "(\<exists>x. a \<le> x \<and> x \<le> b \<and> c \<le> x \<and> x \<le> d) \<longleftrightarrow> a \<le> d \<and> b \<ge> c"
proof
  assume "a \<le> d \<and> b \<ge> c"
  with assms show "\<exists>x. a \<le> x \<and> x \<le> b \<and> c \<le> x \<and> x \<le> d"
    by (intro exI [of _ "max a c"]) auto
qed auto

lemma cuboids_intersect_tiles:
  "cuboids_intersect a b \<longleftrightarrow> cuboid_tiles (normalized a) \<inter> cuboid_tiles (normalized b) \<noteq> {}"
proof -
  let ?A = "normalized a" and ?B = "normalized b"
  have ord: "cuboid_ordered ?A" "cuboid_ordered ?B"
    by (simp_all add: normalized_def from_corners_ordered)
  have meet: "(\<exists>x. mx (cmin ?A) \<le> x \<and> x \<le> mx (cmax ?A) \<and> mx (cmin ?B) \<le> x \<and> x \<le> mx (cmax ?B)) \<longleftrightarrow>
      mx (cmin ?A) \<le> mx (cmax ?B) \<and> mx (cmax ?A) \<ge> mx (cmin ?B)"
    "(\<exists>x. my (cmin ?A) \<le> x \<and> x \<le> my (cmax ?A) \<and> my (cmin ?B) \<le> x \<and> x \<le> my (cmax ?B)) \<longleftrightarrow>
      my (cmin ?A) \<le> my (cmax ?B) \<and> my (cmax ?A) \<ge> my (cmin ?B)"
    "(\<exists>x. mz (cmin ?A) \<le> x \<and> x \<le> mz (cmax ?A) \<and> mz (cmin ?B) \<le> x \<and> x \<le> mz (cmax ?B)) \<longleftrightarrow>
      mz (cmin ?A) \<le> mz (cmax ?B) \<and> mz (cmax ?A) \<ge> mz (cmin ?B)"
    using ord unfolding cuboid_ordered_def by (intro intervals_meet; simp)+
  have "cuboids_intersect a b \<longleftrightarrow>
      (mx (cmin ?A) \<le> mx (cmax ?B) \<and> mx (cmax ?A) \<ge> mx (cmin ?B)) \<and>
      (my (cmin ?A) \<le> my (cmax ?B) \<and> my (cmax ?A) \<ge> my (cmin ?B)) \<and>
      (mz (cmin ?A) \<le> mz (cmax ?B) \<and> mz (cmax ?A) \<ge> mz (cmin ?B))"
    by (simp add: cuboids_intersect_def normalized_def map_cuboid_from_corners_def Let_def)
  also have "\<dots> \<longleftrightarrow> (\<exists>x y z. \<lparr>mx = x, my = y, mz = z\<rparr> \<in> cuboid_tiles ?A \<inter> cuboid_tiles ?B)"
    unfolding meet [symmetric] by (auto simp: cuboid_tiles_def cuboid_contains_def)
  also have "\<dots> \<longleftrightarrow> cuboid_tiles ?A \<inter> cuboid_tiles ?B \<noteq> {}"
  proof
    assume "cuboid_tiles ?A \<inter> cuboid_tiles ?B \<noteq> {}"
    then obtain p where "p \<in> cuboid_tiles ?A \<inter> cuboid_tiles ?B" by blast
    moreover have "p = \<lparr>mx = mx p, my = my p, mz = mz p\<rparr>" by simp
    ultimately show "\<exists>x y z. \<lparr>mx = x, my = y, mz = z\<rparr> \<in> cuboid_tiles ?A \<inter> cuboid_tiles ?B" by metis
  qed blast
  finally show ?thesis .
qed

lemma cuboids_intersect_commute: "cuboids_intersect a b = cuboids_intersect b a"
  by (simp add: cuboids_intersect_tiles Int_commute)

subsection \<open>Runs of the manager\<close>

text \<open>
  A state is the manager with the largest tick any caller has passed; every operation of the
  manager is a step, taken at a tick that is not older.
\<close>

type_synonym lease_state = "lease_manager \<times> game_tick"

inductive lease_step :: "lease_state \<Rightarrow> lease_state \<Rightarrow> bool" where
  ls_spatial: "now \<le> t \<Longrightarrow> lease_step (m, now) (fst (acquire_spatial_lease m s c x t ttl), t)"
| ls_entity: "now \<le> t \<Longrightarrow> lease_step (m, now) (fst (acquire_entity_lease m s e x t ttl), t)"
| ls_renew: "now \<le> t \<Longrightarrow> lease_step (m, now) (fst (renew_lease m i t ext), t)"
| ls_release: "lease_step (m, now) (fst (release_lease m i s), now)"
| ls_release_session: "lease_step (m, now) (release_session_leases m s, now)"
| ls_cleanup: "now \<le> t \<Longrightarrow> lease_step (m, now) (fst (cleanup_expired_leases m t), t)"

definition lease_init :: "lease_state \<Rightarrow> bool" where
  "lease_init s \<longleftrightarrow> fst s = lease_manager_new"

text \<open>Two kinds exclude each other: one of them is exclusive and they share a tile or entity.\<close>

fun kinds_exclude :: "lease_kind \<Rightarrow> lease_kind \<Rightarrow> bool" where
  "kinds_exclude (SpatialExclusive a) (SpatialExclusive b) = cuboids_intersect a b"
| "kinds_exclude (SpatialExclusive a) (SpatialShared b) = cuboids_intersect a b"
| "kinds_exclude (SpatialShared a) (SpatialExclusive b) = cuboids_intersect a b"
| "kinds_exclude (EntityExclusive a) (EntityExclusive b) = (a = b)"
| "kinds_exclude (EntityExclusive a) (EntityShared b) = (a = b)"
| "kinds_exclude (EntityShared a) (EntityExclusive b) = (a = b)"
| "kinds_exclude _ _ = False"

definition live_at :: "game_tick \<Rightarrow> lease_record \<Rightarrow> bool" where
  "live_at t r \<longleftrightarrow> t < lr_expires_at_tick r"

definition compatible_at :: "game_tick \<Rightarrow> lease_record \<Rightarrow> lease_record \<Rightarrow> bool" where
  "compatible_at t r r' \<longleftrightarrow>
     (live_at t r \<and> live_at t r' \<longrightarrow>
      kinds_exclude (lr_kind r) (lr_kind r') \<longrightarrow> lr_holder_session r = lr_holder_session r')"

definition held :: "lease_manager \<Rightarrow> lease_record set" where
  "held m = snd ` set (lm_leases m)"

definition lease_wf :: "lease_manager \<Rightarrow> bool" where
  "lease_wf m \<longleftrightarrow>
     bt_sorted (lm_leases m) \<and>
     (\<forall>(k, r) \<in> set (lm_leases m).
        lr_lease_id r = k \<and> unat k < unat (lm_next_lease_seq m) \<and>
        lr_acquired_tick r < lr_expires_at_tick r)"

definition lease_inv :: "lease_state \<Rightarrow> bool" where
  "lease_inv s \<longleftrightarrow>
     lease_wf (fst s) \<and>
     (\<forall>r \<in> held (fst s). lr_acquired_tick r \<le> snd s) \<and>
     (\<forall>r \<in> held (fst s). \<forall>r' \<in> held (fst s). compatible_at (snd s) r r')"

lemma kinds_exclude_sym: "kinds_exclude a b = kinds_exclude b a"
  by (cases a; cases b) (auto simp: cuboids_intersect_commute)

lemma compatible_at_sym: "compatible_at t r r' = compatible_at t r' r"
  by (auto simp: compatible_at_def kinds_exclude_sym)

lemma compatible_at_mono: "compatible_at now r r' \<Longrightarrow> now \<le> t \<Longrightarrow> compatible_at t r r'"
  by (auto simp: compatible_at_def live_at_def)

lemma held_update [simp]: "held (m\<lparr>lm_next_lease_seq := q\<rparr>) = held m"
  by (simp add: held_def)

lemma spatial_conflict_iff:
  "spatial_conflict s c x t r \<longleftrightarrow>
   live_at t r \<and> lr_holder_session r \<noteq> s \<and>
   kinds_exclude (if x then SpatialExclusive c else SpatialShared c) (lr_kind r)"
  by (auto simp: spatial_conflict_def live_at_def split: lease_kind.splits)

lemma entity_conflict_iff:
  "entity_conflict s e x t r \<longleftrightarrow>
   live_at t r \<and> lr_holder_session r \<noteq> s \<and>
   kinds_exclude (if x then EntityExclusive e else EntityShared e) (lr_kind r)"
  by (auto simp: entity_conflict_def live_at_def split: lease_kind.splits)

text \<open>Both acquisitions are the same protocol over a kind.\<close>

definition acquire_kind ::
  "lease_manager \<Rightarrow> session_id \<Rightarrow> lease_kind \<Rightarrow> game_tick \<Rightarrow> u64 \<Rightarrow> lease_manager \<times> lease_id res" where
  "acquire_kind m s kind t ttl =
     (case checked_expiry t ttl of
        Err e \<Rightarrow> (m, Err e)
      | Ok x \<Rightarrow>
          if \<exists>r \<in> held m. live_at t r \<and> lr_holder_session r \<noteq> s \<and> kinds_exclude kind (lr_kind r)
          then (m, fail Conflict)
          else grant_lease m s kind t x)"

lemma acquire_spatial_kind:
  "acquire_spatial_lease m s c x t ttl =
   acquire_kind m s (if x then SpatialExclusive c else SpatialShared c) t ttl"
  unfolding acquire_spatial_lease_def acquire_kind_def held_def set_map spatial_conflict_iff ..

lemma acquire_entity_kind:
  "acquire_entity_lease m s e x t ttl =
   acquire_kind m s (if x then EntityExclusive e else EntityShared e) t ttl"
  unfolding acquire_entity_lease_def acquire_kind_def held_def set_map entity_conflict_iff ..

text \<open>Under the invariant the collision branch of the allocation cannot be taken.\<close>

lemma next_lease_id_fresh:
  assumes "lease_wf m"
  shows "map_of (lm_leases m) (ucast (lm_next_lease_seq m)) = None"
proof (rule ccontr)
  assume "\<not> ?thesis"
  then obtain r where "(ucast (lm_next_lease_seq m), r) \<in> set (lm_leases m)"
    using map_of_SomeD by fastforce
  with assms have "unat (ucast (lm_next_lease_seq m) :: lease_id) < unat (lm_next_lease_seq m)"
    by (auto simp: lease_wf_def)
  then show False by simp
qed

lemma grant_lease_cases:
  assumes "lease_wf m"
  obtains (exhausted) "grant_lease m s kind t x = (m, fail InternalInvariantViolation)"
      "unat (lm_next_lease_seq m) = 2 ^ 64 - 1"
    | (granted) q r where "unat q = Suc (unat (lm_next_lease_seq m))"
      "r = \<lparr>lr_lease_id = ucast (lm_next_lease_seq m), lr_holder_session = s, lr_kind = kind,
            lr_acquired_tick = t, lr_expires_at_tick = x\<rparr>"
      "grant_lease m s kind t x =
         (m\<lparr>lm_leases := bt_insert (lr_lease_id r) r (lm_leases m), lm_next_lease_seq := q\<rparr>,
          Ok (lr_lease_id r))"
proof (cases "checked_add (lm_next_lease_seq m) 1")
  case None
  then have "grant_lease m s kind t x = (m, fail InternalInvariantViolation)"
    by (simp add: grant_lease_def next_lease_id_def fail_def)
  moreover have "unat (lm_next_lease_seq m) = 2 ^ 64 - 1"
    using None unat_less_u64 [of "lm_next_lease_seq m"] by (simp add: checked_add_None_iff)
  ultimately show ?thesis by (rule exhausted)
next
  case (Some q)
  moreover have "unat q = Suc (unat (lm_next_lease_seq m))"
    using Some by (simp add: checked_add_Some_iff)
  ultimately show ?thesis
    using next_lease_id_fresh [OF assms]
    by (intro granted [of q, OF _ refl]) (simp_all add: grant_lease_def next_lease_id_def Let_def)
qed

lemma lease_wfD:
  assumes "lease_wf m" "(k, r) \<in> set (lm_leases m)"
  shows "lr_lease_id r = k" "unat k < unat (lm_next_lease_seq m)"
    "lr_acquired_tick r < lr_expires_at_tick r"
  using assms by (auto simp: lease_wf_def)

lemma held_iff: "lease_wf m \<Longrightarrow> r \<in> held m \<longleftrightarrow> map_of (lm_leases m) (lr_lease_id r) = Some r"
  by (force simp: held_def lease_wf_def bt_entry_iff [symmetric])

lemma held_bt_insert:
  "lease_wf m \<Longrightarrow>
   held (m\<lparr>lm_leases := bt_insert k r (lm_leases m)\<rparr>) = insert r {r' \<in> held m. lr_lease_id r' \<noteq> k}"
  by (force simp: held_def set_bt_insert lease_wf_def)

lemma lease_inv_weaken: "lease_inv (m, now) \<Longrightarrow> now \<le> t \<Longrightarrow> lease_inv (m, t)"
  by (auto simp: lease_inv_def intro: compatible_at_mono order.trans)

lemma lease_inv_filter:
  assumes "lease_inv (m, now)"
  shows "lease_inv (m\<lparr>lm_leases := filter P (lm_leases m)\<rparr>, now)"
proof -
  have "held (m\<lparr>lm_leases := filter P (lm_leases m)\<rparr>) \<subseteq> held m"
    by (auto simp: held_def)
  moreover have "lease_wf (m\<lparr>lm_leases := filter P (lm_leases m)\<rparr>)"
    using assms by (auto simp: lease_inv_def lease_wf_def bt_sorted_filter)
  ultimately show ?thesis using assms by (auto simp: lease_inv_def)
qed

text \<open>One record added or replaced: it is enough that it is compatible with the others.\<close>

lemma lease_inv_insert:
  assumes inv: "lease_inv (m, t)"
    and r: "lr_lease_id r = k" "lr_acquired_tick r < lr_expires_at_tick r" "lr_acquired_tick r \<le> t"
    and q: "unat k < unat q" "unat (lm_next_lease_seq m) \<le> unat q"
    and compat: "\<And>r'. r' \<in> held m \<Longrightarrow> lr_lease_id r' \<noteq> k \<Longrightarrow> compatible_at t r r'"
  shows "lease_inv (m\<lparr>lm_leases := bt_insert k r (lm_leases m), lm_next_lease_seq := q\<rparr>, t)"
proof -
  have w: "lease_wf m" using inv by (simp add: lease_inv_def)
  have "lease_wf (m\<lparr>lm_leases := bt_insert k r (lm_leases m), lm_next_lease_seq := q\<rparr>)"
    using w r q by (auto simp: lease_wf_def set_bt_insert bt_sorted_insert dest: less_le_trans)
  moreover have "compatible_at t r r" by (simp add: compatible_at_def)
  ultimately show ?thesis
    using inv r compat by (auto simp: lease_inv_def held_bt_insert [OF w] compatible_at_sym)
qed

lemma acquire_kind_inv:
  assumes inv: "lease_inv (m, now)" and "now \<le> t"
  shows "lease_inv (fst (acquire_kind m s kind t ttl), t)"
proof -
  have inv': "lease_inv (m, t)" using assms by (rule lease_inv_weaken)
  then have w: "lease_wf m" by (simp add: lease_inv_def)
  show ?thesis
  proof (cases "checked_expiry t ttl")
    case (Ok x)
    then have x: "t < x"
      by (auto simp: checked_expiry_def checked_add_greater split: if_splits)
    show ?thesis
    proof (cases "\<exists>r \<in> held m. live_at t r \<and> lr_holder_session r \<noteq> s \<and> kinds_exclude kind (lr_kind r)")
      case True
      then show ?thesis using Ok inv' by (simp add: acquire_kind_def)
    next
      case False
      then have eq: "acquire_kind m s kind t ttl = grant_lease m s kind t x"
        unfolding acquire_kind_def by (simp only: Ok result.case if_False)
      from w show ?thesis
      proof (cases rule: grant_lease_cases [of m s kind t x])
        case (granted q r)
        have "lease_inv (m\<lparr>lm_leases := bt_insert (lr_lease_id r) r (lm_leases m),
                lm_next_lease_seq := q\<rparr>, t)"
          using False granted(1,2) x by (intro lease_inv_insert [OF inv']) (auto simp: compatible_at_def)
        then show ?thesis by (simp add: eq granted(3))
      qed (simp add: eq inv')
    qed
  qed (simp add: acquire_kind_def inv')
qed

lemma renew_lease_inv:
  assumes inv: "lease_inv (m, now)" and "now \<le> t"
  shows "lease_inv (fst (renew_lease m i t ext), t)"
proof -
  have inv': "lease_inv (m, t)" using assms by (rule lease_inv_weaken)
  then have w: "lease_wf m" by (simp add: lease_inv_def)
  show ?thesis
  proof (cases "map_of (lm_leases m) i")
    case (Some r)
    then have mem: "(i, r) \<in> set (lm_leases m)" by (rule map_of_SomeD)
    then have held: "r \<in> held m" by (force simp: held_def)
    show ?thesis
    proof (cases "\<not> lr_expires_at_tick r \<le> t \<and> ext \<noteq> 0 \<and> checked_add (lr_expires_at_tick r) ext \<noteq> None")
      case True
      then obtain e where e: "checked_add (lr_expires_at_tick r) ext = Some e" by auto
      then have "lr_expires_at_tick r \<le> e" by (rule checked_add_le)
      then have later: "lr_acquired_tick r < e" using lease_wfD(3) [OF w mem] by simp
      let ?r = "r\<lparr>lr_expires_at_tick := e\<rparr>"
      have "lease_inv (m\<lparr>lm_leases := bt_insert i ?r (lm_leases m),
          lm_next_lease_seq := lm_next_lease_seq m\<rparr>, t)"
      proof (rule lease_inv_insert [OF inv'])
        fix r' assume "r' \<in> held m"
        then have "compatible_at t r r'" using inv' held by (auto simp: lease_inv_def)
        then show "compatible_at t ?r r'" using True by (auto simp: compatible_at_def live_at_def)
      qed (use later held inv' lease_wfD [OF w mem] in \<open>auto simp: lease_inv_def\<close>)
      then show ?thesis using Some True e by (simp add: renew_lease_def)
    qed (auto simp: renew_lease_def Some inv' split: option.splits)
  qed (simp add: renew_lease_def inv')
qed

lemma lease_step_inv:
  assumes inv: "lease_inv s" and step: "lease_step s s'"
  shows "lease_inv s'"
  using step inv
proof (cases rule: lease_step.cases)
  case (ls_release m now i s)
  then show ?thesis using inv
    by (auto simp: release_lease_def bt_remove_def lease_inv_filter split: option.splits)
next
  case (ls_release_session m now s)
  then show ?thesis using inv
    by (auto simp: release_session_leases_def bt_retain_def lease_inv_filter)
next
  case (ls_cleanup now t m)
  then have "lease_inv (m, t)" using inv lease_inv_weaken by blast
  then show ?thesis using ls_cleanup
    by (auto simp: cleanup_expired_leases_def Let_def bt_retain_def lease_inv_filter)
qed (auto simp: acquire_spatial_kind acquire_entity_kind intro: acquire_kind_inv renew_lease_inv)

interpretation lease: invariant_system lease_init lease_step lease_inv
proof
  show "lease_inv s" if "lease_init s" for s
    using that
    by (simp add: lease_init_def lease_inv_def lease_wf_def held_def lease_manager_new_def)
qed (rule lease_step_inv)

subsection \<open>What the manager promises\<close>

text \<open>
  The abstract view of a lease: the tiles or the entity it covers, and whether it excludes
  everybody else from them.
\<close>

fun footprint :: "lease_kind \<Rightarrow> (map_coord + entity_id) set" where
  "footprint (SpatialExclusive c) = Inl ` cuboid_tiles (normalized c)"
| "footprint (SpatialShared c) = Inl ` cuboid_tiles (normalized c)"
| "footprint (EntityExclusive e) = {Inr e}"
| "footprint (EntityShared e) = {Inr e}"

fun is_exclusive :: "lease_kind \<Rightarrow> bool" where
  "is_exclusive (SpatialExclusive c) = True"
| "is_exclusive (EntityExclusive e) = True"
| "is_exclusive _ = False"

lemma kinds_exclude_footprint:
  "kinds_exclude k k' \<longleftrightarrow> (is_exclusive k \<or> is_exclusive k') \<and> footprint k \<inter> footprint k' \<noteq> {}"
  by (cases k; cases k') (auto simp: cuboids_intersect_tiles)

lemma lease_reach_inv:
  "reach lease_init lease_step (m, now) \<Longrightarrow> now \<le> t \<Longrightarrow> lease_inv (m, t)"
  using lease.reach_inv lease_inv_weaken by blast

lemma lease_reach_disjoint:
  assumes "lease_inv (m, t)" "r \<in> held m" "r' \<in> held m" "live_at t r" "live_at t r'"
    and "lr_holder_session r \<noteq> lr_holder_session r'" "is_exclusive (lr_kind r)"
  shows "footprint (lr_kind r) \<inter> footprint (lr_kind r') = {}"
  using assms by (auto simp: lease_inv_def compatible_at_def kinds_exclude_footprint)

lemma grant_lease_seq:
  assumes "lease_wf m"
  shows "lm_next_lease_seq m \<le> lm_next_lease_seq (fst (grant_lease m h k t x))"
    and "grant_lease m h k t x = (m', Ok i) \<Longrightarrow>
      unat i = unat (lm_next_lease_seq m) \<and> unat (lm_next_lease_seq m') = Suc (unat i)"
  by (rule grant_lease_cases [OF assms, of h k t x]; auto simp: word_le_nat_alt)+

lemma acquire_kind_seq:
  assumes "lease_wf m"
  shows "lm_next_lease_seq m \<le> lm_next_lease_seq (fst (acquire_kind m h k t ttl))"
    and "acquire_kind m h k t ttl = (m', Ok i) \<Longrightarrow>
      unat i = unat (lm_next_lease_seq m) \<and> unat (lm_next_lease_seq m') = Suc (unat i)"
  using grant_lease_seq [OF assms, of h k t] unfolding acquire_kind_def
  by (auto split: result.splits if_splits)

lemma lease_next_seq_mono:
  assumes "lease_inv s" "lease_step s s'"
  shows "lm_next_lease_seq (fst s) \<le> lm_next_lease_seq (fst s')"
  using assms(2,1)
  by (cases rule: lease_step.cases)
    (auto simp: acquire_kind_seq lease_inv_def acquire_spatial_kind acquire_entity_kind
      renew_lease_def release_lease_def release_session_leases_def cleanup_expired_leases_def
      Let_def split: option.splits)

lemma lease_run_seq_mono:
  "lease_inv s \<Longrightarrow> lease_step\<^sup>*\<^sup>* s s' \<Longrightarrow> lm_next_lease_seq (fst s) \<le> lm_next_lease_seq (fst s')"
  by (rule lease.steps_monotone [where f = "\<lambda>s. lm_next_lease_seq (fst s)" and le = "(\<le>)"])
    (auto intro: lease_next_seq_mono)

text \<open>
  C1: In every reachable state of the lease manager, two leases of different sessions that are
  live at the current or a later tick, one of them exclusive, cover disjoint tiles and
  different entities (leases on regions given by unordered corners included).
\<close>

theorem lease_mutual_exclusion:
  assumes "reach lease_init lease_step (m, now)" "now \<le> t"
    and "r \<in> held m" "r' \<in> held m" "live_at t r" "live_at t r'"
    and "lr_holder_session r \<noteq> lr_holder_session r'" "is_exclusive (lr_kind r)"
  shows "footprint (lr_kind r) \<inter> footprint (lr_kind r') = {}"
  using lease_reach_disjoint [OF lease_reach_inv] assms by blast

text \<open>
  When the exclusive-area check of a lease succeeds, the presented lease is held by the
  presenting session, the tick lies in its half-open lifetime, its region contains every tile
  of the area, and no lease of another session that is live at that tick touches the area.
\<close>

theorem verify_exclusive_spatial_fences:
  assumes "reach lease_init lease_step (m, now)" "now \<le> t"
    and "verify_exclusive_spatial m i holder area t = Ok ()"
  shows "\<exists>r c. map_of (lm_leases m) i = Some r \<and> lr_holder_session r = holder \<and>
           lr_acquired_tick r \<le> t \<and> live_at t r \<and> lr_kind r = SpatialExclusive c \<and>
           cuboid_tiles area \<subseteq> cuboid_tiles c \<and>
           (\<forall>r' \<in> held m. live_at t r' \<longrightarrow> lr_holder_session r' \<noteq> holder \<longrightarrow>
              footprint (lr_kind r') \<inter> Inl ` cuboid_tiles area = {})"
proof -
  have inv: "lease_inv (m, t)" using assms(1,2) by (rule lease_reach_inv)
  from assms(3) obtain r c where r: "map_of (lm_leases m) i = Some r" "lr_holder_session r = holder"
      "lr_acquired_tick r \<le> t" "live_at t r" "lr_kind r = SpatialExclusive c"
    and c: "is_ok (map_cuboid_new (cmin c) (cmax c))" "contains_cuboid c area"
    by (auto simp: verify_exclusive_spatial_def live_at_def is_ok_iff not_less not_le
        split: if_splits lease_kind.splits)
  have sub: "cuboid_tiles area \<subseteq> cuboid_tiles c"
    using c(2) by (auto simp: contains_cuboid_def cuboid_tiles_def cuboid_contains_def)
  have "normalized c = c"
    using c(1) by (auto simp: normalized_def map_cuboid_new_def map_cuboid_from_corners_def is_ok_iff
        split: if_splits)
  then have fp: "footprint (lr_kind r) = Inl ` cuboid_tiles c" by (simp add: r(5))
  have mem: "r \<in> held m" using map_of_SomeD [OF r(1)] by (force simp: held_def)
  have "footprint (lr_kind r') \<inter> Inl ` cuboid_tiles area = {}"
    if "r' \<in> held m" "live_at t r'" "lr_holder_session r' \<noteq> holder" for r'
  proof -
    have "footprint (lr_kind r) \<inter> footprint (lr_kind r') = {}"
      using lease_reach_disjoint [OF inv mem that(1) r(4) that(2)] that(3) r(2,5) by auto
    with fp image_mono [OF sub, of Inl] show ?thesis by blast
  qed
  with r sub show ?thesis by blast
qed

text \<open>
  Lease identifiers are never reused: whatever happens between two successful
  acquisitions, releases and expiry included, the later identifier is the larger one.
\<close>

theorem lease_ids_never_reused:
  assumes "reach lease_init lease_step (m, now)" "now \<le> t"
    and "acquire_spatial_lease m s c x t ttl = (m', Ok i) \<or>
         acquire_entity_lease m s e x t ttl = (m', Ok i)"
    and "lease_step\<^sup>*\<^sup>* (m', t) (n, later)"
    and "acquire_spatial_lease n s2 c2 x2 t2 ttl2 = (n', Ok j) \<or>
         acquire_entity_lease n s2 e2 x2 t2 ttl2 = (n', Ok j)"
  shows "unat i < unat j"
proof -
  have inv: "lease_inv (m, now)" using assms(1) by (rule lease.reach_inv)
  have "lease_step (m, now) (m', t)"
    using assms(2,3) ls_spatial [of now t m s c x ttl] ls_entity [of now t m s e x ttl] by auto
  then have inv': "lease_inv (m', t)" using inv by (rule lease.step_inv [rotated])
  then have "lease_inv (n, later)" using assms(4) by (rule lease.steps_inv)
  then have "unat j = unat (lm_next_lease_seq n)"
    using assms(5) acquire_kind_seq(2)
    by (auto simp: lease_inv_def acquire_spatial_kind acquire_entity_kind)
  moreover have "unat (lm_next_lease_seq m') = Suc (unat i)"
    using assms(3) inv acquire_kind_seq(2)
    by (auto simp: lease_inv_def acquire_spatial_kind acquire_entity_kind)
  moreover have "lm_next_lease_seq m' \<le> lm_next_lease_seq n"
    using lease_run_seq_mono [OF inv' assms(4)] by simp
  ultimately show ?thesis by (simp add: word_le_nat_alt)
qed

text \<open>
  A spatial acquisition at a current tick succeeds exactly when the time to live is not
  zero, the expiry does not overflow, the identifier space is not exhausted, and no live
  lease of another session excludes the requested one.
\<close>

theorem acquire_spatial_succeeds_iff:
  assumes "reach lease_init lease_step (m, now)"
  shows "is_ok (snd (acquire_spatial_lease m s c x t ttl)) \<longleftrightarrow>
    ttl \<noteq> 0 \<and> unat t + unat ttl < 2 ^ 64 \<and> unat (lm_next_lease_seq m) \<noteq> 2 ^ 64 - 1 \<and>
    (\<forall>r \<in> held m. live_at t r \<longrightarrow> (x \<or> is_exclusive (lr_kind r)) \<longrightarrow>
       footprint (lr_kind r) \<inter> Inl ` cuboid_tiles (normalized c) \<noteq> {} \<longrightarrow>
       lr_holder_session r = s)"
proof -
  have w: "lease_wf m" using lease.reach_inv [OF assms] by (simp add: lease_inv_def)
  let ?k = "if x then SpatialExclusive c else SpatialShared c"
  have k: "kinds_exclude ?k (lr_kind r) \<longleftrightarrow> (x \<or> is_exclusive (lr_kind r)) \<and>
      footprint (lr_kind r) \<inter> Inl ` cuboid_tiles (normalized c) \<noteq> {}" for r
    by (auto simp: kinds_exclude_footprint)
  have g: "is_ok (snd (grant_lease m s ?k t e)) \<longleftrightarrow> unat (lm_next_lease_seq m) \<noteq> 2 ^ 64 - 1" for e
  proof (rule grant_lease_cases [OF w, of s ?k t e])
    fix q r assume "unat q = Suc (unat (lm_next_lease_seq m))"
      and "grant_lease m s ?k t e = (m\<lparr>lm_leases := bt_insert (lr_lease_id r) r (lm_leases m),
             lm_next_lease_seq := q\<rparr>, Ok (lr_lease_id r))"
    then show ?thesis using unat_less_u64 [of q] by simp
  qed (simp add: fail_def)
  show ?thesis
    unfolding acquire_spatial_kind acquire_kind_def k
    by (auto simp: checked_expiry_def checked_add_def g fail_def split: if_splits)
qed

subsection \<open>A concrete run\<close>

definition sample_box :: "int \<Rightarrow> int \<Rightarrow> map_cuboid" where
  "sample_box a b = \<lparr>cmin = \<lparr>mx = a, my = a, mz = 0\<rparr>, cmax = \<lparr>mx = b, my = b, mz = 0\<rparr>\<rparr>"

definition sample_manager1 :: lease_manager where
  "sample_manager1 = fst (acquire_spatial_lease lease_manager_new 1 (sample_box 0 4) True 0 10)"

definition sample_manager2 :: lease_manager where
  "sample_manager2 = fst (acquire_spatial_lease sample_manager1 2 (sample_box 5 9) False 3 10)"

lemma sample_manager1_eq:
  "sample_manager1 = \<lparr>lm_next_lease_seq = 2, lm_leases =
     [(1, \<lparr>lr_lease_id = 1, lr_holder_session = 1, lr_kind = SpatialExclusive (sample_box 0 4),
           lr_acquired_tick = 0, lr_expires_at_tick = 10\<rparr>)]\<rparr>"
  by (simp add: sample_manager1_def acquire_spatial_lease_def lease_manager_new_def checked_expiry_def
      checked_add_def grant_lease_def next_lease_id_def)

lemma sample_manager2_eq:
  "sample_manager2 = \<lparr>lm_next_lease_seq = 3, lm_leases =
     [(1, \<lparr>lr_lease_id = 1, lr_holder_session = 1, lr_kind = SpatialExclusive (sample_box 0 4),
           lr_acquired_tick = 0, lr_expires_at_tick = 10\<rparr>),
      (2, \<lparr>lr_lease_id = 2, lr_holder_session = 2, lr_kind = SpatialShared (sample_box 5 9),
           lr_acquired_tick = 3, lr_expires_at_tick = 13\<rparr>)]\<rparr>"
  by (simp add: sample_manager2_def sample_manager1_eq acquire_spatial_lease_def checked_expiry_def
      checked_add_def grant_lease_def next_lease_id_def spatial_conflict_def cuboids_intersect_def
      sample_box_def)

lemma sample_init: "reach lease_init lease_step (lease_manager_new, 0)"
  by (rule reach_init) (simp add: lease_init_def)

lemma sample_run1: "lease_step (lease_manager_new, 0) (sample_manager1, 0)"
  unfolding sample_manager1_def by (rule ls_spatial) simp

lemma sample_run2: "lease_step (sample_manager1, 0) (sample_manager2, 3)"
  unfolding sample_manager2_def by (rule ls_spatial) simp

lemma sample_reach: "reach lease_init lease_step (sample_manager2, 3)"
  using sample_init sample_run1 sample_run2 reach_step by metis

theorem lease_mutual_exclusion_witness:
  "footprint (SpatialExclusive (sample_box 0 4)) \<inter> footprint (SpatialShared (sample_box 5 9)) = {}"
  using lease_mutual_exclusion [OF sample_reach, of 4
      "snd (lm_leases sample_manager2 ! 0)" "snd (lm_leases sample_manager2 ! 1)"]
  by (simp add: sample_manager2_eq held_def live_at_def)

theorem verify_exclusive_spatial_fences_witness:
  "verify_exclusive_spatial sample_manager2 1 1 (sample_box 1 2) 9 = Ok () \<and>
   cuboid_tiles (sample_box 1 2) \<subseteq> cuboid_tiles (sample_box 0 4)"
proof -
  have ok: "verify_exclusive_spatial sample_manager2 1 1 (sample_box 1 2) 9 = Ok ()"
    by (simp add: verify_exclusive_spatial_def sample_manager2_eq map_cuboid_new_def sample_box_def
        contains_cuboid_def cuboid_contains_def)
  from verify_exclusive_spatial_fences [OF sample_reach _ ok] show ?thesis
    using ok by (auto simp: sample_manager2_eq)
qed

theorem lease_ids_never_reused_witness:
  "snd (acquire_spatial_lease lease_manager_new 1 (sample_box 0 4) True 0 10) = Ok 1 \<and>
   snd (acquire_entity_lease sample_manager2 7 40 True 5 5) = Ok 3 \<and>
   unat (1 :: lease_id) < unat (3 :: lease_id)"
proof -
  have a: "acquire_spatial_lease lease_manager_new 1 (sample_box 0 4) True 0 10 = (sample_manager1, Ok 1)"
    by (simp add: sample_manager1_def acquire_spatial_lease_def lease_manager_new_def
        checked_expiry_def checked_add_def grant_lease_def next_lease_id_def)
  have b: "snd (acquire_entity_lease sample_manager2 7 40 True 5 5) = Ok 3"
    by (simp add: sample_manager2_eq acquire_entity_lease_def entity_conflict_def
        checked_expiry_def checked_add_def grant_lease_def next_lease_id_def)
  have "unat (1 :: lease_id) < unat (3 :: lease_id)"
    using lease_ids_never_reused [OF sample_init order_refl, of 1 "sample_box 0 4" True 10
        sample_manager1 1 0 sample_manager2 3 7 "sample_box 0 0" True 5 5
        "fst (acquire_entity_lease sample_manager2 7 40 True 5 5)" 3 40] a b sample_run2
    by (metis prod.collapse r_into_rtranclp)
  with a b show ?thesis by simp
qed

theorem acquire_spatial_succeeds_iff_witness:
  "is_ok (snd (acquire_spatial_lease lease_manager_new 1 (sample_box 0 4) True 0 10))"
  using acquire_spatial_succeeds_iff [OF sample_init, of 1 "sample_box 0 4" True 0 10]
  by (simp add: lease_manager_new_def held_def)

end
