(* ===== verification/Clock_Governor.thy ===== *)
theory Clock_Governor
  imports Core_Model
begin

text \<open>
  \<^verbatim>\<open>crates/dfmcp-core/src/clock.rs\<close>: the governor that decides when several agent sessions let
  the simulation run. A \<^verbatim>\<open>BTreeSet\<close> is the ordered map to \<^verbatim>\<open>()\<close>, as in the standard library.
  The properties are about every state reachable by the governor's operations: the clock
  advances only with the consent the policy asks for, an emergency pause halts it, it never
  runs back, and no session spends more ticks than its budget.
\<close>

type_synonym 'a btree_set = "('a, unit) btree_map"

datatype clock_policy = UnanimousUnpause | MajorityUnpause

record clock_governor =
  cg_policy :: clock_policy
  cg_registered_sessions :: "session_id btree_set"
  cg_unpause_votes :: "session_id btree_set"
  cg_emergency_pauses :: "session_id btree_set"
  cg_session_tick_budgets :: "(session_id, u64) btree_map"
  cg_current_tick :: game_tick

definition clock_governor_new :: "clock_policy \<Rightarrow> clock_governor" where
  "clock_governor_new policy =
     \<lparr>cg_policy = policy, cg_registered_sessions = [], cg_unpause_votes = [],
      cg_emergency_pauses = [], cg_session_tick_budgets = [], cg_current_tick = 0\<rparr>"

definition register_session :: "clock_governor \<Rightarrow> session_id \<Rightarrow> u64 \<Rightarrow> clock_governor" where
  "register_session g session_id initial_budget =
     g\<lparr>cg_registered_sessions := bt_insert session_id () (cg_registered_sessions g),
       cg_session_tick_budgets :=
         bt_insert session_id initial_budget (cg_session_tick_budgets g)\<rparr>"

definition unregister_session :: "clock_governor \<Rightarrow> session_id \<Rightarrow> clock_governor" where
  "unregister_session g session_id =
     g\<lparr>cg_registered_sessions := bt_remove session_id (cg_registered_sessions g),
       cg_unpause_votes := bt_remove session_id (cg_unpause_votes g),
       cg_emergency_pauses := bt_remove session_id (cg_emergency_pauses g),
       cg_session_tick_budgets := bt_remove session_id (cg_session_tick_budgets g)\<rparr>"

definition request_emergency_pause ::
  "clock_governor \<Rightarrow> session_id \<Rightarrow> clock_governor \<times> unit res" where
  "request_emergency_pause g session_id =
     (if \<not> bt_contains session_id (cg_registered_sessions g) then (g, fail SessionNotFound)
      else (g\<lparr>cg_emergency_pauses := bt_insert session_id () (cg_emergency_pauses g)\<rparr>, Ok ()))"

definition release_emergency_pause :: "clock_governor \<Rightarrow> session_id \<Rightarrow> clock_governor" where
  "release_emergency_pause g session_id =
     g\<lparr>cg_emergency_pauses := bt_remove session_id (cg_emergency_pauses g)\<rparr>"

definition vote_unpause :: "clock_governor \<Rightarrow> session_id \<Rightarrow> clock_governor" where
  "vote_unpause g session_id =
     (if bt_contains session_id (cg_registered_sessions g)
      then g\<lparr>cg_unpause_votes := bt_insert session_id () (cg_unpause_votes g)\<rparr>
      else g)"

definition vote_pause :: "clock_governor \<Rightarrow> session_id \<Rightarrow> clock_governor" where
  "vote_pause g session_id = g\<lparr>cg_unpause_votes := bt_remove session_id (cg_unpause_votes g)\<rparr>"

definition is_unpaused :: "clock_governor \<Rightarrow> bool" where
  "is_unpaused g =
     (if cg_emergency_pauses g \<noteq> [] then False
      else if cg_registered_sessions g = [] then False
      else
        (case cg_policy g of
           UnanimousUnpause \<Rightarrow>
             length (cg_unpause_votes g) \<ge> length (cg_registered_sessions g)
         | MajorityUnpause \<Rightarrow>
             length (cg_unpause_votes g) > length (cg_registered_sessions g) div 2))"

definition consume_tick_budget ::
  "clock_governor \<Rightarrow> session_id \<Rightarrow> u64 \<Rightarrow> clock_governor \<times> unit res" where
  "consume_tick_budget g session_id ticks =
     (case map_of (cg_session_tick_budgets g) session_id of
        None \<Rightarrow> (g, fail SessionNotFound)
      | Some budget \<Rightarrow>
          if budget < ticks then (g, fail BudgetExceeded)
          else (g\<lparr>cg_session_tick_budgets :=
                    bt_insert session_id (saturating_sub budget ticks) (cg_session_tick_budgets g)\<rparr>,
                Ok ()))"

definition advance_ticks :: "clock_governor \<Rightarrow> u64 \<Rightarrow> clock_governor \<times> game_tick res" where
  "advance_ticks g ticks =
     (if \<not> is_unpaused g then (g, fail Conflict)
      else
        (case checked_add (cg_current_tick g) ticks of
           None \<Rightarrow> (g, fail BudgetExceeded)
         | Some t \<Rightarrow> (g\<lparr>cg_current_tick := t\<rparr>, Ok t)))"

subsection \<open>Runs of the governor\<close>

datatype clock_op =
    RegisterSession session_id u64
  | UnregisterSession session_id
  | RequestEmergencyPause session_id
  | ReleaseEmergencyPause session_id
  | VoteUnpause session_id
  | VotePause session_id
  | ConsumeTickBudget session_id u64
  | AdvanceTicks u64

fun clock_exec :: "clock_op \<Rightarrow> clock_governor \<Rightarrow> clock_governor" where
  "clock_exec (RegisterSession s b) g = register_session g s b"
| "clock_exec (UnregisterSession s) g = unregister_session g s"
| "clock_exec (RequestEmergencyPause s) g = fst (request_emergency_pause g s)"
| "clock_exec (ReleaseEmergencyPause s) g = release_emergency_pause g s"
| "clock_exec (VoteUnpause s) g = vote_unpause g s"
| "clock_exec (VotePause s) g = vote_pause g s"
| "clock_exec (ConsumeTickBudget s n) g = fst (consume_tick_budget g s n)"
| "clock_exec (AdvanceTicks n) g = fst (advance_ticks g n)"

inductive clock_step :: "clock_governor \<Rightarrow> clock_governor \<Rightarrow> bool" where
  clock_step_exec: "clock_step g (clock_exec op g)"

inductive_cases clock_stepE: "clock_step g h"

definition clock_init :: "clock_governor \<Rightarrow> bool" where
  "clock_init g \<longleftrightarrow> (\<exists>p. g = clock_governor_new p)"

text \<open>The abstract view: the sets of sessions the governor holds.\<close>

definition registered :: "clock_governor \<Rightarrow> session_id set" where
  "registered g = fst ` set (cg_registered_sessions g)"

definition voting :: "clock_governor \<Rightarrow> session_id set" where
  "voting g = fst ` set (cg_unpause_votes g)"

definition halting :: "clock_governor \<Rightarrow> session_id set" where
  "halting g = fst ` set (cg_emergency_pauses g)"

definition clock_inv :: "clock_governor \<Rightarrow> bool" where
  "clock_inv g \<longleftrightarrow>
     bt_sorted (cg_registered_sessions g) \<and> bt_sorted (cg_unpause_votes g) \<and>
     bt_sorted (cg_emergency_pauses g) \<and> bt_sorted (cg_session_tick_budgets g) \<and>
     voting g \<subseteq> registered g \<and> halting g \<subseteq> registered g \<and>
     fst ` set (cg_session_tick_budgets g) = registered g"

lemma fst_set_bt_remove: "fst ` set (bt_remove k m) = fst ` set m - {k}"
  by (auto simp: bt_remove_def)

lemma length_bt_keys: "bt_sorted m \<Longrightarrow> length m = card (fst ` set m)"
  using distinct_card [of "map fst m"] by (simp add: bt_sorted_distinct)

lemma clock_exec_inv: "clock_inv g \<Longrightarrow> clock_inv (clock_exec op g)"
proof -
  assume inv: "clock_inv g"
  have contains: "bt_contains s m \<longleftrightarrow> s \<in> fst ` set m" for s and m :: "session_id btree_set"
    by (simp add: bt_contains_def)
  note defs = clock_inv_def registered_def voting_def halting_def fst_set_bt_insert
    fst_set_bt_remove bt_sorted_insert bt_sorted_remove contains
  show ?thesis
  proof (cases op)
    case (ConsumeTickBudget s n)
    show ?thesis
    proof (cases "map_of (cg_session_tick_budgets g) s")
      case (Some b)
      then have "s \<in> fst ` set (cg_session_tick_budgets g)" by (force dest: map_of_SomeD)
      then show ?thesis
        using inv ConsumeTickBudget Some by (auto simp: consume_tick_budget_def defs)
    qed (use inv ConsumeTickBudget in \<open>simp add: consume_tick_budget_def\<close>)
  qed (use inv in \<open>auto simp: register_session_def unregister_session_def
      request_emergency_pause_def release_emergency_pause_def vote_unpause_def vote_pause_def
      advance_ticks_def defs split: option.splits\<close>)
qed

lemma clock_init_inv: "clock_init g \<Longrightarrow> clock_inv g"
  by (auto simp: clock_init_def clock_inv_def clock_governor_new_def registered_def voting_def
      halting_def)

interpretation clock: invariant_system clock_init clock_step clock_inv
  by unfold_locales (auto intro: clock_init_inv clock_exec_inv elim: clock_stepE)

lemma clock_tick_mono: "clock_step g h \<Longrightarrow> cg_current_tick g \<le> cg_current_tick h"
proof (erule clock_stepE)
  show "cg_current_tick g \<le> cg_current_tick h" if "h = clock_exec op g" for op
    using that
    by (cases op)
      (auto simp: register_session_def unregister_session_def request_emergency_pause_def
        release_emergency_pause_def vote_unpause_def vote_pause_def consume_tick_budget_def
        advance_ticks_def checked_add_le split: option.splits)
qed

subsection \<open>What the governor promises\<close>

text \<open>The quorum a policy asks for, over the sets of sessions.\<close>

fun quorum :: "clock_policy \<Rightarrow> session_id set \<Rightarrow> session_id set \<Rightarrow> bool" where
  "quorum UnanimousUnpause members votes = (votes = members)"
| "quorum MajorityUnpause members votes = (card members < 2 * card votes)"

lemma is_unpaused_iff:
  assumes "clock_inv g"
  shows "is_unpaused g \<longleftrightarrow>
    halting g = {} \<and> registered g \<noteq> {} \<and> quorum (cg_policy g) (registered g) (voting g)"
proof -
  have len: "length (cg_unpause_votes g) = card (voting g)"
    "length (cg_registered_sessions g) = card (registered g)"
    using assms by (simp_all add: clock_inv_def voting_def registered_def length_bt_keys)
  have fin: "finite (registered g)" by (simp add: registered_def)
  have sub: "voting g \<subseteq> registered g" using assms by (simp add: clock_inv_def)
  have "card (registered g) \<le> card (voting g) \<longleftrightarrow> voting g = registered g"
    using card_seteq [OF fin sub] by auto
  then show ?thesis
    by (cases "cg_policy g") (auto simp: is_unpaused_def len halting_def registered_def [symmetric],
        auto simp: registered_def)
qed

text \<open>
  C15: In every reachable state a request to advance moves the stored tick to the sum, changes
  nothing else and returns the new tick exactly when no session holds an emergency pause, somebody
  is registered, the registered sessions' votes form the quorum of the policy (all of them, or more
  than half), and the tick does not overflow; a refused request leaves the governor as it was.
\<close>

theorem clock_advances_only_with_consent:
  assumes "reach clock_init clock_step g"
  shows "(advance_ticks g n = (h, Ok t) \<longleftrightarrow>
      halting g = {} \<and> registered g \<noteq> {} \<and> voting g \<subseteq> registered g \<and>
      quorum (cg_policy g) (registered g) (voting g) \<and>
      unat t = unat (cg_current_tick g) + unat n \<and> h = g\<lparr>cg_current_tick := t\<rparr>) \<and>
    (advance_ticks g n = (h, Err e) \<longrightarrow> h = g)"
proof -
  have inv: "clock_inv g" using assms by (rule clock.reach_inv)
  then have "voting g \<subseteq> registered g" by (simp add: clock_inv_def)
  with is_unpaused_iff [OF inv] show ?thesis
    by (auto simp: advance_ticks_def checked_add_Some_iff [symmetric] split: option.splits)
qed

lemma halting_exec:
  assumes "s \<in> halting g" "op \<noteq> ReleaseEmergencyPause s" "op \<noteq> UnregisterSession s"
  shows "s \<in> halting (clock_exec op g)"
  using assms
  by (cases op)
    (auto simp: halting_def register_session_def unregister_session_def
      request_emergency_pause_def release_emergency_pause_def vote_unpause_def vote_pause_def
      consume_tick_budget_def advance_ticks_def fst_set_bt_insert fst_set_bt_remove
      split: option.splits)

lemma halting_run:
  "s \<in> halting g \<Longrightarrow> ReleaseEmergencyPause s \<notin> set ops \<Longrightarrow> UnregisterSession s \<notin> set ops \<Longrightarrow>
   s \<in> halting (fold clock_exec ops g)"
proof (induction ops arbitrary: g)
  case (Cons op ops)
  have "s \<in> halting (clock_exec op g)"
    using Cons.prems by (intro halting_exec) auto
  with Cons show ?case by simp
qed simp

text \<open>
  A registered session can always halt the clock: after its emergency pause, whatever
  operations follow, every advance is refused and changes nothing as long as that session
  neither releases the pause nor unregisters.
\<close>

theorem emergency_pause_halts:
  assumes "s \<in> registered g"
    and "ReleaseEmergencyPause s \<notin> set ops" "UnregisterSession s \<notin> set ops"
  shows "advance_ticks (fold clock_exec ops (fst (request_emergency_pause g s))) n =
    (fold clock_exec ops (fst (request_emergency_pause g s)), fail Conflict)"
proof -
  have "s \<in> halting (fst (request_emergency_pause g s))"
    using assms(1) by (simp add: request_emergency_pause_def halting_def registered_def
        bt_contains_def fst_set_bt_insert)
  then have "s \<in> halting (fold clock_exec ops (fst (request_emergency_pause g s)))"
    using assms(2,3) by (rule halting_run)
  then have "cg_emergency_pauses (fold clock_exec ops (fst (request_emergency_pause g s))) \<noteq> []"
    by (auto simp: halting_def)
  then show ?thesis by (simp add: advance_ticks_def is_unpaused_def)
qed

text \<open>The ticks a session is granted along a run.\<close>

fun ticks_granted :: "session_id \<Rightarrow> clock_op list \<Rightarrow> clock_governor \<Rightarrow> nat" where
  "ticks_granted s [] g = 0"
| "ticks_granted s (op # ops) g =
     (case op of
        ConsumeTickBudget s' n \<Rightarrow>
          (if s' = s \<and> is_ok (snd (consume_tick_budget g s' n)) then unat n else 0)
      | _ \<Rightarrow> 0) + ticks_granted s ops (clock_exec op g)"

lemma budget_exec:
  assumes "map_of (cg_session_tick_budgets g) s = Some b"
    and "\<forall>b'. op \<noteq> RegisterSession s b'" "op \<noteq> UnregisterSession s"
  shows "\<exists>b'. map_of (cg_session_tick_budgets (clock_exec op g)) s = Some b' \<and>
    unat b = unat b' + ticks_granted s [op] g"
  using assms
  by (cases op)
    (auto simp: register_session_def unregister_session_def request_emergency_pause_def
      release_emergency_pause_def vote_unpause_def vote_pause_def consume_tick_budget_def
      advance_ticks_def map_of_bt_insert map_of_bt_remove saturating_sub_def unat_sub
      word_le_nat_alt fail_def word_less_nat_alt split: option.splits)

lemma budget_run:
  "map_of (cg_session_tick_budgets g) s = Some b \<Longrightarrow>
   \<forall>b'. RegisterSession s b' \<notin> set ops \<Longrightarrow> UnregisterSession s \<notin> set ops \<Longrightarrow>
   \<exists>b'. map_of (cg_session_tick_budgets (fold clock_exec ops g)) s = Some b' \<and>
     unat b = unat b' + ticks_granted s ops g"
proof (induction ops arbitrary: g b)
  case (Cons op ops)
  obtain b1 where b1: "map_of (cg_session_tick_budgets (clock_exec op g)) s = Some b1"
      "unat b = unat b1 + ticks_granted s [op] g"
    using budget_exec [OF Cons.prems(1), of op] Cons.prems(2,3) by auto
  then show ?case using Cons.IH [OF b1(1)] Cons.prems(2,3) by auto
qed simp

text \<open>
  A session never spends more ticks than it registered with: along any run after its
  registration, as long as it does not register anew or unregister, the ticks it was granted
  and the budget it has left add up to the initial budget.
\<close>

theorem tick_budget_never_overspent:
  assumes "\<forall>b'. RegisterSession s b' \<notin> set ops" "UnregisterSession s \<notin> set ops"
  shows "\<exists>left. map_of (cg_session_tick_budgets (fold clock_exec ops (register_session g s budget))) s
      = Some left \<and>
    ticks_granted s ops (register_session g s budget) + unat left = unat budget"
proof -
  have "map_of (cg_session_tick_budgets (register_session g s budget)) s = Some budget"
    by (simp add: register_session_def map_of_bt_insert)
  from budget_run [OF this assms] show ?thesis by (metis add.commute)
qed

text \<open>The governor's tick never goes back, whatever the sessions do.\<close>

theorem clock_never_runs_back:
  assumes "clock_step\<^sup>*\<^sup>* g h"
  shows "cg_current_tick g \<le> cg_current_tick h"
  using assms by (induction rule: rtranclp_induct) (auto intro: clock_tick_mono order.trans)

subsection \<open>A concrete run\<close>

definition sample_clock :: clock_governor where
  "sample_clock = fold clock_exec [RegisterSession 1 100, RegisterSession 2 50, VoteUnpause 1, VoteUnpause 2]
     (clock_governor_new UnanimousUnpause)"

lemma sample_clock_eq:
  "sample_clock = \<lparr>cg_policy = UnanimousUnpause, cg_registered_sessions = [(1, ()), (2, ())],
     cg_unpause_votes = [(1, ()), (2, ())], cg_emergency_pauses = [],
     cg_session_tick_budgets = [(1, 100), (2, 50)], cg_current_tick = 0\<rparr>"
  by (simp add: sample_clock_def clock_governor_new_def register_session_def vote_unpause_def
      bt_contains_def)

lemma clock_run_reach: "reach clock_init clock_step g \<Longrightarrow> reach clock_init clock_step (fold clock_exec ops g)"
  by (induction ops arbitrary: g) (auto intro: reach_step clock_step_exec)

theorem clock_advances_only_with_consent_witness:
  "advance_ticks sample_clock 10 = (sample_clock\<lparr>cg_current_tick := 10\<rparr>, Ok 10)"
proof -
  have "reach clock_init clock_step sample_clock"
    unfolding sample_clock_def
    by (intro clock_run_reach reach_init) (auto simp: clock_init_def)
  from clock_advances_only_with_consent [OF this, of 10 "sample_clock\<lparr>cg_current_tick := 10\<rparr>" 10] show ?thesis
    by (simp add: sample_clock_eq halting_def registered_def voting_def)
qed

theorem emergency_pause_halts_witness:
  "snd (advance_ticks (fold clock_exec [VoteUnpause 2] (fst (request_emergency_pause sample_clock 1))) 10)
     = fail Conflict"
  using emergency_pause_halts [of 1 sample_clock "[VoteUnpause 2]" 10]
  by (simp add: sample_clock_eq registered_def)

theorem tick_budget_never_overspent_witness:
  "ticks_granted 3 [ConsumeTickBudget 3 30, ConsumeTickBudget 3 30] (register_session sample_clock 3 40) = 30 \<and>
   (\<exists>left :: u64. 30 + unat left = unat (40 :: u64))"
proof -
  let ?ops = "[ConsumeTickBudget 3 30, ConsumeTickBudget 3 30]"
  have "ticks_granted 3 ?ops (register_session sample_clock 3 40) = 30"
    by (simp add: sample_clock_eq register_session_def consume_tick_budget_def saturating_sub_def
        fail_def)
  moreover have "\<forall>b'. RegisterSession 3 b' \<notin> set ?ops" "UnregisterSession 3 \<notin> set ?ops"
    by simp_all
  from tick_budget_never_overspent [OF this, of sample_clock 40]
  have "\<exists>left :: u64. ticks_granted 3 ?ops (register_session sample_clock 3 40) + unat left
      = unat (40 :: u64)" by blast
  ultimately show ?thesis by metis
qed

theorem clock_never_runs_back_witness:
  "cg_current_tick sample_clock \<le> cg_current_tick (clock_exec (AdvanceTicks 10) sample_clock)"
  by (rule clock_never_runs_back) (rule r_into_rtranclp, rule clock_step_exec)

end
