(* ===== verification/Roles.thy ===== *)
theory Roles
  imports Core_Model
begin

text \<open>
  \<^verbatim>\<open>crates/dfmcp-core/src/roles.rs\<close>: roles, delegation records and their registry. The
  properties: a delegation only narrows what the issuer's role allows, a validated record is
  one the manager issued, bound to its grants, and unexpired, and record identifiers are never
  reused. The registry's authenticity does not rest on the digest.
\<close>

datatype swarm_role =
    ExpeditionLeader | MiningOverseer | ProductionManager | MilitiaCommander
  | ChiefMedicalDwarf | TimeKeeper | CustomRole string

definition role_grant :: "capability \<Rightarrow> risk_tier \<Rightarrow> capability_grant" where
  "role_grant cap risk =
     \<lparr>grant_capability = cap, grant_scope = scope_default, grant_max_risk = risk,
      grant_expires_at_tick = None, grant_remaining_uses = None\<rparr>"

primrec role_extra_grants :: "swarm_role \<Rightarrow> capability_grant list" where
  "role_extra_grants ExpeditionLeader =
     [role_grant CapControlClock Reversible, role_grant CapDesignate Guarded,
      role_grant CapConstruct Guarded, role_grant CapConfigureLabor Reversible,
      role_grant CapConfigureProduction Reversible, role_grant CapConfigureMilitary Guarded]"
| "role_extra_grants MiningOverseer = [role_grant CapDesignate Guarded]"
| "role_extra_grants ProductionManager =
     [role_grant CapConfigureProduction Reversible, role_grant CapConfigureLogistics Reversible]"
| "role_extra_grants MilitiaCommander = [role_grant CapConfigureMilitary Guarded]"
| "role_extra_grants ChiefMedicalDwarf = [role_grant CapConfigureLabor Reversible]"
| "role_extra_grants TimeKeeper = [role_grant CapControlClock Reversible]"
| "role_extra_grants (CustomRole name) = []"

definition default_grants :: "swarm_role \<Rightarrow> capability_grant list" where
  "default_grants role =
     [role_grant CapObserve Reversible, role_grant CapQuery Reversible] @ role_extra_grants role"

record delegation_token =
  dt_token_id :: u64
  dt_issuer_session :: session_id
  dt_delegatee_session :: session_id
  dt_grants :: "capability_grant list"
  dt_expires_at_tick :: "game_tick option"
  dt_delegation_digest :: digest32

definition put_len_prefixed :: "u8 list \<Rightarrow> u8 list" where
  "put_len_prefixed value = be_bytes 8 (length value) @ value"

definition put_optional_u64 :: "u64 option \<Rightarrow> u8 list" where
  "put_optional_u64 value = (case value of Some v \<Rightarrow> 1 # be_bytes 8 (unat v) | None \<Rightarrow> [0])"

text \<open>\<^verbatim>\<open>i32::to_be_bytes\<close>: two's complement in four bytes.\<close>

definition i32_be_bytes :: "int \<Rightarrow> u8 list" where
  "i32_be_bytes x = be_bytes 4 (nat (x mod 2 ^ 32))"

definition coord_be_bytes :: "map_coord \<Rightarrow> u8 list" where
  "coord_be_bytes c = i32_be_bytes (mx c) @ i32_be_bytes (my c) @ i32_be_bytes (mz c)"

definition put_grant :: "capability_grant \<Rightarrow> u8 list" where
  "put_grant g =
     put_len_prefixed (str_bytes (capability_str (grant_capability g))) @
     put_len_prefixed (str_bytes (risk_tier_str (grant_max_risk g))) @
     put_optional_u64 (scope_fortress_id (grant_scope g)) @
     be_bytes 8 (length (scope_entity_ids (grant_scope g))) @
     concat (map (\<lambda>i. be_bytes 8 (unat i)) (scope_entity_ids (grant_scope g))) @
     (case scope_map_area (grant_scope g) of
        Some area \<Rightarrow> 1 # coord_be_bytes (cmin area) @ coord_be_bytes (cmax area)
      | None \<Rightarrow> [0]) @
     put_optional_u64 (grant_expires_at_tick g) @
     (case grant_remaining_uses g of Some uses \<Rightarrow> 1 # be_bytes 4 (unat uses) | None \<Rightarrow> [0])"

definition compute_delegation_digest ::
  "u64 \<Rightarrow> session_id \<Rightarrow> session_id \<Rightarrow> capability_grant list \<Rightarrow> game_tick option \<Rightarrow> digest32" where
  "compute_delegation_digest token_id issuer delegatee grants expires =
     digest_of_bytes
       (be_bytes 8 (unat token_id) @ be_bytes 16 (unat issuer) @ be_bytes 16 (unat delegatee) @
        be_bytes 8 (length grants) @ concat (map put_grant grants) @ put_optional_u64 expires)"

record role_manager =
  rm_next_token_seq :: u64
  rm_session_roles :: "(session_id, swarm_role) btree_map"
  rm_delegations :: "(u64, delegation_token) btree_map"

definition role_manager_new :: role_manager where
  "role_manager_new = \<lparr>rm_next_token_seq = 1, rm_session_roles = [], rm_delegations = []\<rparr>"

definition assign_role ::
  "role_manager \<Rightarrow> session_id \<Rightarrow> swarm_role \<Rightarrow> role_manager \<times> capability_grant list" where
  "assign_role m session_id role =
     (m\<lparr>rm_session_roles := bt_insert session_id role (rm_session_roles m)\<rparr>, default_grants role)"

definition scope_covers :: "capability_scope \<Rightarrow> capability_scope \<Rightarrow> bool" where
  "scope_covers owned requested \<longleftrightarrow>
     (case (scope_fortress_id owned, scope_fortress_id requested) of
        (None, _) \<Rightarrow> True
      | (Some _, None) \<Rightarrow> False
      | (Some a, Some b) \<Rightarrow> a = b) \<and>
     (scope_entity_ids owned = [] \<or>
      (scope_entity_ids requested \<noteq> [] \<and>
       (\<forall>i \<in> set (scope_entity_ids requested). i \<in> set (scope_entity_ids owned)))) \<and>
     (case (scope_map_area owned, scope_map_area requested) of
        (None, _) \<Rightarrow> True
      | (Some _, None) \<Rightarrow> False
      | (Some a, Some b) \<Rightarrow> contains_cuboid a b)"

definition grant_covers :: "capability_grant \<Rightarrow> capability_grant \<Rightarrow> bool" where
  "grant_covers owned requested \<longleftrightarrow>
     (grant_capability owned = CapAdmin \<or> grant_capability owned = grant_capability requested) \<and>
     grant_max_risk requested \<le> grant_max_risk owned \<and>
     (case (grant_expires_at_tick owned, grant_expires_at_tick requested) of
        (None, _) \<Rightarrow> True
      | (Some _, None) \<Rightarrow> False
      | (Some a, Some b) \<Rightarrow> b \<le> a) \<and>
     (case (grant_remaining_uses owned, grant_remaining_uses requested) of
        (None, _) \<Rightarrow> True
      | (Some _, None) \<Rightarrow> False
      | (Some a, Some b) \<Rightarrow> b \<le> a) \<and>
     scope_covers (grant_scope owned) (grant_scope requested)"

text \<open>The checks of one requested grant, in the order of the loop body.\<close>

fun check_delegated ::
  "capability_grant list \<Rightarrow> game_tick option \<Rightarrow> capability_grant list \<Rightarrow> unit res" where
  "check_delegated owned expires [] = Ok ()"
| "check_delegated owned expires (requested # rest) =
     (if \<not> (\<exists>o1 \<in> set owned. grant_covers o1 requested) then fail CapabilityDenied
      else if (case (expires, grant_expires_at_tick requested) of
                 (Some outer, Some inner) \<Rightarrow> inner > outer | _ \<Rightarrow> False)
      then fail InvalidRequest
      else check_delegated owned expires rest)"

definition issue_delegation ::
  "role_manager \<Rightarrow> session_id \<Rightarrow> session_id \<Rightarrow> capability_grant list \<Rightarrow> game_tick option
     \<Rightarrow> role_manager \<times> delegation_token res" where
  "issue_delegation m issuer delegatee grants expires =
     (if grants = [] then (m, fail InvalidRequest)
      else
        (case map_of (rm_session_roles m) issuer of
           None \<Rightarrow> (m, fail CapabilityDenied)
         | Some issuer_role \<Rightarrow>
             (case check_delegated (default_grants issuer_role) expires grants of
                Err e \<Rightarrow> (m, Err e)
              | Ok _ \<Rightarrow>
                  (case checked_add (rm_next_token_seq m) 1 of
                     None \<Rightarrow> (m, fail InternalInvariantViolation)
                   | Some next_token_seq \<Rightarrow>
                       (let token_id = rm_next_token_seq m;
                            token = \<lparr>dt_token_id = token_id, dt_issuer_session = issuer,
                              dt_delegatee_session = delegatee, dt_grants = grants,
                              dt_expires_at_tick = expires,
                              dt_delegation_digest =
                                compute_delegation_digest token_id issuer delegatee grants expires\<rparr>;
                            m' = m\<lparr>rm_delegations := bt_insert token_id token (rm_delegations m)\<rparr>
                        in if map_of (rm_delegations m) token_id \<noteq> None
                           then (m', fail InternalInvariantViolation)
                           else (m'\<lparr>rm_next_token_seq := next_token_seq\<rparr>, Ok token))))))"

definition validate_token :: "role_manager \<Rightarrow> delegation_token \<Rightarrow> game_tick \<Rightarrow> unit res" where
  "validate_token m token current_tick =
     and_then (ok_or (map_of (rm_delegations m) (dt_token_id token)) (dfmcp_error CapabilityDenied))
       (\<lambda>stored.
         if stored \<noteq> token then fail CapabilityDenied
         else if dt_delegation_digest token \<noteq>
           compute_delegation_digest (dt_token_id token) (dt_issuer_session token)
             (dt_delegatee_session token) (dt_grants token) (dt_expires_at_tick token)
         then fail CapabilityDenied
         else if (case dt_expires_at_tick token of Some e \<Rightarrow> current_tick > e | None \<Rightarrow> False)
         then fail StaleAnchor
         else if (\<exists>g \<in> set (dt_grants token).
           case grant_expires_at_tick g of Some e \<Rightarrow> current_tick > e | None \<Rightarrow> False)
         then fail StaleAnchor
         else Ok ())"

subsection \<open>Narrowing\<close>

lemma scope_covers_permits:
  "scope_covers owned requested \<Longrightarrow> scope_permits requested fid ids area \<Longrightarrow>
   scope_permits owned fid ids area"
  by (auto simp: scope_covers_def scope_permits_def
      split: option.splits if_splits intro: contains_cuboid_trans)

lemma scope_covers_trans: "scope_covers a b \<Longrightarrow> scope_covers b c \<Longrightarrow> scope_covers a c"
  by (auto simp: scope_covers_def split: option.splits intro: contains_cuboid_trans)

lemma grant_covers_allows:
  assumes "grant_covers owned requested" "grant_allows requested cap risk tick fid ids area"
  shows "grant_allows owned cap risk tick fid ids area"
  using assms scope_covers_permits
  by (auto simp: grant_covers_def grant_allows_def split: option.splits
      dest: order.trans less_le_trans)

lemma check_delegated_Ok:
  "check_delegated owned expires gs = Ok u \<longleftrightarrow>
   (\<forall>g \<in> set gs. (\<exists>o1 \<in> set owned. grant_covers o1 g) \<and>
      (\<forall>outer inner. expires = Some outer \<longrightarrow> grant_expires_at_tick g = Some inner \<longrightarrow> inner \<le> outer))"
  by (induction gs) (auto split: option.splits)

subsection \<open>Runs of the manager\<close>

inductive role_step :: "role_manager \<Rightarrow> role_manager \<Rightarrow> bool" where
  rs_assign: "role_step m (fst (assign_role m s role))"
| rs_issue: "role_step m (fst (issue_delegation m issuer delegatee grants expires))"

definition role_init :: "role_manager \<Rightarrow> bool" where
  "role_init m \<longleftrightarrow> m = role_manager_new"

text \<open>A record as the manager would have issued it under some role.\<close>

definition well_issued :: "u64 \<Rightarrow> delegation_token \<Rightarrow> bool" where
  "well_issued k t \<longleftrightarrow>
     dt_token_id t = k \<and> dt_grants t \<noteq> [] \<and>
     dt_delegation_digest t =
       compute_delegation_digest k (dt_issuer_session t) (dt_delegatee_session t) (dt_grants t)
         (dt_expires_at_tick t) \<and>
     (\<exists>role. check_delegated (default_grants role) (dt_expires_at_tick t) (dt_grants t) = Ok ())"

definition role_inv :: "role_manager \<Rightarrow> bool" where
  "role_inv m \<longleftrightarrow>
     bt_sorted (rm_session_roles m) \<and> bt_sorted (rm_delegations m) \<and>
     (\<forall>(k, t) \<in> set (rm_delegations m). k < rm_next_token_seq m \<and> well_issued k t)"

lemma role_inv_fresh: "role_inv m \<Longrightarrow> map_of (rm_delegations m) (rm_next_token_seq m) = None"
  by (rule ccontr) (auto simp: role_inv_def dest: map_of_SomeD)

lemma issue_delegation_Ok_iff:
  assumes "role_inv m"
  shows "issue_delegation m issuer delegatee grants expires = (m', Ok t) \<longleftrightarrow>
    grants \<noteq> [] \<and>
    (\<exists>role q. map_of (rm_session_roles m) issuer = Some role \<and>
       check_delegated (default_grants role) expires grants = Ok () \<and>
       checked_add (rm_next_token_seq m) 1 = Some q \<and>
       t = \<lparr>dt_token_id = rm_next_token_seq m, dt_issuer_session = issuer,
            dt_delegatee_session = delegatee, dt_grants = grants, dt_expires_at_tick = expires,
            dt_delegation_digest =
              compute_delegation_digest (rm_next_token_seq m) issuer delegatee grants expires\<rparr> \<and>
       m' = m\<lparr>rm_delegations := bt_insert (rm_next_token_seq m) t (rm_delegations m),
              rm_next_token_seq := q\<rparr>)"
  using role_inv_fresh [OF assms]
  by (auto simp: issue_delegation_def Let_def split: option.splits result.splits if_splits)

lemma issue_delegation_Err:
  "role_inv m \<Longrightarrow> issue_delegation m issuer delegatee grants expires = (m', Err e) \<Longrightarrow> m' = m"
  using role_inv_fresh [of m]
  by (auto simp: issue_delegation_def Let_def split: option.splits result.splits if_splits)

lemma issue_delegation_inv:
  assumes "role_inv m"
  shows "role_inv (fst (issue_delegation m issuer delegatee grants expires))"
proof (cases "issue_delegation m issuer delegatee grants expires")
  case (Pair m' r)
  show ?thesis
  proof (cases r)
    case (Err e)
    then have "m' = m" using issue_delegation_Err [OF assms] Pair by blast
    then show ?thesis using Pair assms by simp
  next
    case (Ok t)
    with Pair obtain role q where
      c: "grants \<noteq> []" "check_delegated (default_grants role) expires grants = Ok ()"
      and q: "checked_add (rm_next_token_seq m) 1 = Some q"
      and t: "t = \<lparr>dt_token_id = rm_next_token_seq m, dt_issuer_session = issuer,
            dt_delegatee_session = delegatee, dt_grants = grants, dt_expires_at_tick = expires,
            dt_delegation_digest =
              compute_delegation_digest (rm_next_token_seq m) issuer delegatee grants expires\<rparr>"
      and m': "m' = m\<lparr>rm_delegations := bt_insert (rm_next_token_seq m) t (rm_delegations m),
              rm_next_token_seq := q\<rparr>"
      by (auto simp: issue_delegation_Ok_iff [OF assms])
    have lt: "rm_next_token_seq m < q" using checked_add_greater [OF q] by simp
    have "well_issued (rm_next_token_seq m) t"
      using c by (auto simp: well_issued_def t)
    then show ?thesis
      using assms lt
      by (auto simp: Pair m' role_inv_def set_bt_insert bt_sorted_insert dest: less_trans)
  qed
qed

interpretation roles: invariant_system role_init role_step role_inv
proof
  show "role_inv s" if "role_init s" for s
    using that by (simp add: role_init_def role_manager_new_def role_inv_def)
  show "role_inv t" if "role_inv s" "role_step s t" for s t
    using that(2,1)
  proof cases
    case rs_assign
    then show ?thesis using that(1) by (simp add: assign_role_def role_inv_def bt_sorted_insert)
  qed (simp add: issue_delegation_inv)
qed

text \<open>
  C10: Delegation never amplifies authority: every request that a grant of an issued record
  allows is allowed, at the same tick and for the same targets, by a grant of the role the
  issuer holds when it issues the record.
\<close>

theorem delegation_never_amplifies:
  assumes "snd (issue_delegation m issuer delegatee grants expires) = Ok t"
    and "g \<in> set (dt_grants t)" "grant_allows g cap risk tick fid ids area"
  shows "\<exists>role. map_of (rm_session_roles m) issuer = Some role \<and>
    (\<exists>owned \<in> set (default_grants role). grant_allows owned cap risk tick fid ids area)"
proof -
  obtain role where role: "map_of (rm_session_roles m) issuer = Some role"
      "check_delegated (default_grants role) expires grants = Ok ()" and "dt_grants t = grants"
    using assms(1)
    by (auto simp: issue_delegation_def Let_def split: option.splits result.splits if_splits)
  then obtain owned where "owned \<in> set (default_grants role)" "grant_covers owned g"
    using assms(2) by (auto simp: check_delegated_Ok)
  then show ?thesis using role(1) grant_covers_allows assms(3) by blast
qed

text \<open>
  In every reachable state, presenting a record to the manager succeeds exactly when it is
  the record registered under its identifier and neither it nor one of its grants has
  expired; the digest comparison then always agrees.
\<close>

theorem validate_token_iff_registered:
  assumes "reach role_init role_step m"
  shows "validate_token m t now = Ok () \<longleftrightarrow>
    map_of (rm_delegations m) (dt_token_id t) = Some t \<and>
    (\<forall>e. dt_expires_at_tick t = Some e \<longrightarrow> now \<le> e) \<and>
    (\<forall>g \<in> set (dt_grants t). \<forall>e. grant_expires_at_tick g = Some e \<longrightarrow> now \<le> e)"
proof -
  have "role_inv m" using assms by (rule roles.reach_inv)
  then have "well_issued (dt_token_id t) t" if "map_of (rm_delegations m) (dt_token_id t) = Some t"
    using map_of_SomeD [OF that] by (auto simp: role_inv_def)
  then show ?thesis
    by (force simp: validate_token_def well_issued_def not_le split: option.splits if_splits)
qed

text \<open>
  A record stays registered unchanged under its identifier forever: no later assignment or
  delegation replaces it, so a delegation cannot be altered after it was issued.
\<close>

theorem delegations_immutable:
  assumes "reach role_init role_step m" "role_step\<^sup>*\<^sup>* m n"
    and "map_of (rm_delegations m) k = Some t"
  shows "map_of (rm_delegations n) k = Some t"
  using assms(2)
proof (induction rule: rtranclp_induct)
  case base
  then show ?case by (rule assms(3))
next
  case (step y z)
  have inv: "role_inv y"
    using roles.steps_inv [OF roles.reach_inv [OF assms(1)] step.hyps(1)] .
  from step.hyps(2) show ?case
  proof cases
    case (rs_issue issuer delegatee grants expires)
    then show ?thesis
      using step.IH role_inv_fresh [OF inv]
      by (auto simp: issue_delegation_def Let_def map_of_bt_insert
          split: option.splits result.splits)
  qed (use step.IH in \<open>simp add: assign_role_def\<close>)
qed

subsection \<open>A concrete run\<close>

definition sample_roles :: role_manager where
  "sample_roles = fst (assign_role role_manager_new 1 MiningOverseer)"

definition sample_delegation :: "role_manager \<times> delegation_token res" where
  "sample_delegation =
     issue_delegation sample_roles 1 2 [(role_grant CapDesignate Reversible)\<lparr>grant_expires_at_tick := Some 50\<rparr>]
       (Some 60)"

definition sample_token :: delegation_token where
  "sample_token =
     \<lparr>dt_token_id = 1, dt_issuer_session = 1, dt_delegatee_session = 2,
      dt_grants = [(role_grant CapDesignate Reversible)\<lparr>grant_expires_at_tick := Some 50\<rparr>],
      dt_expires_at_tick = Some 60,
      dt_delegation_digest = compute_delegation_digest 1 1 2
        [(role_grant CapDesignate Reversible)\<lparr>grant_expires_at_tick := Some 50\<rparr>] (Some 60)\<rparr>"

lemma sample_delegation_eq:
  "sample_delegation = (sample_roles\<lparr>rm_delegations := [(1, sample_token)], rm_next_token_seq := 2\<rparr>,
     Ok sample_token)"
  by (simp add: sample_delegation_def issue_delegation_def sample_roles_def assign_role_def
      role_manager_new_def default_grants_def role_grant_def grant_covers_def scope_covers_def
      scope_default_def less_eq_risk_tier_def checked_add_def sample_token_def Let_def)

lemma sample_roles_reach: "reach role_init role_step sample_roles"
proof -
  have "reach role_init role_step role_manager_new"
    by (rule reach_init) (simp add: role_init_def)
  then show ?thesis unfolding sample_roles_def by (rule reach_step) (rule rs_assign)
qed

lemma sample_delegation_step: "role_step sample_roles (fst sample_delegation)"
  unfolding sample_delegation_def by (rule rs_issue)

theorem delegation_never_amplifies_witness:
  "\<exists>owned \<in> set (default_grants MiningOverseer). grant_allows owned CapDesignate Reversible 50 7 [] None"
proof -
  have "snd sample_delegation = Ok sample_token" by (simp add: sample_delegation_eq)
  from delegation_never_amplifies [OF this [unfolded sample_delegation_def],
      of "hd (dt_grants sample_token)" CapDesignate Reversible 50 7 "[]" None]
  show ?thesis
    by (simp add: sample_token_def role_grant_def grant_allows_def scope_permits_def
        scope_default_def sample_roles_def assign_role_def role_manager_new_def)
qed

theorem validate_token_iff_registered_witness:
  "validate_token (fst sample_delegation) sample_token 50 = Ok () \<and>
   validate_token (fst sample_delegation) sample_token 51 \<noteq> Ok ()"
proof -
  have r: "reach role_init role_step (fst sample_delegation)"
    using sample_roles_reach sample_delegation_step by (rule reach_step)
  show ?thesis
    unfolding validate_token_iff_registered [OF r]
    by (simp add: sample_delegation_eq sample_token_def)
qed

theorem delegations_immutable_witness:
  "map_of (rm_delegations (fst (assign_role (fst sample_delegation) 1 TimeKeeper))) 1 = Some sample_token"
proof (rule delegations_immutable)
  show "reach role_init role_step (fst sample_delegation)"
    using sample_roles_reach sample_delegation_step by (rule reach_step)
  show "role_step\<^sup>*\<^sup>* (fst sample_delegation) (fst (assign_role (fst sample_delegation) 1 TimeKeeper))"
    by (rule r_into_rtranclp) (rule rs_assign)
qed (simp add: sample_delegation_eq)

end
