(* ===== verification/Codecs.thy ===== *)
theory Codecs
  imports Core_Model
begin

text \<open>
  The canonical byte format. Encoders are those of \<^verbatim>\<open>crates/dfmcp-world/src/canonical.rs\<close>,
  readers those of \<^verbatim>\<open>Reader\<close> in \<^verbatim>\<open>crates/dfmcp-world/src/canonical_decode.rs\<close> (the unread
  bytes are the reader's state; every refusal is the same corrupt-ledger error). Each pair is
  shown to be a \<^term>\<open>strict_codec\<close>: the reader accepts exactly the encodings of well-formed
  values. Collections and ordered maps are codecs whenever their elements are.
\<close>

subsection \<open>Encoders\<close>

definition put_bool :: "bool \<Rightarrow> u8 list" where
  "put_bool b = [if b then 1 else 0]"

definition put_u16 :: "u16 \<Rightarrow> u8 list" where
  "put_u16 v = be_bytes 2 (unat v)"

definition put_u32 :: "u32 \<Rightarrow> u8 list" where
  "put_u32 v = be_bytes 4 (unat v)"

definition put_u64 :: "u64 \<Rightarrow> u8 list" where
  "put_u64 v = be_bytes 8 (unat v)"

definition put_u128 :: "u128 \<Rightarrow> u8 list" where
  "put_u128 v = be_bytes 16 (unat v)"

text \<open>Signed integers are written in two's complement.\<close>

definition put_i32 :: "int \<Rightarrow> u8 list" where
  "put_i32 x = be_bytes 4 (nat (x mod 2 ^ 32))"

definition put_i64 :: "int \<Rightarrow> u8 list" where
  "put_i64 x = be_bytes 8 (nat (x mod 2 ^ 64))"

definition put_bytes :: "u8 list \<Rightarrow> u8 list" where
  "put_bytes v = put_u64 (word_of_nat (length v)) @ v"

definition put_str :: "string \<Rightarrow> u8 list" where
  "put_str s = put_bytes (str_bytes s)"

definition put_anchor :: "state_anchor \<Rightarrow> u8 list" where
  "put_anchor a =
     put_u64 (sa_fortress_id a) @ put_u64 (cur_epoch (sa_cursor a)) @
     put_u64 (cur_sequence (sa_cursor a)) @ put_u64 (sa_tick a) @ put_bytes (sa_state_hash a)"

definition put_list :: "('a \<Rightarrow> u8 list) \<Rightarrow> 'a list \<Rightarrow> u8 list" where
  "put_list enc xs = put_u64 (word_of_nat (length xs)) @ concat (map enc xs)"

definition put_option :: "('a \<Rightarrow> u8 list) \<Rightarrow> 'a option \<Rightarrow> u8 list" where
  "put_option enc x = (case x of Some y \<Rightarrow> 1 # enc y | None \<Rightarrow> [0])"

subsection \<open>Readers\<close>

definition corrupt :: dfmcp_error where
  "corrupt = with_retryable False (dfmcp_error CorruptLedger)"

definition rd_take :: "'e \<Rightarrow> nat \<Rightarrow> (u8 list, 'e) reader" where
  "rd_take e n = (\<lambda>bs. if n \<le> length bs then Ok (take n bs, drop n bs) else Err e)"

definition rd_word :: "'e \<Rightarrow> nat \<Rightarrow> ('a::len word, 'e) reader" where
  "rd_word e n = rd_bind (rd_take e n) (\<lambda>raw. rd_return (word_of_nat (be_value raw)))"

definition rd_signed :: "'e \<Rightarrow> nat \<Rightarrow> (int, 'e) reader" where
  "rd_signed e n =
     rd_bind (rd_take e n)
       (\<lambda>raw. rd_return (let v = int (be_value raw)
          in if v < 2 ^ (8 * n - 1) then v else v - 2 ^ (8 * n)))"

definition rd_u8 :: "(u8, dfmcp_error) reader" where
  "rd_u8 = rd_word corrupt 1"

definition rd_bool :: "(bool, dfmcp_error) reader" where
  "rd_bool = rd_bind rd_u8 (\<lambda>b.
     if b = 0 then rd_return False else if b = 1 then rd_return True else rd_fail corrupt)"

definition rd_u16 :: "(u16, dfmcp_error) reader" where
  "rd_u16 = rd_word corrupt 2"

definition rd_u32 :: "(u32, dfmcp_error) reader" where
  "rd_u32 = rd_word corrupt 4"

definition rd_i32 :: "(int, dfmcp_error) reader" where
  "rd_i32 = rd_signed corrupt 4"

definition rd_u64 :: "(u64, dfmcp_error) reader" where
  "rd_u64 = rd_word corrupt 8"

definition rd_i64 :: "(int, dfmcp_error) reader" where
  "rd_i64 = rd_signed corrupt 8"

definition rd_u128 :: "(u128, dfmcp_error) reader" where
  "rd_u128 = rd_word corrupt 16"

definition rd_count :: "nat \<Rightarrow> (nat, dfmcp_error) reader" where
  "rd_count min_element_bytes =
     rd_bind rd_u64 (\<lambda>raw.
       let count = unat raw; needed = count * max min_element_bytes 1
       in if 2 ^ 64 \<le> needed then rd_fail corrupt
          else (\<lambda>bs. if needed > length bs then Err corrupt else Ok (count, bs)))"

definition rd_bytes :: "(u8 list, dfmcp_error) reader" where
  "rd_bytes = rd_bind (rd_count 1) (rd_take corrupt)"

definition rd_string :: "(string, dfmcp_error) reader" where
  "rd_string = rd_bind rd_bytes (\<lambda>raw.
     if utf8_valid (bytes_str raw) then rd_return (bytes_str raw) else rd_fail corrupt)"

definition rd_digest :: "(digest32, dfmcp_error) reader" where
  "rd_digest = rd_bind rd_u64 (\<lambda>len. if len \<noteq> 32 then rd_fail corrupt else rd_take corrupt 32)"

definition rd_anchor :: "(state_anchor, dfmcp_error) reader" where
  "rd_anchor =
     rd_bind rd_u64 (\<lambda>fortress_id.
     rd_bind rd_u64 (\<lambda>epoch.
     rd_bind rd_u64 (\<lambda>sequence.
     rd_bind rd_u64 (\<lambda>tick.
     rd_bind rd_digest (\<lambda>state_hash.
       rd_return \<lparr>sa_fortress_id = fortress_id, sa_cursor = ObservationCursor epoch sequence,
                  sa_tick = tick, sa_state_hash = state_hash\<rparr>)))))"

text \<open>\<^verbatim>\<open>for _ in 0..count { values.push(..) }\<close> after a bounded \<^verbatim>\<open>count\<close>.\<close>

definition rd_list :: "nat \<Rightarrow> ('a, dfmcp_error) reader \<Rightarrow> ('a list, dfmcp_error) reader" where
  "rd_list min_element_bytes dec = rd_bind (rd_count min_element_bytes) (\<lambda>n. rd_repeat n dec)"

text \<open>The loop around \<^verbatim>\<open>insert_ascending\<close>: a key not above the last one is refused.\<close>

definition insert_ascending ::
  "'k::linorder \<Rightarrow> 'v \<Rightarrow> ('k, 'v) btree_map \<Rightarrow> ('k, 'v) btree_map res" where
  "insert_ascending k v m =
     (if m \<noteq> [] \<and> fst (last m) \<ge> k then Err corrupt else Ok (bt_insert k v m))"

primrec rd_ascending ::
  "nat \<Rightarrow> ('k::linorder \<times> 'v, dfmcp_error) reader \<Rightarrow> ('k, 'v) btree_map
     \<Rightarrow> (('k, 'v) btree_map, dfmcp_error) reader" where
  "rd_ascending 0 dec m = rd_return m"
| "rd_ascending (Suc n) dec m =
     rd_bind dec (\<lambda>e. \<lambda>bs. and_then (insert_ascending (fst e) (snd e) m)
       (\<lambda>m'. rd_ascending n dec m' bs))"

definition rd_btree ::
  "nat \<Rightarrow> ('k::linorder \<times> 'v, dfmcp_error) reader \<Rightarrow> (('k, 'v) btree_map, dfmcp_error) reader" where
  "rd_btree min_element_bytes dec =
     rd_bind (rd_count min_element_bytes) (\<lambda>n. rd_ascending n dec [])"

definition rd_option :: "('a, dfmcp_error) reader \<Rightarrow> ('a option, dfmcp_error) reader" where
  "rd_option dec =
     rd_bind rd_bool (\<lambda>b. if b then rd_bind dec (\<lambda>x. rd_return (Some x)) else rd_return None)"

subsection \<open>Scalar codecs\<close>

text \<open>The form in which strictness is used: what a reader accepts, as an equivalence.\<close>

lemma strict_codec_iff:
  "strict_codec enc dec valid \<longleftrightarrow>
   (\<forall>bs x rest. dec bs = Ok (x, rest) \<longleftrightarrow> valid x \<and> bs = enc x @ rest)"
proof
  assume "strict_codec enc dec valid"
  then show "\<forall>bs x rest. dec bs = Ok (x, rest) \<longleftrightarrow> valid x \<and> bs = enc x @ rest"
    by (simp add: strict_codec.decode_iff)
next
  assume "\<forall>bs x rest. dec bs = Ok (x, rest) \<longleftrightarrow> valid x \<and> bs = enc x @ rest"
  then show "strict_codec enc dec valid"
    by unfold_locales (auto simp: decodes_def exact_def)
qed

lemma strict_codecI:
  "(\<And>bs x rest. dec bs = Ok (x, rest) \<longleftrightarrow> valid x \<and> bs = enc x @ rest) \<Longrightarrow>
   strict_codec enc dec valid"
  by (simp add: strict_codec_iff)

lemmas strict_codecD = strict_codec.decode_iff

lemma rd_take_Ok: "rd_take e n bs = Ok (x, rest) \<longleftrightarrow> length x = n \<and> bs = x @ rest"
  by (auto simp: rd_take_def)

lemma rd_word_Ok:
  assumes "LENGTH('a::len) = 8 * n"
  shows "rd_word e n bs = Ok (x :: 'a word, rest) \<longleftrightarrow> bs = be_bytes n (unat x) @ rest"
proof -
  have pow: "(2 :: nat) ^ LENGTH('a) = 256 ^ n"
    by (simp add: assms power_mult)
  have "be_bytes n (unat (word_of_nat (be_value raw) :: 'a word)) = raw" if "length raw = n" for raw
    using be_value_less [of raw] be_bytes_be_value [of raw] that
    by (simp add: unat_of_nat pow)
  moreover have "word_of_nat (be_value (be_bytes n (unat x))) = x"
  proof -
    have "unat x < 256 ^ n" using unsigned_less [of x] by (metis pow)
    then show ?thesis by (simp add: be_value_be_bytes)
  qed
  ultimately show ?thesis
    by (auto simp: rd_word_def rd_bind_Ok_iff rd_take_Ok)
qed

lemma rd_signed_Ok:
  assumes "0 < n"
  shows "rd_signed e n bs = Ok (x, rest) \<longleftrightarrow>
    - (2 ^ (8 * n - 1)) \<le> x \<and> x < 2 ^ (8 * n - 1) \<and>
    bs = be_bytes n (nat (x mod 2 ^ (8 * n))) @ rest"
proof -
  let ?h = "2 ^ (8 * n - 1) :: int"
  have dbl: "2 ^ (8 * n) = 2 * ?h"
    using assms by (metis mult_is_0 not_gr_zero power_minus_mult mult.commute
        zero_neq_numeral)
  have pos: "0 < ?h" by simp
  have pow: "int (256 ^ n) = 2 * ?h"
    using dbl by (simp add: power_mult)
  define dec where "dec v = (if v < ?h then v else v - 2 * ?h)" for v :: int
  have enc_dec: "be_bytes n (nat (dec (int (be_value raw)) mod (2 * ?h))) = raw"
    and range: "- ?h \<le> dec (int (be_value raw))" "dec (int (be_value raw)) < ?h"
    if len: "length raw = n" for raw
  proof -
    have v: "int (be_value raw) < 2 * ?h"
      using be_value_less [of raw] len pow by (metis of_nat_less_iff)
    then show "- ?h \<le> dec (int (be_value raw))" "dec (int (be_value raw)) < ?h"
      using pos by (auto simp: dec_def)
    have "dec (int (be_value raw)) mod (2 * ?h) = int (be_value raw)"
      using v by (simp add: dec_def mod_pos_pos_trivial)
    then show "be_bytes n (nat (dec (int (be_value raw)) mod (2 * ?h))) = raw"
      using len be_bytes_be_value [of raw] by simp
  qed
  have dec_enc: "dec (int (be_value (be_bytes n (nat (x mod (2 * ?h)))))) = x"
    if "- ?h \<le> x" "x < ?h"
  proof -
    have m: "x mod (2 * ?h) = (if 0 \<le> x then x else x + 2 * ?h)"
    proof (cases "0 \<le> x")
      case True
      then show ?thesis using that pos by (simp add: mod_pos_pos_trivial)
    next
      case False
      have "x mod (2 * ?h) = (x + 2 * ?h) mod (2 * ?h)" by simp
      also have "\<dots> = x + 2 * ?h" using False that by (intro mod_pos_pos_trivial) auto
      finally show ?thesis using False by simp
    qed
    then have "0 \<le> x mod (2 * ?h)" and "x mod (2 * ?h) < int (256 ^ n)"
      using that pos pow by auto
    then have "nat (x mod (2 * ?h)) < 256 ^ n" by linarith
    then have "int (be_value (be_bytes n (nat (x mod (2 * ?h))))) = x mod (2 * ?h)"
      using \<open>0 \<le> x mod (2 * ?h)\<close> by (simp add: be_value_be_bytes)
    then show ?thesis using m that pos by (auto simp: dec_def)
  qed
  have eq: "rd_signed e n bs = Ok (x, rest) \<longleftrightarrow>
      (\<exists>raw. length raw = n \<and> bs = raw @ rest \<and> x = dec (int (be_value raw)))"
    unfolding rd_signed_def rd_bind_Ok_iff rd_take_Ok rd_return_Ok_iff Let_def dbl dec_def
    by blast
  show ?thesis unfolding eq dbl
  proof
    assume "\<exists>raw. length raw = n \<and> bs = raw @ rest \<and> x = dec (int (be_value raw))"
    then obtain raw where "length raw = n" "bs = raw @ rest" "x = dec (int (be_value raw))" by blast
    then show "- ?h \<le> x \<and> x < ?h \<and> bs = be_bytes n (nat (x mod (2 * ?h))) @ rest"
      using range enc_dec by simp
  next
    assume "- ?h \<le> x \<and> x < ?h \<and> bs = be_bytes n (nat (x mod (2 * ?h))) @ rest"
    then show "\<exists>raw. length raw = n \<and> bs = raw @ rest \<and> x = dec (int (be_value raw))"
      using dec_enc by (intro exI [of _ "be_bytes n (nat (x mod (2 * ?h)))"]) simp
  qed
qed

definition i64_range :: "int \<Rightarrow> bool" where
  "i64_range x \<longleftrightarrow> - (2 ^ 63) \<le> x \<and> x < 2 ^ 63"

named_theorems rd_iffs \<open>what each reader accepts\<close>

lemma rd_scalar_iffs [rd_iffs]:
  "rd_u8 bs = Ok (b, rest) \<longleftrightarrow> bs = b # rest"
  "rd_u16 bs = Ok (x, rest) \<longleftrightarrow> bs = put_u16 x @ rest"
  "rd_u32 bs = Ok (y, rest) \<longleftrightarrow> bs = put_u32 y @ rest"
  "rd_u64 bs = Ok (z, rest) \<longleftrightarrow> bs = put_u64 z @ rest"
  "rd_u128 bs = Ok (w, rest) \<longleftrightarrow> bs = put_u128 w @ rest"
proof -
  have "be_bytes 1 (unat b) = [b]"
    using be_bytes_be_value [of "[b]"] be_value_snoc [of "[]" b] by simp
  then show "rd_u8 bs = Ok (b, rest) \<longleftrightarrow> bs = b # rest"
    unfolding rd_u8_def by (subst rd_word_Ok) simp_all
qed (simp_all add: rd_u16_def rd_u32_def rd_u64_def rd_u128_def put_u16_def put_u32_def
    put_u64_def put_u128_def rd_word_Ok)

lemma rd_signed_iffs [rd_iffs]:
  "rd_i32 bs = Ok (x, rest) \<longleftrightarrow> i32_range x \<and> bs = put_i32 x @ rest"
  "rd_i64 bs = Ok (y, rest) \<longleftrightarrow> i64_range y \<and> bs = put_i64 y @ rest"
  by (auto simp: rd_i32_def rd_i64_def rd_signed_Ok put_i32_def put_i64_def i32_range_def
      i64_range_def)

lemma rd_bool_iff [rd_iffs]: "rd_bool bs = Ok (b, rest) \<longleftrightarrow> bs = put_bool b @ rest"
proof -
  have "rd_bool bs = Ok (b, rest) \<longleftrightarrow> (\<exists>x. bs = x # rest \<and> (x = 0 \<and> \<not> b \<or> x = 1 \<and> b))"
    by (auto simp: rd_bool_def rd_bind_Ok_iff rd_scalar_iffs split: if_splits)
  then show ?thesis by (auto simp: put_bool_def)
qed

lemma length_put_scalar [simp]:
  "length (put_bool b) = 1" "length (put_u16 x) = 2" "length (put_u32 y) = 4"
  "length (put_u64 z) = 8" "length (put_u128 w) = 16" "length (put_i32 i) = 4"
  "length (put_i64 j) = 8"
  by (simp_all add: put_bool_def put_u16_def put_u32_def put_u64_def put_u128_def put_i32_def
      put_i64_def)

lemma length_put_bytes [simp]: "length (put_bytes v) = 8 + length v"
  by (simp add: put_bytes_def)

lemma length_put_str [simp]: "length (put_str s) = 8 + length s"
  by (simp add: put_str_def)

lemma length_put_list: "length (put_list enc xs) = 8 + length (concat (map enc xs))"
  by (simp add: put_list_def)

lemma rd_count_Ok:
  "rd_count k bs = Ok (n, rest) \<longleftrightarrow>
   n * max k 1 < 2 ^ 64 \<and> n * max k 1 \<le> length rest \<and>
   bs = put_u64 (word_of_nat n) @ rest"
proof -
  have small: "n < 2 ^ 64" if "n * max k 1 < 2 ^ 64"
    using that by (metis le_less_trans max.cobounded2 mult.right_neutral mult_le_mono2)
  have "rd_count k bs = Ok (n, rest) \<longleftrightarrow>
      (\<exists>raw. bs = put_u64 raw @ rest \<and> unat raw = n \<and> n * max k 1 < 2 ^ 64 \<and>
         n * max k 1 \<le> length rest)"
    by (auto simp: rd_count_def rd_bind_Ok_iff rd_scalar_iffs Let_def not_le not_less
        split: if_splits)
  also have "\<dots> \<longleftrightarrow> n * max k 1 < 2 ^ 64 \<and> n * max k 1 \<le> length rest \<and>
      bs = put_u64 (word_of_nat n) @ rest"
    using small by (auto simp: unat_of_nat)
  finally show ?thesis .
qed

lemma rd_bytes_iff [rd_iffs]:
  "rd_bytes bs = Ok (v, rest) \<longleftrightarrow> length v < 2 ^ 64 \<and> bs = put_bytes v @ rest"
  by (auto simp: rd_bytes_def rd_bind_Ok_iff rd_count_Ok rd_take_Ok put_bytes_def)

definition text_ok :: "string \<Rightarrow> bool" where
  "text_ok s \<longleftrightarrow> utf8_valid s \<and> length s < 2 ^ 64"

lemma rd_string_iff [rd_iffs]:
  "rd_string bs = Ok (s, rest) \<longleftrightarrow> text_ok s \<and> bs = put_str s @ rest"
proof -
  have "rd_string bs = Ok (s, rest) \<longleftrightarrow>
      (\<exists>raw. length raw < 2 ^ 64 \<and> bs = put_bytes raw @ rest \<and> utf8_valid (bytes_str raw) \<and>
         s = bytes_str raw)"
    by (auto simp: rd_string_def rd_bind_Ok_iff rd_bytes_iff split: if_splits)
  also have "\<dots> \<longleftrightarrow> text_ok s \<and> bs = put_str s @ rest"
    by (auto simp: text_ok_def put_str_def) (metis bytes_str_str_bytes length_str_bytes)
  finally show ?thesis .
qed

lemma rd_digest_iff [rd_iffs]:
  "rd_digest bs = Ok (d, rest) \<longleftrightarrow> is_digest d \<and> bs = put_bytes d @ rest"
  by (auto simp: rd_digest_def rd_bind_Ok_iff rd_scalar_iffs rd_take_Ok is_digest_def put_bytes_def
      split: if_splits)

definition anchor_ok :: "state_anchor \<Rightarrow> bool" where
  "anchor_ok a \<longleftrightarrow> is_digest (sa_state_hash a)"

named_theorems rd_evals \<open>reading back what was written\<close>

lemma rd_scalar_evals [rd_evals]:
  "rd_u8 (b # rest) = Ok (b, rest)"
  "rd_u16 (put_u16 x @ rest) = Ok (x, rest)"
  "rd_u32 (put_u32 y @ rest) = Ok (y, rest)"
  "rd_u64 (put_u64 z @ rest) = Ok (z, rest)"
  "rd_u128 (put_u128 w @ rest) = Ok (w, rest)"
  "rd_bool (put_bool c @ rest) = Ok (c, rest)"
  "i32_range i \<Longrightarrow> rd_i32 (put_i32 i @ rest) = Ok (i, rest)"
  "i64_range j \<Longrightarrow> rd_i64 (put_i64 j @ rest) = Ok (j, rest)"
  "length v < 2 ^ 64 \<Longrightarrow> rd_bytes (put_bytes v @ rest) = Ok (v, rest)"
  "text_ok s \<Longrightarrow> rd_string (put_str s @ rest) = Ok (s, rest)"
  "is_digest d \<Longrightarrow> rd_digest (put_bytes d @ rest) = Ok (d, rest)"
  by (simp_all add: rd_iffs)

text \<open>Strictness of a record reader: one direction by inversion, the other by evaluation.\<close>

lemma strict_codec_split:
  assumes "\<And>bs x rest. dec bs = Ok (x, rest) \<Longrightarrow> valid x \<and> bs = enc x @ rest"
    and "\<And>x rest. valid x \<Longrightarrow> dec (enc x @ rest) = Ok (x, rest)"
  shows "strict_codec enc dec valid"
  using assms by (intro strict_codecI) blast

lemma strict_codec_eval: "strict_codec enc dec valid \<Longrightarrow> valid x \<Longrightarrow> dec (enc x @ rest) = Ok (x, rest)"
  by (simp add: strict_codecD)

lemma strict_anchor: "strict_codec put_anchor rd_anchor anchor_ok"
  by (rule strict_codec_split)
    (auto simp: rd_anchor_def rd_bind_Ok_iff rd_iffs anchor_ok_def put_anchor_def rd_bind_def
      rd_return_def rd_evals)

lemmas rd_anchor_iff [rd_iffs] = strict_codecD [OF strict_anchor]
lemmas rd_anchor_eval [rd_evals] = strict_codec_eval [OF strict_anchor]
subsection \<open>Collections\<close>

lemma concat_length_ge:
  "\<forall>x \<in> set xs. k \<le> length (enc x) \<Longrightarrow> length xs * k \<le> length (concat (map enc xs))"
  by (induction xs) (auto intro: add_mono)

text \<open>
  The bound on the count never refuses a genuine encoding: every element takes at least the
  stated number of bytes.
\<close>

definition list_ok :: "nat \<Rightarrow> ('a \<Rightarrow> bool) \<Rightarrow> 'a list \<Rightarrow> bool" where
  "list_ok k valid xs \<longleftrightarrow> length xs * max k 1 < 2 ^ 64 \<and> (\<forall>x \<in> set xs. valid x)"

lemma strict_list:
  assumes codec: "strict_codec enc dec valid"
    and size: "\<And>x. valid x \<Longrightarrow> max k 1 \<le> length (enc x)"
  shows "strict_codec (put_list enc) (rd_list k dec) (list_ok k valid)"
proof (rule strict_codecI)
  fix bs xs rest
  show "rd_list k dec bs = Ok (xs, rest) \<longleftrightarrow> list_ok k valid xs \<and> bs = put_list enc xs @ rest"
    unfolding rd_list_def rd_bind_Ok_iff rd_count_Ok strict_codec.repeat_iff [OF codec]
      list_ok_def put_list_def
    using concat_length_ge [of xs "max k 1" enc] size by auto
qed

lemma rd_ascending_Ok:
  assumes codec: "strict_codec enc dec valid" and "bt_sorted m"
  shows "rd_ascending n dec m bs = Ok (m', rest) \<longleftrightarrow>
    (\<exists>es. length es = n \<and> m' = m @ es \<and> bt_sorted m' \<and> (\<forall>e \<in> set es. valid e) \<and>
       bs = concat (map enc es) @ rest)"
  using assms(2)
proof (induction n arbitrary: m bs)
  case 0
  then show ?case by auto
next
  case (Suc n)
  have above: "(m = [] \<or> fst (last m) < k) \<longleftrightarrow> (\<forall>k' \<in> fst ` set m. k' < k)" for k
  proof (cases m rule: rev_cases)
    case (snoc m1 e)
    then have "\<forall>k' \<in> fst ` set m1. k' < fst e"
      using Suc.prems by (auto simp: bt_sorted_def sorted_wrt_append)
    then show ?thesis using snoc by auto
  qed simp
  have sorted: "bt_sorted (m @ e # es) \<Longrightarrow> \<forall>k' \<in> fst ` set m. k' < fst e" for e es
    by (auto simp: bt_sorted_def sorted_wrt_append)
  have ins: "insert_ascending (fst e) (snd e) m = Ok m1 \<longleftrightarrow>
      (\<forall>k' \<in> fst ` set m. k' < fst e) \<and> m1 = m @ [e]" for e m1
  proof -
    have "insert_ascending (fst e) (snd e) m = Ok m1 \<longleftrightarrow>
        (m = [] \<or> fst (last m) < fst e) \<and> m1 = bt_insert (fst e) (snd e) m"
      by (auto simp: insert_ascending_def)
    then show ?thesis using above bt_insert_last [of m "fst e" "snd e"] by auto
  qed
  have "rd_ascending (Suc n) dec m bs = Ok (m', rest) \<longleftrightarrow>
      (\<exists>e mid. valid e \<and> bs = enc e @ mid \<and> (\<forall>k' \<in> fst ` set m. k' < fst e) \<and>
         rd_ascending n dec (m @ [e]) mid = Ok (m', rest))"
    by (auto simp: rd_bind_Ok_iff strict_codecD [OF codec] ins)
  also have "\<dots> \<longleftrightarrow> (\<exists>e mid es. valid e \<and> bs = enc e @ mid \<and> (\<forall>k' \<in> fst ` set m. k' < fst e) \<and>
      length es = n \<and> m' = m @ e # es \<and> bt_sorted m' \<and> (\<forall>e \<in> set es. valid e) \<and>
      mid = concat (map enc es) @ rest)"
  proof (intro iff_exI)
    fix e mid
    have "rd_ascending n dec (m @ [e]) mid = Ok (m', rest) \<longleftrightarrow>
        (\<exists>es. length es = n \<and> m' = m @ e # es \<and> bt_sorted m' \<and> (\<forall>e \<in> set es. valid e) \<and>
           mid = concat (map enc es) @ rest)" if "\<forall>k' \<in> fst ` set m. k' < fst e"
    proof -
      have "bt_sorted (m @ [e])"
        using bt_sorted_append_last [OF Suc.prems that, of "snd e"] by simp
      from Suc.IH [OF this] show ?thesis by simp
    qed
    then show "(valid e \<and> bs = enc e @ mid \<and> (\<forall>k' \<in> fst ` set m. k' < fst e) \<and>
        rd_ascending n dec (m @ [e]) mid = Ok (m', rest)) \<longleftrightarrow>
      (\<exists>es. valid e \<and> bs = enc e @ mid \<and> (\<forall>k' \<in> fst ` set m. k' < fst e) \<and>
        length es = n \<and> m' = m @ e # es \<and> bt_sorted m' \<and> (\<forall>e \<in> set es. valid e) \<and>
        mid = concat (map enc es) @ rest)"
      by (metis (no_types, lifting))
  qed
  also have "\<dots> \<longleftrightarrow> (\<exists>es. length es = Suc n \<and> m' = m @ es \<and> bt_sorted m' \<and> (\<forall>e \<in> set es. valid e) \<and>
       bs = concat (map enc es) @ rest)"
    (is "?L \<longleftrightarrow> ?R")
  proof
    assume ?L
    then obtain e mid es where "valid e" "bs = enc e @ mid" "length es = n" "m' = m @ e # es"
      "bt_sorted m'" "\<forall>e \<in> set es. valid e" "mid = concat (map enc es) @ rest" by metis
    then show ?R by (intro exI [of _ "e # es"]) simp
  next
    assume ?R
    then obtain es where es: "length es = Suc n" "m' = m @ es" "bt_sorted m'" "\<forall>e \<in> set es. valid e"
      "bs = concat (map enc es) @ rest" by blast
    then obtain e es' where "es = e # es'" "length es' = n" by (cases es) auto
    with es sorted show ?L
      by (intro exI [of _ e] exI [of _ "concat (map enc es') @ rest"] exI [of _ es']) auto
  qed
  finally show ?case .
qed

definition btree_ok :: "nat \<Rightarrow> ('k::linorder \<times> 'v \<Rightarrow> bool) \<Rightarrow> ('k, 'v) btree_map \<Rightarrow> bool" where
  "btree_ok k valid m \<longleftrightarrow> bt_sorted m \<and> list_ok k valid m"

lemma strict_btree:
  assumes codec: "strict_codec enc dec valid"
    and size: "\<And>x. valid x \<Longrightarrow> max k 1 \<le> length (enc x)"
  shows "strict_codec (put_list enc) (rd_btree k dec) (btree_ok k valid)"
proof (rule strict_codecI)
  fix bs m rest
  have room: "\<forall>e \<in> set m. valid e \<Longrightarrow> length m * max k 1 \<le> length (concat (map enc m))"
    by (intro concat_length_ge ballI size) auto
  show "rd_btree k dec bs = Ok (m, rest) \<longleftrightarrow> btree_ok k valid m \<and> bs = put_list enc m @ rest"
    unfolding rd_btree_def rd_bind_Ok_iff rd_count_Ok rd_ascending_Ok [OF codec bt_sorted_Nil]
      btree_ok_def list_ok_def put_list_def
    using room by (auto simp del: split_paired_Ex)
qed

definition option_ok :: "('a \<Rightarrow> bool) \<Rightarrow> 'a option \<Rightarrow> bool" where
  "option_ok valid x \<longleftrightarrow> (\<forall>y. x = Some y \<longrightarrow> valid y)"

lemma strict_option:
  assumes "strict_codec enc dec valid"
  shows "strict_codec (put_option enc) (rd_option dec) (option_ok valid)"
proof (rule strict_codecI)
  fix bs x rest
  show "rd_option dec bs = Ok (x, rest) \<longleftrightarrow> option_ok valid x \<and> bs = put_option enc x @ rest"
    by (cases x) (auto simp: rd_option_def rd_bind_Ok_iff rd_bool_iff strict_codecD [OF assms]
        option_ok_def put_option_def put_bool_def split: if_splits)
qed

text \<open>A key followed by its item, and a record that carries its own key.\<close>

definition rd_entry :: "('k, 'e) reader \<Rightarrow> ('v, 'e) reader \<Rightarrow> ('k \<times> 'v, 'e) reader" where
  "rd_entry key item = rd_bind key (\<lambda>k. rd_bind item (\<lambda>v. rd_return (k, v)))"

lemma strict_entry:
  assumes "strict_codec ek dk vk" "strict_codec ei di vi"
  shows "strict_codec (\<lambda>e. ek (fst e) @ ei (snd e)) (rd_entry dk di) (\<lambda>e. vk (fst e) \<and> vi (snd e))"
  by (rule strict_codecI)
    (auto simp: rd_entry_def rd_bind_Ok_iff strict_codecD [OF assms(1)] strict_codecD [OF assms(2)])

definition rd_keyed :: "('v \<Rightarrow> 'k) \<Rightarrow> ('v, 'e) reader \<Rightarrow> ('k \<times> 'v, 'e) reader" where
  "rd_keyed key item = rd_bind item (\<lambda>v. rd_return (key v, v))"

lemma strict_keyed:
  assumes "strict_codec ei di vi"
  shows "strict_codec (\<lambda>e. ei (snd e)) (rd_keyed key di) (\<lambda>e. fst e = key (snd e) \<and> vi (snd e))"
  by (rule strict_codecI) (auto simp: rd_keyed_def rd_bind_Ok_iff strict_codecD [OF assms])

lemma strict_string: "strict_codec put_str rd_string text_ok"
  by (rule strict_codecI) (rule rd_string_iff)

interpretation text_codec: strict_codec put_str rd_string text_ok
  by (rule strict_string)

end
