(* ===== verification/Anchors.thy ===== *)
theory Anchors
  imports Codecs
begin

text \<open>
  \<^verbatim>\<open>crates/dfmcp-core/src/anchor_v2.rs\<close>: the complete version tuple. Its canonical bytes are
  read back strictly (a truncated, extended or non-canonical tuple is refused), equality and
  order are those of the bytes, and the continuity relation that keeps older handles alive is
  a partial order within one lineage, protocol and set of epochs.
\<close>

definition anchor_domain :: "u8 list" where
  "anchor_domain = str_bytes ''dfmcp-state-anchor/2'' @ [0]"

definition max_protocol_bytes :: nat where
  "max_protocol_bytes = 32"

record anchor_epochs =
  ae_fortress_lineage :: digest32
  ae_bridge_generation :: u64
  ae_bridge_protocol :: string
  ae_adapter_epoch :: u64
  ae_schema_epoch :: u64
  ae_policy_epoch :: u64

definition laboratory_epochs :: "fortress_id \<Rightarrow> anchor_epochs" where
  "laboratory_epochs fortress =
     \<lparr>ae_fortress_lineage =
        digest_of_bytes (str_bytes ''dfmcp-lab-lineage/1'' @ [0] @ be_bytes 8 (unat fortress)),
      ae_bridge_generation = 0, ae_bridge_protocol = ''lab'', ae_adapter_epoch = 1,
      ae_schema_epoch = 1, ae_policy_epoch = 1\<rparr>"

record state_anchor_v2 =
  av_fortress_lineage :: digest32
  av_observation_epoch :: u64
  av_snapshot_sequence :: u64
  av_game_tick :: "game_tick option"
  av_bridge_generation :: u64
  av_bridge_protocol :: string
  av_adapter_epoch :: u64
  av_schema_epoch :: u64
  av_policy_epoch :: u64
  av_semantic_world_root :: digest32

datatype anchor_continuity = ContSame | ContAdvanced | ContNewEpoch | ContIncompatible string

definition admits_older_handles :: "anchor_continuity \<Rightarrow> bool" where
  "admits_older_handles c \<longleftrightarrow> c = ContSame \<or> c = ContAdvanced"

definition invalid :: dfmcp_error where
  "invalid = dfmcp_error InvalidRequest"

text \<open>\<^verbatim>\<open>[A-Za-z0-9._-]\<close>\<close>

definition protocol_char :: "char \<Rightarrow> bool" where
  "protocol_char c \<longleftrightarrow>
     CHR ''0'' \<le> c \<and> c \<le> CHR ''9'' \<or> CHR ''A'' \<le> c \<and> c \<le> CHR ''Z'' \<or>
     CHR ''a'' \<le> c \<and> c \<le> CHR ''z'' \<or> c = CHR ''.'' \<or> c = CHR ''-'' \<or> c = CHR ''_''"

definition anchor_validate :: "state_anchor_v2 \<Rightarrow> unit res" where
  "anchor_validate a =
     (if av_bridge_protocol a = [] \<or> length (av_bridge_protocol a) > max_protocol_bytes \<or>
         \<not> list_all protocol_char (av_bridge_protocol a)
      then Err invalid else Ok ())"

definition anchor_from_v1 :: "state_anchor \<Rightarrow> anchor_epochs \<Rightarrow> state_anchor_v2 res" where
  "anchor_from_v1 anchor epochs =
     (let lifted =
        \<lparr>av_fortress_lineage = ae_fortress_lineage epochs,
         av_observation_epoch = cur_epoch (sa_cursor anchor),
         av_snapshot_sequence = cur_sequence (sa_cursor anchor),
         av_game_tick = Some (sa_tick anchor),
         av_bridge_generation = ae_bridge_generation epochs,
         av_bridge_protocol = ae_bridge_protocol epochs,
         av_adapter_epoch = ae_adapter_epoch epochs,
         av_schema_epoch = ae_schema_epoch epochs,
         av_policy_epoch = ae_policy_epoch epochs,
         av_semantic_world_root = sa_state_hash anchor\<rparr>
      in and_then (anchor_validate lifted) (\<lambda>_. Ok lifted))"

definition anchor_body_bytes :: "state_anchor_v2 \<Rightarrow> u8 list" where
  "anchor_body_bytes a =
     av_fortress_lineage a @ be_bytes 8 (unat (av_observation_epoch a)) @
     be_bytes 8 (unat (av_snapshot_sequence a)) @
     (case av_game_tick a of
        Some tick \<Rightarrow> 1 # be_bytes 8 (unat tick)
      | None \<Rightarrow> 0 # be_bytes 8 0) @
     be_bytes 8 (unat (av_bridge_generation a)) @
     [word_of_nat (length (av_bridge_protocol a))] @ str_bytes (av_bridge_protocol a) @
     be_bytes 8 (unat (av_adapter_epoch a)) @ be_bytes 8 (unat (av_schema_epoch a)) @
     be_bytes 8 (unat (av_policy_epoch a)) @ av_semantic_world_root a"

definition anchor_canonical_bytes :: "state_anchor_v2 \<Rightarrow> u8 list" where
  "anchor_canonical_bytes a = anchor_domain @ anchor_body_bytes a"

definition strip_prefix :: "'a list \<Rightarrow> 'a list \<Rightarrow> 'a list option" where
  "strip_prefix p xs = (if take (length p) xs = p then Some (drop (length p) xs) else None)"

definition rd_anchor_body :: "(state_anchor_v2, dfmcp_error) reader" where
  "rd_anchor_body =
     rd_bind (rd_take invalid 32) (\<lambda>fortress_lineage.
     rd_bind (rd_word invalid 8) (\<lambda>observation_epoch.
     rd_bind (rd_word invalid 8) (\<lambda>snapshot_sequence.
     rd_bind (rd_word invalid 1) (\<lambda>tag.
     rd_bind (rd_word invalid 8) (\<lambda>tick.
     rd_bind (if tag = (1 :: u8) then rd_return (Some tick)
              else if tag = 0 \<and> tick = 0 then rd_return None
              else rd_fail invalid) (\<lambda>game_tick.
     rd_bind (rd_word invalid 8) (\<lambda>bridge_generation.
     rd_bind (rd_word invalid 1) (\<lambda>protocol_len.
     rd_bind (rd_take invalid (unat (protocol_len :: u8))) (\<lambda>raw.
     rd_bind (if utf8_valid (bytes_str raw) then rd_return (bytes_str raw) else rd_fail invalid)
       (\<lambda>bridge_protocol.
     rd_bind (rd_word invalid 8) (\<lambda>adapter_epoch.
     rd_bind (rd_word invalid 8) (\<lambda>schema_epoch.
     rd_bind (rd_word invalid 8) (\<lambda>policy_epoch.
     rd_bind (rd_take invalid 32) (\<lambda>semantic_world_root.
       rd_return
        \<lparr>av_fortress_lineage = fortress_lineage, av_observation_epoch = observation_epoch,
         av_snapshot_sequence = snapshot_sequence, av_game_tick = game_tick,
         av_bridge_generation = bridge_generation, av_bridge_protocol = bridge_protocol,
         av_adapter_epoch = adapter_epoch, av_schema_epoch = schema_epoch,
         av_policy_epoch = policy_epoch, av_semantic_world_root = semantic_world_root\<rparr>))))))))))))))"

definition anchor_from_canonical_bytes :: "u8 list \<Rightarrow> state_anchor_v2 res" where
  "anchor_from_canonical_bytes bytes =
     and_then (ok_or (strip_prefix anchor_domain bytes) invalid) (\<lambda>rest.
     and_then (rd_anchor_body rest) (\<lambda>(anchor, rest).
       if rest \<noteq> [] then Err invalid
       else and_then (anchor_validate anchor) (\<lambda>_. Ok anchor)))"

definition anchor_digest :: "state_anchor_v2 \<Rightarrow> digest32" where
  "anchor_digest a = digest_of_bytes (anchor_canonical_bytes a)"

definition continuity_from :: "state_anchor_v2 \<Rightarrow> state_anchor_v2 \<Rightarrow> anchor_continuity" where
  "continuity_from self older =
     (if av_fortress_lineage self \<noteq> av_fortress_lineage older
      then ContIncompatible ''a different fortress lineage''
      else if av_bridge_protocol self \<noteq> av_bridge_protocol older
      then ContIncompatible ''a different bridge protocol''
      else if (av_adapter_epoch self, av_schema_epoch self, av_policy_epoch self) \<noteq>
              (av_adapter_epoch older, av_schema_epoch older, av_policy_epoch older)
      then ContIncompatible ''an adapter, schema or policy epoch changed''
      else if av_observation_epoch self < av_observation_epoch older
      then ContIncompatible ''the observation epoch regressed''
      else if av_observation_epoch self > av_observation_epoch older then ContNewEpoch
      else if av_bridge_generation self \<noteq> av_bridge_generation older
      then ContIncompatible ''the bridge restarted within one observation epoch''
      else if av_snapshot_sequence self < av_snapshot_sequence older
      then ContIncompatible ''the snapshot sequence regressed''
      else if av_snapshot_sequence self > av_snapshot_sequence older then ContAdvanced
      else if self = older then ContSame
      else ContIncompatible ''one sequence names two different versions'')"

text \<open>\<^verbatim>\<open>Ord::cmp\<close>: the lexicographic order of the canonical bytes.\<close>

definition anchor_le :: "state_anchor_v2 \<Rightarrow> state_anchor_v2 \<Rightarrow> bool" where
  "anchor_le a b \<longleftrightarrow> anchor_canonical_bytes a \<le> anchor_canonical_bytes b"

subsection \<open>The codec\<close>

definition protocol_ok :: "string \<Rightarrow> bool" where
  "protocol_ok p \<longleftrightarrow> p \<noteq> [] \<and> length p \<le> max_protocol_bytes \<and> list_all protocol_char p"

definition anchor_v2_ok :: "state_anchor_v2 \<Rightarrow> bool" where
  "anchor_v2_ok a \<longleftrightarrow>
     is_digest (av_fortress_lineage a) \<and> is_digest (av_semantic_world_root a) \<and>
     protocol_ok (av_bridge_protocol a)"

lemma anchor_validate_Ok: "anchor_validate a = Ok u \<longleftrightarrow> protocol_ok (av_bridge_protocol a)"
  by (auto simp: anchor_validate_def protocol_ok_def not_less)

lemma protocol_char_ascii: "protocol_char c \<Longrightarrow> (of_char c :: nat) < 128"
proof -
  have "of_char c \<le> (of_char d :: nat)" if "c \<le> d" for d
    using that by (simp add: less_eq_char_def)
  from this [of "CHR ''9''"] this [of "CHR ''Z''"] this [of "CHR ''z''"]
  show "protocol_char c \<Longrightarrow> (of_char c :: nat) < 128"
    by (auto simp: protocol_char_def)
qed

lemma protocol_ok_utf8: "protocol_ok p \<Longrightarrow> utf8_valid p"
  by (intro utf8_valid_ascii) (auto simp: protocol_ok_def list_all_iff protocol_char_ascii)

lemma rd_word1_Ok: "rd_word e (Suc 0) bs = Ok (b :: u8, rest) \<longleftrightarrow> bs = b # rest"
proof -
  have "be_bytes 1 (unat b) = [b]"
    using be_bytes_be_value [of "[b]"] be_value_snoc [of "[]" b] by simp
  then show ?thesis by (subst rd_word_Ok) simp_all
qed

lemma rd_word8_Ok: "rd_word e 8 bs = Ok (x :: u64, rest) \<longleftrightarrow> bs = be_bytes 8 (unat x) @ rest"
  by (rule rd_word_Ok) simp

lemma rd_anchor_body_inv:
  assumes "rd_anchor_body bs = Ok (a, rest)"
  shows "is_digest (av_fortress_lineage a) \<and> is_digest (av_semantic_world_root a) \<and>
    length (av_bridge_protocol a) < 256 \<and> bs = anchor_body_bytes a @ rest"
proof -
  have short: "unat (n :: u8) < 256" for n using unsigned_less [of n] by simp
  from assms show ?thesis
    by (auto simp: rd_anchor_body_def rd_bind_Ok_iff rd_take_Ok rd_word1_Ok rd_word8_Ok is_digest_def
        anchor_body_bytes_def short split: if_splits)
qed

lemma rd_raw_evals:
  "rd_word e 8 (be_bytes 8 (unat x) @ r) = Ok (x :: u64, r)"
  "rd_word e (Suc 0) (b # r) = Ok (b :: u8, r)"
  "length v = n \<Longrightarrow> rd_take e n (v @ r) = Ok (v, r)"
  "rd_word e 8 (be_bytes 8 0 @ r) = Ok (0 :: u64, r)"
  by (simp_all only: rd_word1_Ok rd_word8_Ok rd_take_Ok unat_0 simp_thms)

lemma rd_anchor_body_eval:
  assumes "anchor_v2_ok a"
  shows "rd_anchor_body (anchor_body_bytes a @ rest) = Ok (a, rest)"
proof -
  have "length (av_bridge_protocol a) < 256" "utf8_valid (av_bridge_protocol a)"
    using assms by (auto simp: anchor_v2_ok_def protocol_ok_def max_protocol_bytes_def
        intro: protocol_ok_utf8 [unfolded protocol_ok_def max_protocol_bytes_def])
  moreover have "unat (word_of_nat (length (av_bridge_protocol a)) :: u8) = length (av_bridge_protocol a)"
    using calculation(1) by (simp add: unat_of_nat)
  ultimately show ?thesis
    using assms
    by (cases "av_game_tick a")
      (simp_all add: rd_anchor_body_def anchor_body_bytes_def rd_bind_def rd_return_def
        anchor_v2_ok_def is_digest_def rd_raw_evals del: and_then_Ok_iff)
qed

lemma strip_prefix_Some: "strip_prefix p xs = Some ys \<longleftrightarrow> xs = p @ ys"
  by (auto simp: strip_prefix_def) (metis append_take_drop_id)

text \<open>
  The canonical encoding of a version tuple is read strictly: exactly the encodings of
  valid tuples are accepted, each as the tuple it encodes. Truncated, extended or otherwise
  non-canonical bytes are refused.
\<close>

theorem anchor_bytes_strict:
  "anchor_from_canonical_bytes bytes = Ok a \<longleftrightarrow>
   anchor_v2_ok a \<and> bytes = anchor_canonical_bytes a"
proof
  assume "anchor_from_canonical_bytes bytes = Ok a"
  then obtain rest where rest: "bytes = anchor_domain @ rest" "rd_anchor_body rest = Ok (a, [])"
    "protocol_ok (av_bridge_protocol a)"
    by (auto simp: anchor_from_canonical_bytes_def strip_prefix_Some anchor_validate_Ok
        split: if_splits)
  then show "anchor_v2_ok a \<and> bytes = anchor_canonical_bytes a"
    using rd_anchor_body_inv [OF rest(2)] by (simp add: anchor_v2_ok_def anchor_canonical_bytes_def)
next
  assume "anchor_v2_ok a \<and> bytes = anchor_canonical_bytes a"
  then show "anchor_from_canonical_bytes bytes = Ok a"
    using rd_anchor_body_eval [of a "[]"] strip_prefix_Some [of anchor_domain _ "anchor_body_bytes a"]
    by (auto simp: anchor_from_canonical_bytes_def anchor_canonical_bytes_def anchor_validate_Ok
        anchor_v2_ok_def)
qed

interpretation anchor_codec: strict_codec anchor_body_bytes
  "\<lambda>bs. and_then (rd_anchor_body bs) (\<lambda>(a, rest). and_then (anchor_validate a) (\<lambda>_. Ok (a, rest)))"
  anchor_v2_ok
proof (rule strict_codec_split)
  show "anchor_v2_ok a \<and> bs = anchor_body_bytes a @ rest"
    if "and_then (rd_anchor_body bs) (\<lambda>(a, rest). and_then (anchor_validate a) (\<lambda>_. Ok (a, rest)))
      = Ok (a, rest)" for bs a rest
    using that rd_anchor_body_inv [of bs a rest]
    by (auto simp: anchor_validate_Ok anchor_v2_ok_def split: prod.splits)
  show "and_then (rd_anchor_body (anchor_body_bytes a @ rest))
      (\<lambda>(a, rest). and_then (anchor_validate a) (\<lambda>_. Ok (a, rest))) = Ok (a, rest)"
    if "anchor_v2_ok a" for a rest
    using that by (simp add: rd_anchor_body_eval anchor_validate_Ok anchor_v2_ok_def)
qed

text \<open>
  The order of version tuples is the order of their bytes and agrees with equality: it is
  total, transitive, and two valid tuples that are below each other are the same tuple.
\<close>

theorem anchor_order_total:
  "(anchor_le a b \<or> anchor_le b a) \<and>
   (anchor_le a b \<longrightarrow> anchor_le b c \<longrightarrow> anchor_le a c) \<and>
   (anchor_v2_ok a \<longrightarrow> anchor_v2_ok b \<longrightarrow> anchor_le a b \<longrightarrow> anchor_le b a \<longrightarrow> a = b)"
proof -
  have "a = b" if "anchor_v2_ok a" "anchor_v2_ok b" "anchor_canonical_bytes a = anchor_canonical_bytes b"
    using that anchor_codec.enc_inject [of a b] by (simp add: anchor_canonical_bytes_def)
  then show ?thesis
    unfolding anchor_le_def by (meson linear order.trans order.antisym)
qed

lemma continuity_admits_iff:
  "admits_older_handles (continuity_from new old) \<longleftrightarrow>
   av_fortress_lineage new = av_fortress_lineage old \<and>
   av_bridge_protocol new = av_bridge_protocol old \<and>
   av_adapter_epoch new = av_adapter_epoch old \<and> av_schema_epoch new = av_schema_epoch old \<and>
   av_policy_epoch new = av_policy_epoch old \<and>
   av_observation_epoch new = av_observation_epoch old \<and>
   av_bridge_generation new = av_bridge_generation old \<and>
   (av_snapshot_sequence new > av_snapshot_sequence old \<or> new = old)"
  by (auto simp: admits_older_handles_def continuity_from_def)

text \<open>
  Keeping older handles alive is a partial order on version tuples: a version continues
  itself, two versions that continue each other are identical, and handles that survive two
  successive continuations survive their composition. A continuation never leaves the
  fortress lineage, the protocol, or any epoch.
\<close>

theorem continuity_partial_order:
  "admits_older_handles (continuity_from a a) \<and>
   (admits_older_handles (continuity_from a b) \<longrightarrow> admits_older_handles (continuity_from b a) \<longrightarrow> a = b) \<and>
   (admits_older_handles (continuity_from c b) \<longrightarrow> admits_older_handles (continuity_from b a) \<longrightarrow>
      admits_older_handles (continuity_from c a) \<and>
      av_observation_epoch c = av_observation_epoch a \<and>
      av_fortress_lineage c = av_fortress_lineage a \<and>
      av_bridge_generation c = av_bridge_generation a)"
  unfolding continuity_admits_iff by auto

subsection \<open>Concrete tuples\<close>

definition sample_anchor_v2 :: "u64 \<Rightarrow> state_anchor_v2" where
  "sample_anchor_v2 seq =
     \<lparr>av_fortress_lineage = digest_zero, av_observation_epoch = 1, av_snapshot_sequence = seq,
      av_game_tick = None, av_bridge_generation = 0, av_bridge_protocol = ''lab'',
      av_adapter_epoch = 1, av_schema_epoch = 1, av_policy_epoch = 1,
      av_semantic_world_root = digest_zero\<rparr>"

theorem continuity_partial_order_witness:
  "admits_older_handles (continuity_from (sample_anchor_v2 3) (sample_anchor_v2 1)) \<and>
   \<not> admits_older_handles (continuity_from (sample_anchor_v2 1) (sample_anchor_v2 3))"
  using continuity_partial_order [of "sample_anchor_v2 1" "sample_anchor_v2 2" "sample_anchor_v2 3"]
  by (simp add: continuity_admits_iff sample_anchor_v2_def)

theorem anchor_order_total_witness:
  "anchor_v2_ok (sample_anchor_v2 1) \<and>
   \<not> (anchor_le (sample_anchor_v2 1) (sample_anchor_v2 2) \<and>
      anchor_le (sample_anchor_v2 2) (sample_anchor_v2 1))"
proof -
  have ok: "anchor_v2_ok (sample_anchor_v2 n)" for n
    by (simp add: anchor_v2_ok_def sample_anchor_v2_def protocol_ok_def max_protocol_bytes_def
        protocol_char_def less_eq_char_def)
  have "sample_anchor_v2 1 \<noteq> sample_anchor_v2 2" by (simp add: sample_anchor_v2_def)
  with ok anchor_order_total [of "sample_anchor_v2 1" "sample_anchor_v2 2" "sample_anchor_v2 2"]
  show ?thesis by blast
qed

end
