(* ===== verification/World_Model.thy ===== *)
theory World_Model
  imports Codecs
begin

text \<open>
  \<^verbatim>\<open>crates/dfmcp-world/src/model.rs\<close>: facts, entities, edges, map chunks, events, the world graph
  and the snapshot, with their canonical encodings and the state hash over them. Constructors
  and fields follow the source; every map is an ordered map (\<open>btree_map\<close>), so that the
  encoders' iteration order is the list order.
\<close>

datatype entity_kind =
    EkFortress | EkUnit | EkItem | EkBuilding | EkJob | EkWorkOrder | EkStockpile | EkZone
  | EkBurrow | EkSquad | EkMilitaryOrder | EkTileFeature | EkPlant | EkCreature
  | EkHistoricalFigure | EkCivilization | EkAnnouncement | EkSyndrome | EkOther string

primrec entity_kind_str :: "entity_kind \<Rightarrow> string" where
  "entity_kind_str EkFortress = ''fortress''"
| "entity_kind_str EkUnit = ''unit''"
| "entity_kind_str EkItem = ''item''"
| "entity_kind_str EkBuilding = ''building''"
| "entity_kind_str EkJob = ''job''"
| "entity_kind_str EkWorkOrder = ''work_order''"
| "entity_kind_str EkStockpile = ''stockpile''"
| "entity_kind_str EkZone = ''zone''"
| "entity_kind_str EkBurrow = ''burrow''"
| "entity_kind_str EkSquad = ''squad''"
| "entity_kind_str EkMilitaryOrder = ''military_order''"
| "entity_kind_str EkTileFeature = ''tile_feature''"
| "entity_kind_str EkPlant = ''plant''"
| "entity_kind_str EkCreature = ''creature''"
| "entity_kind_str EkHistoricalFigure = ''historical_figure''"
| "entity_kind_str EkCivilization = ''civilization''"
| "entity_kind_str EkAnnouncement = ''announcement''"
| "entity_kind_str EkSyndrome = ''syndrome''"
| "entity_kind_str (EkOther value) = value"

datatype val =
    VNull
  | VBool bool
  | VI64 int
  | VU64 u64
  | VFixed (v_units: int) (v_scale: u32)
  | VText string
  | VEntity entity_id
  | VCoord map_coord
  | VBytes "u8 list"
  | VList "val list"
  | VObject "(string \<times> val) list"

definition enc_coord :: "map_coord \<Rightarrow> u8 list" where
  "enc_coord c = put_i32 (mx c) @ put_i32 (my c) @ put_i32 (mz c)"

fun enc_value :: "val \<Rightarrow> u8 list"
  and enc_values :: "val list \<Rightarrow> u8 list"
  and enc_fields :: "(string \<times> val) list \<Rightarrow> u8 list" where
  "enc_value VNull = [0]"
| "enc_value (VBool b) = 1 # put_bool b"
| "enc_value (VI64 i) = 2 # put_i64 i"
| "enc_value (VU64 u) = 3 # put_u64 u"
| "enc_value (VFixed units scale) = 4 # put_i64 units @ put_u32 scale"
| "enc_value (VText s) = 5 # put_str s"
| "enc_value (VEntity e) = 6 # put_u64 e"
| "enc_value (VCoord c) = 7 # enc_coord c"
| "enc_value (VBytes bs) = 8 # put_bytes bs"
| "enc_value (VList vs) = 9 # put_u64 (word_of_nat (length vs)) @ enc_values vs"
| "enc_value (VObject es) = 10 # put_u64 (word_of_nat (length es)) @ enc_fields es"
| "enc_values [] = []"
| "enc_values (v # vs) = enc_value v @ enc_values vs"
| "enc_fields [] = []"
| "enc_fields ((k, v) # es) = put_str k @ enc_value v @ enc_fields es"

definition enc_value_entry :: "string \<times> val \<Rightarrow> u8 list" where
  "enc_value_entry e = put_str (fst e) @ enc_value (snd e)"

type_synonym value_map = "(string, val) btree_map"

definition enc_value_map :: "value_map \<Rightarrow> u8 list" where
  "enc_value_map m = put_list enc_value_entry m"

datatype fact_presence =
    Known val
  | Absent
  | Unknown string
  | Unsupported string
  | Omitted string
  | Redacted string
  | Stale state_anchor

definition presence_is_known :: "fact_presence \<Rightarrow> bool" where
  "presence_is_known p = (case p of Known _ \<Rightarrow> True | _ \<Rightarrow> False)"

definition presence_as_known :: "fact_presence \<Rightarrow> val option" where
  "presence_as_known p = (case p of Known v \<Rightarrow> Some v | _ \<Rightarrow> None)"

definition presence_is_absent :: "fact_presence \<Rightarrow> bool" where
  "presence_is_absent p = (case p of Absent \<Rightarrow> True | _ \<Rightarrow> False)"

definition presence_is_stale :: "fact_presence \<Rightarrow> bool" where
  "presence_is_stale p = (case p of Stale _ \<Rightarrow> True | _ \<Rightarrow> False)"

primrec enc_presence :: "fact_presence \<Rightarrow> u8 list" where
  "enc_presence (Known v) = 0 # enc_value v"
| "enc_presence Absent = [1]"
| "enc_presence (Unknown r) = 2 # put_str r"
| "enc_presence (Unsupported r) = 3 # put_str r"
| "enc_presence (Omitted r) = 4 # put_str r"
| "enc_presence (Redacted r) = 5 # put_str r"
| "enc_presence (Stale a) = 6 # put_anchor a"

datatype fact_source =
    DfhackField string
  | Derived string
  | AgentAssertion string
  | Replay

primrec enc_source :: "fact_source \<Rightarrow> u8 list" where
  "enc_source (DfhackField s) = 0 # put_str s"
| "enc_source (Derived s) = 1 # put_str s"
| "enc_source (AgentAssertion s) = 2 # put_str s"
| "enc_source Replay = [3]"

record fact =
  fact_value :: val
  fact_observed_at :: game_tick
  fact_source :: fact_source
  fact_source_digest :: digest32
  fact_presence :: "fact_presence option"

definition known_value :: "fact \<Rightarrow> val option" where
  "known_value f =
     (case fact_presence f of
        None \<Rightarrow> Some (fact_value f)
      | Some (Known v) \<Rightarrow> if v = fact_value f then Some v else None
      | Some _ \<Rightarrow> None)"

definition fact_known :: "val \<Rightarrow> game_tick \<Rightarrow> fact_source \<Rightarrow> digest32 \<Rightarrow> fact" where
  "fact_known v observed_at source source_digest =
     \<lparr>fact_value = v, fact_observed_at = observed_at, fact_source = source,
      fact_source_digest = source_digest, fact_presence = None\<rparr>"

definition fact_with_presence :: "fact_presence \<Rightarrow> game_tick \<Rightarrow> fact_source \<Rightarrow> digest32 \<Rightarrow> fact" where
  "fact_with_presence presence observed_at source source_digest =
     \<lparr>fact_value = (case presence_as_known presence of Some v \<Rightarrow> v | None \<Rightarrow> VNull),
      fact_observed_at = observed_at, fact_source = source,
      fact_source_digest = source_digest, fact_presence = Some presence\<rparr>"

definition enc_fact :: "fact \<Rightarrow> u8 list" where
  "enc_fact f =
     enc_value (fact_value f) @ put_u64 (fact_observed_at f) @ enc_source (fact_source f) @
     put_bytes (fact_source_digest f) @ put_option enc_presence (fact_presence f)"

type_synonym fact_map = "(string, fact) btree_map"

definition enc_fact_entry :: "string \<times> fact \<Rightarrow> u8 list" where
  "enc_fact_entry e = put_str (fst e) @ enc_fact (snd e)"

definition enc_fact_map :: "fact_map \<Rightarrow> u8 list" where
  "enc_fact_map m = put_list enc_fact_entry m"

record entity_record =
  er_id :: entity_id
  er_generation :: u32
  er_revision :: u64
  er_kind :: entity_kind
  er_label :: string
  er_fields :: fact_map

definition enc_entity :: "entity_record \<Rightarrow> u8 list" where
  "enc_entity r =
     put_u64 (er_id r) @ put_u32 (er_generation r) @ put_u64 (er_revision r) @
     put_str (entity_kind_str (er_kind r)) @ put_str (er_label r) @ enc_fact_map (er_fields r)"

datatype edge_kind =
    LocatedAt | ContainedIn | AssignedTo | MemberOf | Performs | Requires | Produces | Uses
  | Supports | Threatens | OrderedBy | ParentOf | EdgeCustom string

primrec edge_kind_str :: "edge_kind \<Rightarrow> string" where
  "edge_kind_str LocatedAt = ''located_at''"
| "edge_kind_str ContainedIn = ''contained_in''"
| "edge_kind_str AssignedTo = ''assigned_to''"
| "edge_kind_str MemberOf = ''member_of''"
| "edge_kind_str Performs = ''performs''"
| "edge_kind_str Requires = ''requires''"
| "edge_kind_str Produces = ''produces''"
| "edge_kind_str Uses = ''uses''"
| "edge_kind_str Supports = ''supports''"
| "edge_kind_str Threatens = ''threatens''"
| "edge_kind_str OrderedBy = ''ordered_by''"
| "edge_kind_str ParentOf = ''parent_of''"
| "edge_kind_str (EdgeCustom value) = value"

record edge_record =
  ed_id :: edge_id
  ed_revision :: u64
  ed_kind :: edge_kind
  ed_from :: entity_id
  ed_to :: entity_id
  ed_fields :: fact_map

definition enc_edge :: "edge_record \<Rightarrow> u8 list" where
  "enc_edge r =
     put_u128 (ed_id r) @ put_u64 (ed_revision r) @ put_str (edge_kind_str (ed_kind r)) @
     put_u64 (ed_from r) @ put_u64 (ed_to r) @ enc_fact_map (ed_fields r)"

subsection \<open>Map chunks\<close>

text \<open>Chunk coordinates are map keys: ordered by their fields in declaration order.\<close>

datatype chunk_coord = ChunkCoord (cc_x: int) (cc_y: int) (cc_z: int)

instantiation chunk_coord :: linorder
begin

definition less_chunk_coord :: "chunk_coord \<Rightarrow> chunk_coord \<Rightarrow> bool" where
  "less_chunk_coord a b \<longleftrightarrow>
     cc_x a < cc_x b \<or> cc_x a = cc_x b \<and>
       (cc_y a < cc_y b \<or> cc_y a = cc_y b \<and> cc_z a < cc_z b)"

definition less_eq_chunk_coord :: "chunk_coord \<Rightarrow> chunk_coord \<Rightarrow> bool" where
  "less_eq_chunk_coord a b \<longleftrightarrow> a < b \<or> (a :: chunk_coord) = b"

instance
proof
  fix a b c :: chunk_coord
  show "(a < b) = (a \<le> b \<and> \<not> b \<le> a)"
    by (cases a; cases b) (auto simp: less_chunk_coord_def less_eq_chunk_coord_def)
  show "a \<le> a" by (simp add: less_eq_chunk_coord_def)
  show "a \<le> b \<Longrightarrow> b \<le> c \<Longrightarrow> a \<le> c"
    by (cases a; cases b; cases c) (auto simp: less_chunk_coord_def less_eq_chunk_coord_def)
  show "a \<le> b \<Longrightarrow> b \<le> a \<Longrightarrow> a = b"
    by (cases a; cases b) (auto simp: less_chunk_coord_def less_eq_chunk_coord_def)
  show "a \<le> b \<or> b \<le> a"
    by (cases a; cases b) (auto simp: less_chunk_coord_def less_eq_chunk_coord_def)
qed

end

definition enc_chunk_coord :: "chunk_coord \<Rightarrow> u8 list" where
  "enc_chunk_coord c = put_i32 (cc_x c) @ put_i32 (cc_y c) @ put_i32 (cc_z c)"

record terrain_run =
  tr_tile_code :: u32
  tr_length :: u32

definition enc_run :: "terrain_run \<Rightarrow> u8 list" where
  "enc_run r = put_u32 (tr_tile_code r) @ put_u32 (tr_length r)"

record map_chunk =
  mc_coord :: chunk_coord
  mc_revision :: u64
  mc_width :: u16
  mc_height :: u16
  mc_terrain_runs :: "terrain_run list"
  mc_sparse_overlays :: "(u32, value_map) btree_map"

text \<open>The product of two 16-bit numbers fits in 32 bits, so the source's multiplication is exact.\<close>

definition chunk_tile_count :: "map_chunk \<Rightarrow> u32" where
  "chunk_tile_count c = ucast (mc_width c) * ucast (mc_height c)"

fun sum_run_lengths :: "u32 \<Rightarrow> terrain_run list \<Rightarrow> u32 option" where
  "sum_run_lengths tot [] = Some tot"
| "sum_run_lengths tot (r # rs) =
     (case checked_add tot (tr_length r) of Some t \<Rightarrow> sum_run_lengths t rs | None \<Rightarrow> None)"

definition encoded_tile_count :: "map_chunk \<Rightarrow> u32 option" where
  "encoded_tile_count c = sum_run_lengths 0 (mc_terrain_runs c)"

definition enc_overlay :: "u32 \<times> value_map \<Rightarrow> u8 list" where
  "enc_overlay e = put_u32 (fst e) @ enc_value_map (snd e)"

definition enc_chunk :: "map_chunk \<Rightarrow> u8 list" where
  "enc_chunk c =
     enc_chunk_coord (mc_coord c) @ put_u64 (mc_revision c) @ put_u16 (mc_width c) @
     put_u16 (mc_height c) @ put_list enc_run (mc_terrain_runs c) @
     put_list enc_overlay (mc_sparse_overlays c)"

definition chunk_compute_hash :: "map_chunk \<Rightarrow> digest32" where
  "chunk_compute_hash c = digest_of_bytes (enc_chunk c)"

subsection \<open>Events, graph and snapshot\<close>

datatype world_event_kind =
    EvAnnouncement | EvJobChanged | EvUnitChanged | EvConstructionChanged | EvThreatDetected
  | EvSeasonChanged | EvAdapterNotice | EvOther string

primrec event_kind_str :: "world_event_kind \<Rightarrow> string" where
  "event_kind_str EvAnnouncement = ''announcement''"
| "event_kind_str EvJobChanged = ''job_changed''"
| "event_kind_str EvUnitChanged = ''unit_changed''"
| "event_kind_str EvConstructionChanged = ''construction_changed''"
| "event_kind_str EvThreatDetected = ''threat_detected''"
| "event_kind_str EvSeasonChanged = ''season_changed''"
| "event_kind_str EvAdapterNotice = ''adapter_notice''"
| "event_kind_str (EvOther value) = value"

record world_event =
  ev_id :: event_id
  ev_tick :: game_tick
  ev_kind :: world_event_kind
  ev_subject :: "entity_id option"
  ev_summary :: string
  ev_fields :: value_map

definition enc_event :: "world_event \<Rightarrow> u8 list" where
  "enc_event e =
     put_u128 (ev_id e) @ put_u64 (ev_tick e) @ put_str (event_kind_str (ev_kind e)) @
     put_option put_u64 (ev_subject e) @ put_str (ev_summary e) @ enc_value_map (ev_fields e)"

record world_graph =
  wg_entities :: "(entity_id, entity_record) btree_map"
  wg_edges :: "(edge_id, edge_record) btree_map"
  wg_chunks :: "(chunk_coord, map_chunk) btree_map"
  wg_events :: "(event_id, world_event) btree_map"

definition empty_graph :: world_graph where
  "empty_graph = \<lparr>wg_entities = [], wg_edges = [], wg_chunks = [], wg_events = []\<rparr>"

definition enc_graph :: "world_graph \<Rightarrow> u8 list" where
  "enc_graph g =
     put_list (\<lambda>e. enc_entity (snd e)) (wg_entities g) @
     put_list (\<lambda>e. enc_edge (snd e)) (wg_edges g) @
     put_list (\<lambda>e. enc_chunk (snd e)) (wg_chunks g) @
     put_list (\<lambda>e. enc_event (snd e)) (wg_events g)"

record world_snapshot =
  ws_fortress_id :: fortress_id
  ws_tick :: game_tick
  ws_cursor :: observation_cursor
  ws_paused :: bool
  ws_graph :: world_graph
  ws_state_hash :: digest32

definition snapshot_domain :: string where
  "snapshot_domain = ''dfmcp-world-snapshot-v1''"

definition snapshot_canonical_bytes :: "world_snapshot \<Rightarrow> u8 list" where
  "snapshot_canonical_bytes s =
     put_str snapshot_domain @ put_u64 (ws_fortress_id s) @ put_u64 (ws_tick s) @
     put_u64 (cur_epoch (ws_cursor s)) @ put_u64 (cur_sequence (ws_cursor s)) @
     put_bool (ws_paused s) @ enc_graph (ws_graph s)"

definition snapshot_compute_hash :: "world_snapshot \<Rightarrow> digest32" where
  "snapshot_compute_hash s = digest_of_bytes (snapshot_canonical_bytes s)"

definition refresh_hash :: "world_snapshot \<Rightarrow> world_snapshot" where
  "refresh_hash s = s\<lparr>ws_state_hash := snapshot_compute_hash s\<rparr>"

definition world_snapshot_new ::
  "fortress_id \<Rightarrow> game_tick \<Rightarrow> observation_cursor \<Rightarrow> bool \<Rightarrow> world_graph \<Rightarrow> world_snapshot" where
  "world_snapshot_new fortress_id tick cursor paused graph =
     refresh_hash \<lparr>ws_fortress_id = fortress_id, ws_tick = tick, ws_cursor = cursor,
       ws_paused = paused, ws_graph = graph, ws_state_hash = digest_zero\<rparr>"

definition snapshot_anchor :: "world_snapshot \<Rightarrow> state_anchor" where
  "snapshot_anchor s =
     \<lparr>sa_fortress_id = ws_fortress_id s, sa_cursor = ws_cursor s, sa_tick = ws_tick s,
      sa_state_hash = ws_state_hash s\<rparr>"

definition hash_is_valid :: "world_snapshot \<Rightarrow> bool" where
  "hash_is_valid s \<longleftrightarrow> ws_state_hash s = snapshot_compute_hash s"

subsection \<open>Basic facts\<close>

lemma enc_values_concat: "enc_values vs = concat (map enc_value vs)"
  by (induction vs) auto

lemma enc_fields_concat: "enc_fields es = concat (map enc_value_entry es)"
  by (induction es) (auto simp: enc_value_entry_def)

lemma enc_value_collections:
  "enc_value (VList vs) = 9 # put_list enc_value vs"
  "enc_value (VObject es) = 10 # enc_value_map es"
  by (simp_all add: put_list_def enc_value_map_def enc_values_concat enc_fields_concat)

lemma snapshot_bytes_hash_irrelevant [simp]:
  "snapshot_canonical_bytes (s\<lparr>ws_state_hash := h\<rparr>) = snapshot_canonical_bytes s"
  by (simp add: snapshot_canonical_bytes_def)

lemma hash_is_valid_refresh [simp]: "hash_is_valid (refresh_hash s)"
  by (simp add: hash_is_valid_def refresh_hash_def snapshot_compute_hash_def)

lemma hash_is_valid_new [simp]: "hash_is_valid (world_snapshot_new f t c p g)"
  by (simp add: world_snapshot_new_def)

lemma world_snapshot_new_fields [simp]:
  "ws_fortress_id (world_snapshot_new f t c p g) = f"
  "ws_tick (world_snapshot_new f t c p g) = t"
  "ws_cursor (world_snapshot_new f t c p g) = c"
  "ws_paused (world_snapshot_new f t c p g) = p"
  "ws_graph (world_snapshot_new f t c p g) = g"
  by (simp_all add: world_snapshot_new_def refresh_hash_def)

lemma is_digest_hash [simp]: "is_digest (snapshot_compute_hash s)"
  by (simp add: snapshot_compute_hash_def)

end
