(* ===== verification/Canonical_Decode.thy ===== *)
theory Canonical_Decode
  imports World_Model
begin

text \<open>
  \<^verbatim>\<open>crates/dfmcp-world/src/canonical_decode.rs\<close>: the strict decoder of canonical snapshots. Every
  reader is shown to accept exactly the encodings of well-formed values (\<open>strict_codec\<close>), the
  whole snapshot included, so a stored snapshot decodes to the value whose bytes were stored,
  the final re-encoding check never fires, and equal bytes mean equal values.
\<close>

definition max_canonical_snapshot_bytes :: nat where
  "max_canonical_snapshot_bytes = 256 * 1024 * 1024"

definition max_value_depth :: nat where
  "max_value_depth = 64"

definition entity_kind_names :: "(string \<times> entity_kind) list" where
  "entity_kind_names =
     [(''fortress'', EkFortress), (''unit'', EkUnit), (''item'', EkItem),
      (''building'', EkBuilding), (''job'', EkJob), (''work_order'', EkWorkOrder),
      (''stockpile'', EkStockpile), (''zone'', EkZone), (''burrow'', EkBurrow),
      (''squad'', EkSquad), (''military_order'', EkMilitaryOrder),
      (''tile_feature'', EkTileFeature), (''plant'', EkPlant), (''creature'', EkCreature),
      (''historical_figure'', EkHistoricalFigure), (''civilization'', EkCivilization),
      (''announcement'', EkAnnouncement), (''syndrome'', EkSyndrome)]"

definition entity_kind_from_name :: "string \<Rightarrow> entity_kind" where
  "entity_kind_from_name name =
     (case map_of entity_kind_names name of Some k \<Rightarrow> k | None \<Rightarrow> EkOther name)"

definition edge_kind_names :: "(string \<times> edge_kind) list" where
  "edge_kind_names =
     [(''located_at'', LocatedAt), (''contained_in'', ContainedIn), (''assigned_to'', AssignedTo),
      (''member_of'', MemberOf), (''performs'', Performs), (''requires'', Requires),
      (''produces'', Produces), (''uses'', Uses), (''supports'', Supports),
      (''threatens'', Threatens), (''ordered_by'', OrderedBy), (''parent_of'', ParentOf)]"

definition edge_kind_from_name :: "string \<Rightarrow> edge_kind" where
  "edge_kind_from_name name =
     (case map_of edge_kind_names name of Some k \<Rightarrow> k | None \<Rightarrow> EdgeCustom name)"

definition event_kind_names :: "(string \<times> world_event_kind) list" where
  "event_kind_names =
     [(''announcement'', EvAnnouncement), (''job_changed'', EvJobChanged),
      (''unit_changed'', EvUnitChanged), (''construction_changed'', EvConstructionChanged),
      (''threat_detected'', EvThreatDetected), (''season_changed'', EvSeasonChanged),
      (''adapter_notice'', EvAdapterNotice)]"

definition event_kind_from_name :: "string \<Rightarrow> world_event_kind" where
  "event_kind_from_name name =
     (case map_of event_kind_names name of Some k \<Rightarrow> k | None \<Rightarrow> EvOther name)"

definition dec_coord :: "(map_coord, dfmcp_error) reader" where
  "dec_coord = rd_bind rd_i32 (\<lambda>x. rd_bind rd_i32 (\<lambda>y. rd_bind rd_i32 (\<lambda>z.
     rd_return \<lparr>mx = x, my = y, mz = z\<rparr>)))"

text \<open>
  One level of a value, given the reader of the nested values: \<^verbatim>\<open>value\<close> calls itself one level
  deeper, directly for lists and through \<^verbatim>\<open>value_map\<close> for objects.
\<close>

definition dec_value_body :: "(val, dfmcp_error) reader \<Rightarrow> (val, dfmcp_error) reader" where
  "dec_value_body nested =
     rd_bind rd_u8 (\<lambda>tag.
       if tag = 0 then rd_return VNull
       else if tag = 1 then rd_bind rd_bool (\<lambda>b. rd_return (VBool b))
       else if tag = 2 then rd_bind rd_i64 (\<lambda>i. rd_return (VI64 i))
       else if tag = 3 then rd_bind rd_u64 (\<lambda>u. rd_return (VU64 u))
       else if tag = 4 then rd_bind rd_i64 (\<lambda>i. rd_bind rd_u32 (\<lambda>s. rd_return (VFixed i s)))
       else if tag = 5 then rd_bind rd_string (\<lambda>s. rd_return (VText s))
       else if tag = 6 then rd_bind rd_u64 (\<lambda>e. rd_return (VEntity e))
       else if tag = 7 then rd_bind dec_coord (\<lambda>c. rd_return (VCoord c))
       else if tag = 8 then rd_bind rd_bytes (\<lambda>b. rd_return (VBytes b))
       else if tag = 9 then rd_bind (rd_list 1 nested) (\<lambda>vs. rd_return (VList vs))
       else if tag = 10 then
         rd_bind (rd_btree 9 (rd_entry rd_string nested)) (\<lambda>es. rd_return (VObject es))
       else rd_fail corrupt)"

function dec_value :: "nat \<Rightarrow> (val, dfmcp_error) reader" where
  "dec_value depth =
     (if depth > max_value_depth then rd_fail corrupt
      else dec_value_body (dec_value (depth + 1)))"
  by auto
termination
  by (relation "measure (\<lambda>d. Suc max_value_depth - d)") auto

declare dec_value.simps [simp del]

definition dec_value_map :: "nat \<Rightarrow> (value_map, dfmcp_error) reader" where
  "dec_value_map depth = rd_btree 9 (rd_entry rd_string (dec_value depth))"

definition dec_presence :: "(fact_presence, dfmcp_error) reader" where
  "dec_presence =
     rd_bind rd_u8 (\<lambda>tag.
       if tag = 0 then rd_bind (dec_value 0) (\<lambda>v. rd_return (Known v))
       else if tag = 1 then rd_return Absent
       else if tag = 2 then rd_bind rd_string (\<lambda>r. rd_return (Unknown r))
       else if tag = 3 then rd_bind rd_string (\<lambda>r. rd_return (Unsupported r))
       else if tag = 4 then rd_bind rd_string (\<lambda>r. rd_return (Omitted r))
       else if tag = 5 then rd_bind rd_string (\<lambda>r. rd_return (Redacted r))
       else if tag = 6 then rd_bind rd_anchor (\<lambda>a. rd_return (Stale a))
       else rd_fail corrupt)"

definition dec_source :: "(fact_source, dfmcp_error) reader" where
  "dec_source =
     rd_bind rd_u8 (\<lambda>tag.
       if tag = 0 then rd_bind rd_string (\<lambda>s. rd_return (DfhackField s))
       else if tag = 1 then rd_bind rd_string (\<lambda>s. rd_return (Derived s))
       else if tag = 2 then rd_bind rd_string (\<lambda>s. rd_return (AgentAssertion s))
       else if tag = 3 then rd_return Replay
       else rd_fail corrupt)"

definition dec_fact :: "(fact, dfmcp_error) reader" where
  "dec_fact =
     rd_bind (dec_value 0) (\<lambda>value.
     rd_bind rd_u64 (\<lambda>observed_at.
     rd_bind dec_source (\<lambda>source.
     rd_bind rd_digest (\<lambda>source_digest.
     rd_bind (rd_option dec_presence) (\<lambda>presence.
       rd_return \<lparr>fact_value = value, fact_observed_at = observed_at, fact_source = source,
                  fact_source_digest = source_digest, fact_presence = presence\<rparr>)))))"

definition dec_fact_map :: "(fact_map, dfmcp_error) reader" where
  "dec_fact_map = rd_btree 9 (rd_entry rd_string dec_fact)"

definition dec_entity :: "(entity_record, dfmcp_error) reader" where
  "dec_entity =
     rd_bind rd_u64 (\<lambda>id.
     rd_bind rd_u32 (\<lambda>generation.
     rd_bind rd_u64 (\<lambda>revision.
     rd_bind rd_string (\<lambda>kind.
     rd_bind rd_string (\<lambda>label.
     rd_bind dec_fact_map (\<lambda>fields.
       rd_return \<lparr>er_id = id, er_generation = generation, er_revision = revision,
                  er_kind = entity_kind_from_name kind, er_label = label, er_fields = fields\<rparr>))))))"

definition dec_edge :: "(edge_record, dfmcp_error) reader" where
  "dec_edge =
     rd_bind rd_u128 (\<lambda>id.
     rd_bind rd_u64 (\<lambda>revision.
     rd_bind rd_string (\<lambda>kind.
     rd_bind rd_u64 (\<lambda>from.
     rd_bind rd_u64 (\<lambda>to.
     rd_bind dec_fact_map (\<lambda>fields.
       rd_return \<lparr>ed_id = id, ed_revision = revision, ed_kind = edge_kind_from_name kind,
                  ed_from = from, ed_to = to, ed_fields = fields\<rparr>))))))"

definition dec_chunk_coord :: "(chunk_coord, dfmcp_error) reader" where
  "dec_chunk_coord = rd_bind rd_i32 (\<lambda>x. rd_bind rd_i32 (\<lambda>y. rd_bind rd_i32 (\<lambda>z.
     rd_return (ChunkCoord x y z))))"

definition dec_run :: "(terrain_run, dfmcp_error) reader" where
  "dec_run = rd_bind rd_u32 (\<lambda>code. rd_bind rd_u32 (\<lambda>len.
     rd_return \<lparr>tr_tile_code = code, tr_length = len\<rparr>))"

definition dec_chunk :: "(map_chunk, dfmcp_error) reader" where
  "dec_chunk =
     rd_bind dec_chunk_coord (\<lambda>coord.
     rd_bind rd_u64 (\<lambda>revision.
     rd_bind rd_u16 (\<lambda>width.
     rd_bind rd_u16 (\<lambda>height.
     rd_bind (rd_list 8 dec_run) (\<lambda>terrain_runs.
     rd_bind (rd_btree 12 (rd_entry rd_u32 (dec_value_map 1))) (\<lambda>sparse_overlays.
       rd_return \<lparr>mc_coord = coord, mc_revision = revision, mc_width = width, mc_height = height,
                  mc_terrain_runs = terrain_runs, mc_sparse_overlays = sparse_overlays\<rparr>))))))"

definition dec_event :: "(world_event, dfmcp_error) reader" where
  "dec_event =
     rd_bind rd_u128 (\<lambda>id.
     rd_bind rd_u64 (\<lambda>tick.
     rd_bind rd_string (\<lambda>kind.
     rd_bind (rd_option rd_u64) (\<lambda>subject.
     rd_bind rd_string (\<lambda>summary.
     rd_bind (dec_value_map 1) (\<lambda>fields.
       rd_return \<lparr>ev_id = id, ev_tick = tick, ev_kind = event_kind_from_name kind,
                  ev_subject = subject, ev_summary = summary, ev_fields = fields\<rparr>))))))"

definition dec_graph :: "(world_graph, dfmcp_error) reader" where
  "dec_graph =
     rd_bind (rd_btree 8 (rd_keyed er_id dec_entity)) (\<lambda>entities.
     rd_bind (rd_btree 16 (rd_keyed ed_id dec_edge)) (\<lambda>edges.
     rd_bind (rd_btree 12 (rd_keyed mc_coord dec_chunk)) (\<lambda>chunks.
     rd_bind (rd_btree 16 (rd_keyed ev_id dec_event)) (\<lambda>events.
       rd_return \<lparr>wg_entities = entities, wg_edges = edges, wg_chunks = chunks,
                  wg_events = events\<rparr>))))"

definition dec_snapshot_body :: "digest32 \<Rightarrow> (world_snapshot, dfmcp_error) reader" where
  "dec_snapshot_body state_hash =
     rd_bind rd_string (\<lambda>domain.
     if domain \<noteq> snapshot_domain then rd_fail corrupt else
     rd_bind rd_u64 (\<lambda>fortress_id.
     rd_bind rd_u64 (\<lambda>tick.
     rd_bind rd_u64 (\<lambda>epoch.
     rd_bind rd_u64 (\<lambda>sequence.
     rd_bind rd_bool (\<lambda>paused.
     rd_bind dec_graph (\<lambda>graph.
       rd_return \<lparr>ws_fortress_id = fortress_id, ws_tick = tick,
                  ws_cursor = ObservationCursor epoch sequence, ws_paused = paused,
                  ws_graph = graph, ws_state_hash = state_hash\<rparr>)))))))"

definition snapshot_from_canonical_bytes :: "u8 list \<Rightarrow> world_snapshot res" where
  "snapshot_from_canonical_bytes bytes =
     (if length bytes > max_canonical_snapshot_bytes then Err corrupt
      else
        and_then (dec_snapshot_body (digest_of_bytes bytes) bytes) (\<lambda>(snapshot, rest).
          if rest \<noteq> [] then Err corrupt
          else if snapshot_canonical_bytes snapshot \<noteq> bytes then Err corrupt
          else Ok snapshot))"

subsection \<open>Well-formed values\<close>

text \<open>
  What the decoder accepts: bounded nesting, valid text, signed numbers in range, maps in
  ascending key order, 32-byte digests, records stored under their own key, and no reserved
  name inside an \<^verbatim>\<open>Other\<close> or \<^verbatim>\<open>Custom\<close> variant (such a value has the bytes of the dedicated
  variant). Everything else the Rust types guarantee.
\<close>

definition coord_ok :: "map_coord \<Rightarrow> bool" where
  "coord_ok c \<longleftrightarrow> i32_range (mx c) \<and> i32_range (my c) \<and> i32_range (mz c)"

fun value_ok_body :: "(val \<Rightarrow> bool) \<Rightarrow> val \<Rightarrow> bool" where
  "value_ok_body nested (VI64 i) = i64_range i"
| "value_ok_body nested (VFixed u s) = i64_range u"
| "value_ok_body nested (VText s) = text_ok s"
| "value_ok_body nested (VCoord c) = coord_ok c"
| "value_ok_body nested (VBytes b) = (length b < 2 ^ 64)"
| "value_ok_body nested (VList vs) = list_ok 1 nested vs"
| "value_ok_body nested (VObject es) = btree_ok 9 (\<lambda>e. text_ok (fst e) \<and> nested (snd e)) es"
| "value_ok_body nested _ = True"

function value_ok :: "nat \<Rightarrow> val \<Rightarrow> bool" where
  "value_ok depth v =
     (if depth > max_value_depth then False else value_ok_body (value_ok (depth + 1)) v)"
  by auto
termination
  by (relation "measure (\<lambda>(d, v). Suc max_value_depth - d)") auto

declare value_ok.simps [simp del]

definition value_map_ok :: "nat \<Rightarrow> value_map \<Rightarrow> bool" where
  "value_map_ok depth = btree_ok 9 (\<lambda>e. text_ok (fst e) \<and> value_ok depth (snd e))"

fun presence_ok :: "fact_presence \<Rightarrow> bool" where
  "presence_ok (Known v) = value_ok 0 v"
| "presence_ok Absent = True"
| "presence_ok (Unknown r) = text_ok r"
| "presence_ok (Unsupported r) = text_ok r"
| "presence_ok (Omitted r) = text_ok r"
| "presence_ok (Redacted r) = text_ok r"
| "presence_ok (Stale a) = anchor_ok a"

fun source_ok :: "fact_source \<Rightarrow> bool" where
  "source_ok (DfhackField s) = text_ok s"
| "source_ok (Derived s) = text_ok s"
| "source_ok (AgentAssertion s) = text_ok s"
| "source_ok Replay = True"

definition fact_ok :: "fact \<Rightarrow> bool" where
  "fact_ok f \<longleftrightarrow> value_ok 0 (fact_value f) \<and> source_ok (fact_source f) \<and>
     is_digest (fact_source_digest f) \<and> option_ok presence_ok (fact_presence f)"

definition fact_map_ok :: "fact_map \<Rightarrow> bool" where
  "fact_map_ok = btree_ok 9 (\<lambda>e. text_ok (fst e) \<and> fact_ok (snd e))"

definition entity_ok :: "entity_record \<Rightarrow> bool" where
  "entity_ok r \<longleftrightarrow> entity_kind_from_name (entity_kind_str (er_kind r)) = er_kind r \<and>
     text_ok (entity_kind_str (er_kind r)) \<and> text_ok (er_label r) \<and> fact_map_ok (er_fields r)"

definition edge_ok :: "edge_record \<Rightarrow> bool" where
  "edge_ok r \<longleftrightarrow> edge_kind_from_name (edge_kind_str (ed_kind r)) = ed_kind r \<and>
     text_ok (edge_kind_str (ed_kind r)) \<and> fact_map_ok (ed_fields r)"

definition chunk_coord_ok :: "chunk_coord \<Rightarrow> bool" where
  "chunk_coord_ok c \<longleftrightarrow> i32_range (cc_x c) \<and> i32_range (cc_y c) \<and> i32_range (cc_z c)"

definition chunk_ok :: "map_chunk \<Rightarrow> bool" where
  "chunk_ok c \<longleftrightarrow> chunk_coord_ok (mc_coord c) \<and> list_ok 8 (\<lambda>_. True) (mc_terrain_runs c) \<and>
     btree_ok 12 (\<lambda>e. value_map_ok 1 (snd e)) (mc_sparse_overlays c)"

definition event_ok :: "world_event \<Rightarrow> bool" where
  "event_ok e \<longleftrightarrow> event_kind_from_name (event_kind_str (ev_kind e)) = ev_kind e \<and>
     text_ok (event_kind_str (ev_kind e)) \<and> text_ok (ev_summary e) \<and> value_map_ok 1 (ev_fields e)"

definition graph_ok :: "world_graph \<Rightarrow> bool" where
  "graph_ok g \<longleftrightarrow>
     btree_ok 8 (\<lambda>e. fst e = er_id (snd e) \<and> entity_ok (snd e)) (wg_entities g) \<and>
     btree_ok 16 (\<lambda>e. fst e = ed_id (snd e) \<and> edge_ok (snd e)) (wg_edges g) \<and>
     btree_ok 12 (\<lambda>e. fst e = mc_coord (snd e) \<and> chunk_ok (snd e)) (wg_chunks g) \<and>
     btree_ok 16 (\<lambda>e. fst e = ev_id (snd e) \<and> event_ok (snd e)) (wg_events g)"

subsection \<open>Every reader is a strict codec\<close>

lemmas rd_inv = rd_bind_Ok_iff rd_return_Ok_iff rd_fail_Ok_iff
lemmas rd_run = rd_bind_def rd_return_def

lemma strict_u32: "strict_codec put_u32 rd_u32 (\<lambda>_. True)"
  by (rule strict_codecI) (simp add: rd_iffs)

lemma strict_u64: "strict_codec put_u64 rd_u64 (\<lambda>_. True)"
  by (rule strict_codecI) (simp add: rd_iffs)

lemma strict_coord: "strict_codec enc_coord dec_coord coord_ok"
proof (rule strict_codec_split)
  show "coord_ok x \<and> bs = enc_coord x @ rest" if "dec_coord bs = Ok (x, rest)" for bs x rest
    using that by (auto simp: dec_coord_def rd_inv rd_iffs enc_coord_def coord_ok_def)
  show "dec_coord (enc_coord x @ rest) = Ok (x, rest)" if "coord_ok x" for x rest
    using that
    by (simp add: dec_coord_def enc_coord_def coord_ok_def rd_run rd_evals del: and_then_Ok_iff)
qed

lemmas rd_coord_iff [rd_iffs] = strict_codecD [OF strict_coord]
lemmas rd_coord_eval [rd_evals] = strict_codec_eval [OF strict_coord]

lemma enc_value_nonempty: "1 \<le> length (enc_value v)"
  by (cases v) auto

lemma strict_value_body:
  assumes nested: "strict_codec enc_value dec ok"
  shows "strict_codec enc_value (dec_value_body dec) (value_ok_body ok)"
proof -
  have l: "strict_codec (put_list enc_value) (rd_list (Suc 0) dec) (list_ok (Suc 0) ok)"
    by (rule strict_list [OF nested]) (use enc_value_nonempty in \<open>simp add: Suc_le_eq\<close>)
  have "strict_codec enc_value_entry (rd_entry rd_string dec) (\<lambda>e. text_ok (fst e) \<and> ok (snd e))"
    unfolding enc_value_entry_def [abs_def] by (rule strict_entry [OF strict_string nested])
  then have o: "strict_codec enc_value_map (rd_btree 9 (rd_entry rd_string dec))
      (btree_ok 9 (\<lambda>e. text_ok (fst e) \<and> ok (snd e)))"
    unfolding enc_value_map_def [abs_def]
    by (rule strict_btree)
      (use enc_value_nonempty in \<open>auto simp: enc_value_entry_def Suc_le_eq\<close>)
  show ?thesis
  proof (rule strict_codec_split)
    fix bs v rest assume "dec_value_body dec bs = Ok (v, rest)"
    then show "value_ok_body ok v \<and> bs = enc_value v @ rest"
      unfolding dec_value_body_def
      by (auto simp: rd_inv rd_iffs strict_codecD [OF l] strict_codecD [OF o] enc_value_collections
          simp del: enc_value.simps(10,11) split: if_splits)
  next
    fix v rest assume "value_ok_body ok v"
    then show "dec_value_body dec (enc_value v @ rest) = Ok (v, rest)"
      by (cases v) (simp_all add: dec_value_body_def rd_run rd_evals strict_codec_eval [OF l]
          strict_codec_eval [OF o] enc_value_collections del: enc_value.simps(10,11) and_then_Ok_iff)
  qed
qed

lemma strict_value: "strict_codec enc_value (dec_value d) (value_ok d)"
proof (induction d rule: dec_value.induct)
  case (1 d)
  show ?case
  proof (cases "d > max_value_depth")
    case True
    have "dec_value d = rd_fail corrupt" using True by (simp add: dec_value.simps)
    moreover have "value_ok d = (\<lambda>_. False)" using True by (simp add: value_ok.simps fun_eq_iff)
    ultimately show ?thesis by (simp add: strict_codec_iff)
  next
    case False
    have "dec_value d = dec_value_body (dec_value (d + 1))"
      using False by (subst dec_value.simps) simp
    moreover have "value_ok d = value_ok_body (value_ok (d + 1))"
      using False by (subst value_ok.simps [abs_def]) (simp add: fun_eq_iff)
    ultimately show ?thesis using strict_value_body [OF 1 [OF False]] by simp
  qed
qed

lemmas rd_value_iff [rd_iffs] = strict_codecD [OF strict_value]
lemmas rd_value_eval [rd_evals] = strict_codec_eval [OF strict_value]

lemma strict_value_map: "strict_codec enc_value_map (dec_value_map d) (value_map_ok d)"
proof -
  have "strict_codec enc_value_entry (rd_entry rd_string (dec_value d))
      (\<lambda>e. text_ok (fst e) \<and> value_ok d (snd e))"
    unfolding enc_value_entry_def [abs_def] by (rule strict_entry [OF strict_string strict_value])
  then show ?thesis
    unfolding enc_value_map_def [abs_def] dec_value_map_def value_map_ok_def
    by (rule strict_btree)
      (use enc_value_nonempty in \<open>auto simp: enc_value_entry_def Suc_le_eq\<close>)
qed

lemmas rd_value_map_iff [rd_iffs] = strict_codecD [OF strict_value_map]
lemmas rd_value_map_eval [rd_evals] = strict_codec_eval [OF strict_value_map]

lemma strict_presence: "strict_codec enc_presence dec_presence presence_ok"
proof (rule strict_codec_split)
  fix bs p rest assume "dec_presence bs = Ok (p, rest)"
  then show "presence_ok p \<and> bs = enc_presence p @ rest"
    by (auto simp: dec_presence_def rd_inv rd_iffs split: if_splits)
next
  fix p rest assume "presence_ok p"
  then show "dec_presence (enc_presence p @ rest) = Ok (p, rest)"
    by (cases p) (simp_all add: dec_presence_def rd_run rd_evals del: and_then_Ok_iff)
qed

lemma strict_source: "strict_codec enc_source dec_source source_ok"
proof (rule strict_codec_split)
  fix bs p rest assume "dec_source bs = Ok (p, rest)"
  then show "source_ok p \<and> bs = enc_source p @ rest"
    by (auto simp: dec_source_def rd_inv rd_iffs split: if_splits)
next
  fix p rest assume "source_ok p"
  then show "dec_source (enc_source p @ rest) = Ok (p, rest)"
    by (cases p) (simp_all add: dec_source_def rd_run rd_evals del: and_then_Ok_iff)
qed

lemmas rd_fact_part_iffs [rd_iffs] =
  strict_codecD [OF strict_source] strict_codecD [OF strict_option [OF strict_presence]]
lemmas rd_fact_part_evals [rd_evals] =
  strict_codec_eval [OF strict_source] strict_codec_eval [OF strict_option [OF strict_presence]]

lemma strict_fact: "strict_codec enc_fact dec_fact fact_ok"
proof (rule strict_codec_split)
  show "fact_ok x \<and> bs = enc_fact x @ rest" if "dec_fact bs = Ok (x, rest)" for bs x rest
    using that by (auto simp: dec_fact_def rd_inv rd_iffs enc_fact_def fact_ok_def)
  show "dec_fact (enc_fact x @ rest) = Ok (x, rest)" if "fact_ok x" for x rest
    using that
    by (simp add: dec_fact_def enc_fact_def fact_ok_def rd_run rd_evals del: and_then_Ok_iff)
qed

lemma enc_fact_nonempty: "1 \<le> length (enc_fact f)"
  using enc_value_nonempty [of "fact_value f"] by (simp add: enc_fact_def)

lemma strict_fact_map: "strict_codec enc_fact_map dec_fact_map fact_map_ok"
proof -
  have "strict_codec enc_fact_entry (rd_entry rd_string dec_fact)
      (\<lambda>e. text_ok (fst e) \<and> fact_ok (snd e))"
    unfolding enc_fact_entry_def [abs_def] by (rule strict_entry [OF strict_string strict_fact])
  then show ?thesis
    unfolding enc_fact_map_def [abs_def] dec_fact_map_def fact_map_ok_def
    by (rule strict_btree)
      (use enc_fact_nonempty in \<open>auto simp: enc_fact_entry_def Suc_le_eq\<close>)
qed

lemmas rd_fact_map_iff [rd_iffs] = strict_codecD [OF strict_fact_map]
lemmas rd_fact_map_eval [rd_evals] = strict_codec_eval [OF strict_fact_map]

lemma kind_str_from_name [simp]:
  "entity_kind_str (entity_kind_from_name s) = s"
  "edge_kind_str (edge_kind_from_name s) = s"
  "event_kind_str (event_kind_from_name s) = s"
proof -
  have "\<forall>(n, k) \<in> set entity_kind_names. entity_kind_str k = n"
    by (simp add: entity_kind_names_def)
  then show "entity_kind_str (entity_kind_from_name s) = s"
    by (auto simp: entity_kind_from_name_def dest: map_of_SomeD split: option.splits)
  have "\<forall>(n, k) \<in> set edge_kind_names. edge_kind_str k = n"
    by (simp add: edge_kind_names_def)
  then show "edge_kind_str (edge_kind_from_name s) = s"
    by (auto simp: edge_kind_from_name_def dest: map_of_SomeD split: option.splits)
  have "\<forall>(n, k) \<in> set event_kind_names. event_kind_str k = n"
    by (simp add: event_kind_names_def)
  then show "event_kind_str (event_kind_from_name s) = s"
    by (auto simp: event_kind_from_name_def dest: map_of_SomeD split: option.splits)
qed

lemma strict_entity: "strict_codec enc_entity dec_entity entity_ok"
proof (rule strict_codec_split)
  show "entity_ok x \<and> bs = enc_entity x @ rest" if "dec_entity bs = Ok (x, rest)" for bs x rest
    using that by (auto simp: dec_entity_def rd_inv rd_iffs enc_entity_def entity_ok_def)
  show "dec_entity (enc_entity x @ rest) = Ok (x, rest)" if "entity_ok x" for x rest
    using that
    by (simp add: dec_entity_def enc_entity_def entity_ok_def rd_run rd_evals del: and_then_Ok_iff)
qed

lemma strict_edge: "strict_codec enc_edge dec_edge edge_ok"
proof (rule strict_codec_split)
  show "edge_ok x \<and> bs = enc_edge x @ rest" if "dec_edge bs = Ok (x, rest)" for bs x rest
    using that by (auto simp: dec_edge_def rd_inv rd_iffs enc_edge_def edge_ok_def)
  show "dec_edge (enc_edge x @ rest) = Ok (x, rest)" if "edge_ok x" for x rest
    using that
    by (simp add: dec_edge_def enc_edge_def edge_ok_def rd_run rd_evals del: and_then_Ok_iff)
qed

lemma strict_chunk_coord: "strict_codec enc_chunk_coord dec_chunk_coord chunk_coord_ok"
proof (rule strict_codec_split)
  show "chunk_coord_ok x \<and> bs = enc_chunk_coord x @ rest" if "dec_chunk_coord bs = Ok (x, rest)" for bs x rest
    using that by (auto simp: dec_chunk_coord_def rd_inv rd_iffs enc_chunk_coord_def chunk_coord_ok_def)
  show "dec_chunk_coord (enc_chunk_coord x @ rest) = Ok (x, rest)" if "chunk_coord_ok x" for x rest
    using that
    by (simp add: dec_chunk_coord_def enc_chunk_coord_def chunk_coord_ok_def rd_run rd_evals
        del: and_then_Ok_iff)
qed

lemma strict_run: "strict_codec enc_run dec_run (\<lambda>_. True)"
proof (rule strict_codec_split)
  show "True \<and> bs = enc_run x @ rest" if "dec_run bs = Ok (x, rest)" for bs x rest
    using that by (auto simp: dec_run_def rd_inv rd_iffs enc_run_def)
  show "dec_run (enc_run x @ rest) = Ok (x, rest)" for x rest
    by (simp add: dec_run_def enc_run_def rd_run rd_evals del: and_then_Ok_iff)
qed

lemma strict_runs: "strict_codec (put_list enc_run) (rd_list 8 dec_run) (list_ok 8 (\<lambda>_. True))"
  by (rule strict_list [OF strict_run]) (simp add: enc_run_def)

lemma strict_overlays:
  "strict_codec (put_list enc_overlay) (rd_btree 12 (rd_entry rd_u32 (dec_value_map 1)))
     (btree_ok 12 (\<lambda>e. value_map_ok 1 (snd e)))"
proof -
  have "strict_codec enc_overlay (rd_entry rd_u32 (dec_value_map 1)) (\<lambda>e. value_map_ok 1 (snd e))"
    using strict_entry [OF strict_u32 strict_value_map [of 1]]
    by (simp add: enc_overlay_def [abs_def])
  then show ?thesis
    by (rule strict_btree) (simp add: enc_overlay_def enc_value_map_def length_put_list)
qed

lemmas rd_chunk_part_iffs [rd_iffs] = strict_codecD [OF strict_chunk_coord]
  strict_codecD [OF strict_runs] strict_codecD [OF strict_overlays]
  strict_codecD [OF strict_option [OF strict_u64]]
lemmas rd_chunk_part_evals [rd_evals] = strict_codec_eval [OF strict_chunk_coord]
  strict_codec_eval [OF strict_runs] strict_codec_eval [OF strict_overlays]
  strict_codec_eval [OF strict_option [OF strict_u64]]

lemma strict_chunk: "strict_codec enc_chunk dec_chunk chunk_ok"
proof (rule strict_codec_split)
  show "chunk_ok x \<and> bs = enc_chunk x @ rest" if "dec_chunk bs = Ok (x, rest)" for bs x rest
    using that unfolding dec_chunk_def enc_chunk_def chunk_ok_def
    by (auto simp only: rd_inv rd_iffs map_chunk.simps append_assoc)
  show "dec_chunk (enc_chunk x @ rest) = Ok (x, rest)" if "chunk_ok x" for x rest
    using that unfolding dec_chunk_def enc_chunk_def chunk_ok_def rd_run
    by (simp only: append_assoc rd_evals and_then.simps fst_conv snd_conv) simp
qed

lemma strict_event: "strict_codec enc_event dec_event event_ok"
proof (rule strict_codec_split)
  show "event_ok x \<and> bs = enc_event x @ rest" if "dec_event bs = Ok (x, rest)" for bs x rest
    using that unfolding dec_event_def
    by (auto simp: rd_inv rd_iffs enc_event_def event_ok_def simp del: One_nat_def)
  show "dec_event (enc_event x @ rest) = Ok (x, rest)" if "event_ok x" for x rest
    using that
    by (simp add: dec_event_def enc_event_def event_ok_def rd_run rd_evals option_ok_def
        del: and_then_Ok_iff One_nat_def)
qed

lemma strict_graph_maps:
  "strict_codec (put_list (\<lambda>e. enc_entity (snd e))) (rd_btree 8 (rd_keyed er_id dec_entity))
     (btree_ok 8 (\<lambda>e. fst e = er_id (snd e) \<and> entity_ok (snd e)))"
  "strict_codec (put_list (\<lambda>e. enc_edge (snd e))) (rd_btree 16 (rd_keyed ed_id dec_edge))
     (btree_ok 16 (\<lambda>e. fst e = ed_id (snd e) \<and> edge_ok (snd e)))"
  "strict_codec (put_list (\<lambda>e. enc_chunk (snd e))) (rd_btree 12 (rd_keyed mc_coord dec_chunk))
     (btree_ok 12 (\<lambda>e. fst e = mc_coord (snd e) \<and> chunk_ok (snd e)))"
  "strict_codec (put_list (\<lambda>e. enc_event (snd e))) (rd_btree 16 (rd_keyed ev_id dec_event))
     (btree_ok 16 (\<lambda>e. fst e = ev_id (snd e) \<and> event_ok (snd e)))"
  by (rule strict_btree [OF strict_keyed [OF strict_entity]]
      strict_btree [OF strict_keyed [OF strict_edge]]
      strict_btree [OF strict_keyed [OF strict_chunk]]
      strict_btree [OF strict_keyed [OF strict_event]],
      simp add: enc_entity_def enc_edge_def enc_chunk_def enc_event_def enc_chunk_coord_def)+

lemma strict_graph: "strict_codec enc_graph dec_graph graph_ok"
proof (rule strict_codec_split)
  note iffs = strict_graph_maps [THEN strict_codecD]
  note evals = strict_graph_maps [THEN strict_codec_eval]
  show "graph_ok x \<and> bs = enc_graph x @ rest" if "dec_graph bs = Ok (x, rest)" for bs x rest
    using that unfolding dec_graph_def enc_graph_def graph_ok_def
    by (auto simp only: rd_inv iffs world_graph.simps append_assoc)
  show "dec_graph (enc_graph x @ rest) = Ok (x, rest)" if "graph_ok x" for x rest
    using that unfolding dec_graph_def enc_graph_def graph_ok_def rd_run
    by (simp only: append_assoc evals and_then.simps fst_conv snd_conv) simp
qed

interpretation graph_codec: strict_codec enc_graph dec_graph graph_ok
  by (rule strict_graph)

subsection \<open>Snapshots\<close>

lemma text_ok_domain: "text_ok snapshot_domain"
  by (simp add: text_ok_def snapshot_domain_def utf8_valid_def)

lemma dec_snapshot_body_inv:
  assumes "dec_snapshot_body h bs = Ok (s, rest)"
  shows "graph_ok (ws_graph s) \<and> ws_state_hash s = h \<and> bs = snapshot_canonical_bytes s @ rest"
  using assms
  by (auto simp: dec_snapshot_body_def rd_inv rd_iffs graph_codec.decode_iff
      snapshot_canonical_bytes_def split: if_splits)

lemma dec_snapshot_body_eval:
  assumes "graph_ok (ws_graph s)"
  shows "dec_snapshot_body (ws_state_hash s) (snapshot_canonical_bytes s @ rest) = Ok (s, rest)"
  using assms text_ok_domain
  by (simp add: dec_snapshot_body_def snapshot_canonical_bytes_def rd_run rd_evals
      graph_codec.decode_iff [THEN iffD2] del: and_then_Ok_iff)

lemma snapshot_from_bytes_iff:
  "snapshot_from_canonical_bytes bytes = Ok s \<longleftrightarrow>
   length bytes \<le> max_canonical_snapshot_bytes \<and> graph_ok (ws_graph s) \<and> hash_is_valid s \<and>
   bytes = snapshot_canonical_bytes s"
proof
  assume "snapshot_from_canonical_bytes bytes = Ok s"
  then have "length bytes \<le> max_canonical_snapshot_bytes"
    and "dec_snapshot_body (digest_of_bytes bytes) bytes = Ok (s, [])"
    by (auto simp: snapshot_from_canonical_bytes_def split: if_splits)
  with dec_snapshot_body_inv [OF this(2)]
  show "length bytes \<le> max_canonical_snapshot_bytes \<and> graph_ok (ws_graph s) \<and> hash_is_valid s \<and>
      bytes = snapshot_canonical_bytes s"
    by (simp add: hash_is_valid_def snapshot_compute_hash_def)
next
  assume s: "length bytes \<le> max_canonical_snapshot_bytes \<and> graph_ok (ws_graph s) \<and>
    hash_is_valid s \<and> bytes = snapshot_canonical_bytes s"
  then have "dec_snapshot_body (digest_of_bytes bytes) bytes = Ok (s, [])"
    using dec_snapshot_body_eval [of s "[]"]
    by (simp add: hash_is_valid_def snapshot_compute_hash_def)
  with s show "snapshot_from_canonical_bytes bytes = Ok s"
    by (auto simp: snapshot_from_canonical_bytes_def)
qed

text \<open>
  C7: A stored snapshot is read back exactly: the decoder accepts precisely the canonical
  bytes, up to the size bound, of well-formed snapshots whose state hash is the hash of those
  bytes, and returns that snapshot.
\<close>

theorem snapshot_decode_strict:
  "snapshot_from_canonical_bytes bytes = Ok s \<longleftrightarrow>
   length bytes \<le> max_canonical_snapshot_bytes \<and> graph_ok (ws_graph s) \<and> hash_is_valid s \<and>
   bytes = snapshot_canonical_bytes s"
  by (rule snapshot_from_bytes_iff)

text \<open>
  The decoder's final comparison with the re-encoded snapshot never fires: whatever the
  readers accept completely already re-encodes to the input.
\<close>

theorem snapshot_reencode_check_dead:
  assumes "dec_snapshot_body (digest_of_bytes bytes) bytes = Ok (s, [])"
  shows "snapshot_canonical_bytes s = bytes \<and> hash_is_valid s"
  using dec_snapshot_body_inv [OF assms]
  by (simp add: hash_is_valid_def snapshot_compute_hash_def)

lemma snapshot_bytes_inject:
  assumes "graph_ok (ws_graph s)" "graph_ok (ws_graph t)" "hash_is_valid s" "hash_is_valid t"
    and "snapshot_canonical_bytes s = snapshot_canonical_bytes t"
  shows "s = t"
proof -
  have "ws_state_hash s = ws_state_hash t"
    using assms(3-5) by (simp add: hash_is_valid_def snapshot_compute_hash_def)
  then show ?thesis
    using dec_snapshot_body_eval [OF assms(1), of "[]"] dec_snapshot_body_eval [OF assms(2), of "[]"]
      assms(5) by simp
qed

subsection \<open>Concrete snapshots\<close>

definition sample_snapshot :: "bool \<Rightarrow> world_snapshot" where
  "sample_snapshot paused = world_snapshot_new 7 100 (ObservationCursor 1 1) paused empty_graph"

lemma sample_snapshot_ok:
  "graph_ok (ws_graph (sample_snapshot p))" "hash_is_valid (sample_snapshot p)"
  by (simp_all add: sample_snapshot_def graph_ok_def empty_graph_def btree_ok_def list_ok_def)

theorem snapshot_reencode_check_dead_witness:
  "dec_snapshot_body (digest_of_bytes (snapshot_canonical_bytes (sample_snapshot True)))
      (snapshot_canonical_bytes (sample_snapshot True)) = Ok (sample_snapshot True, []) \<and>
   hash_is_valid (sample_snapshot True)"
proof -
  have "dec_snapshot_body (digest_of_bytes (snapshot_canonical_bytes (sample_snapshot True)))
      (snapshot_canonical_bytes (sample_snapshot True)) = Ok (sample_snapshot True, [])"
    using dec_snapshot_body_eval [OF sample_snapshot_ok(1) [of True], of "[]"] sample_snapshot_ok(2) [of True]
    by (simp add: hash_is_valid_def snapshot_compute_hash_def)
  then show ?thesis using snapshot_reencode_check_dead by blast
qed

end
