(* ===== verification/Delta.thy ===== *)
theory Delta
  imports Canonical_Decode
begin

text \<open>
  \<^verbatim>\<open>crates/dfmcp-world/src/delta.rs\<close>: typed changes, the delta between two snapshots and its
  application. The maps of entities, edges, chunks and events share one contract (\<open>versioned_map\<close>:
  removals name the version they remove, upserts never go back in version), proved once and
  interpreted for each of them. The properties: a delta applies to its exact base only and yields
  its declared target, graphs stay closed and events immutable, and computing a delta and applying
  it reproduces the target. Bytes and continuation tokens are in \<open>Delta_Codec\<close>.
\<close>

definition max_state_delta_changes :: nat where
  "max_state_delta_changes = 1000000"

datatype world_change =
    UpsertEntity entity_record
  | RemoveEntity entity_id u32 u64
  | UpsertEdge edge_record
  | RemoveEdge edge_id u64
  | UpsertMapChunk map_chunk
  | RemoveMapChunk chunk_coord u64
  | AppendEvent world_event

record state_delta =
  sd_fortress_id :: fortress_id
  sd_base_cursor :: observation_cursor
  sd_target_cursor :: observation_cursor
  sd_base_hash :: digest32
  sd_target_hash :: digest32
  sd_target_tick :: game_tick
  sd_changes :: "world_change list"
  sd_truncated :: bool
  sd_continuation :: "string option"

primrec enc_change :: "world_change \<Rightarrow> u8 list" where
  "enc_change (UpsertEntity e) = 0 # enc_entity e"
| "enc_change (RemoveEntity i g r) = 1 # put_u64 i @ put_u32 g @ put_u64 r"
| "enc_change (UpsertEdge e) = 2 # enc_edge e"
| "enc_change (RemoveEdge i r) = 3 # put_u128 i @ put_u64 r"
| "enc_change (UpsertMapChunk c) = 4 # enc_chunk c"
| "enc_change (RemoveMapChunk c r) =
     5 # put_i32 (cc_x c) @ put_i32 (cc_y c) @ put_i32 (cc_z c) @ put_u64 r"
| "enc_change (AppendEvent e) = 6 # enc_event e"

definition delta_domain :: string where
  "delta_domain = ''dfmcp-state-delta-v1''"

definition delta_canonical_bytes :: "state_delta \<Rightarrow> u8 list" where
  "delta_canonical_bytes d =
     put_str delta_domain @ put_u64 (sd_fortress_id d) @
     put_u64 (cur_epoch (sd_base_cursor d)) @ put_u64 (cur_sequence (sd_base_cursor d)) @
     put_u64 (cur_epoch (sd_target_cursor d)) @ put_u64 (cur_sequence (sd_target_cursor d)) @
     put_bytes (sd_base_hash d) @ put_bytes (sd_target_hash d) @ put_u64 (sd_target_tick d) @
     put_list enc_change (sd_changes d) @ put_bool (sd_truncated d) @
     put_option put_str (sd_continuation d)"

subsection \<open>Validation and application\<close>

definition validate_cursor_transition :: "observation_cursor \<Rightarrow> observation_cursor \<Rightarrow> unit res" where
  "validate_cursor_transition base target =
     (case cursor_checked_next base of
        None \<Rightarrow> fail_retryable CursorGap
      | Some expected \<Rightarrow>
          if cur_epoch target \<noteq> cur_epoch base then fail_retryable CursorGap
          else if target \<noteq> expected then fail_retryable CursorGap
          else Ok ())"

definition validate_entity_upsert :: "world_graph \<Rightarrow> entity_record \<Rightarrow> unit res" where
  "validate_entity_upsert g incoming =
     (if er_id incoming = 0 then fail InvalidRequest
      else
        (case map_of (wg_entities g) (er_id incoming) of
           None \<Rightarrow> Ok ()
         | Some existing \<Rightarrow>
             if er_generation incoming < er_generation existing then fail StaleAnchor
             else if er_generation incoming = er_generation existing \<and>
               er_revision incoming < er_revision existing then fail StaleAnchor
             else if er_generation incoming = er_generation existing \<and>
               er_revision incoming = er_revision existing \<and> incoming \<noteq> existing
             then fail Conflict
             else Ok ()))"

definition validate_edge_upsert :: "world_graph \<Rightarrow> edge_record \<Rightarrow> unit res" where
  "validate_edge_upsert g incoming =
     (if ed_id incoming = 0 then fail InvalidRequest
      else
        (case map_of (wg_edges g) (ed_id incoming) of
           None \<Rightarrow> Ok ()
         | Some existing \<Rightarrow>
             if ed_revision incoming < ed_revision existing then fail StaleAnchor
             else if ed_revision incoming = ed_revision existing \<and> incoming \<noteq> existing
             then fail Conflict
             else Ok ()))"

definition validate_chunk :: "map_chunk \<Rightarrow> unit res" where
  "validate_chunk c =
     (if mc_width c = 0 \<or> mc_height c = 0 then fail InvalidRequest
      else if encoded_tile_count c \<noteq> Some (chunk_tile_count c) then fail InvalidRequest
      else if (\<exists>offset \<in> set (map fst (mc_sparse_overlays c)). offset \<ge> chunk_tile_count c)
      then fail InvalidRequest
      else Ok ())"

definition validate_graph :: "world_graph \<Rightarrow> unit res" where
  "validate_graph g =
     (if (\<exists>edge \<in> set (map snd (wg_edges g)).
            \<not> bt_contains (ed_from edge) (wg_entities g) \<or> \<not> bt_contains (ed_to edge) (wg_entities g))
      then fail InternalInvariantViolation
      else if (\<exists>(id, event) \<in> set (wg_events g). id = 0 \<or> ev_id event \<noteq> id)
      then fail InternalInvariantViolation
      else Ok ())"

definition apply_change :: "world_change \<Rightarrow> world_graph \<Rightarrow> world_graph res" where
  "apply_change change g =
     (case change of
        UpsertEntity incoming \<Rightarrow>
          and_then (validate_entity_upsert g incoming) (\<lambda>_.
            Ok (g\<lparr>wg_entities := bt_insert (er_id incoming) incoming (wg_entities g)\<rparr>))
      | RemoveEntity i expected_generation expected_revision \<Rightarrow>
          (case map_of (wg_entities g) i of
             None \<Rightarrow> fail StaleAnchor
           | Some existing \<Rightarrow>
               if er_generation existing \<noteq> expected_generation \<or>
                  er_revision existing \<noteq> expected_revision then fail StaleAnchor
               else Ok (g\<lparr>wg_entities := bt_remove i (wg_entities g)\<rparr>))
      | UpsertEdge incoming \<Rightarrow>
          and_then (validate_edge_upsert g incoming) (\<lambda>_.
            Ok (g\<lparr>wg_edges := bt_insert (ed_id incoming) incoming (wg_edges g)\<rparr>))
      | RemoveEdge i expected_revision \<Rightarrow>
          (case map_of (wg_edges g) i of
             None \<Rightarrow> fail StaleAnchor
           | Some existing \<Rightarrow>
               if ed_revision existing \<noteq> expected_revision then fail StaleAnchor
               else Ok (g\<lparr>wg_edges := bt_remove i (wg_edges g)\<rparr>))
      | UpsertMapChunk incoming \<Rightarrow>
          and_then (validate_chunk incoming) (\<lambda>_.
            (case map_of (wg_chunks g) (mc_coord incoming) of
               Some existing \<Rightarrow>
                 if mc_revision incoming < mc_revision existing then fail StaleAnchor
                 else if mc_revision incoming = mc_revision existing \<and> incoming \<noteq> existing
                 then fail Conflict
                 else Ok (g\<lparr>wg_chunks := bt_insert (mc_coord incoming) incoming (wg_chunks g)\<rparr>)
             | None \<Rightarrow> Ok (g\<lparr>wg_chunks := bt_insert (mc_coord incoming) incoming (wg_chunks g)\<rparr>)))
      | RemoveMapChunk coord expected_revision \<Rightarrow>
          (case map_of (wg_chunks g) coord of
             None \<Rightarrow> fail StaleAnchor
           | Some existing \<Rightarrow>
               if mc_revision existing \<noteq> expected_revision then fail StaleAnchor
               else Ok (g\<lparr>wg_chunks := bt_remove coord (wg_chunks g)\<rparr>))
      | AppendEvent incoming \<Rightarrow>
          (case map_of (wg_events g) (ev_id incoming) of
             Some existing \<Rightarrow> if existing \<noteq> incoming then fail Conflict else Ok g
           | None \<Rightarrow> Ok (g\<lparr>wg_events := bt_insert (ev_id incoming) incoming (wg_events g)\<rparr>)))"

fun apply_change_list :: "world_change list \<Rightarrow> world_graph \<Rightarrow> world_graph res" where
  "apply_change_list [] g = Ok g"
| "apply_change_list (c # cs) g = and_then (apply_change c g) (apply_change_list cs)"

definition apply_changes :: "world_snapshot \<Rightarrow> world_change list \<Rightarrow> world_snapshot res" where
  "apply_changes s changes =
     and_then (apply_change_list changes (ws_graph s)) (\<lambda>g.
     and_then (validate_graph g) (\<lambda>_. Ok (s\<lparr>ws_graph := g\<rparr>)))"

definition build_delta ::
  "world_snapshot \<Rightarrow> observation_cursor \<Rightarrow> game_tick \<Rightarrow> world_change list \<Rightarrow> state_delta res" where
  "build_delta base target_cursor target_tick changes =
     (if length changes > max_state_delta_changes then fail BudgetExceeded
      else
        and_then (validate_cursor_transition (ws_cursor base) target_cursor) (\<lambda>_.
          if target_tick < ws_tick base then fail InvalidRequest
          else if \<not> hash_is_valid base then fail InternalInvariantViolation
          else
            and_then (apply_changes (base\<lparr>ws_cursor := target_cursor, ws_tick := target_tick\<rparr>) changes)
              (\<lambda>candidate.
                Ok \<lparr>sd_fortress_id = ws_fortress_id base, sd_base_cursor = ws_cursor base,
                    sd_target_cursor = target_cursor, sd_base_hash = ws_state_hash base,
                    sd_target_hash = ws_state_hash (refresh_hash candidate),
                    sd_target_tick = target_tick, sd_changes = changes, sd_truncated = False,
                    sd_continuation = None\<rparr>)))"

definition apply_delta :: "world_snapshot \<Rightarrow> state_delta \<Rightarrow> world_snapshot res" where
  "apply_delta base delta =
     (if \<not> hash_is_valid base then fail InternalInvariantViolation
      else if sd_truncated delta \<or> sd_continuation delta \<noteq> None then fail_retryable CursorGap
      else if length (sd_changes delta) > max_state_delta_changes then fail BudgetExceeded
      else if sd_fortress_id delta \<noteq> ws_fortress_id base then fail StaleAnchor
      else if sd_base_cursor delta \<noteq> ws_cursor base \<or> sd_base_hash delta \<noteq> ws_state_hash base
      then fail_retryable CursorGap
      else
        and_then (validate_cursor_transition (ws_cursor base) (sd_target_cursor delta)) (\<lambda>_.
          if sd_target_tick delta < ws_tick base then fail InvalidRequest
          else
            and_then (apply_changes (base\<lparr>ws_cursor := sd_target_cursor delta,
                ws_tick := sd_target_tick delta\<rparr>) (sd_changes delta)) (\<lambda>candidate.
              if ws_state_hash (refresh_hash candidate) \<noteq> sd_target_hash delta
              then fail InternalInvariantViolation
              else Ok (refresh_hash candidate))))"

subsection \<open>Computing a delta\<close>

definition removed_entries :: "('k, 'v) btree_map \<Rightarrow> ('k, 'v) btree_map \<Rightarrow> ('k \<times> 'v) list" where
  "removed_entries base target = filter (\<lambda>e. \<not> bt_contains (fst e) target) base"

definition upserted_entries :: "('k, 'v) btree_map \<Rightarrow> ('k, 'v) btree_map \<Rightarrow> ('k \<times> 'v) list" where
  "upserted_entries base target =
     filter (\<lambda>e. case map_of base (fst e) of Some b \<Rightarrow> b \<noteq> snd e | None \<Rightarrow> True) target"

definition graph_diff :: "world_graph \<Rightarrow> world_graph \<Rightarrow> world_change list" where
  "graph_diff base target =
     map (\<lambda>(id, e). RemoveEntity id (er_generation e) (er_revision e))
       (removed_entries (wg_entities base) (wg_entities target)) @
     map (\<lambda>(id, e). UpsertEntity e)
       (upserted_entries (wg_entities base) (wg_entities target)) @
     map (\<lambda>(id, e). RemoveEdge id (ed_revision e))
       (removed_entries (wg_edges base) (wg_edges target)) @
     map (\<lambda>(id, e). UpsertEdge e)
       (upserted_entries (wg_edges base) (wg_edges target)) @
     map (\<lambda>(coord, c). RemoveMapChunk coord (mc_revision c))
       (removed_entries (wg_chunks base) (wg_chunks target)) @
     map (\<lambda>(coord, c). UpsertMapChunk c)
       (upserted_entries (wg_chunks base) (wg_chunks target)) @
     map (\<lambda>(id, e). AppendEvent e)
       (filter (\<lambda>e. \<not> bt_contains (fst e) (wg_events base)) (wg_events target))"

definition compute_snapshot_diff :: "world_snapshot \<Rightarrow> world_snapshot \<Rightarrow> world_change list res" where
  "compute_snapshot_diff base target =
     (if \<not> hash_is_valid base \<or> \<not> hash_is_valid target then fail InternalInvariantViolation
      else if ws_fortress_id target \<noteq> ws_fortress_id base then fail InvalidRequest
      else if (\<exists>(id, base_event) \<in> set (wg_events (ws_graph base)).
         map_of (wg_events (ws_graph target)) id \<noteq> Some base_event) then fail Conflict
      else Ok (graph_diff (ws_graph base) (ws_graph target)))"

definition diff_snapshots :: "world_snapshot \<Rightarrow> world_snapshot \<Rightarrow> state_delta res" where
  "diff_snapshots base target =
     and_then (compute_snapshot_diff base target) (\<lambda>changes.
     and_then (build_delta base (ws_cursor target) (ws_tick target) changes) (\<lambda>delta.
       if sd_target_hash delta \<noteq> ws_state_hash target then fail InternalInvariantViolation
       else Ok delta))"

subsection \<open>Versioned maps\<close>

text \<open>
  How a change list acts on one of the graph's maps: an upsert is checked against the record it
  replaces, a removal names the version it removes.
\<close>

definition versioned_put ::
  "('v \<Rightarrow> 'k::linorder) \<Rightarrow> ('v option \<Rightarrow> 'v \<Rightarrow> unit res) \<Rightarrow> 'v \<Rightarrow> ('k, 'v) btree_map \<Rightarrow> ('k, 'v) btree_map res"
  where
  "versioned_put key check v m =
     and_then (check (map_of m (key v)) v) (\<lambda>_. Ok (bt_insert (key v) v m))"

definition versioned_del ::
  "('v \<Rightarrow> 's) \<Rightarrow> 'k \<Rightarrow> 's \<Rightarrow> ('k, 'v) btree_map \<Rightarrow> ('k, 'v) btree_map res" where
  "versioned_del stamp k s m =
     (case map_of m k of
        None \<Rightarrow> fail StaleAnchor
      | Some v \<Rightarrow> if stamp v \<noteq> s then fail StaleAnchor else Ok (bt_remove k m))"

fun put_all ::
  "('v \<Rightarrow> 'k::linorder) \<Rightarrow> ('v option \<Rightarrow> 'v \<Rightarrow> unit res) \<Rightarrow> ('k \<times> 'v) list \<Rightarrow> ('k, 'v) btree_map
     \<Rightarrow> ('k, 'v) btree_map res" where
  "put_all key check [] m = Ok m"
| "put_all key check (e # es) m =
     and_then (versioned_put key check (snd e) m) (put_all key check es)"

fun del_all ::
  "('v \<Rightarrow> 's) \<Rightarrow> ('k \<times> 'v) list \<Rightarrow> ('k, 'v) btree_map \<Rightarrow> ('k, 'v) btree_map res" where
  "del_all stamp [] m = Ok m"
| "del_all stamp (e # es) m =
     and_then (versioned_del stamp (fst e) (stamp (snd e)) m) (del_all stamp es)"

definition keyed :: "('v \<Rightarrow> 'k::linorder) \<Rightarrow> ('k, 'v) btree_map \<Rightarrow> bool" where
  "keyed key m \<longleftrightarrow> bt_sorted m \<and> (\<forall>(k, v) \<in> set m. key v = k)"

text \<open>The step from a base map to a target map that the checks admit.\<close>

definition admissible ::
  "('v option \<Rightarrow> 'v \<Rightarrow> unit res) \<Rightarrow> ('k, 'v) btree_map \<Rightarrow> ('k, 'v) btree_map \<Rightarrow> bool" where
  "admissible check base target \<longleftrightarrow>
     (\<forall>(k, v) \<in> set target. map_of base k \<noteq> Some v \<longrightarrow> check (map_of base k) v = Ok ())"

definition versioned_move ::
  "('v \<Rightarrow> 'k::linorder) \<Rightarrow> ('v option \<Rightarrow> 'v \<Rightarrow> unit res) \<Rightarrow> ('v \<Rightarrow> 's) \<Rightarrow> 'k set
     \<Rightarrow> ('k, 'v) btree_map \<Rightarrow> ('k, 'v) btree_map \<Rightarrow> bool" where
  "versioned_move key check stamp K m m' \<longleftrightarrow>
     m' = m \<or> (\<exists>v. versioned_put key check v m = Ok m') \<or>
     (\<exists>k \<in> K. \<exists>s. versioned_del stamp k s m = Ok m')"

lemma keyedD: "keyed key m \<Longrightarrow> bt_sorted m" "keyed key m \<Longrightarrow> (k, v) \<in> set m \<Longrightarrow> key v = k"
  by (auto simp: keyed_def)

lemma keyed_insert: "keyed key m \<Longrightarrow> keyed key (bt_insert (key v) v m)"
  by (auto simp: keyed_def set_bt_insert bt_sorted_insert)

lemma keyed_remove: "keyed key m \<Longrightarrow> keyed key (bt_remove k m)"
  by (auto simp: keyed_def bt_sorted_remove bt_remove_def bt_sorted_filter)

lemma map_of_filter_entries:
  assumes "bt_sorted m"
  shows "map_of (filter (\<lambda>e. P (fst e) (snd e)) m) k =
    (case map_of m k of None \<Rightarrow> None | Some v \<Rightarrow> if P k v then Some v else None)"
  using map_of_bt_retain [OF assms, of P k] by (simp add: bt_retain_def)

lemma del_all_removed:
  assumes "\<forall>e \<in> set es. map_of m (fst e) = Some (snd e)" "distinct (map fst es)"
  shows "del_all stamp es m = Ok (fold (\<lambda>e. bt_remove (fst e)) es m)"
  using assms
proof (induction es arbitrary: m)
  case (Cons e es)
  have "\<forall>e' \<in> set es. map_of (bt_remove (fst e) m) (fst e') = Some (snd e')"
    using Cons.prems by (auto simp: map_of_bt_remove) (metis imageI fst_conv)
  with Cons show ?case by (simp add: versioned_del_def)
qed simp

lemma fold_remove_sorted: "bt_sorted m \<Longrightarrow> bt_sorted (fold (\<lambda>e. bt_remove (fst e)) es m)"
  by (induction es arbitrary: m) (auto simp: bt_sorted_remove)

lemma map_of_fold_remove:
  "map_of (fold (\<lambda>e. bt_remove (fst e)) es m) k = (if k \<in> fst ` set es then None else map_of m k)"
  by (induction es arbitrary: m) (auto simp: map_of_bt_remove)

lemma map_of_rev_distinct: "distinct (map fst es) \<Longrightarrow> map_of (rev es) k = map_of es k"
proof (induction es)
  case (Cons e es)
  then have "map_of es (fst e) = None" by (auto simp: map_of_eq_None_iff)
  with Cons show ?case by (cases e) (auto simp: map_add_def split: option.splits)
qed simp

locale versioned_map =
  fixes key :: "'v \<Rightarrow> 'k::linorder"
    and check :: "'v option \<Rightarrow> 'v \<Rightarrow> unit res"
    and stamp :: "'v \<Rightarrow> 's"
    and rank :: "'v \<Rightarrow> nat"
  assumes check_advances: "check (Some old) new = Ok u \<Longrightarrow> old = new \<or> rank old < rank new"
begin

lemma put_all_iff:
  assumes "\<forall>e \<in> set es. key (snd e) = fst e" "distinct (map fst es)"
  shows "put_all key check es m = Ok m' \<longleftrightarrow>
    (\<forall>e \<in> set es. check (map_of m (fst e)) (snd e) = Ok ()) \<and>
    m' = fold (\<lambda>e. bt_insert (fst e) (snd e)) es m"
  using assms
proof (induction es arbitrary: m)
  case Nil
  then show ?case by auto
next
  case (Cons e es)
  have other: "map_of (bt_insert (fst e) (snd e) m) (fst e') = map_of m (fst e')" if "e' \<in> set es" for e'
    using that Cons.prems(2) by (auto simp: map_of_bt_insert) (metis imageI)
  show ?case
    using Cons.IH [of "bt_insert (fst e) (snd e) m"] Cons.prems other
    by (auto simp: versioned_put_def)
qed

lemma reconstruct:
  assumes base: "keyed key base" and target: "keyed key target"
  shows "and_then (del_all stamp (removed_entries base target) base)
      (put_all key check (upserted_entries base target)) = Ok m \<longleftrightarrow>
    admissible check base target \<and> m = target"
proof -
  let ?R = "removed_entries base target" and ?U = "upserted_entries base target"
  let ?m1 = "fold (\<lambda>e. bt_remove (fst e)) ?R base"
  have sb: "bt_sorted base" and st: "bt_sorted target" using base target by (auto dest: keyedD)
  have R: "\<forall>e \<in> set ?R. map_of base (fst e) = Some (snd e)"
    using sb by (auto simp: removed_entries_def bt_entry_iff [symmetric])
  have dR: "distinct (map fst ?R)" and dU: "distinct (map fst ?U)"
    using sb st unfolding removed_entries_def upserted_entries_def
    by (auto intro: bt_sorted_distinct bt_sorted_filter)
  have m1: "map_of ?m1 k = (if bt_contains k target then map_of base k else None)" for k
  proof -
    have "k \<in> fst ` set ?R \<longleftrightarrow> map_of base k \<noteq> None \<and> \<not> bt_contains k target"
      by (force simp: removed_entries_def map_of_eq_None_iff)
    then show ?thesis by (auto simp: map_of_fold_remove)
  qed
  have U: "e \<in> set ?U \<longleftrightarrow> e \<in> set target \<and> map_of base (fst e) \<noteq> Some (snd e)" for e
    by (auto simp: upserted_entries_def split: option.splits)
  have keyU: "\<forall>e \<in> set ?U. key (snd e) = fst e"
    using target by (auto simp: U keyed_def)
  have inT: "bt_contains (fst e) target" if "e \<in> set ?U" for e
    using that by (auto simp: U bt_contains_def)
  have checks: "(\<forall>e \<in> set ?U. check (map_of ?m1 (fst e)) (snd e) = Ok ()) \<longleftrightarrow>
      admissible check base target"
  proof -
    have "(\<forall>e \<in> set ?U. check (map_of ?m1 (fst e)) (snd e) = Ok ()) \<longleftrightarrow>
        (\<forall>e \<in> set ?U. check (map_of base (fst e)) (snd e) = Ok ())"
      using inT by (simp add: m1)
    also have "\<dots> \<longleftrightarrow> admissible check base target"
      unfolding admissible_def by (force simp: U)
    finally show ?thesis .
  qed
  have "fold (\<lambda>e. bt_insert (fst e) (snd e)) ?U ?m1 = target"
  proof (rule bt_ext)
    show "bt_sorted (fold (\<lambda>e. bt_insert (fst e) (snd e)) ?U ?m1)"
      by (rule bt.get_fold_insert(2)) (rule fold_remove_sorted [OF sb])
    show "map_of (fold (\<lambda>e. bt_insert (fst e) (snd e)) ?U ?m1) = map_of target"
    proof
      fix k
      have "map_of (rev ?U) k = map_of ?U k"
        using dU by (rule map_of_rev_distinct)
      also have "\<dots> = (case map_of target k of None \<Rightarrow> None
          | Some v \<Rightarrow> if map_of base k = Some v then None else Some v)"
      proof -
        have "?U = filter (\<lambda>e. map_of base (fst e) \<noteq> Some (snd e)) target"
          unfolding upserted_entries_def by (rule filter_cong) (auto split: option.splits)
        then show ?thesis
          using map_of_filter_entries [OF st, of "\<lambda>k v. map_of base k \<noteq> Some v" k]
          by (auto split: option.splits)
      qed
      finally show "map_of (fold (\<lambda>e. bt_insert (fst e) (snd e)) ?U ?m1) k = map_of target k"
        unfolding bt.get_fold_insert(1) [OF fold_remove_sorted [OF sb]]
        by (auto simp: m1 bt_contains_iff split: option.splits)
    qed
  qed (rule st)
  then show ?thesis
    unfolding del_all_removed [OF R dR] and_then.simps put_all_iff [OF keyU dU] checks by auto
qed

lemma move_advances:
  assumes "versioned_move key check stamp K m m'" "k \<notin> K" "map_of m k = Some old"
  shows "\<exists>new. map_of m' k = Some new \<and> (old = new \<or> rank old < rank new)"
  using assms
  by (auto simp: versioned_move_def versioned_put_def versioned_del_def map_of_bt_insert
      map_of_bt_remove split: option.splits if_splits) (use check_advances in blast)

lemma moves_advance:
  assumes "(versioned_move key check stamp K)\<^sup>*\<^sup>* m m'" "k \<notin> K" "map_of m k = Some old"
  shows "\<exists>new. map_of m' k = Some new \<and> (old = new \<or> rank old < rank new)"
  using assms(1)
proof (induction rule: rtranclp_induct)
  case base
  then show ?case using assms(3) by blast
next
  case (step y z)
  then obtain mid where "map_of y k = Some mid" "old = mid \<or> rank old < rank mid" by blast
  with move_advances [OF step.hyps(2) assms(2)] show ?case by (metis less_trans)
qed

end

subsection \<open>The four maps of a graph\<close>

definition entity_check :: "entity_record option \<Rightarrow> entity_record \<Rightarrow> unit res" where
  "entity_check old e =
     validate_entity_upsert
       (empty_graph\<lparr>wg_entities := (case old of Some o1 \<Rightarrow> [(er_id e, o1)] | None \<Rightarrow> [])\<rparr>) e"

definition edge_check :: "edge_record option \<Rightarrow> edge_record \<Rightarrow> unit res" where
  "edge_check old e =
     validate_edge_upsert
       (empty_graph\<lparr>wg_edges := (case old of Some o1 \<Rightarrow> [(ed_id e, o1)] | None \<Rightarrow> [])\<rparr>) e"

definition chunk_check :: "map_chunk option \<Rightarrow> map_chunk \<Rightarrow> unit res" where
  "chunk_check old c =
     and_then (validate_chunk c) (\<lambda>_.
       case old of
         None \<Rightarrow> Ok ()
       | Some existing \<Rightarrow>
           if mc_revision c < mc_revision existing then fail StaleAnchor
           else if mc_revision c = mc_revision existing \<and> c \<noteq> existing then fail Conflict
           else Ok ())"

definition event_check :: "world_event option \<Rightarrow> world_event \<Rightarrow> unit res" where
  "event_check old e =
     (case old of None \<Rightarrow> Ok () | Some existing \<Rightarrow> if existing \<noteq> e then fail Conflict else Ok ())"

definition entity_stamp :: "entity_record \<Rightarrow> u32 \<times> u64" where
  "entity_stamp e = (er_generation e, er_revision e)"

definition entity_rank :: "entity_record \<Rightarrow> nat" where
  "entity_rank e = unat (er_generation e) * 2 ^ 64 + unat (er_revision e)"

lemma entity_rank_less:
  "er_generation a < er_generation b \<or> er_generation a = er_generation b \<and> er_revision a < er_revision b
   \<Longrightarrow> entity_rank a < entity_rank b"
proof (elim disjE conjE)
  assume "er_generation a < er_generation b"
  then have "Suc (unat (er_generation a)) * 2 ^ 64 \<le> unat (er_generation b) * 2 ^ 64"
    by (intro mult_le_mono1) (simp add: word_less_nat_alt Suc_le_eq)
  then show "entity_rank a < entity_rank b"
    using unat_less_u64 [of "er_revision a"] by (simp add: entity_rank_def)
next
  assume "er_generation a = er_generation b" "er_revision a < er_revision b"
  then show "entity_rank a < entity_rank b" by (simp add: entity_rank_def word_less_nat_alt)
qed

interpretation entities: versioned_map er_id entity_check entity_stamp entity_rank
proof
  show "old = new \<or> entity_rank old < entity_rank new" if "entity_check (Some old) new = Ok u" for old new u
  proof -
    have "er_generation old < er_generation new \<or>
        er_generation old = er_generation new \<and> er_revision old < er_revision new \<or> old = new"
      using that
      by (auto simp: entity_check_def validate_entity_upsert_def not_less le_less split: if_splits)
    then show ?thesis using entity_rank_less by blast
  qed
qed

interpretation edges: versioned_map ed_id edge_check ed_revision "\<lambda>e. unat (ed_revision e)"
proof
  show "old = new \<or> unat (ed_revision old) < unat (ed_revision new)"
    if "edge_check (Some old) new = Ok u" for old new u
    using that
    by (auto simp: edge_check_def validate_edge_upsert_def word_less_nat_alt [symmetric] not_less
        split: if_splits)
qed

interpretation chunks: versioned_map mc_coord chunk_check mc_revision "\<lambda>c. unat (mc_revision c)"
proof
  show "old = new \<or> unat (mc_revision old) < unat (mc_revision new)"
    if "chunk_check (Some old) new = Ok u" for old new u
    using that
    by (auto simp: chunk_check_def word_less_nat_alt [symmetric] not_less split: if_splits)
qed

interpretation events: versioned_map ev_id event_check "\<lambda>_. ()" "\<lambda>_. 0"
proof
  show "old = new \<or> (0::nat) < 0" if "event_check (Some old) new = Ok u" for old new u
    using that by (auto simp: event_check_def split: if_splits)
qed

text \<open>Every change acts on one map, as an upsert or a removal of that map.\<close>

lemma validate_entity_upsert_check:
  "validate_entity_upsert g e = entity_check (map_of (wg_entities g) (er_id e)) e"
  by (cases "map_of (wg_entities g) (er_id e)")
    (simp_all add: entity_check_def validate_entity_upsert_def empty_graph_def)

lemma validate_edge_upsert_check:
  "validate_edge_upsert g e = edge_check (map_of (wg_edges g) (ed_id e)) e"
  by (cases "map_of (wg_edges g) (ed_id e)")
    (simp_all add: edge_check_def validate_edge_upsert_def empty_graph_def)

lemma and_then_assoc: "and_then (and_then r f) g = and_then r (\<lambda>x. and_then (f x) g)"
  by (cases r) auto

lemma apply_change_entity:
  "apply_change (UpsertEntity e) g =
     and_then (versioned_put er_id entity_check e (wg_entities g)) (\<lambda>m. Ok (g\<lparr>wg_entities := m\<rparr>))"
  "apply_change (RemoveEntity i a b) g =
     and_then (versioned_del entity_stamp i (a, b) (wg_entities g)) (\<lambda>m. Ok (g\<lparr>wg_entities := m\<rparr>))"
  by (auto simp: apply_change_def versioned_put_def versioned_del_def entity_stamp_def
      validate_entity_upsert_check and_then_assoc split: option.splits)

lemma apply_change_edge:
  "apply_change (UpsertEdge e) g =
     and_then (versioned_put ed_id edge_check e (wg_edges g)) (\<lambda>m. Ok (g\<lparr>wg_edges := m\<rparr>))"
  "apply_change (RemoveEdge i b) g =
     and_then (versioned_del ed_revision i b (wg_edges g)) (\<lambda>m. Ok (g\<lparr>wg_edges := m\<rparr>))"
  by (auto simp: apply_change_def versioned_put_def versioned_del_def
      validate_edge_upsert_check and_then_assoc split: option.splits)

lemma apply_change_chunk:
  "apply_change (UpsertMapChunk c) g =
     and_then (versioned_put mc_coord chunk_check c (wg_chunks g)) (\<lambda>m. Ok (g\<lparr>wg_chunks := m\<rparr>))"
  "apply_change (RemoveMapChunk i b) g =
     and_then (versioned_del mc_revision i b (wg_chunks g)) (\<lambda>m. Ok (g\<lparr>wg_chunks := m\<rparr>))"
  by (cases "validate_chunk c";
      auto simp: apply_change_def versioned_put_def versioned_del_def chunk_check_def split: option.splits)+

lemma apply_change_event:
  "bt_sorted (wg_events g) \<Longrightarrow>
   apply_change (AppendEvent e) g =
     and_then (versioned_put ev_id event_check e (wg_events g)) (\<lambda>m. Ok (g\<lparr>wg_events := m\<rparr>))"
  by (auto simp: apply_change_def versioned_put_def event_check_def bt_insert_same split: option.splits)

lemma apply_change_list_append:
  "apply_change_list (cs @ ds) g = and_then (apply_change_list cs g) (apply_change_list ds)"
proof (induction cs arbitrary: g)
  case (Cons c cs)
  then show ?case by (cases "apply_change c g") auto
qed simp

lemma apply_entity_runs:
  "apply_change_list (map (\<lambda>(i, e). UpsertEntity e) es) g =
     and_then (put_all er_id entity_check es (wg_entities g)) (\<lambda>m. Ok (g\<lparr>wg_entities := m\<rparr>))"
  "apply_change_list (map (\<lambda>(i, e). RemoveEntity i (er_generation e) (er_revision e)) es) g =
     and_then (del_all entity_stamp es (wg_entities g)) (\<lambda>m. Ok (g\<lparr>wg_entities := m\<rparr>))"
  by (induction es arbitrary: g)
    (auto simp: apply_change_entity and_then_assoc entity_stamp_def)

lemma apply_edge_runs:
  "apply_change_list (map (\<lambda>(i, e). UpsertEdge e) es) g =
     and_then (put_all ed_id edge_check es (wg_edges g)) (\<lambda>m. Ok (g\<lparr>wg_edges := m\<rparr>))"
  "apply_change_list (map (\<lambda>(i, e). RemoveEdge i (ed_revision e)) es) g =
     and_then (del_all ed_revision es (wg_edges g)) (\<lambda>m. Ok (g\<lparr>wg_edges := m\<rparr>))"
  by (induction es arbitrary: g) (auto simp: apply_change_edge and_then_assoc)

lemma apply_chunk_runs:
  "apply_change_list (map (\<lambda>(i, c). UpsertMapChunk c) cs) g =
     and_then (put_all mc_coord chunk_check cs (wg_chunks g)) (\<lambda>m. Ok (g\<lparr>wg_chunks := m\<rparr>))"
  "apply_change_list (map (\<lambda>(i, c). RemoveMapChunk i (mc_revision c)) cs) g =
     and_then (del_all mc_revision cs (wg_chunks g)) (\<lambda>m. Ok (g\<lparr>wg_chunks := m\<rparr>))"
  by (induction cs arbitrary: g) (auto simp: apply_change_chunk and_then_assoc)

lemma apply_event_run:
  "bt_sorted (wg_events g) \<Longrightarrow>
   apply_change_list (map (\<lambda>(i, e). AppendEvent e) es) g =
     and_then (put_all ev_id event_check es (wg_events g)) (\<lambda>m. Ok (g\<lparr>wg_events := m\<rparr>))"
proof (induction es arbitrary: g)
  case (Cons e es)
  show ?case
  proof (cases "versioned_put ev_id event_check (snd e) (wg_events g)")
    case (Ok m)
    then have "bt_sorted m" using Cons.prems by (auto simp: versioned_put_def bt_sorted_insert)
    then show ?thesis
      using Cons.IH [of "g\<lparr>wg_events := m\<rparr>"] Cons.prems Ok
      by (auto simp: apply_change_event split: prod.splits)
  qed (use Cons.prems in \<open>auto simp: apply_change_event split: prod.splits\<close>)
qed simp

subsection \<open>Reconstruction\<close>

definition graph_keyed :: "world_graph \<Rightarrow> bool" where
  "graph_keyed g \<longleftrightarrow>
     keyed er_id (wg_entities g) \<and> keyed ed_id (wg_edges g) \<and> keyed mc_coord (wg_chunks g) \<and>
     keyed ev_id (wg_events g)"

text \<open>
  A legal successor of a graph: every changed record is one the checks admit over the record it
  replaces, and no published event is missing or altered.
\<close>

definition events_kept :: "world_graph \<Rightarrow> world_graph \<Rightarrow> bool" where
  "events_kept b t \<longleftrightarrow> (\<forall>(k, e) \<in> set (wg_events b). map_of (wg_events t) k = Some e)"

definition legal_successor :: "world_graph \<Rightarrow> world_graph \<Rightarrow> bool" where
  "legal_successor b t \<longleftrightarrow>
     admissible entity_check (wg_entities b) (wg_entities t) \<and>
     admissible edge_check (wg_edges b) (wg_edges t) \<and>
     admissible chunk_check (wg_chunks b) (wg_chunks t) \<and> events_kept b t"

lemma and_then_phase:
  assumes "\<And>m. r = Ok m \<longleftrightarrow> P \<and> m = x"
  shows "and_then r f = Ok y \<longleftrightarrow> P \<and> f x = Ok y"
  unfolding and_then_Ok_iff assms by auto

lemma entity_phase:
  assumes "keyed er_id (wg_entities g)" "keyed er_id t"
  shows "apply_change_list
      (map (\<lambda>(i, e). RemoveEntity i (er_generation e) (er_revision e)) (removed_entries (wg_entities g) t) @
       map (\<lambda>(i, e). UpsertEntity e) (upserted_entries (wg_entities g) t)) g = Ok g' \<longleftrightarrow>
    admissible entity_check (wg_entities g) t \<and> g' = g\<lparr>wg_entities := t\<rparr>"
proof -
  have "apply_change_list
      (map (\<lambda>(i, e). RemoveEntity i (er_generation e) (er_revision e)) (removed_entries (wg_entities g) t) @
       map (\<lambda>(i, e). UpsertEntity e) (upserted_entries (wg_entities g) t)) g =
    and_then (and_then (del_all entity_stamp (removed_entries (wg_entities g) t) (wg_entities g))
      (put_all er_id entity_check (upserted_entries (wg_entities g) t))) (\<lambda>m. Ok (g\<lparr>wg_entities := m\<rparr>))"
    unfolding apply_change_list_append apply_entity_runs and_then_assoc by (simp add: apply_entity_runs)
  then show ?thesis
    by (simp only: and_then_phase [OF entities.reconstruct [OF assms]]) auto
qed

lemma edge_phase:
  assumes "keyed ed_id (wg_edges g)" "keyed ed_id t"
  shows "apply_change_list
      (map (\<lambda>(i, e). RemoveEdge i (ed_revision e)) (removed_entries (wg_edges g) t) @
       map (\<lambda>(i, e). UpsertEdge e) (upserted_entries (wg_edges g) t)) g = Ok g' \<longleftrightarrow>
    admissible edge_check (wg_edges g) t \<and> g' = g\<lparr>wg_edges := t\<rparr>"
proof -
  have "apply_change_list
      (map (\<lambda>(i, e). RemoveEdge i (ed_revision e)) (removed_entries (wg_edges g) t) @
       map (\<lambda>(i, e). UpsertEdge e) (upserted_entries (wg_edges g) t)) g =
    and_then (and_then (del_all ed_revision (removed_entries (wg_edges g) t) (wg_edges g))
      (put_all ed_id edge_check (upserted_entries (wg_edges g) t))) (\<lambda>m. Ok (g\<lparr>wg_edges := m\<rparr>))"
    unfolding apply_change_list_append apply_edge_runs and_then_assoc by (simp add: apply_edge_runs)
  then show ?thesis
    by (simp only: and_then_phase [OF edges.reconstruct [OF assms]]) auto
qed

lemma chunk_phase:
  assumes "keyed mc_coord (wg_chunks g)" "keyed mc_coord t"
  shows "apply_change_list
      (map (\<lambda>(i, c). RemoveMapChunk i (mc_revision c)) (removed_entries (wg_chunks g) t) @
       map (\<lambda>(i, c). UpsertMapChunk c) (upserted_entries (wg_chunks g) t)) g = Ok g' \<longleftrightarrow>
    admissible chunk_check (wg_chunks g) t \<and> g' = g\<lparr>wg_chunks := t\<rparr>"
proof -
  have "apply_change_list
      (map (\<lambda>(i, c). RemoveMapChunk i (mc_revision c)) (removed_entries (wg_chunks g) t) @
       map (\<lambda>(i, c). UpsertMapChunk c) (upserted_entries (wg_chunks g) t)) g =
    and_then (and_then (del_all mc_revision (removed_entries (wg_chunks g) t) (wg_chunks g))
      (put_all mc_coord chunk_check (upserted_entries (wg_chunks g) t))) (\<lambda>m. Ok (g\<lparr>wg_chunks := m\<rparr>))"
    unfolding apply_change_list_append apply_chunk_runs and_then_assoc by (simp add: apply_chunk_runs)
  then show ?thesis
    by (simp only: and_then_phase [OF chunks.reconstruct [OF assms]]) auto
qed

lemma event_phase:
  assumes b: "keyed ev_id (wg_events g)" and t: "keyed ev_id t"
    and kept: "\<forall>(k, e) \<in> set (wg_events g). map_of t k = Some e"
  shows "apply_change_list
      (map (\<lambda>(i, e). AppendEvent e) (filter (\<lambda>e. \<not> bt_contains (fst e) (wg_events g)) t)) g = Ok g' \<longleftrightarrow>
    g' = g\<lparr>wg_events := t\<rparr>"
proof -
  have none: "removed_entries (wg_events g) t = []"
    using kept by (auto simp: removed_entries_def filter_empty_conv bt_contains_iff)
  have same: "(\<not> bt_contains (fst e) (wg_events g)) =
      (case map_of (wg_events g) (fst e) of Some b \<Rightarrow> b \<noteq> snd e | None \<Rightarrow> True)" if "e \<in> set t" for e
  proof (cases "map_of (wg_events g) (fst e)")
    case (Some b)
    then have "map_of t (fst e) = Some b" using kept map_of_SomeD by fastforce
    moreover have "map_of t (fst e) = Some (snd e)"
      using that keyedD(1) [OF t] bt_entry_iff by fastforce
    ultimately show ?thesis using Some by (simp add: bt_contains_iff)
  qed (simp add: bt_contains_iff)
  have ups: "filter (\<lambda>e. \<not> bt_contains (fst e) (wg_events g)) t = upserted_entries (wg_events g) t"
    unfolding upserted_entries_def using same by (intro filter_cong) auto
  have adm: "admissible event_check (wg_events g) t"
  proof -
    have "event_check (map_of (wg_events g) k) e = Ok ()"
      if "(k, e) \<in> set t" "map_of (wg_events g) k \<noteq> Some e" for k e
      using same [OF that(1)] that(2)
      by (cases "map_of (wg_events g) k") (auto simp: event_check_def bt_contains_iff)
    then show ?thesis by (auto simp: admissible_def)
  qed
  have "put_all ev_id event_check (upserted_entries (wg_events g) t) (wg_events g) = Ok m \<longleftrightarrow>
      True \<and> m = t" for m
    using events.reconstruct [OF b t, of m] adm by (simp add: none)
  then show ?thesis
    unfolding apply_event_run [OF keyedD(1) [OF b]] ups by (simp only: and_then_phase) auto
qed

lemma graph_diff_apply:
  assumes b: "graph_keyed b" and t: "graph_keyed t" and kept: "events_kept b t"
  shows "apply_change_list (graph_diff b t) b = Ok g \<longleftrightarrow> legal_successor b t \<and> g = t"
proof -
  define b1 where "b1 = b\<lparr>wg_entities := wg_entities t\<rparr>"
  define b2 where "b2 = b1\<lparr>wg_edges := wg_edges t\<rparr>"
  define b3 where "b3 = b2\<lparr>wg_chunks := wg_chunks t\<rparr>"
  have same: "wg_edges b1 = wg_edges b" "wg_chunks b2 = wg_chunks b" "wg_events b3 = wg_events b"
    "b3\<lparr>wg_events := wg_events t\<rparr> = t"
    by (simp_all add: b1_def b2_def b3_def)
  have k: "keyed er_id (wg_entities b)" "keyed er_id (wg_entities t)" "keyed ed_id (wg_edges b1)"
    "keyed ed_id (wg_edges t)" "keyed mc_coord (wg_chunks b2)" "keyed mc_coord (wg_chunks t)"
    "keyed ev_id (wg_events b3)" "keyed ev_id (wg_events t)"
    using b t by (simp_all add: graph_keyed_def same(1-3))
  note phases =
    and_then_phase [OF entity_phase [OF k(1,2), folded b1_def]]
    and_then_phase [OF edge_phase [OF k(3,4), folded b2_def]]
    and_then_phase [OF chunk_phase [OF k(5,6), folded b3_def]]
  have ev: "apply_change_list (map (\<lambda>(i, e). AppendEvent e)
      (filter (\<lambda>e. \<not> bt_contains (fst e) (wg_events b3)) (wg_events t))) b3 = Ok g \<longleftrightarrow> g = t"
    using event_phase [OF k(7,8)] kept by (simp add: events_kept_def same(3,4))
  have split: "graph_diff b t =
      (map (\<lambda>(i, e). RemoveEntity i (er_generation e) (er_revision e))
         (removed_entries (wg_entities b) (wg_entities t)) @
       map (\<lambda>(i, e). UpsertEntity e) (upserted_entries (wg_entities b) (wg_entities t))) @
      (map (\<lambda>(i, e). RemoveEdge i (ed_revision e)) (removed_entries (wg_edges b1) (wg_edges t)) @
       map (\<lambda>(i, e). UpsertEdge e) (upserted_entries (wg_edges b1) (wg_edges t))) @
      (map (\<lambda>(i, c). RemoveMapChunk i (mc_revision c)) (removed_entries (wg_chunks b2) (wg_chunks t)) @
       map (\<lambda>(i, c). UpsertMapChunk c) (upserted_entries (wg_chunks b2) (wg_chunks t))) @
      map (\<lambda>(i, e). AppendEvent e) (filter (\<lambda>e. \<not> bt_contains (fst e) (wg_events b3)) (wg_events t))"
    by (simp add: graph_diff_def same(1-3))
  show ?thesis
    unfolding split apply_change_list_append [of "_ @ _" "(_ @ _) @ _"]
      apply_change_list_append [of "_ @ _" "map (\<lambda>(i, e). AppendEvent e) _"] phases ev
    using kept by (simp add: legal_successor_def same(1-3))
qed

subsection \<open>What applying a delta establishes\<close>

lemma validate_cursor_transition_Ok:
  "validate_cursor_transition b t = Ok u \<longleftrightarrow> cursor_checked_next b = Some t"
proof (cases "cursor_checked_next b")
  case (Some c)
  then have "cur_epoch c = cur_epoch b"
    by (auto simp: cursor_checked_next_def split: option.splits)
  with Some show ?thesis by (auto simp: validate_cursor_transition_def)
qed (simp add: validate_cursor_transition_def)

lemma apply_changes_Ok:
  "apply_changes s cs = Ok s' \<longleftrightarrow>
   (\<exists>g. apply_change_list cs (ws_graph s) = Ok g \<and> validate_graph g = Ok () \<and> s' = s\<lparr>ws_graph := g\<rparr>)"
  by (auto simp: apply_changes_def)

lemma apply_delta_Ok:
  "apply_delta base d = Ok s \<longleftrightarrow>
   hash_is_valid base \<and> \<not> sd_truncated d \<and> sd_continuation d = None \<and>
   length (sd_changes d) \<le> max_state_delta_changes \<and> sd_fortress_id d = ws_fortress_id base \<and>
   sd_base_cursor d = ws_cursor base \<and> sd_base_hash d = ws_state_hash base \<and>
   cursor_checked_next (ws_cursor base) = Some (sd_target_cursor d) \<and> ws_tick base \<le> sd_target_tick d \<and>
   (\<exists>g. apply_change_list (sd_changes d) (ws_graph base) = Ok g \<and> validate_graph g = Ok () \<and>
      s = world_snapshot_new (ws_fortress_id base) (sd_target_tick d) (sd_target_cursor d)
            (ws_paused base) g \<and>
      ws_state_hash s = sd_target_hash d)"
proof -
  have new: "refresh_hash (base\<lparr>ws_cursor := c, ws_tick := t, ws_graph := g\<rparr>) =
      world_snapshot_new (ws_fortress_id base) t c (ws_paused base) g" for c t g
    by (simp add: world_snapshot_new_def refresh_hash_def snapshot_compute_hash_def
        snapshot_canonical_bytes_def)
  show ?thesis
    unfolding apply_delta_def
    by (auto simp: apply_changes_Ok validate_cursor_transition_Ok new not_less split: if_splits)
      (metis new)
qed

lemma validate_graph_Ok:
  "validate_graph g = Ok u \<longleftrightarrow>
   (\<forall>e \<in> snd ` set (wg_edges g). ed_from e \<in> fst ` set (wg_entities g) \<and> ed_to e \<in> fst ` set (wg_entities g)) \<and>
   (\<forall>(i, e) \<in> set (wg_events g). i \<noteq> 0 \<and> ev_id e = i)"
  by (auto simp: validate_graph_def bt_contains_def)

text \<open>The keys a change list removes from each map.\<close>

definition removed_ids :: "world_change list \<Rightarrow> entity_id set" where
  "removed_ids cs = {i. \<exists>a b. RemoveEntity i a b \<in> set cs}"

definition removed_edges :: "world_change list \<Rightarrow> edge_id set" where
  "removed_edges cs = {i. \<exists>b. RemoveEdge i b \<in> set cs}"

definition removed_chunks :: "world_change list \<Rightarrow> chunk_coord set" where
  "removed_chunks cs = {c. \<exists>b. RemoveMapChunk c b \<in> set cs}"

lemma apply_change_moves:
  assumes "apply_change c g = Ok g'" "c \<in> set cs" "bt_sorted (wg_events g)"
  shows "versioned_move er_id entity_check entity_stamp (removed_ids cs) (wg_entities g) (wg_entities g')"
    and "versioned_move ed_id edge_check ed_revision (removed_edges cs) (wg_edges g) (wg_edges g')"
    and "versioned_move mc_coord chunk_check mc_revision (removed_chunks cs) (wg_chunks g) (wg_chunks g')"
    and "versioned_move ev_id event_check (\<lambda>_. ()) {} (wg_events g) (wg_events g')"
  using assms
  by (cases c; force simp: apply_change_entity apply_change_edge apply_change_chunk apply_change_event
      versioned_move_def removed_ids_def removed_edges_def removed_chunks_def)+

lemma apply_change_keyed: "apply_change c g = Ok g' \<Longrightarrow> graph_keyed g \<Longrightarrow> graph_keyed g'"
  using keyedD(1) [of ev_id "wg_events g"]
  by (cases c)
    (auto simp: apply_change_entity apply_change_edge apply_change_chunk apply_change_event
      versioned_put_def versioned_del_def graph_keyed_def keyed_insert keyed_remove
      split: option.splits if_splits)

lemma apply_change_list_keyed:
  "apply_change_list cs g = Ok g' \<Longrightarrow> graph_keyed g \<Longrightarrow> graph_keyed g'"
  by (induction cs arbitrary: g) (auto intro: apply_change_keyed)

lemma apply_change_list_moves:
  assumes "apply_change_list ds g = Ok g'" "set ds \<subseteq> set cs" "graph_keyed g"
  shows "(versioned_move er_id entity_check entity_stamp (removed_ids cs))\<^sup>*\<^sup>* (wg_entities g) (wg_entities g')
    \<and> (versioned_move ed_id edge_check ed_revision (removed_edges cs))\<^sup>*\<^sup>* (wg_edges g) (wg_edges g')
    \<and> (versioned_move mc_coord chunk_check mc_revision (removed_chunks cs))\<^sup>*\<^sup>* (wg_chunks g) (wg_chunks g')
    \<and> (versioned_move ev_id event_check (\<lambda>_. ()) {})\<^sup>*\<^sup>* (wg_events g) (wg_events g')"
  using assms
proof (induction ds arbitrary: g)
  case Nil
  then show ?case by simp
next
  case (Cons c ds)
  then obtain h where h: "apply_change c g = Ok h" "apply_change_list ds h = Ok g'" by auto
  have s: "bt_sorted (wg_events g)" using Cons.prems by (auto simp: graph_keyed_def keyed_def)
  have c: "c \<in> set cs" using Cons.prems by simp
  from Cons.IH [OF h(2)] apply_change_keyed [OF h(1)] Cons.prems
  have rest: "(versioned_move er_id entity_check entity_stamp (removed_ids cs))\<^sup>*\<^sup>* (wg_entities h) (wg_entities g')
    \<and> (versioned_move ed_id edge_check ed_revision (removed_edges cs))\<^sup>*\<^sup>* (wg_edges h) (wg_edges g')
    \<and> (versioned_move mc_coord chunk_check mc_revision (removed_chunks cs))\<^sup>*\<^sup>* (wg_chunks h) (wg_chunks g')
    \<and> (versioned_move ev_id event_check (\<lambda>_. ()) {})\<^sup>*\<^sup>* (wg_events h) (wg_events g')" by simp
  then show ?case
    using apply_change_moves [OF h(1) c s] by (blast intro: converse_rtranclp_into_rtranclp)
qed

lemma build_delta_Ok:
  "build_delta base c t cs = Ok d \<longleftrightarrow>
   length cs \<le> max_state_delta_changes \<and> cursor_checked_next (ws_cursor base) = Some c \<and>
   ws_tick base \<le> t \<and> hash_is_valid base \<and>
   (\<exists>g. apply_change_list cs (ws_graph base) = Ok g \<and> validate_graph g = Ok () \<and>
      d = \<lparr>sd_fortress_id = ws_fortress_id base, sd_base_cursor = ws_cursor base, sd_target_cursor = c,
           sd_base_hash = ws_state_hash base,
           sd_target_hash =
             ws_state_hash (world_snapshot_new (ws_fortress_id base) t c (ws_paused base) g),
           sd_target_tick = t, sd_changes = cs, sd_truncated = False, sd_continuation = None\<rparr>)"
proof -
  have new: "refresh_hash (base\<lparr>ws_cursor := c, ws_tick := t, ws_graph := g\<rparr>) =
      world_snapshot_new (ws_fortress_id base) t c (ws_paused base) g" for g
    by (simp add: world_snapshot_new_def refresh_hash_def snapshot_compute_hash_def
        snapshot_canonical_bytes_def)
  show ?thesis
    unfolding build_delta_def
    by (auto simp: apply_changes_Ok validate_cursor_transition_Ok new not_less split: if_splits)
qed

lemma cursor_checked_next_Some:
  "cursor_checked_next b = Some c \<longleftrightarrow>
   cur_epoch c = cur_epoch b \<and> unat (cur_sequence c) = unat (cur_sequence b) + 1"
proof -
  have "cursor_checked_next b = Some c \<longleftrightarrow>
      cur_epoch c = cur_epoch b \<and> checked_add (cur_sequence b) 1 = Some (cur_sequence c)"
    by (cases c) (auto simp: cursor_checked_next_def split: option.splits)
  then show ?thesis by (simp add: checked_add_Some_iff)
qed

text \<open>
  C13: A delta applies only to its exact base (fortress, cursor and state hash), advances the
  cursor by exactly one within its epoch, never moves the tick back, and the state it yields
  has a valid hash equal to the one the delta declares.
\<close>

theorem delta_applies_to_exact_base:
  assumes "apply_delta base d = Ok s"
  shows "sd_fortress_id d = ws_fortress_id base \<and> sd_base_cursor d = ws_cursor base \<and>
    sd_base_hash d = ws_state_hash base \<and> \<not> sd_truncated d \<and>
    ws_fortress_id s = ws_fortress_id base \<and> ws_cursor s = sd_target_cursor d \<and>
    cur_epoch (ws_cursor s) = cur_epoch (ws_cursor base) \<and>
    unat (cur_sequence (ws_cursor s)) = unat (cur_sequence (ws_cursor base)) + 1 \<and>
    ws_tick base \<le> ws_tick s \<and> hash_is_valid s \<and> ws_state_hash s = sd_target_hash d"
  using assms by (auto simp: apply_delta_Ok cursor_checked_next_Some)

text \<open>
  C18: Applying a delta to a graph whose records are stored under their own keys yields such a
  graph again, in which no edge dangles, every event has a non-zero identity, and every event
  published before is still there unchanged.
\<close>

theorem delta_keeps_graph_closed:
  assumes "apply_delta base d = Ok s" "graph_keyed (ws_graph base)"
  shows "graph_keyed (ws_graph s) \<and>
    (\<forall>e \<in> snd ` set (wg_edges (ws_graph s)).
       ed_from e \<in> fst ` set (wg_entities (ws_graph s)) \<and> ed_to e \<in> fst ` set (wg_entities (ws_graph s))) \<and>
    (\<forall>i e. map_of (wg_events (ws_graph base)) i = Some e \<longrightarrow>
       i \<noteq> 0 \<and> map_of (wg_events (ws_graph s)) i = Some e)"
proof -
  from assms(1) obtain g where g: "apply_change_list (sd_changes d) (ws_graph base) = Ok g"
    "validate_graph g = Ok ()" "ws_graph s = g" by (auto simp: apply_delta_Ok)
  have keyed: "graph_keyed g" using apply_change_list_keyed [OF g(1) assms(2)] .
  have kept: "map_of (wg_events g) i = Some e" if "map_of (wg_events (ws_graph base)) i = Some e" for i e
    using events.moves_advance [OF apply_change_list_moves [OF g(1) order_refl assms(2),
          THEN conjunct2, THEN conjunct2, THEN conjunct2] _ that] by auto
  have "i \<noteq> 0" if "map_of (wg_events g) i = Some e" for i e
    using g(2) map_of_SomeD [OF that] by (auto simp: validate_graph_Ok)
  with kept keyed g show ?thesis by (auto simp: validate_graph_Ok)
qed

text \<open>
  Records never go back: a record present before and after a delta, whose key the delta does
  not remove on the way, is unchanged or has a higher version (generation and revision of an
  entity, revision of an edge or a map chunk), and it cannot have vanished.
\<close>

theorem delta_versions_never_regress:
  assumes "apply_delta base d = Ok s" "graph_keyed (ws_graph base)"
  shows "(\<forall>i old. i \<notin> removed_ids (sd_changes d) \<longrightarrow> map_of (wg_entities (ws_graph base)) i = Some old \<longrightarrow>
      (\<exists>new. map_of (wg_entities (ws_graph s)) i = Some new \<and> (old = new \<or> entity_rank old < entity_rank new))) \<and>
    (\<forall>i old. i \<notin> removed_edges (sd_changes d) \<longrightarrow> map_of (wg_edges (ws_graph base)) i = Some old \<longrightarrow>
      (\<exists>new. map_of (wg_edges (ws_graph s)) i = Some new \<and> (old = new \<or> ed_revision old < ed_revision new))) \<and>
    (\<forall>i old. i \<notin> removed_chunks (sd_changes d) \<longrightarrow> map_of (wg_chunks (ws_graph base)) i = Some old \<longrightarrow>
      (\<exists>new. map_of (wg_chunks (ws_graph s)) i = Some new \<and> (old = new \<or> mc_revision old < mc_revision new)))"
proof -
  from assms(1) obtain g where g: "apply_change_list (sd_changes d) (ws_graph base) = Ok g"
    "ws_graph s = g" by (auto simp: apply_delta_Ok)
  note moves = apply_change_list_moves [OF g(1) order_refl assms(2)]
  show ?thesis
    unfolding g(2) word_less_nat_alt
    using entities.moves_advance [OF moves [THEN conjunct1]]
      edges.moves_advance [OF moves [THEN conjunct2, THEN conjunct1]]
      chunks.moves_advance [OF moves [THEN conjunct2, THEN conjunct2, THEN conjunct1]]
    by blast
qed

text \<open>
  C8: Computing a delta and applying it reproduces the target: when \<open>diff_snapshots\<close> succeeds on
  snapshots whose records are stored under their own keys, applying the result to the base
  yields the target (with the pause flag of the base, which deltas do not carry).
\<close>

theorem diff_apply_reconstructs_target:
  assumes "graph_keyed (ws_graph base)" "graph_keyed (ws_graph target)"
    and "diff_snapshots base target = Ok d"
  shows "apply_delta base d = Ok (target\<lparr>ws_paused := ws_paused base\<rparr>)"
proof -
  let ?cs = "graph_diff (ws_graph base) (ws_graph target)"
  from assms(3) have c: "compute_snapshot_diff base target = Ok ?cs"
    and b: "build_delta base (ws_cursor target) (ws_tick target) ?cs = Ok d"
    and h: "sd_target_hash d = ws_state_hash target"
    by (auto simp: diff_snapshots_def compute_snapshot_diff_def split: if_splits)
  have f: "ws_fortress_id target = ws_fortress_id base" and kept: "events_kept (ws_graph base) (ws_graph target)"
    using c by (auto simp: compute_snapshot_diff_def events_kept_def split: if_splits)
  have applied: "apply_change_list ?cs (ws_graph base) = Ok g \<longleftrightarrow>
      legal_successor (ws_graph base) (ws_graph target) \<and> g = ws_graph target" for g
    by (rule graph_diff_apply [OF assms(1,2) kept])
  from b have "apply_delta base d = Ok (world_snapshot_new (ws_fortress_id base) (ws_tick target)
      (ws_cursor target) (ws_paused base) (ws_graph target))"
    and "ws_state_hash (world_snapshot_new (ws_fortress_id base) (ws_tick target)
      (ws_cursor target) (ws_paused base) (ws_graph target)) = sd_target_hash d"
    by (auto simp: build_delta_Ok apply_delta_Ok applied)
  moreover have "world_snapshot_new (ws_fortress_id base) (ws_tick target) (ws_cursor target)
      (ws_paused base) (ws_graph target) = target\<lparr>ws_paused := ws_paused base\<rparr>"
    using calculation(2) h f by (simp add: world_snapshot_new_def refresh_hash_def)
  ultimately show ?thesis by simp
qed

text \<open>
  Computing a delta between snapshots with the same pause flag succeeds exactly when both
  hashes are valid, the target is of the same fortress, its cursor is the exact successor and
  its tick not older, its graph is a legal successor with no dangling edge, and the number of
  changes is within the bound.
\<close>

theorem diff_succeeds_iff_legal_successor:
  assumes "graph_keyed (ws_graph base)" "graph_keyed (ws_graph target)"
    and "ws_paused base = ws_paused target"
  shows "(\<exists>d. diff_snapshots base target = Ok d) \<longleftrightarrow>
    hash_is_valid base \<and> hash_is_valid target \<and> ws_fortress_id target = ws_fortress_id base \<and>
    cursor_checked_next (ws_cursor base) = Some (ws_cursor target) \<and> ws_tick base \<le> ws_tick target \<and>
    legal_successor (ws_graph base) (ws_graph target) \<and> validate_graph (ws_graph target) = Ok () \<and>
    length (graph_diff (ws_graph base) (ws_graph target)) \<le> max_state_delta_changes"
proof -
  let ?cs = "graph_diff (ws_graph base) (ws_graph target)"
  let ?K = "events_kept (ws_graph base) (ws_graph target)"
  have c: "compute_snapshot_diff base target = Ok cs \<longleftrightarrow>
      hash_is_valid base \<and> hash_is_valid target \<and> ws_fortress_id target = ws_fortress_id base \<and>
      ?K \<and> cs = ?cs" for cs
    by (auto simp: compute_snapshot_diff_def events_kept_def split: if_splits)
  have applied: "apply_change_list ?cs (ws_graph base) = Ok g \<longleftrightarrow>
      legal_successor (ws_graph base) (ws_graph target) \<and> g = ws_graph target" if ?K for g
    by (rule graph_diff_apply [OF assms(1,2) that])
  have hash: "ws_state_hash (world_snapshot_new (ws_fortress_id target) (ws_tick target)
      (ws_cursor target) (ws_paused target) (ws_graph target)) = ws_state_hash target"
    if "hash_is_valid target"
    using that
    by (simp add: hash_is_valid_def world_snapshot_new_def refresh_hash_def snapshot_compute_hash_def
        snapshot_canonical_bytes_def)
  have legal: "?K" if "legal_successor (ws_graph base) (ws_graph target)"
    using that by (simp add: legal_successor_def)
  have "(\<exists>d. diff_snapshots base target = Ok d) \<longleftrightarrow>
      hash_is_valid base \<and> hash_is_valid target \<and> ws_fortress_id target = ws_fortress_id base \<and> ?K \<and>
      (\<exists>d. build_delta base (ws_cursor target) (ws_tick target) ?cs = Ok d \<and>
         sd_target_hash d = ws_state_hash target)"
    by (auto simp: diff_snapshots_def c split: if_splits)
  also have "\<dots> \<longleftrightarrow>
      hash_is_valid base \<and> hash_is_valid target \<and> ws_fortress_id target = ws_fortress_id base \<and> ?K \<and>
      length ?cs \<le> max_state_delta_changes \<and>
      cursor_checked_next (ws_cursor base) = Some (ws_cursor target) \<and> ws_tick base \<le> ws_tick target \<and>
      legal_successor (ws_graph base) (ws_graph target) \<and> validate_graph (ws_graph target) = Ok ()"
  proof (cases "?K \<and> hash_is_valid target \<and> ws_fortress_id target = ws_fortress_id base")
    case True
    then have k: ?K and f: "ws_fortress_id target = ws_fortress_id base" and v: "hash_is_valid target"
      by blast+
    show ?thesis
      using True hash [OF v] by (auto simp: build_delta_Ok applied [OF k] f assms(3))
  qed auto
  finally show ?thesis using legal by blast
qed

subsection \<open>Removal and re-insertion\<close>

text \<open>
  The version check of an upsert looks at the record it replaces only. A delta that removes a
  record and inserts it again may therefore change its content and keep its version.
\<close>

definition sample_unit :: "u64 \<Rightarrow> string \<Rightarrow> entity_record" where
  "sample_unit revision label =
     \<lparr>er_id = 1, er_generation = 0, er_revision = revision, er_kind = EkUnit, er_label = label,
      er_fields = []\<rparr>"

definition sample_world :: "u64 \<Rightarrow> u64 \<Rightarrow> string \<Rightarrow> world_snapshot" where
  "sample_world seq revision label =
     world_snapshot_new 7 100 (ObservationCursor 1 seq) True
       (empty_graph\<lparr>wg_entities := [(1, sample_unit revision label)]\<rparr>)"

text \<open>
  C20: Inside one delta a record can change its content without advancing its version. For every
  consistent world and every entity of it, the direct upsert of another record with the same
  identity, generation and revision is refused as a conflict; but the change set that removes the
  entity and inserts that record makes a valid delta, which applies and puts it in place.
\<close>

theorem reinsertion_bypasses_revision:
  assumes "hash_is_valid base" "graph_keyed (ws_graph base)" "validate_graph (ws_graph base) = Ok ()"
    and "cursor_checked_next (ws_cursor base) = Some c"
    and "map_of (wg_entities (ws_graph base)) i = Some e" "i \<noteq> 0"
    and "er_id e' = i" "er_generation e' = er_generation e" "er_revision e' = er_revision e" "e' \<noteq> e"
  shows "build_delta base c (ws_tick base) [UpsertEntity e'] = fail Conflict \<and>
    (\<exists>d s. build_delta base c (ws_tick base) [RemoveEntity i (er_generation e) (er_revision e), UpsertEntity e'] = Ok d \<and>
       apply_delta base d = Ok s \<and>
       wg_entities (ws_graph s) = bt_insert i e' (wg_entities (ws_graph base)))"
proof -
  let ?cs = "[RemoveEntity i (er_generation e) (er_revision e), UpsertEntity e']"
  let ?g = "(ws_graph base)\<lparr>wg_entities := bt_insert i e' (wg_entities (ws_graph base))\<rparr>"
  have sorted: "bt_sorted (wg_entities (ws_graph base))" using assms(2) by (simp add: graph_keyed_def keyed_def)
  have "bt_insert i e' (bt_remove i (wg_entities (ws_graph base))) = bt_insert i e' (wg_entities (ws_graph base))"
    using sorted by (intro bt_ext) (simp_all add: bt_simps)
  then have run: "apply_change_list ?cs (ws_graph base) = Ok ?g"
    using assms(5-7) by (simp add: apply_change_def validate_entity_upsert_def map_of_bt_remove)
  have "fst ` set (bt_insert i e' (wg_entities (ws_graph base))) = fst ` set (wg_entities (ws_graph base))"
    using assms(5) by (force simp: fst_set_bt_insert dest: map_of_SomeD)
  then have valid: "validate_graph ?g = Ok ()" using assms(3) by (simp add: validate_graph_Ok)
  have len: "length ?cs \<le> max_state_delta_changes" by (simp add: max_state_delta_changes_def)
  from run valid len assms(1,4) obtain d where d: "build_delta base c (ws_tick base) ?cs = Ok d" by (auto simp: build_delta_Ok)
  then obtain s where "apply_delta base d = Ok s" "ws_graph s = ?g"
    using run valid len by (auto simp: build_delta_Ok apply_delta_Ok)
  moreover have "build_delta base c (ws_tick base) [UpsertEntity e'] = fail Conflict"
    using assms(1,5-10) validate_cursor_transition_Ok [of "ws_cursor base" c "()"] assms(4)
    by (simp add: build_delta_def apply_changes_def apply_change_def validate_entity_upsert_def max_state_delta_changes_def)
  ultimately show ?thesis using d by fastforce
qed

subsection \<open>Concrete deltas\<close>

lemma sample_world_keyed: "graph_keyed (ws_graph (sample_world n r l))"
  by (simp add: sample_world_def graph_keyed_def keyed_def empty_graph_def sample_unit_def)

lemma sample_world_fields:
  "ws_paused (sample_world n r l) = True" "hash_is_valid (sample_world n r l)"
  "ws_fortress_id (sample_world n r l) = 7" "ws_cursor (sample_world n r l) = ObservationCursor 1 n"
  "ws_tick (sample_world n r l) = 100"
  "ws_graph (sample_world n r l) = empty_graph\<lparr>wg_entities := [(1, sample_unit r l)]\<rparr>"
  by (simp_all add: sample_world_def)

lemma sample_world_legal:
  "legal_successor (ws_graph (sample_world 1 5 ''Olin'')) (ws_graph (sample_world 2 6 ''Urist''))"
  by (simp add: legal_successor_def sample_world_fields empty_graph_def admissible_def events_kept_def
      entity_check_def validate_entity_upsert_def sample_unit_def)

theorem reinsertion_bypasses_revision_witness:
  "build_delta (sample_world 1 5 ''Olin'') (ObservationCursor 1 2) 100 [UpsertEntity (sample_unit 5 ''Urist'')] = fail Conflict \<and>
   (\<exists>d s. apply_delta (sample_world 1 5 ''Olin'') d = Ok s \<and>
      map_of (wg_entities (ws_graph s)) 1 = Some (sample_unit 5 ''Urist''))"
proof -
  have "validate_graph (ws_graph (sample_world 1 5 ''Olin'')) = Ok ()"
    by (simp add: sample_world_fields validate_graph_def empty_graph_def)
  from reinsertion_bypasses_revision [OF sample_world_fields(2) sample_world_keyed this, of "ObservationCursor 1 2" 1
      "sample_unit 5 ''Olin''" "sample_unit 5 ''Urist''"]
  have "build_delta (sample_world 1 5 ''Olin'') (ObservationCursor 1 2) 100 [UpsertEntity (sample_unit 5 ''Urist'')] = fail Conflict \<and>
     (\<exists>d s. apply_delta (sample_world 1 5 ''Olin'') d = Ok s \<and> wg_entities (ws_graph s) = [(1, sample_unit 5 ''Urist'')])"
    by (auto simp: sample_world_fields cursor_checked_next_def checked_add_def sample_unit_def)
  then show ?thesis by fastforce
qed

theorem diff_succeeds_iff_legal_successor_witness:
  "\<exists>d. diff_snapshots (sample_world 1 5 ''Olin'') (sample_world 2 6 ''Urist'') = Ok d"
  unfolding diff_succeeds_iff_legal_successor [of "sample_world 1 5 ''Olin''" "sample_world 2 6 ''Urist''",
      OF sample_world_keyed sample_world_keyed, unfolded sample_world_fields, OF refl]
  using sample_world_legal
  by (simp add: sample_world_fields cursor_checked_next_def checked_add_def validate_graph_def
      empty_graph_def graph_diff_def removed_entries_def upserted_entries_def bt_contains_def
      max_state_delta_changes_def)

definition sample_delta :: state_delta where
  "sample_delta =
     \<lparr>sd_fortress_id = 7, sd_base_cursor = ObservationCursor 1 1, sd_target_cursor = ObservationCursor 1 2,
      sd_base_hash = ws_state_hash (sample_world 1 5 ''Olin''),
      sd_target_hash = ws_state_hash (sample_world 2 6 ''Urist''), sd_target_tick = 100,
      sd_changes = [UpsertEntity (sample_unit 6 ''Urist'')], sd_truncated = False, sd_continuation = None\<rparr>"

lemma sample_delta_applies: "apply_delta (sample_world 1 5 ''Olin'') sample_delta = Ok (sample_world 2 6 ''Urist'')"
proof -
  have "apply_change_list [UpsertEntity (sample_unit 6 ''Urist'')]
      (empty_graph\<lparr>wg_entities := [(1, sample_unit 5 ''Olin'')]\<rparr>) =
    Ok (empty_graph\<lparr>wg_entities := [(1, sample_unit 6 ''Urist'')]\<rparr>)"
    by (simp add: apply_change_def sample_unit_def validate_entity_upsert_def)
  moreover have "validate_graph (empty_graph\<lparr>wg_entities := [(1, sample_unit 6 ''Urist'')]\<rparr>) = Ok ()"
    by (simp add: validate_graph_def empty_graph_def)
  ultimately show ?thesis
    unfolding apply_delta_Ok sample_world_fields
    by (simp add: sample_delta_def cursor_checked_next_def checked_add_def max_state_delta_changes_def
        sample_world_def)
qed

theorem delta_applies_to_exact_base_witness:
  "sd_base_hash sample_delta = ws_state_hash (sample_world 1 5 ''Olin'') \<and>
   unat (cur_sequence (ws_cursor (sample_world 2 6 ''Urist''))) = 2"
  using delta_applies_to_exact_base [OF sample_delta_applies] by (simp add: sample_world_fields sample_delta_def)

theorem delta_keeps_graph_closed_witness: "graph_keyed (ws_graph (sample_world 2 6 ''Urist''))"
  using delta_keeps_graph_closed [OF sample_delta_applies sample_world_keyed] by simp

theorem delta_versions_never_regress_witness:
  "entity_rank (sample_unit 5 ''Olin'') < entity_rank (sample_unit 6 ''Urist'')"
proof -
  have "1 \<notin> removed_ids (sd_changes sample_delta)" by (simp add: removed_ids_def sample_delta_def)
  with delta_versions_never_regress [OF sample_delta_applies sample_world_keyed]
  show ?thesis by (auto simp: sample_world_fields sample_unit_def)
qed

theorem diff_apply_reconstructs_target_witness:
  "diff_snapshots (sample_world 1 5 ''Olin'') (sample_world 2 6 ''Urist'') = Ok sample_delta \<and>
   apply_delta (sample_world 1 5 ''Olin'') sample_delta = Ok (sample_world 2 6 ''Urist'')"
proof -
  have g: "graph_diff (ws_graph (sample_world 1 5 ''Olin'')) (ws_graph (sample_world 2 6 ''Urist'')) =
      [UpsertEntity (sample_unit 6 ''Urist'')]"
    by (simp add: graph_diff_def sample_world_fields empty_graph_def removed_entries_def
        upserted_entries_def bt_contains_def sample_unit_def)
  have "build_delta (sample_world 1 5 ''Olin'') (ObservationCursor 1 2) 100
      [UpsertEntity (sample_unit 6 ''Urist'')] = Ok sample_delta"
    using sample_delta_applies unfolding apply_delta_Ok build_delta_Ok
    by (auto simp: sample_delta_def sample_world_fields)
  then have d: "diff_snapshots (sample_world 1 5 ''Olin'') (sample_world 2 6 ''Urist'') = Ok sample_delta"
    using g by (simp add: diff_snapshots_def compute_snapshot_diff_def sample_world_fields empty_graph_def
        sample_delta_def)
  moreover have "(sample_world 2 6 ''Urist'')\<lparr>ws_paused := True\<rparr> = sample_world 2 6 ''Urist''"
    by (simp add: sample_world_def world_snapshot_new_def refresh_hash_def)
  ultimately show ?thesis
    using diff_apply_reconstructs_target [OF sample_world_keyed sample_world_keyed d]
    by (simp add: sample_world_fields)
qed

end
