(* ===== verification/Delta_Codec.thy ===== *)
theory Delta_Codec
  imports Delta
begin

text \<open>
  The bytes of a delta (\<^verbatim>\<open>crates/dfmcp-world/src/canonical_decode/delta.rs\<close>) and of a continuation
  token (\<^verbatim>\<open>ContinuationToken\<close> in \<^verbatim>\<open>delta.rs\<close>). The delta decoder is strict, as the snapshot decoder
  is; the token's decimal text round-trips, and the decoder also accepts a plus sign and leading
  zeros, as Rust's integer parser does.
\<close>

subsection \<open>Deltas\<close>

definition dec_change :: "(world_change, dfmcp_error) reader" where
  "dec_change =
     rd_bind rd_u8 (\<lambda>tag.
       if tag = 0 then rd_bind dec_entity (\<lambda>e. rd_return (UpsertEntity e))
       else if tag = 1 then
         rd_bind rd_u64 (\<lambda>i. rd_bind rd_u32 (\<lambda>g. rd_bind rd_u64 (\<lambda>r. rd_return (RemoveEntity i g r))))
       else if tag = 2 then rd_bind dec_edge (\<lambda>e. rd_return (UpsertEdge e))
       else if tag = 3 then rd_bind rd_u128 (\<lambda>i. rd_bind rd_u64 (\<lambda>r. rd_return (RemoveEdge i r)))
       else if tag = 4 then rd_bind dec_chunk (\<lambda>c. rd_return (UpsertMapChunk c))
       else if tag = 5 then
         rd_bind dec_chunk_coord (\<lambda>c. rd_bind rd_u64 (\<lambda>r. rd_return (RemoveMapChunk c r)))
       else if tag = 6 then rd_bind dec_event (\<lambda>e. rd_return (AppendEvent e))
       else rd_fail corrupt)"

definition dec_changes :: "(world_change list, dfmcp_error) reader" where
  "dec_changes =
     rd_bind (rd_count 21) (\<lambda>count.
     if count > max_state_delta_changes then rd_fail corrupt else rd_repeat count dec_change)"

definition dec_delta_body :: "(state_delta, dfmcp_error) reader" where
  "dec_delta_body =
     rd_bind rd_string (\<lambda>domain.
     if domain \<noteq> delta_domain then rd_fail corrupt else
     rd_bind rd_u64 (\<lambda>fortress_id.
     rd_bind rd_u64 (\<lambda>base_epoch.
     rd_bind rd_u64 (\<lambda>base_sequence.
     rd_bind rd_u64 (\<lambda>target_epoch.
     rd_bind rd_u64 (\<lambda>target_sequence.
     rd_bind rd_digest (\<lambda>base_hash.
     rd_bind rd_digest (\<lambda>target_hash.
     rd_bind rd_u64 (\<lambda>target_tick.
     rd_bind dec_changes (\<lambda>changes.
     rd_bind rd_bool (\<lambda>truncated.
     rd_bind (rd_option rd_string) (\<lambda>continuation.
       rd_return \<lparr>sd_fortress_id = fortress_id, sd_base_cursor = ObservationCursor base_epoch base_sequence,
         sd_target_cursor = ObservationCursor target_epoch target_sequence, sd_base_hash = base_hash,
         sd_target_hash = target_hash, sd_target_tick = target_tick, sd_changes = changes,
         sd_truncated = truncated, sd_continuation = continuation\<rparr>))))))))))))"

definition delta_from_canonical_bytes :: "u8 list \<Rightarrow> state_delta res" where
  "delta_from_canonical_bytes bytes =
     (if length bytes > max_canonical_snapshot_bytes then Err corrupt
      else
        and_then (dec_delta_body bytes) (\<lambda>(delta, rest).
          if rest \<noteq> [] then Err corrupt
          else if delta_canonical_bytes delta \<noteq> bytes then Err corrupt
          else Ok delta))"

fun change_ok :: "world_change \<Rightarrow> bool" where
  "change_ok (UpsertEntity e) = entity_ok e"
| "change_ok (UpsertEdge e) = edge_ok e"
| "change_ok (UpsertMapChunk c) = chunk_ok c"
| "change_ok (RemoveMapChunk c r) = chunk_coord_ok c"
| "change_ok (AppendEvent e) = event_ok e"
| "change_ok _ = True"

definition delta_ok :: "state_delta \<Rightarrow> bool" where
  "delta_ok d \<longleftrightarrow> is_digest (sd_base_hash d) \<and> is_digest (sd_target_hash d) \<and>
     length (sd_changes d) \<le> max_state_delta_changes \<and> (\<forall>c \<in> set (sd_changes d). change_ok c) \<and>
     option_ok text_ok (sd_continuation d)"

lemma strict_change: "strict_codec enc_change dec_change change_ok"
proof (rule strict_codec_split)
  note iffs = strict_codecD [OF strict_entity] strict_codecD [OF strict_edge]
    strict_codecD [OF strict_chunk] strict_codecD [OF strict_event]
  note evals = strict_codec_eval [OF strict_entity] strict_codec_eval [OF strict_edge]
    strict_codec_eval [OF strict_chunk] strict_codec_eval [OF strict_event]
  show "change_ok c \<and> bs = enc_change c @ rest" if "dec_change bs = Ok (c, rest)" for bs c rest
    using that unfolding dec_change_def
    by (auto simp: rd_inv rd_iffs iffs enc_chunk_coord_def split: if_splits)
  have coord: "rd_bind dec_chunk_coord f (put_i32 (cc_x c) @ put_i32 (cc_y c) @ put_i32 (cc_z c) @ bs)
      = f c bs" if "chunk_coord_ok c" for f c and bs :: "u8 list"
    using strict_codec_eval [OF strict_chunk_coord that, of bs]
    by (simp add: rd_bind_def enc_chunk_coord_def)
  show "dec_change (enc_change c @ rest) = Ok (c, rest)" if "change_ok c" for c rest
    using that unfolding dec_change_def
    by (cases c) (simp_all add: coord rd_bind_def [of rd_u8] rd_evals rd_bind_def [of dec_entity]
        rd_bind_def [of dec_edge] rd_bind_def [of dec_chunk] rd_bind_def [of dec_event]
        rd_bind_def [of rd_u64] rd_bind_def [of rd_u32] rd_bind_def [of rd_u128] rd_return_def evals
        del: and_then_Ok_iff)
qed

interpretation change_codec: strict_codec enc_change dec_change change_ok
  by (rule strict_change)

text \<open>The smallest change takes 21 bytes, the bound the decoder uses for the count.\<close>

lemma enc_change_length: "21 \<le> length (enc_change c)"
  by (cases c) (auto simp: enc_entity_def enc_edge_def enc_chunk_def enc_event_def enc_chunk_coord_def)

definition changes_ok :: "world_change list \<Rightarrow> bool" where
  "changes_ok cs \<longleftrightarrow> length cs \<le> max_state_delta_changes \<and> (\<forall>c \<in> set cs. change_ok c)"

lemma strict_changes: "strict_codec (put_list enc_change) dec_changes changes_ok"
proof (rule strict_codecI)
  fix bs cs rest
  have room: "length cs * 21 \<le> length (concat (map enc_change cs))"
    by (intro concat_length_ge) (simp add: enc_change_length)
  have "length cs \<le> max_state_delta_changes \<Longrightarrow> length cs * 21 < 2 ^ 64"
    by (simp add: max_state_delta_changes_def)
  then show "dec_changes bs = Ok (cs, rest) \<longleftrightarrow> changes_ok cs \<and> bs = put_list enc_change cs @ rest"
    using room
    by (auto simp: dec_changes_def rd_bind_Ok_iff rd_count_Ok change_codec.repeat_iff put_list_def
        changes_ok_def not_less split: if_splits)
qed

lemmas rd_delta_iffs = strict_codecD [OF strict_changes] strict_codecD [OF strict_option [OF strict_string]]
lemmas rd_delta_evals = strict_codec_eval [OF strict_changes] strict_codec_eval [OF strict_option [OF strict_string]]

lemma text_ok_delta_domain: "text_ok delta_domain"
  by (simp add: text_ok_def delta_domain_def utf8_valid_def)

lemma strict_delta: "strict_codec delta_canonical_bytes dec_delta_body delta_ok"
proof (rule strict_codec_split)
  show "delta_ok d \<and> bs = delta_canonical_bytes d @ rest" if "dec_delta_body bs = Ok (d, rest)" for bs d rest
    using that unfolding dec_delta_body_def
    by (auto simp: rd_inv rd_iffs rd_delta_iffs delta_ok_def changes_ok_def delta_canonical_bytes_def
        split: if_splits)
  show "dec_delta_body (delta_canonical_bytes d @ rest) = Ok (d, rest)" if "delta_ok d" for d rest
    using that text_ok_delta_domain unfolding dec_delta_body_def delta_ok_def delta_canonical_bytes_def
    by (simp add: rd_run rd_evals rd_delta_evals changes_ok_def del: and_then_Ok_iff)
qed

interpretation delta_codec: strict_codec delta_canonical_bytes dec_delta_body delta_ok
  by (rule strict_delta)

text \<open>
  C19: Deltas are read back exactly: the decoder accepts precisely the canonical bytes, up to the
  size bound, of well-formed deltas within the bound on the number of changes. The count bound of 21 bytes per change refuses none.
\<close>

theorem delta_decode_strict:
  "delta_from_canonical_bytes bytes = Ok d \<longleftrightarrow>
   length bytes \<le> max_canonical_snapshot_bytes \<and> delta_ok d \<and> bytes = delta_canonical_bytes d"
proof -
  have "delta_from_canonical_bytes bytes = Ok d \<longleftrightarrow>
      length bytes \<le> max_canonical_snapshot_bytes \<and> dec_delta_body bytes = Ok (d, []) \<and>
      delta_canonical_bytes d = bytes"
    by (auto simp: delta_from_canonical_bytes_def split: if_splits)
  then show ?thesis by (auto simp: delta_codec.decode_iff)
qed

subsection \<open>Continuation tokens\<close>

record continuation_token =
  ct_fortress_id :: fortress_id
  ct_cursor :: observation_cursor
  ct_offset :: u32

definition max_continuation_token_bytes :: nat where
  "max_continuation_token_bytes = 128"

text \<open>Decimal formatting of unsigned integers, and their parsing as \<^verbatim>\<open>str::parse\<close> does it.\<close>

definition digit_char :: "nat \<Rightarrow> char" where
  "digit_char d = char_of (48 + d)"

fun show_nat :: "nat \<Rightarrow> string" where
  "show_nat n = (if n < 10 then [digit_char n] else show_nat (n div 10) @ [digit_char (n mod 10)])"

declare show_nat.simps [simp del]

definition digit_value :: "char \<Rightarrow> nat option" where
  "digit_value c = (let n = of_char c in if 48 \<le> n \<and> n \<le> 57 then Some (n - 48) else None)"

fun parse_digits :: "nat \<Rightarrow> nat \<Rightarrow> string \<Rightarrow> nat option" where
  "parse_digits limit acc [] = Some acc"
| "parse_digits limit acc (c # cs) =
     (case digit_value c of
        None \<Rightarrow> None
      | Some d \<Rightarrow> if acc * 10 + d < limit then parse_digits limit (acc * 10 + d) cs else None)"

definition parse_unsigned :: "nat \<Rightarrow> string \<Rightarrow> nat option" where
  "parse_unsigned limit s =
     (let digits = (case s of c # r \<Rightarrow> if c = CHR ''+'' then r else s | [] \<Rightarrow> s)
      in if digits = [] then None else parse_digits limit 0 digits)"

fun split_on :: "char \<Rightarrow> string \<Rightarrow> string list" where
  "split_on sep [] = [[]]"
| "split_on sep (c # cs) =
     (if c = sep then [] # split_on sep cs
      else (case split_on sep cs of p # ps \<Rightarrow> (c # p) # ps | [] \<Rightarrow> [[c]]))"

definition token_encode :: "continuation_token \<Rightarrow> string" where
  "token_encode t =
     ''cont:'' @ show_nat (unat (ct_fortress_id t)) @ '':'' @ show_nat (unat (cur_epoch (ct_cursor t))) @
     '':'' @ show_nat (unat (cur_sequence (ct_cursor t))) @ '':'' @ show_nat (unat (ct_offset t))"

definition token_decode :: "string \<Rightarrow> continuation_token res" where
  "token_decode token =
     (if length token > max_continuation_token_bytes then fail BudgetExceeded
      else
        (case split_on (CHR '':'') token of
           [tag, fortress, epoch_text, sequence_text, offset_text] \<Rightarrow>
             if tag \<noteq> ''cont'' then fail InvalidRequest
             else
               and_then (ok_or (parse_unsigned (2 ^ 64) fortress) (dfmcp_error InvalidRequest)) (\<lambda>fid.
               if fid = 0 then fail InvalidRequest else
               and_then (ok_or (parse_unsigned (2 ^ 64) epoch_text) (dfmcp_error InvalidRequest)) (\<lambda>epoch.
               and_then (ok_or (parse_unsigned (2 ^ 64) sequence_text) (dfmcp_error InvalidRequest)) (\<lambda>sequence.
               and_then (ok_or (parse_unsigned (2 ^ 32) offset_text) (dfmcp_error InvalidRequest)) (\<lambda>offset.
                 Ok \<lparr>ct_fortress_id = word_of_nat fid,
                     ct_cursor = ObservationCursor (word_of_nat epoch) (word_of_nat sequence),
                     ct_offset = word_of_nat offset\<rparr>))))
         | _ \<Rightarrow> fail InvalidRequest))"

lemma digit_value_char: "d < 10 \<Longrightarrow> digit_value (digit_char d) = Some d"
  by (simp add: digit_value_def digit_char_def Let_def)

lemma digit_char_not:
  "d < 10 \<Longrightarrow> digit_char d \<noteq> CHR '':''" "d < 10 \<Longrightarrow> digit_char d \<noteq> CHR ''+''"
  using digit_value_char [of d] by (auto simp: digit_value_def Let_def)

lemma show_nat_chars: "c \<in> set (show_nat n) \<Longrightarrow> \<exists>d < 10. c = digit_char d"
proof (induction n rule: show_nat.induct)
  case (1 n)
  then show ?case
    by (cases "n < 10") (auto simp: show_nat.simps [of n], metis mod_less_divisor zero_less_numeral)
qed

lemma show_nat_nonempty: "show_nat n \<noteq> []"
  by (simp add: show_nat.simps [of n])

lemma parse_digits_append:
  "parse_digits limit acc (xs @ ys) =
   (case parse_digits limit acc xs of None \<Rightarrow> None | Some a \<Rightarrow> parse_digits limit a ys)"
  by (induction xs arbitrary: acc) (auto split: option.splits)

lemma parse_digits_show: "n < limit \<Longrightarrow> parse_digits limit 0 (show_nat n) = Some n"
proof (induction n rule: show_nat.induct)
  case (1 n)
  show ?case
  proof (cases "n < 10")
    case True
    then show ?thesis using 1 by (simp add: show_nat.simps [of n] digit_value_char)
  next
    case False
    then have "parse_digits limit 0 (show_nat (n div 10)) = Some (n div 10)"
      using 1 by (simp add: div_le_dividend order.strict_trans1)
    then show ?thesis
      using False 1 by (simp add: show_nat.simps [of n] parse_digits_append digit_value_char)
  qed
qed

lemma parse_unsigned_show: "n < limit \<Longrightarrow> parse_unsigned limit (show_nat n) = Some n"
proof -
  assume n: "n < limit"
  obtain c r where c: "show_nat n = c # r" using show_nat_nonempty [of n] by (cases "show_nat n") auto
  then have "c \<noteq> CHR ''+''" using show_nat_chars [of c n] digit_char_not(2) by auto
  then show ?thesis using parse_digits_show [OF n] by (simp add: parse_unsigned_def c)
qed

lemma length_show_nat: "n < 10 ^ Suc k \<Longrightarrow> length (show_nat n) \<le> Suc k"
proof (induction n arbitrary: k rule: show_nat.induct)
  case (1 n)
  show ?case
  proof (cases "n < 10")
    case False
    then obtain j where j: "k = Suc j" using 1 by (cases k) auto
    then have "n div 10 < 10 ^ Suc j" using 1 by (simp add: div_less_iff_less_mult mult.commute)
    then show ?thesis using 1 False j by (simp add: show_nat.simps [of n])
  qed (simp add: show_nat.simps [of n])
qed

lemma split_on_append: "sep \<notin> set xs \<Longrightarrow> split_on sep (xs @ sep # ys) = xs # split_on sep ys"
  by (induction xs) auto

lemma split_on_none: "sep \<notin> set xs \<Longrightarrow> split_on sep xs = [xs]"
  by (induction xs) auto

lemma show_nat_no_colon: "CHR '':'' \<notin> set (show_nat n)"
  using show_nat_chars [of "CHR '':''" n] digit_char_not(1) by metis

lemma token_split:
  "split_on (CHR '':'') (token_encode t) =
   [''cont'', show_nat (unat (ct_fortress_id t)), show_nat (unat (cur_epoch (ct_cursor t))),
    show_nat (unat (cur_sequence (ct_cursor t))), show_nat (unat (ct_offset t))]"
  by (simp add: token_encode_def split_on_append show_nat_no_colon split_on_none)

lemma token_length: "length (token_encode t) \<le> max_continuation_token_bytes"
proof -
  have u64: "length (show_nat (unat x)) \<le> 20" for x :: u64
    using length_show_nat [of "unat x" 19] unat_less_u64 [of x] by simp
  have "unat (ct_offset t) < 2 ^ LENGTH(32)" by (rule unsigned_less)
  then have "length (show_nat (unat (ct_offset t))) \<le> 10"
    using length_show_nat [of "unat (ct_offset t)" 9] by simp
  then show ?thesis
    using u64 [of "ct_fortress_id t"] u64 [of "cur_epoch (ct_cursor t)"] u64 [of "cur_sequence (ct_cursor t)"]
    by (simp add: token_encode_def max_continuation_token_bytes_def)
qed

text \<open>
  A continuation token survives its text form: every token of a real fortress decodes from its
  encoding, which always fits the byte bound.
\<close>

theorem continuation_token_roundtrip:
  assumes "ct_fortress_id t \<noteq> 0"
  shows "token_decode (token_encode t) = Ok t"
proof -
  have "unat (ct_offset t) < 2 ^ LENGTH(32)" by (rule unsigned_less)
  then have "parse_unsigned (2 ^ 32) (show_nat (unat (ct_offset t))) = Some (unat (ct_offset t))"
    by (intro parse_unsigned_show) simp
  moreover have "parse_unsigned (2 ^ 64) (show_nat (unat x)) = Some (unat x)" for x :: u64
    using unat_less_u64 [of x] by (intro parse_unsigned_show) simp
  moreover have "unat (ct_fortress_id t) \<noteq> 0" using assms by (simp add: unat_eq_0)
  ultimately show ?thesis
    using token_length [of t] by (simp add: token_decode_def token_split)
qed

theorem continuation_token_roundtrip_witness:
  "token_decode (token_encode \<lparr>ct_fortress_id = 7, ct_cursor = ObservationCursor 1 42, ct_offset = 9\<rparr>) =
   Ok \<lparr>ct_fortress_id = 7, ct_cursor = ObservationCursor 1 42, ct_offset = 9\<rparr>"
  by (rule continuation_token_roundtrip) simp

text \<open>Different texts can denote one token: a plus sign and leading zeros are accepted.\<close>

lemma token_decode_not_canonical:
  "token_decode ''cont:+7:01:2:3'' = token_decode ''cont:7:1:2:3'' \<and> is_ok (token_decode ''cont:7:1:2:3'')"
  by (simp add: token_decode_def max_continuation_token_bytes_def parse_unsigned_def digit_value_def Let_def)

end
