(* ===== verification/Ledger.thy ===== *)
theory Ledger
  imports Delta "HOL-Library.Product_Lexorder"
begin

text \<open>
  \<^verbatim>\<open>crates/dfmcp-world/src/ledger.rs\<close>: sealed observation capsules, the witness sets of
  optimistic reads, and the durable ledger with its staged capsule and its journal of effects.
  Operations that mutate the ledger return the new ledger with the result, so that what an
  error path leaves behind is visible. The ledger is run as a step relation; its invariant
  says that the head is the replay of the published capsules from the root and that the effect
  records are the ones the lifecycle of an effect allows.
\<close>

definition max_ledger_capsules :: nat where
  "max_ledger_capsules = 65536"

definition max_ledger_effects :: nat where
  "max_ledger_effects = 65536"

definition max_effect_id_bytes :: nat where
  "max_effect_id_bytes = 256"

definition max_effect_error_bytes :: nat where
  "max_effect_error_bytes = 4096"

subsection \<open>Observation capsules\<close>

record observation_capsule =
  oc_basis_anchor :: state_anchor
  oc_successor_anchor :: state_anchor
  oc_delta :: state_delta
  oc_capsule_digest :: digest32
  oc_published_at_tick :: game_tick

definition capsule_domain :: string where
  "capsule_domain = ''dfmcp-observation-capsule-v1''"

definition compute_capsule_digest ::
  "state_anchor \<Rightarrow> state_anchor \<Rightarrow> state_delta \<Rightarrow> game_tick \<Rightarrow> digest32" where
  "compute_capsule_digest basis successor delta published_at_tick =
     digest_of_bytes (put_str capsule_domain @ put_anchor basis @ put_anchor successor @
       put_bytes (delta_canonical_bytes delta) @ put_u64 published_at_tick)"

definition observation_capsule_new ::
  "state_anchor \<Rightarrow> state_anchor \<Rightarrow> state_delta \<Rightarrow> game_tick \<Rightarrow> observation_capsule res" where
  "observation_capsule_new basis successor delta published_at_tick =
     (if sa_fortress_id basis \<noteq> sa_fortress_id successor then fail StaleAnchor
      else if sd_fortress_id delta \<noteq> sa_fortress_id basis then fail StaleAnchor
      else if sd_base_cursor delta \<noteq> sa_cursor basis then fail CursorGap
      else if sd_target_cursor delta \<noteq> sa_cursor successor then fail CursorGap
      else if sd_base_hash delta \<noteq> sa_state_hash basis then fail StaleAnchor
      else if sd_target_hash delta \<noteq> sa_state_hash successor then fail StaleAnchor
      else if sd_target_tick delta \<noteq> sa_tick successor \<or> sa_tick successor < sa_tick basis then fail StaleAnchor
      else if length (sd_changes delta) > max_state_delta_changes \<or> sd_truncated delta
        \<or> sd_continuation delta \<noteq> None
        \<or> cur_epoch (sd_target_cursor delta) \<noteq> cur_epoch (sd_base_cursor delta)
        \<or> cur_sequence (sd_target_cursor delta) \<le> cur_sequence (sd_base_cursor delta) then fail CursorGap
      else if published_at_tick < sa_tick successor then fail InvalidRequest
      else Ok \<lparr>oc_basis_anchor = basis, oc_successor_anchor = successor, oc_delta = delta,
        oc_capsule_digest = compute_capsule_digest basis successor delta published_at_tick,
        oc_published_at_tick = published_at_tick\<rparr>)"

definition integrity_is_valid :: "observation_capsule \<Rightarrow> bool" where
  "integrity_is_valid c \<longleftrightarrow>
     sa_fortress_id (oc_basis_anchor c) = sa_fortress_id (oc_successor_anchor c) \<and>
     sd_fortress_id (oc_delta c) = sa_fortress_id (oc_basis_anchor c) \<and>
     sd_base_cursor (oc_delta c) = sa_cursor (oc_basis_anchor c) \<and>
     sd_target_cursor (oc_delta c) = sa_cursor (oc_successor_anchor c) \<and>
     sd_base_hash (oc_delta c) = sa_state_hash (oc_basis_anchor c) \<and>
     sd_target_hash (oc_delta c) = sa_state_hash (oc_successor_anchor c) \<and>
     sd_target_tick (oc_delta c) = sa_tick (oc_successor_anchor c) \<and>
     sa_tick (oc_successor_anchor c) \<ge> sa_tick (oc_basis_anchor c) \<and>
     length (sd_changes (oc_delta c)) \<le> max_state_delta_changes \<and>
     cur_epoch (sd_target_cursor (oc_delta c)) = cur_epoch (sd_base_cursor (oc_delta c)) \<and>
     cur_sequence (sd_target_cursor (oc_delta c)) > cur_sequence (sd_base_cursor (oc_delta c)) \<and>
     \<not> sd_truncated (oc_delta c) \<and> sd_continuation (oc_delta c) = None \<and>
     oc_published_at_tick c \<ge> sa_tick (oc_successor_anchor c) \<and>
     oc_capsule_digest c = compute_capsule_digest (oc_basis_anchor c) (oc_successor_anchor c)
       (oc_delta c) (oc_published_at_tick c)"

subsection \<open>Witness sets\<close>

record witness_set =
  wit_positive_entities :: "(entity_id \<times> u32 \<times> u64, unit) btree_map"
  wit_negative_entities :: "(entity_id, unit) btree_map"
  wit_chunks :: "(chunk_coord, u64) btree_map"

definition witness_set_new :: witness_set where
  "witness_set_new = \<lparr>wit_positive_entities = [], wit_negative_entities = [], wit_chunks = []\<rparr>"

definition add_positive_entity :: "entity_id \<Rightarrow> u32 \<Rightarrow> u64 \<Rightarrow> witness_set \<Rightarrow> witness_set" where
  "add_positive_entity i generation revision w =
     w\<lparr>wit_positive_entities := bt_insert (i, generation, revision) () (wit_positive_entities w)\<rparr>"

definition add_negative_entity :: "entity_id \<Rightarrow> witness_set \<Rightarrow> witness_set" where
  "add_negative_entity i w = w\<lparr>wit_negative_entities := bt_insert i () (wit_negative_entities w)\<rparr>"

definition add_chunk :: "chunk_coord \<Rightarrow> u64 \<Rightarrow> witness_set \<Rightarrow> witness_set" where
  "add_chunk coord revision w = w\<lparr>wit_chunks := bt_insert coord revision (wit_chunks w)\<rparr>"

fun check_positive :: "((entity_id \<times> u32 \<times> u64) \<times> unit) list \<Rightarrow> entity_record \<Rightarrow> unit res" where
  "check_positive [] e = Ok ()"
| "check_positive (((w_id, w_gen, w_rev), _) # ws) e =
     (if er_id e = w_id then
        if er_generation e \<noteq> w_gen then fail Conflict
        else if er_revision e \<noteq> w_rev then fail Conflict
        else check_positive ws e
      else check_positive ws e)"

definition check_witness_change :: "witness_set \<Rightarrow> world_change \<Rightarrow> unit res" where
  "check_witness_change w change =
     (case change of
        UpsertEntity e \<Rightarrow>
          if bt_contains (er_id e) (wit_negative_entities w) then fail Conflict
          else check_positive (wit_positive_entities w) e
      | RemoveEntity deleted_id _ _ \<Rightarrow>
          if \<exists>((i, _, _), _) \<in> set (wit_positive_entities w). i = deleted_id then fail Conflict else Ok ()
      | _ \<Rightarrow> Ok ())"

fun validate_witnesses :: "witness_set \<Rightarrow> world_change list \<Rightarrow> unit res" where
  "validate_witnesses w [] = Ok ()"
| "validate_witnesses w (c # cs) = and_then (check_witness_change w c) (\<lambda>_. validate_witnesses w cs)"

definition validate_against_delta :: "witness_set \<Rightarrow> state_delta \<Rightarrow> unit res" where
  "validate_against_delta w delta = validate_witnesses w (sd_changes delta)"

subsection \<open>The ledger\<close>

record effect_journal_record =
  ef_effect_id :: string
  ef_idempotency_key :: string
  ef_plan_digest :: digest32
  ef_state :: commit_state
  ef_dispatch_attempted_tick :: "game_tick option"
  ef_receipt_digest :: "digest32 option"
  ef_observed_state_hash :: "digest32 option"
  ef_error_message :: "string option"

record durable_ledger =
  dl_fortress_id :: fortress_id
  dl_epoch :: u64
  dl_root_snapshot :: world_snapshot
  dl_head_snapshot :: world_snapshot
  dl_capsules :: "observation_capsule list"
  dl_effects :: "(string, effect_journal_record) btree_map"
  dl_unpublished_capsule :: "observation_capsule option"

definition durable_ledger_new :: "world_snapshot \<Rightarrow> durable_ledger" where
  "durable_ledger_new root_snapshot =
     \<lparr>dl_fortress_id = ws_fortress_id root_snapshot, dl_epoch = cur_epoch (ws_cursor root_snapshot),
      dl_root_snapshot = root_snapshot, dl_head_snapshot = root_snapshot, dl_capsules = [],
      dl_effects = [], dl_unpublished_capsule = None\<rparr>"

definition head_anchor :: "durable_ledger \<Rightarrow> state_anchor" where
  "head_anchor l = snapshot_anchor (dl_head_snapshot l)"

definition ledger_effect :: "durable_ledger \<Rightarrow> string \<Rightarrow> effect_journal_record option" where
  "ledger_effect l key = map_of (dl_effects l) key"

definition stage_capsule :: "durable_ledger \<Rightarrow> observation_capsule \<Rightarrow> durable_ledger \<times> unit res" where
  "stage_capsule l capsule =
     (if \<not> integrity_is_valid capsule then (l, fail CorruptLedger)
      else
        let current_head = head_anchor l in
        if sa_fortress_id (oc_basis_anchor capsule) \<noteq> dl_fortress_id l then (l, fail StaleAnchor)
        else if sa_cursor (oc_basis_anchor capsule) \<noteq> sa_cursor current_head then (l, fail CursorGap)
        else if sa_state_hash (oc_basis_anchor capsule) \<noteq> sa_state_hash current_head then (l, fail CursorGap)
        else if sa_tick (oc_basis_anchor capsule) \<noteq> sa_tick current_head then (l, fail StaleAnchor)
        else
          case apply_delta (dl_head_snapshot l) (oc_delta capsule) of
            Err _ \<Rightarrow> (l, fail CorruptLedger)
          | Ok reconstructed \<Rightarrow>
              if snapshot_anchor reconstructed \<noteq> oc_successor_anchor capsule then (l, fail CorruptLedger)
              else
                case dl_unpublished_capsule l of
                  Some existing \<Rightarrow> if existing = capsule then (l, Ok ()) else (l, fail Conflict)
                | None \<Rightarrow> (l\<lparr>dl_unpublished_capsule := Some capsule\<rparr>, Ok ()))"

definition publish_staged :: "durable_ledger \<Rightarrow> durable_ledger \<times> state_anchor res" where
  "publish_staged l =
     (case dl_unpublished_capsule l of
        None \<Rightarrow> (l, fail InvalidRequest)
      | Some capsule \<Rightarrow>
          if \<not> integrity_is_valid capsule then (l, fail CorruptLedger)
          else if length (dl_capsules l) \<ge> max_ledger_capsules then (l, fail BudgetExceeded)
          else if oc_basis_anchor capsule \<noteq> head_anchor l then (l, fail CursorGap)
          else
            case apply_delta (dl_head_snapshot l) (oc_delta capsule) of
              Ok snapshot \<Rightarrow>
                if snapshot_anchor snapshot = oc_successor_anchor capsule
                then (l\<lparr>dl_unpublished_capsule := None, dl_capsules := dl_capsules l @ [capsule],
                        dl_head_snapshot := snapshot\<rparr>, Ok (oc_successor_anchor capsule))
                else (l, fail CorruptLedger)
            | Err _ \<Rightarrow> (l, fail CorruptLedger))"

definition abort_staged :: "durable_ledger \<Rightarrow> durable_ledger" where
  "abort_staged l = l\<lparr>dl_unpublished_capsule := None\<rparr>"

subsection \<open>The effect journal\<close>

definition record_dispatch_attempt ::
  "durable_ledger \<Rightarrow> string \<Rightarrow> string \<Rightarrow> digest32 \<Rightarrow> game_tick \<Rightarrow> durable_ledger \<times> unit res" where
  "record_dispatch_attempt l eff_id key plan_digest tick =
     (if eff_id = [] \<or> key = [] \<or> length eff_id > max_effect_id_bytes \<or> length key > max_effect_id_bytes
      then (l, fail InvalidRequest)
      else
        case map_of (dl_effects l) key of
          Some existing \<Rightarrow>
            if ef_effect_id existing = eff_id \<and> ef_plan_digest existing = plan_digest then (l, Ok ())
            else (l, fail Conflict)
        | None \<Rightarrow>
            if length (dl_effects l) \<ge> max_ledger_effects then (l, fail BudgetExceeded)
            else (l\<lparr>dl_effects := bt_insert key
                \<lparr>ef_effect_id = eff_id, ef_idempotency_key = key, ef_plan_digest = plan_digest,
                 ef_state = Committing, ef_dispatch_attempted_tick = Some tick, ef_receipt_digest = None,
                 ef_observed_state_hash = None, ef_error_message = None\<rparr> (dl_effects l)\<rparr>, Ok ()))"

definition put_effect :: "durable_ledger \<Rightarrow> string \<Rightarrow> effect_journal_record \<Rightarrow> durable_ledger" where
  "put_effect l key e = l\<lparr>dl_effects := bt_insert key e (dl_effects l)\<rparr>"

definition record_commit_receipt ::
  "durable_ledger \<Rightarrow> string \<Rightarrow> digest32 \<Rightarrow> durable_ledger \<times> unit res" where
  "record_commit_receipt l key receipt_digest =
     (case map_of (dl_effects l) key of
        None \<Rightarrow> (l, fail InvalidRequest)
      | Some effect \<Rightarrow>
          if ef_state effect \<in> {AppliedAwaitingVerification, Verified}
             \<and> ef_receipt_digest effect = Some receipt_digest then (l, Ok ())
          else if ef_state effect \<noteq> Committing then (l, fail Conflict)
          else (put_effect l key (effect\<lparr>ef_state := AppliedAwaitingVerification,
                  ef_receipt_digest := Some receipt_digest\<rparr>), Ok ()))"

definition record_verified ::
  "durable_ledger \<Rightarrow> string \<Rightarrow> digest32 \<Rightarrow> durable_ledger \<times> unit res" where
  "record_verified l key observed_state_hash =
     (if observed_state_hash = digest_zero then (l, fail InvalidRequest)
      else
        case map_of (dl_effects l) key of
          None \<Rightarrow> (l, fail InvalidRequest)
        | Some effect \<Rightarrow>
            if ef_state effect = Verified \<and> ef_observed_state_hash effect = Some observed_state_hash
            then (l, Ok ())
            else if ef_state effect \<noteq> AppliedAwaitingVerification \<or> ef_receipt_digest effect = None
            then (l, fail Conflict)
            else (put_effect l key (effect\<lparr>ef_observed_state_hash := Some observed_state_hash,
                    ef_state := Verified\<rparr>), Ok ()))"

definition record_indeterminate ::
  "durable_ledger \<Rightarrow> string \<Rightarrow> string \<Rightarrow> durable_ledger \<times> unit res" where
  "record_indeterminate l key message =
     (if length message > max_effect_error_bytes then (l, fail BudgetExceeded)
      else
        case map_of (dl_effects l) key of
          None \<Rightarrow> (l, fail InvalidRequest)
        | Some effect \<Rightarrow>
            if ef_state effect = Indeterminate \<and> ef_error_message effect = Some message then (l, Ok ())
            else if ef_state effect \<notin> {Committing, AppliedAwaitingVerification} then (l, fail Conflict)
            else (put_effect l key (effect\<lparr>ef_state := Indeterminate, ef_error_message := Some message\<rparr>), Ok ()))"

definition recovery_message :: string where
  "recovery_message =
     ''Recovery: dispatch outcome unknown prior to crash; reconciliation required''"

definition recover_effect :: "effect_journal_record \<Rightarrow> effect_journal_record" where
  "recover_effect effect =
     (if ef_state effect = Committing \<and> ef_dispatch_attempted_tick effect \<noteq> None
         \<and> ef_receipt_digest effect = None
      then effect\<lparr>ef_state := Indeterminate, ef_error_message := Some recovery_message\<rparr>
      else effect)"

definition recover_from_crash :: "durable_ledger \<Rightarrow> durable_ledger" where
  "recover_from_crash l =
     l\<lparr>dl_unpublished_capsule := None,
       dl_effects := map (\<lambda>(key, effect). (key, recover_effect effect)) (dl_effects l)\<rparr>"

subsection \<open>Replay\<close>

text \<open>
  The loop of \<^verbatim>\<open>CapsulePublisher::recover\<close>: the head that a list of capsules rebuilds from a
  root, with the check of both anchors of every capsule.
\<close>

fun replay_capsules :: "world_snapshot \<Rightarrow> observation_capsule list \<Rightarrow> world_snapshot res" where
  "replay_capsules head [] = Ok head"
| "replay_capsules head (capsule # capsules) =
     (if oc_basis_anchor capsule \<noteq> snapshot_anchor head then fail CorruptLedger
      else
        and_then (apply_delta head (oc_delta capsule)) (\<lambda>head'.
          if snapshot_anchor head' \<noteq> oc_successor_anchor capsule then fail CorruptLedger
          else replay_capsules head' capsules))"

subsection \<open>Capsules\<close>

text \<open>
  The integrity check and the sealing constructor agree: a capsule passes the check exactly
  when sealing its own anchors, delta and publication tick yields that very capsule.
\<close>

theorem integrity_iff_resealed:
  "integrity_is_valid c \<longleftrightarrow>
     observation_capsule_new (oc_basis_anchor c) (oc_successor_anchor c) (oc_delta c)
       (oc_published_at_tick c) = Ok c"
  by (cases c) (auto simp: integrity_is_valid_def observation_capsule_new_def not_less not_le)

lemma observation_capsule_new_valid:
  assumes "observation_capsule_new b s d t = Ok c"
  shows "integrity_is_valid c \<and> oc_basis_anchor c = b \<and> oc_successor_anchor c = s \<and> oc_delta c = d \<and>
    oc_published_at_tick c = t"
  using assms
  by (auto simp: integrity_is_valid_def observation_capsule_new_def not_less not_le split: if_splits)

lemma replay_snoc:
  "replay_capsules h (cs @ [c]) = Ok s \<longleftrightarrow>
     (\<exists>m. replay_capsules h cs = Ok m \<and> oc_basis_anchor c = snapshot_anchor m \<and>
        apply_delta m (oc_delta c) = Ok s \<and> snapshot_anchor s = oc_successor_anchor c)"
  by (induction cs arbitrary: h) auto

subsection \<open>Witness sets guard reads\<close>

lemma check_positive_Ok:
  "check_positive ws e = Ok u \<longleftrightarrow>
     (\<forall>g r. ((er_id e, g, r), ()) \<in> set ws \<longrightarrow> er_generation e = g \<and> er_revision e = r)"
  by (induction ws e rule: check_positive.induct) auto

lemma validate_witnesses_Ok:
  "validate_witnesses w cs = Ok u \<longleftrightarrow> (\<forall>c \<in> set cs. check_witness_change w c = Ok ())"
  by (induction w cs rule: validate_witnesses.induct) auto

lemma check_upsert_Ok:
  "check_witness_change w (UpsertEntity e) = Ok u \<longleftrightarrow>
     \<not> bt_contains (er_id e) (wit_negative_entities w) \<and>
     (\<forall>g r. ((er_id e, g, r), ()) \<in> set (wit_positive_entities w) \<longrightarrow>
        er_generation e = g \<and> er_revision e = r)"
  by (simp add: check_witness_change_def check_positive_Ok)

lemma check_remove_Ok:
  "check_witness_change w (RemoveEntity i a b) = Ok u \<longleftrightarrow>
     (\<forall>g r. ((i, g, r), ()) \<notin> set (wit_positive_entities w))"
  by (auto simp: check_witness_change_def split: if_splits)


lemma witness_change_keeps_entity:
  assumes "check_witness_change w c = Ok ()" "apply_change c g = Ok g'"
    and "((i, er_generation e, er_revision e), ()) \<in> set (wit_positive_entities w)"
    and "map_of (wg_entities g) i = Some e"
  shows "map_of (wg_entities g') i = Some e"
proof (cases c)
  case (UpsertEntity n)
  then show ?thesis
    using assms by (auto simp: check_upsert_Ok apply_change_def validate_entity_upsert_def map_of_bt_insert
        split: if_splits)
next
  case (RemoveEntity k a b)
  then show ?thesis
    using assms by (auto simp: check_remove_Ok apply_change_def map_of_bt_remove split: if_splits option.splits)
qed (use assms in \<open>auto simp: apply_change_def split: if_splits option.splits\<close>)

lemma witness_change_keeps_absence:
  assumes "check_witness_change w c = Ok ()" "apply_change c g = Ok g'"
    and "bt_contains i (wit_negative_entities w)" "map_of (wg_entities g) i = None"
  shows "map_of (wg_entities g') i = None"
proof (cases c)
  case (UpsertEntity n)
  then show ?thesis
    using assms by (auto simp: check_upsert_Ok apply_change_def map_of_bt_insert split: if_splits)
next
  case (RemoveEntity k a b)
  then show ?thesis
    using assms by (auto simp: apply_change_def map_of_bt_remove split: if_splits option.splits)
qed (use assms in \<open>auto simp: apply_change_def split: if_splits option.splits\<close>)

lemma witness_list_keeps:
  assumes "\<forall>c \<in> set cs. check_witness_change w c = Ok ()" "apply_change_list cs g = Ok g'"
  shows "((i, er_generation e, er_revision e), ()) \<in> set (wit_positive_entities w) \<Longrightarrow>
      map_of (wg_entities g) i = Some e \<Longrightarrow> map_of (wg_entities g') i = Some e"
    and "bt_contains i (wit_negative_entities w) \<Longrightarrow> map_of (wg_entities g) i = None \<Longrightarrow>
      map_of (wg_entities g') i = None"
  using assms
  by (induction cs arbitrary: g)
    (auto dest: witness_change_keeps_entity witness_change_keeps_absence)

text \<open>
  Witness sets make reads repeatable: when a delta passes the check of a witness set and
  applies, every entity witnessed at its version in the base is the same record in the
  successor, and every entity witnessed absent is still absent.
\<close>

theorem witnessed_entities_unchanged:
  assumes "validate_against_delta w d = Ok ()" "apply_delta base d = Ok s"
  shows "(\<forall>i e. map_of (wg_entities (ws_graph base)) i = Some e \<longrightarrow>
      bt_contains (i, er_generation e, er_revision e) (wit_positive_entities w) \<longrightarrow>
      map_of (wg_entities (ws_graph s)) i = Some e) \<and>
    (\<forall>i. map_of (wg_entities (ws_graph base)) i = None \<longrightarrow> bt_contains i (wit_negative_entities w) \<longrightarrow>
      map_of (wg_entities (ws_graph s)) i = None)"
proof -
  from assms(2) have g: "apply_change_list (sd_changes d) (ws_graph base) = Ok (ws_graph s)"
    by (auto simp: apply_delta_Ok)
  have c: "\<forall>c \<in> set (sd_changes d). check_witness_change w c = Ok ()"
    using assms(1) by (simp add: validate_against_delta_def validate_witnesses_Ok)
  show ?thesis
    using witness_list_keeps [OF c g] by (auto simp: bt_contains_def)
qed

subsection \<open>Runs of the ledger\<close>

inductive ledger_step :: "durable_ledger \<Rightarrow> durable_ledger \<Rightarrow> bool" where
  ls_stage: "ledger_step l (fst (stage_capsule l c))"
| ls_publish: "ledger_step l (fst (publish_staged l))"
| ls_abort: "ledger_step l (abort_staged l)"
| ls_dispatch: "ledger_step l (fst (record_dispatch_attempt l i key plan tick))"
| ls_receipt: "ledger_step l (fst (record_commit_receipt l key receipt))"
| ls_verified: "ledger_step l (fst (record_verified l key observed))"
| ls_indeterminate: "ledger_step l (fst (record_indeterminate l key message))"
| ls_recover: "ledger_step l (recover_from_crash l)"

definition ledger_init :: "durable_ledger \<Rightarrow> bool" where
  "ledger_init l \<longleftrightarrow> (\<exists>root. l = durable_ledger_new root)"

text \<open>The lifecycle of one effect record.\<close>

inductive effect_move :: "effect_journal_record \<Rightarrow> effect_journal_record \<Rightarrow> bool" where
  em_receipt: "ef_state e = Committing \<Longrightarrow>
    effect_move e (e\<lparr>ef_state := AppliedAwaitingVerification, ef_receipt_digest := Some r\<rparr>)"
| em_verified: "ef_state e = AppliedAwaitingVerification \<Longrightarrow> ef_receipt_digest e \<noteq> None \<Longrightarrow> h \<noteq> digest_zero \<Longrightarrow>
    effect_move e (e\<lparr>ef_observed_state_hash := Some h, ef_state := Verified\<rparr>)"
| em_indeterminate: "ef_state e \<in> {Committing, AppliedAwaitingVerification} \<Longrightarrow>
    length m \<le> max_effect_error_bytes \<Longrightarrow>
    effect_move e (e\<lparr>ef_state := Indeterminate, ef_error_message := Some m\<rparr>)"

definition stageable :: "durable_ledger \<Rightarrow> observation_capsule \<Rightarrow> bool" where
  "stageable l c \<longleftrightarrow> integrity_is_valid c \<and> oc_basis_anchor c = head_anchor l \<and>
     (\<exists>s. apply_delta (dl_head_snapshot l) (oc_delta c) = Ok s \<and> snapshot_anchor s = oc_successor_anchor c)"

definition fresh_effect :: "string \<Rightarrow> string \<Rightarrow> digest32 \<Rightarrow> game_tick \<Rightarrow> effect_journal_record" where
  "fresh_effect key eff_id plan_digest tick =
     \<lparr>ef_effect_id = eff_id, ef_idempotency_key = key, ef_plan_digest = plan_digest,
      ef_state = Committing, ef_dispatch_attempted_tick = Some tick, ef_receipt_digest = None,
      ef_observed_state_hash = None, ef_error_message = None\<rparr>"

definition bounded_id :: "string \<Rightarrow> bool" where
  "bounded_id i \<longleftrightarrow> i \<noteq> [] \<and> length i \<le> max_effect_id_bytes"

lemma stage_capsule_step:
  assumes "dl_fortress_id l = ws_fortress_id (dl_head_snapshot l)"
  shows "fst (stage_capsule l c) = l \<or>
    stageable l c \<and> fst (stage_capsule l c) = l\<lparr>dl_unpublished_capsule := Some c\<rparr>"
  using assms
  by (cases "oc_basis_anchor c")
    (auto simp: stage_capsule_def stageable_def head_anchor_def snapshot_anchor_def Let_def
      split: result.splits option.splits)

lemma publish_staged_step:
  "fst (publish_staged l) = l \<or>
   (\<exists>c s. dl_unpublished_capsule l = Some c \<and> integrity_is_valid c \<and> oc_basis_anchor c = head_anchor l \<and>
      length (dl_capsules l) < max_ledger_capsules \<and>
      apply_delta (dl_head_snapshot l) (oc_delta c) = Ok s \<and> snapshot_anchor s = oc_successor_anchor c \<and>
      fst (publish_staged l) = l\<lparr>dl_unpublished_capsule := None, dl_capsules := dl_capsules l @ [c],
        dl_head_snapshot := s\<rparr>)"
  by (auto simp: publish_staged_def split: result.splits option.splits)

lemma effect_op_step:
  assumes "l' \<in> {fst (record_commit_receipt l key r), fst (record_verified l key h), fst (record_indeterminate l key m)}"
  shows "l' = l \<or> (\<exists>e e'. map_of (dl_effects l) key = Some e \<and> effect_move e e' \<and> l' = put_effect l key e')"
  using assms
  by (auto simp: record_commit_receipt_def record_verified_def record_indeterminate_def not_less
      split: option.splits; metis (no_types) effect_move.intros insertI1 insertI2 option.distinct(1))

lemma dispatch_step:
  "fst (record_dispatch_attempt l i key plan tick) = l \<or>
   bounded_id i \<and> bounded_id key \<and> map_of (dl_effects l) key = None \<and> length (dl_effects l) < max_ledger_effects \<and>
     fst (record_dispatch_attempt l i key plan tick) = put_effect l key (fresh_effect key i plan tick)"
  by (auto simp: record_dispatch_attempt_def bounded_id_def put_effect_def fresh_effect_def not_less not_le
      split: option.splits)

lemma recover_effect_move:
  "recover_effect e = e \<or> effect_move e (recover_effect e)"
  using em_indeterminate [of e recovery_message]
  by (auto simp: recover_effect_def recovery_message_def max_effect_error_bytes_def)

subsection \<open>The invariant\<close>

definition effect_ok :: "effect_journal_record \<Rightarrow> bool" where
  "effect_ok e \<longleftrightarrow> bounded_id (ef_effect_id e) \<and> bounded_id (ef_idempotency_key e) \<and>
     ef_dispatch_attempted_tick e \<noteq> None \<and>
     (case ef_state e of
        Committing \<Rightarrow> ef_receipt_digest e = None \<and> ef_observed_state_hash e = None
      | AppliedAwaitingVerification \<Rightarrow> ef_receipt_digest e \<noteq> None \<and> ef_observed_state_hash e = None
      | Verified \<Rightarrow> ef_receipt_digest e \<noteq> None \<and>
          ef_observed_state_hash e \<noteq> None \<and> ef_observed_state_hash e \<noteq> Some digest_zero
      | Indeterminate \<Rightarrow> ef_error_message e \<noteq> None \<and> ef_observed_state_hash e = None
      | _ \<Rightarrow> False)"

definition journal_ok :: "(string, effect_journal_record) btree_map \<Rightarrow> bool" where
  "journal_ok m \<longleftrightarrow> keyed ef_idempotency_key m \<and> length m \<le> max_ledger_effects \<and>
     (\<forall>e \<in> snd ` set m. effect_ok e)"

definition chain_ok :: "durable_ledger \<Rightarrow> bool" where
  "chain_ok l \<longleftrightarrow> replay_capsules (dl_root_snapshot l) (dl_capsules l) = Ok (dl_head_snapshot l) \<and>
     (\<forall>c \<in> set (dl_capsules l). integrity_is_valid c) \<and> length (dl_capsules l) \<le> max_ledger_capsules \<and>
     dl_fortress_id l = ws_fortress_id (dl_head_snapshot l) \<and>
     (\<forall>c. dl_unpublished_capsule l = Some c \<longrightarrow> stageable l c)"

definition ledger_inv :: "durable_ledger \<Rightarrow> bool" where
  "ledger_inv l \<longleftrightarrow> chain_ok l \<and> journal_ok (dl_effects l)"

lemma effect_move_ok: "effect_move e e' \<Longrightarrow> effect_ok e \<Longrightarrow> effect_ok e'"
  by (induction rule: effect_move.induct) (auto simp: effect_ok_def)

lemma effect_move_key: "effect_move e e' \<Longrightarrow> ef_idempotency_key e' = ef_idempotency_key e"
  by (induction rule: effect_move.induct) auto

lemma journal_entry: "journal_ok m \<Longrightarrow> (k, e) \<in> set m \<Longrightarrow> effect_ok e \<and> ef_idempotency_key e = k"
  by (force simp: journal_ok_def dest: keyedD(2))

lemma put_effect_journal:
  assumes "journal_ok (dl_effects l)" "effect_ok e" "ef_idempotency_key e = key"
    and "map_of (dl_effects l) key = None \<Longrightarrow> length (dl_effects l) < max_ledger_effects"
  shows "journal_ok (dl_effects (put_effect l key e))"
proof -
  have "length (bt_insert key e (dl_effects l)) \<le> max_ledger_effects"
    using assms(1,4) by (cases "map_of (dl_effects l) key") (auto simp: journal_ok_def length_bt_insert keyed_def)
  then show ?thesis
    using assms(1-3) keyed_insert [of ef_idempotency_key "dl_effects l" e]
    by (auto simp: journal_ok_def put_effect_def keyed_def set_bt_insert)
qed

lemma recover_effect_ok:
  "effect_ok e \<Longrightarrow> effect_ok (recover_effect e) \<and> ef_idempotency_key (recover_effect e) = ef_idempotency_key e"
  using recover_effect_move [of e] by (auto dest: effect_move_ok effect_move_key)

lemma recover_journal:
  assumes "journal_ok m"
  shows "journal_ok (map (\<lambda>(key, effect). (key, recover_effect effect)) m)"
proof -
  have "ef_idempotency_key (recover_effect e) = k \<and> effect_ok (recover_effect e)" if "(k, e) \<in> set m" for k e
    using journal_entry [OF assms that] recover_effect_ok [of e] by simp
  then show ?thesis
    using assms by (auto simp: journal_ok_def keyed_def bt_sorted_map_snd)
qed

lemma chain_ok_publish:
  assumes "chain_ok l" "length (dl_capsules l) < max_ledger_capsules" "integrity_is_valid c"
    and "oc_basis_anchor c = head_anchor l" "apply_delta (dl_head_snapshot l) (oc_delta c) = Ok s"
    and "snapshot_anchor s = oc_successor_anchor c"
  shows "chain_ok (l\<lparr>dl_unpublished_capsule := None, dl_capsules := dl_capsules l @ [c], dl_head_snapshot := s\<rparr>)"
  using assms
  by (auto simp: chain_ok_def replay_snoc head_anchor_def apply_delta_Ok)

lemma chain_ok_frame:
  "chain_ok (l\<lparr>dl_effects := m\<rparr>) = chain_ok l"
  "chain_ok l \<Longrightarrow> chain_ok (l\<lparr>dl_unpublished_capsule := None\<rparr>)"
  "chain_ok l \<Longrightarrow> chain_ok (l\<lparr>dl_unpublished_capsule := None, dl_effects := m\<rparr>)"
  "chain_ok l \<Longrightarrow> stageable l c \<Longrightarrow> chain_ok (l\<lparr>dl_unpublished_capsule := Some c\<rparr>)"
  by (simp_all add: chain_ok_def stageable_def head_anchor_def)

lemma effect_op_inv:
  assumes "ledger_inv l" "map_of (dl_effects l) key = Some e" "effect_move e e'"
  shows "ledger_inv (put_effect l key e')"
proof -
  have "(key, e) \<in> set (dl_effects l)" using assms(2) by (rule map_of_SomeD)
  then have "effect_ok e" "ef_idempotency_key e = key"
    using assms(1) journal_entry by (auto simp: ledger_inv_def)
  then have "journal_ok (dl_effects (put_effect l key e'))"
    using assms put_effect_journal [of l e' key] by (auto simp: ledger_inv_def effect_move_key effect_move_ok)
  then show ?thesis using assms(1) by (simp add: ledger_inv_def put_effect_def chain_ok_frame)
qed

lemma ledger_step_inv: "ledger_step l l' \<Longrightarrow> ledger_inv l \<Longrightarrow> ledger_inv l'"
proof (induction rule: ledger_step.induct)
  case (ls_stage l c)
  then show ?case
    using stage_capsule_step [of l c] by (auto simp: ledger_inv_def chain_ok_frame chain_ok_def [of l])
next
  case (ls_publish l)
  then show ?case
    using publish_staged_step [of l] by (auto simp: ledger_inv_def chain_ok_publish)
next
  case (ls_dispatch l i key plan tick)
  then show ?case
    using dispatch_step [of l i key plan tick] put_effect_journal [of l "fresh_effect key i plan tick" key]
    by (auto simp: ledger_inv_def effect_ok_def fresh_effect_def chain_ok_frame put_effect_def)
next
  case (ls_recover l)
  then show ?case by (simp add: ledger_inv_def recover_from_crash_def chain_ok_frame recover_journal)
next
  case (ls_abort l)
  then show ?case by (simp add: ledger_inv_def abort_staged_def chain_ok_frame)
next
  case (ls_receipt l key receipt)
  then show ?case
    using effect_op_step [of "fst (record_commit_receipt l key receipt)" l key receipt] by (auto intro: effect_op_inv)
next
  case (ls_verified l key observed)
  then show ?case
    using effect_op_step [of "fst (record_verified l key observed)" l key _ observed] by (auto intro: effect_op_inv)
next
  case (ls_indeterminate l key message)
  then show ?case
    using effect_op_step [of "fst (record_indeterminate l key message)" l key _ _ message]
    by (auto intro: effect_op_inv)
qed

lemma ledger_init_inv: "ledger_init l \<Longrightarrow> ledger_inv l"
  by (auto simp: ledger_init_def ledger_inv_def durable_ledger_new_def chain_ok_def journal_ok_def keyed_def)

interpretation ledger: invariant_system ledger_init ledger_step ledger_inv
  by unfold_locales (auto intro: ledger_init_inv ledger_step_inv)

subsection \<open>The published chain\<close>

lemma reach_chain: "reach ledger_init ledger_step l \<Longrightarrow> chain_ok l"
  using ledger.reach_inv by (simp add: ledger_inv_def)

text \<open>
  C6: In every reachable ledger the head snapshot is what replaying the published capsules from
  the root snapshot rebuilds, every capsule passing the integrity check, and the chain stays
  within its bound.
\<close>

theorem ledger_head_is_replay:
  assumes "reach ledger_init ledger_step l"
  shows "replay_capsules (dl_root_snapshot l) (dl_capsules l) = Ok (dl_head_snapshot l) \<and>
    (\<forall>c \<in> set (dl_capsules l). integrity_is_valid c) \<and> length (dl_capsules l) \<le> max_ledger_capsules"
  using reach_chain [OF assms] by (simp add: chain_ok_def)

text \<open>
  A staged capsule of a reachable ledger is never stuck: publishing it succeeds unless the
  ledger is full, appends exactly that capsule and moves the head to its successor anchor; a
  full ledger refuses and changes nothing.
\<close>

theorem staged_capsule_publishes:
  assumes "reach ledger_init ledger_step l" "dl_unpublished_capsule l = Some c"
  shows "\<exists>s. snapshot_anchor s = oc_successor_anchor c \<and>
    publish_staged l =
      (if length (dl_capsules l) < max_ledger_capsules
       then (l\<lparr>dl_unpublished_capsule := None, dl_capsules := dl_capsules l @ [c], dl_head_snapshot := s\<rparr>,
             Ok (oc_successor_anchor c))
       else (l, fail BudgetExceeded))"
proof -
  from reach_chain [OF assms(1)] assms(2) obtain s where
    "integrity_is_valid c" "oc_basis_anchor c = head_anchor l"
    "apply_delta (dl_head_snapshot l) (oc_delta c) = Ok s" "snapshot_anchor s = oc_successor_anchor c"
    by (auto simp: chain_ok_def stageable_def)
  then have "publish_staged l =
      (if length (dl_capsules l) < max_ledger_capsules
       then (l\<lparr>dl_unpublished_capsule := None, dl_capsules := dl_capsules l @ [c], dl_head_snapshot := s\<rparr>,
             Ok (oc_successor_anchor c))
       else (l, fail BudgetExceeded))"
    using assms(2) by (simp add: publish_staged_def)
  with \<open>snapshot_anchor s = oc_successor_anchor c\<close> show ?thesis by blast
qed

subsection \<open>The life of an effect\<close>

text \<open>How far an effect record may have moved: its binding is fixed and its state only advances.\<close>

definition same_binding :: "effect_journal_record \<Rightarrow> effect_journal_record \<Rightarrow> bool" where
  "same_binding e e' \<longleftrightarrow> ef_effect_id e' = ef_effect_id e \<and> ef_idempotency_key e' = ef_idempotency_key e \<and>
     ef_plan_digest e' = ef_plan_digest e \<and> ef_dispatch_attempted_tick e' = ef_dispatch_attempted_tick e"

definition advances :: "commit_state \<Rightarrow> commit_state \<Rightarrow> bool" where
  "advances s s' \<longleftrightarrow>
     s = Committing \<and> s' \<in> {AppliedAwaitingVerification, Verified, Indeterminate} \<or>
     s = AppliedAwaitingVerification \<and> s' \<in> {Verified, Indeterminate}"

definition effect_progress :: "effect_journal_record \<Rightarrow> effect_journal_record \<Rightarrow> bool" where
  "effect_progress e e' \<longleftrightarrow> e' = e \<or>
     same_binding e e' \<and> advances (ef_state e) (ef_state e') \<and>
     (ef_receipt_digest e \<noteq> None \<longrightarrow> ef_receipt_digest e' = ef_receipt_digest e)"

definition journal_progress :: "(string, effect_journal_record) btree_map \<Rightarrow> (string, effect_journal_record) btree_map \<Rightarrow> bool" where
  "journal_progress m m' \<longleftrightarrow>
     (\<forall>k e. map_of m k = Some e \<longrightarrow> (\<exists>e'. map_of m' k = Some e' \<and> effect_progress e e'))"

lemma effect_move_progress: "effect_move e e' \<Longrightarrow> effect_ok e \<Longrightarrow> effect_progress e e'"
  by (induction rule: effect_move.induct) (auto simp: effect_progress_def same_binding_def advances_def effect_ok_def)

lemma effect_progress_trans: "effect_progress a b \<Longrightarrow> effect_progress b c \<Longrightarrow> effect_progress a c"
  by (auto simp: effect_progress_def same_binding_def advances_def)

lemma journal_progress_refl: "journal_progress m m"
  by (simp add: journal_progress_def effect_progress_def)

lemma journal_progress_trans: "journal_progress a b \<Longrightarrow> journal_progress b c \<Longrightarrow> journal_progress a c"
  unfolding journal_progress_def by (metis effect_progress_trans)

lemma put_effect_progress:
  assumes "ledger_inv l"
    and "case map_of (dl_effects l) key of None \<Rightarrow> True | Some e \<Rightarrow> effect_move e e'"
  shows "journal_progress (dl_effects l) (dl_effects (put_effect l key e'))"
proof -
  have "effect_progress e e'" if "map_of (dl_effects l) key = Some e" for e
    using assms that journal_entry [of "dl_effects l" key e] map_of_SomeD [OF that]
    by (auto simp: ledger_inv_def intro: effect_move_progress)
  then show ?thesis
    by (auto simp: journal_progress_def put_effect_def map_of_bt_insert effect_progress_def)
qed

lemma effect_op_progress:
  assumes "ledger_inv l"
    and "l' \<in> {fst (record_commit_receipt l key r), fst (record_verified l key h), fst (record_indeterminate l key m)}"
  shows "journal_progress (dl_effects l) (dl_effects l')"
  using effect_op_step [OF assms(2)] put_effect_progress [OF assms(1)] journal_progress_refl by (auto split: option.splits)

lemma recover_progress:
  assumes "ledger_inv l"
  shows "journal_progress (dl_effects l) (dl_effects (recover_from_crash l))"
proof -
  have "effect_progress e (recover_effect e)" if "map_of (dl_effects l) k = Some e" for k e
    using assms journal_entry [of "dl_effects l" k e] map_of_SomeD [OF that] recover_effect_move [of e]
    by (auto simp: ledger_inv_def effect_progress_def [of e e] intro: effect_move_progress)
  then show ?thesis by (auto simp: journal_progress_def recover_from_crash_def map_of_map_snd)
qed

lemma ledger_step_progress:
  "ledger_step l l' \<Longrightarrow> ledger_inv l \<Longrightarrow> journal_progress (dl_effects l) (dl_effects l')"
proof (induction rule: ledger_step.induct)
  case (ls_dispatch l i key plan tick)
  then show ?case
    using dispatch_step [of l i key plan tick] put_effect_progress [of l] journal_progress_refl by auto
next
  case (ls_stage l c)
  have "dl_effects (fst (stage_capsule l c)) = dl_effects l"
    by (simp add: stage_capsule_def Let_def split: result.split option.split)
  then show ?case by (simp add: journal_progress_refl)
next
  case (ls_publish l)
  have "dl_effects (fst (publish_staged l)) = dl_effects l" using publish_staged_step [of l] by auto
  then show ?case by (simp add: journal_progress_refl)
qed (auto simp: abort_staged_def journal_progress_refl recover_progress intro: effect_op_progress)

text \<open>
  C12: Whatever the ledger does after an effect was journalled, its idempotency key stays bound to
  the same effect, plan and dispatch tick, its state only moves forward along committing, applied,
  verified or indeterminate, and a receipt once recorded is never replaced.
\<close>

theorem effect_history_is_forward_only:
  assumes "reach ledger_init ledger_step l" "ledger_step\<^sup>*\<^sup>* l l'" "ledger_effect l key = Some e"
  shows "\<exists>e'. ledger_effect l' key = Some e' \<and>
    ef_effect_id e' = ef_effect_id e \<and> ef_plan_digest e' = ef_plan_digest e \<and>
    ef_dispatch_attempted_tick e' = ef_dispatch_attempted_tick e \<and>
    (e' = e \<or> advances (ef_state e) (ef_state e')) \<and>
    (ef_receipt_digest e \<noteq> None \<longrightarrow> ef_receipt_digest e' = ef_receipt_digest e)"
proof -
  have inv: "ledger_inv l" using assms(1) by (rule ledger.reach_inv)
  have "journal_progress (dl_effects l) (dl_effects l')"
    by (rule ledger.steps_monotone [OF _ journal_progress_refl journal_progress_trans inv assms(2)])
      (auto intro: ledger_step_progress)
  then show ?thesis
    using assms(3) by (fastforce simp: journal_progress_def ledger_effect_def effect_progress_def same_binding_def)
qed

text \<open>
  C14: After crash recovery nothing is still reported in flight without a receipt: no capsule is
  staged, the effects that were committing are indeterminate, every other effect is unchanged,
  and the published chain and head are untouched. Recovering twice is recovering once.
\<close>

theorem recovery_leaves_no_unknown_in_flight:
  assumes "reach ledger_init ledger_step l"
  shows "dl_unpublished_capsule (recover_from_crash l) = None \<and>
    dl_capsules (recover_from_crash l) = dl_capsules l \<and>
    dl_head_snapshot (recover_from_crash l) = dl_head_snapshot l \<and>
    (\<forall>key e. ledger_effect (recover_from_crash l) key = Some e \<longrightarrow> ef_state e \<noteq> Committing) \<and>
    (\<forall>key e. ledger_effect l key = Some e \<longrightarrow>
       (if ef_state e = Committing
        then \<exists>e'. ledger_effect (recover_from_crash l) key = Some e' \<and> ef_state e' = Indeterminate
        else ledger_effect (recover_from_crash l) key = Some e)) \<and>
    recover_from_crash (recover_from_crash l) = recover_from_crash l"
proof -
  have inv: "journal_ok (dl_effects l)" using ledger.reach_inv [OF assms] by (simp add: ledger_inv_def)
  have r: "ef_state e = Committing \<Longrightarrow> ef_state (recover_effect e) = Indeterminate"
      "ef_state e \<noteq> Committing \<Longrightarrow> recover_effect e = e"
    if "map_of (dl_effects l) key = Some e" for key e
    using journal_entry [OF inv map_of_SomeD [OF that]] by (auto simp: recover_effect_def effect_ok_def)
  have "recover_effect (recover_effect e) = recover_effect e" for e
    by (auto simp: recover_effect_def)
  then have "recover_from_crash (recover_from_crash l) = recover_from_crash l"
    by (simp add: recover_from_crash_def case_prod_unfold)
  moreover have "ef_state (recover_effect e) \<noteq> Committing" if "map_of (dl_effects l) key = Some e" for key e
    using r [OF that] by (cases "ef_state e = Committing") auto
  ultimately show ?thesis
    using r by (auto simp: recover_from_crash_def ledger_effect_def map_of_map_snd)
qed

text \<open>
  The effect journal is bounded and consistent in every reachable ledger: at most 65536
  records, each under its own key with nonempty identifiers of at most 256 bytes; a verified
  effect has a receipt and a nonzero observed state hash.
\<close>

theorem effect_journal_consistent:
  assumes "reach ledger_init ledger_step l"
  shows "length (dl_effects l) \<le> 65536 \<and>
    (\<forall>key e. ledger_effect l key = Some e \<longrightarrow>
       ef_idempotency_key e = key \<and> key \<noteq> [] \<and> length key \<le> 256 \<and>
       ef_effect_id e \<noteq> [] \<and> length (ef_effect_id e) \<le> 256 \<and>
       (ef_state e = Verified \<longrightarrow> ef_receipt_digest e \<noteq> None \<and>
          (\<exists>h. ef_observed_state_hash e = Some h \<and> h \<noteq> digest_zero)))"
proof -
  have inv: "journal_ok (dl_effects l)" using ledger.reach_inv [OF assms] by (simp add: ledger_inv_def)
  have "ef_idempotency_key e = key \<and> effect_ok e" if "ledger_effect l key = Some e" for key e
    using that journal_entry [OF inv] by (auto simp: ledger_effect_def dest: map_of_SomeD)
  then show ?thesis
    using inv
    by (fastforce simp: journal_ok_def max_ledger_effects_def effect_ok_def bounded_id_def max_effect_id_bytes_def)
qed

subsection \<open>Chunk witnesses\<close>

text \<open>
  The chunk revisions a witness set records are stored and never read: a delta that replaces a
  witnessed chunk passes the check.
\<close>

text \<open>
  The check of a witness set never looks at the witnessed chunks, so that a chunk witness
  refuses no delta.
\<close>

theorem chunk_witnesses_never_checked:
  "validate_against_delta (add_chunk coord revision w) d = validate_against_delta w d"
proof -
  have "validate_witnesses (add_chunk coord revision w) cs = validate_witnesses w cs" for cs
    by (induction cs)
      (simp_all add: check_witness_change_def add_chunk_def split: world_change.split)
  then show ?thesis by (simp add: validate_against_delta_def)
qed

subsection \<open>A concrete ledger\<close>

definition sample_capsule :: observation_capsule where
  "sample_capsule =
     (let b = snapshot_anchor (sample_world 1 5 ''Olin''); s = snapshot_anchor (sample_world 2 6 ''Urist'')
      in \<lparr>oc_basis_anchor = b, oc_successor_anchor = s, oc_delta = sample_delta,
          oc_capsule_digest = compute_capsule_digest b s sample_delta 100, oc_published_at_tick = 100\<rparr>)"

lemma sample_capsule_valid: "integrity_is_valid sample_capsule"
  by (simp add: integrity_is_valid_def sample_capsule_def Let_def snapshot_anchor_def sample_world_fields
      sample_delta_def max_state_delta_changes_def)

definition sample_ledger :: durable_ledger where
  "sample_ledger = durable_ledger_new (sample_world 1 5 ''Olin'')"

lemma sample_ledger_reach: "reach ledger_init ledger_step sample_ledger"
  by (rule reach.intros) (auto simp: ledger_init_def sample_ledger_def)

lemma sample_stage: "stage_capsule sample_ledger sample_capsule =
  (sample_ledger\<lparr>dl_unpublished_capsule := Some sample_capsule\<rparr>, Ok ())"
  using sample_capsule_valid
  by (simp add: stage_capsule_def sample_ledger_def durable_ledger_new_def head_anchor_def sample_capsule_def
      Let_def snapshot_anchor_def sample_delta_applies)

lemma sample_staged_reach:
  "reach ledger_init ledger_step (sample_ledger\<lparr>dl_unpublished_capsule := Some sample_capsule\<rparr>)"
  using reach.intros(2) [OF sample_ledger_reach ls_stage [of sample_ledger sample_capsule]] sample_stage by simp

theorem staged_capsule_publishes_witness:
  "\<exists>l. publish_staged (sample_ledger\<lparr>dl_unpublished_capsule := Some sample_capsule\<rparr>) =
     (l, Ok (oc_successor_anchor sample_capsule))"
  using staged_capsule_publishes [OF sample_staged_reach]
  by (auto simp: sample_ledger_def durable_ledger_new_def max_ledger_capsules_def)

theorem ledger_head_is_replay_witness:
  "\<exists>l. publish_staged (sample_ledger\<lparr>dl_unpublished_capsule := Some sample_capsule\<rparr>) = (l, Ok (oc_successor_anchor sample_capsule))
     \<and> replay_capsules (dl_root_snapshot l) [sample_capsule] = Ok (dl_head_snapshot l)"
proof -
  let ?l = "sample_ledger\<lparr>dl_unpublished_capsule := Some sample_capsule\<rparr>"
  have p: "publish_staged ?l = (sample_ledger\<lparr>dl_capsules := [sample_capsule],
      dl_head_snapshot := sample_world 2 6 ''Urist''\<rparr>, Ok (oc_successor_anchor sample_capsule))"
    using sample_capsule_valid
    by (simp add: publish_staged_def sample_ledger_def durable_ledger_new_def max_ledger_capsules_def
        head_anchor_def sample_capsule_def Let_def sample_delta_applies)
  have "reach ledger_init ledger_step (fst (publish_staged ?l))"
    by (rule reach.intros(2) [OF sample_staged_reach ls_publish])
  from ledger_head_is_replay [OF this] p show ?thesis by (simp del: replay_capsules.simps)
qed

definition sample_dispatched :: durable_ledger where
  "sample_dispatched = fst (record_dispatch_attempt sample_ledger ''e1'' ''k1'' digest_zero 100)"

lemma sample_dispatched_reach: "reach ledger_init ledger_step sample_dispatched"
  unfolding sample_dispatched_def by (rule reach.intros(2) [OF sample_ledger_reach ls_dispatch])

lemma sample_dispatched_effects:
  "dl_effects sample_dispatched = [(''k1'', fresh_effect ''k1'' ''e1'' digest_zero 100)]"
  by (simp add: sample_dispatched_def record_dispatch_attempt_def sample_ledger_def durable_ledger_new_def
      max_effect_id_bytes_def max_ledger_effects_def fresh_effect_def)

theorem effect_history_is_forward_only_witness:
  "\<exists>e'. ledger_effect (fst (record_commit_receipt sample_dispatched ''k1'' digest_zero)) ''k1'' = Some e' \<and>
     ef_plan_digest e' = digest_zero"
proof -
  have "ledger_step\<^sup>*\<^sup>* sample_dispatched (fst (record_commit_receipt sample_dispatched ''k1'' digest_zero))"
    by (rule r_into_rtranclp) (rule ls_receipt)
  moreover have "ledger_effect sample_dispatched ''k1'' = Some (fresh_effect ''k1'' ''e1'' digest_zero 100)"
    by (simp add: ledger_effect_def sample_dispatched_effects)
  ultimately show ?thesis
    using effect_history_is_forward_only [OF sample_dispatched_reach] by (fastforce simp: fresh_effect_def)
qed

theorem recovery_leaves_no_unknown_in_flight_witness:
  "\<exists>e. ledger_effect (recover_from_crash sample_dispatched) ''k1'' = Some e \<and> ef_state e = Indeterminate"
proof -
  have "ledger_effect sample_dispatched ''k1'' = Some (fresh_effect ''k1'' ''e1'' digest_zero 100)"
    "ef_state (fresh_effect ''k1'' ''e1'' digest_zero 100) = Committing"
    by (simp_all add: ledger_effect_def sample_dispatched_effects fresh_effect_def)
  with recovery_leaves_no_unknown_in_flight [OF sample_dispatched_reach] show ?thesis by metis
qed

theorem effect_journal_consistent_witness: "length (dl_effects sample_dispatched) \<le> 65536"
  using effect_journal_consistent [OF sample_dispatched_reach] by blast

theorem witnessed_entities_unchanged_witness:
  "map_of (wg_entities (ws_graph (sample_world 2 6 ''Urist''))) 9 = None"
proof -
  have "validate_against_delta (add_negative_entity 9 witness_set_new) sample_delta = Ok ()"
    by (simp add: validate_against_delta_def sample_delta_def check_witness_change_def
        add_negative_entity_def witness_set_new_def bt_contains_def sample_unit_def)
  from witnessed_entities_unchanged [OF this sample_delta_applies] show ?thesis
    by (simp add: sample_world_fields empty_graph_def add_negative_entity_def witness_set_new_def bt_contains_def)
qed

end
