(* ===== verification/Publication.thy ===== *)
theory Publication
  imports Ledger "HOL-Library.Sublist"
begin

text \<open>
  \<^verbatim>\<open>crates/dfmcp-world/src/publication.rs\<close>: the publisher that reserves a successor,
  materializes a capsule and publishes the root last. Tokens (\<^verbatim>\<open>Reservation\<close>,
  \<^verbatim>\<open>Materialization\<close>) are values; runs may present any token, so that the properties hold
  for every discipline of the callers. The specification is an append-only log of world
  versions (\<open>version_log\<close>), which both the ledger and the publisher implement.
\<close>

record published_root =
  pr_anchor :: state_anchor
  pr_snapshot :: world_snapshot
  pr_capsule_high_water_mark :: u64

record reservation =
  rv_serial :: u64
  rv_basis :: state_anchor
  rv_successor :: state_anchor

record materialization =
  mt_reservation :: reservation
  mt_capsule_digest :: digest32

record recovery_report =
  rr_discarded_staged_capsule :: bool
  rr_tombstoned_reservation :: bool
  rr_rederived_head :: state_anchor
  rr_replayed_capsules :: u64

record capsule_publisher =
  cp_ledger :: durable_ledger
  cp_root :: published_root
  cp_next_serial :: u64
  cp_outstanding :: "u64 option"

definition root_of_ledger :: "durable_ledger \<Rightarrow> published_root" where
  "root_of_ledger l =
     \<lparr>pr_anchor = head_anchor l, pr_snapshot = dl_head_snapshot l,
      pr_capsule_high_water_mark = word_of_nat (length (dl_capsules l))\<rparr>"

definition capsule_publisher_new :: "durable_ledger \<Rightarrow> capsule_publisher" where
  "capsule_publisher_new l =
     \<lparr>cp_ledger = l, cp_root = root_of_ledger l, cp_next_serial = 1, cp_outstanding = None\<rparr>"

definition has_staged_capsule :: "durable_ledger \<Rightarrow> bool" where
  "has_staged_capsule l \<longleftrightarrow> dl_unpublished_capsule l \<noteq> None"

definition reserve :: "capsule_publisher \<Rightarrow> state_anchor \<Rightarrow> capsule_publisher \<times> reservation res" where
  "reserve p successor =
     (if cp_outstanding p \<noteq> None \<or> has_staged_capsule (cp_ledger p) then (p, fail Conflict)
      else
        let basis = head_anchor (cp_ledger p) in
        if sa_fortress_id successor \<noteq> sa_fortress_id basis \<or> sa_cursor successor \<le> sa_cursor basis
        then (p, fail CursorGap)
        else
          let serial = cp_next_serial p in
          (p\<lparr>cp_next_serial := saturating_add (cp_next_serial p) 1, cp_outstanding := Some serial\<rparr>,
           Ok \<lparr>rv_serial = serial, rv_basis = basis, rv_successor = successor\<rparr>))"

definition check_live :: "capsule_publisher \<Rightarrow> reservation \<Rightarrow> unit res" where
  "check_live p r =
     (if cp_outstanding p = Some (rv_serial r) \<and> head_anchor (cp_ledger p) = rv_basis r then Ok ()
      else fail Conflict)"

definition materialize ::
  "capsule_publisher \<Rightarrow> reservation \<Rightarrow> observation_capsule \<Rightarrow> capsule_publisher \<times> materialization res" where
  "materialize p r capsule =
     (case check_live p r of
        Err e \<Rightarrow> (p, Err e)
      | Ok _ \<Rightarrow>
          if oc_basis_anchor capsule \<noteq> rv_basis r \<or> oc_successor_anchor capsule \<noteq> rv_successor r
          then (p\<lparr>cp_outstanding := None\<rparr>, fail Conflict)
          else
            case stage_capsule (cp_ledger p) capsule of
              (l, Err error) \<Rightarrow> (p\<lparr>cp_ledger := l, cp_outstanding := None\<rparr>, Err error)
            | (l, Ok _) \<Rightarrow>
                (p\<lparr>cp_ledger := l\<rparr>,
                 Ok \<lparr>mt_reservation = r, mt_capsule_digest = oc_capsule_digest capsule\<rparr>))"

definition publish :: "capsule_publisher \<Rightarrow> materialization \<Rightarrow> capsule_publisher \<times> published_root res" where
  "publish p m =
     (case check_live p (mt_reservation m) of
        Err e \<Rightarrow> (p, Err e)
      | Ok _ \<Rightarrow>
          case publish_staged (cp_ledger p) of
            (l, Err e) \<Rightarrow> (p\<lparr>cp_ledger := l\<rparr>, Err e)
          | (l, Ok anchor) \<Rightarrow>
              let root = \<lparr>pr_anchor = anchor, pr_snapshot = dl_head_snapshot l,
                pr_capsule_high_water_mark = word_of_nat (length (dl_capsules l))\<rparr> in
              (p\<lparr>cp_ledger := l, cp_outstanding := None, cp_root := root\<rparr>, Ok root))"

definition abort :: "capsule_publisher \<Rightarrow> reservation \<Rightarrow> capsule_publisher" where
  "abort p r = (if cp_outstanding p = Some (rv_serial r) then p\<lparr>cp_outstanding := None\<rparr> else p)"

definition abort_materialized :: "capsule_publisher \<Rightarrow> materialization \<Rightarrow> capsule_publisher" where
  "abort_materialized p m =
     (if cp_outstanding p = Some (rv_serial (mt_reservation m))
      then p\<lparr>cp_ledger := abort_staged (cp_ledger p), cp_outstanding := None\<rparr> else p)"

definition recover :: "capsule_publisher \<Rightarrow> capsule_publisher \<times> recovery_report res" where
  "recover p =
     (let discarded_staged_capsule = has_staged_capsule (cp_ledger p);
          tombstoned_reservation = (cp_outstanding p \<noteq> None);
          l = recover_from_crash (cp_ledger p);
          p' = p\<lparr>cp_outstanding := None, cp_ledger := l\<rparr>
      in case replay_capsules (dl_root_snapshot l) (dl_capsules l) of
           Err e \<Rightarrow> (p', Err e)
         | Ok head \<Rightarrow>
             if head \<noteq> dl_head_snapshot l then (p', fail CorruptLedger)
             else
               let rederived_head = snapshot_anchor head;
                   replayed_capsules = word_of_nat (length (dl_capsules l))
               in (p'\<lparr>cp_root := \<lparr>pr_anchor = rederived_head, pr_snapshot = head,
                      pr_capsule_high_water_mark = replayed_capsules\<rparr>\<rparr>,
                   Ok \<lparr>rr_discarded_staged_capsule = discarded_staged_capsule,
                       rr_tombstoned_reservation = tombstoned_reservation,
                       rr_rederived_head = rederived_head,
                       rr_replayed_capsules = replayed_capsules\<rparr>))"

subsection \<open>Append-only version logs\<close>

text \<open>
  The contract: a system shows its versions as a list, and a step keeps the list or appends one
  version that legally succeeds the last one.
\<close>

locale version_log = invariant_system +
  fixes versions :: "'a \<Rightarrow> 'v list"
    and legal :: "'v \<Rightarrow> 'v \<Rightarrow> bool"
  assumes init_one: "init s \<Longrightarrow> successively legal (versions s)"
    and nonempty: "inv s \<Longrightarrow> versions s \<noteq> []"
    and step_appends: "inv s \<Longrightarrow> step s t \<Longrightarrow>
      versions t = versions s \<or> (\<exists>v. legal (last (versions s)) v \<and> versions t = versions s @ [v])"
begin

lemma step_prefix: "inv s \<Longrightarrow> step s t \<Longrightarrow> prefix (versions s) (versions t)"
  using step_appends by force

lemma steps_prefix: "inv s \<Longrightarrow> step\<^sup>*\<^sup>* s t \<Longrightarrow> prefix (versions s) (versions t)"
  by (rule steps_monotone [of prefix versions]) (auto intro: step_prefix)

lemma reach_legal: "reach init step s \<Longrightarrow> successively legal (versions s)"
proof (induction rule: reach.induct)
  case (reach_init s)
  then show ?case by (rule init_one)
next
  case (reach_step s t)
  then have "inv s" by (blast intro: reach_inv)
  with step_appends [OF this reach_step(2)] nonempty [OF this] reach_step(3) show ?case
    by (auto simp: successively_append_iff)
qed

end

definition succeeds :: "world_snapshot \<Rightarrow> world_snapshot \<Rightarrow> bool" where
  "succeeds s t \<longleftrightarrow> (\<exists>d. apply_delta s d = Ok t)"

fun replay_history :: "world_snapshot \<Rightarrow> observation_capsule list \<Rightarrow> world_snapshot list" where
  "replay_history head [] = [head]"
| "replay_history head (c # cs) =
     head # (case apply_delta head (oc_delta c) of Ok head' \<Rightarrow> replay_history head' cs | Err _ \<Rightarrow> [])"

definition ledger_versions :: "durable_ledger \<Rightarrow> world_snapshot list" where
  "ledger_versions l = replay_history (dl_root_snapshot l) (dl_capsules l)"

lemma replay_history_nonempty [simp]: "replay_history h cs \<noteq> []"
  by (cases cs) auto

lemma last_replay_history: "replay_capsules h cs = Ok s \<Longrightarrow> last (replay_history h cs) = s"
  by (induction cs arbitrary: h) (auto split: result.splits if_splits)

lemma replay_history_snoc:
  "replay_capsules h cs = Ok m \<Longrightarrow> apply_delta m (oc_delta c) = Ok s \<Longrightarrow>
   replay_history h (cs @ [c]) = replay_history h cs @ [s]"
  by (induction cs arbitrary: h) (auto split: result.splits if_splits)

lemma length_replay_history:
  "replay_capsules h cs = Ok s \<Longrightarrow> length (replay_history h cs) = Suc (length cs)"
  by (induction cs arbitrary: h) (auto split: result.splits if_splits)

lemma ledger_step_chain:
  assumes "ledger_step l l'" "ledger_inv l"
  shows "dl_root_snapshot l' = dl_root_snapshot l \<and>
    (dl_capsules l' = dl_capsules l \<and> dl_head_snapshot l' = dl_head_snapshot l \<or>
     (\<exists>c. dl_capsules l' = dl_capsules l @ [c] \<and> apply_delta (dl_head_snapshot l) (oc_delta c) = Ok (dl_head_snapshot l')))"
  using assms
proof (induction rule: ledger_step.induct)
  case (ls_stage l c)
  then show ?case
    using stage_capsule_step [of l c] by (auto simp: ledger_inv_def chain_ok_def)
next
  case (ls_publish l)
  then show ?case using publish_staged_step [of l] by auto
next
  case (ls_dispatch l i key plan tick)
  then show ?case using dispatch_step [of l i key plan tick] by (auto simp: put_effect_def)
next
  case (ls_receipt l key receipt)
  then show ?case
    using effect_op_step [of "fst (record_commit_receipt l key receipt)" l key receipt] by (auto simp: put_effect_def)
next
  case (ls_verified l key observed)
  then show ?case
    using effect_op_step [of "fst (record_verified l key observed)" l key _ observed] by (auto simp: put_effect_def)
next
  case (ls_indeterminate l key message)
  then show ?case
    using effect_op_step [of "fst (record_indeterminate l key message)" l key _ _ message]
    by (auto simp: put_effect_def)
qed (auto simp: abort_staged_def recover_from_crash_def)

lemma ledger_chain: "ledger_inv l \<Longrightarrow> replay_capsules (dl_root_snapshot l) (dl_capsules l) = Ok (dl_head_snapshot l)"
  by (simp add: ledger_inv_def chain_ok_def)

lemma ledger_versions_step:
  assumes "ledger_inv l" "ledger_step l l'"
  shows "ledger_versions l' = ledger_versions l \<or>
    (\<exists>v. succeeds (last (ledger_versions l)) v \<and> ledger_versions l' = ledger_versions l @ [v])"
  using ledger_step_chain [OF assms(2,1)] last_replay_history [OF ledger_chain [OF assms(1)]]
    replay_history_snoc [OF ledger_chain [OF assms(1)]]
  by (auto simp: ledger_versions_def succeeds_def)

interpretation ledger_log: version_log ledger_init ledger_step ledger_inv ledger_versions succeeds
proof
  show "successively succeeds (ledger_versions s)" if "ledger_init s" for s
    using that by (auto simp: ledger_init_def ledger_versions_def durable_ledger_new_def)
  show "ledger_versions s \<noteq> []" for s by (simp add: ledger_versions_def)
qed (rule ledger_versions_step)

subsection \<open>Runs of the publisher\<close>

inductive publisher_step :: "capsule_publisher \<Rightarrow> capsule_publisher \<Rightarrow> bool" where
  ps_reserve: "publisher_step p (fst (reserve p a))"
| ps_materialize: "publisher_step p (fst (materialize p r c))"
| ps_publish: "publisher_step p (fst (publish p m))"
| ps_abort: "publisher_step p (abort p r)"
| ps_abort_materialized: "publisher_step p (abort_materialized p m)"
| ps_recover: "publisher_step p (fst (recover p))"

definition publisher_init :: "capsule_publisher \<Rightarrow> bool" where
  "publisher_init p \<longleftrightarrow> (\<exists>l. reach ledger_init ledger_step l \<and> p = capsule_publisher_new l)"

definition publisher_inv :: "capsule_publisher \<Rightarrow> bool" where
  "publisher_inv p \<longleftrightarrow> reach ledger_init ledger_step (cp_ledger p) \<and> cp_root p = root_of_ledger (cp_ledger p)"

definition publisher_versions :: "capsule_publisher \<Rightarrow> world_snapshot list" where
  "publisher_versions p = ledger_versions (cp_ledger p)"

text \<open>Every publisher step is one ledger step or none; only publication moves the root.\<close>

lemma root_of_ledger_frame [simp]:
  "root_of_ledger (recover_from_crash l) = root_of_ledger l"
  "root_of_ledger (abort_staged l) = root_of_ledger l"
  by (simp_all add: root_of_ledger_def head_anchor_def recover_from_crash_def abort_staged_def)

lemma stage_keeps_root: "root_of_ledger (fst (stage_capsule l c)) = root_of_ledger l"
  by (simp add: stage_capsule_def Let_def root_of_ledger_def head_anchor_def split: result.split option.split)

lemma publish_staged_Ok_anchor:
  "publish_staged l = (l', Ok a) \<Longrightarrow> a = head_anchor l'"
  by (auto simp: publish_staged_def head_anchor_def split: option.splits result.splits if_splits)

lemma publish_staged_Err: "publish_staged l = (l', Err e) \<Longrightarrow> l' = l"
  by (auto simp: publish_staged_def split: option.splits result.splits if_splits)

lemma recover_reachable:
  assumes "reach ledger_init ledger_step (cp_ledger p)"
  shows "recover p =
    (p\<lparr>cp_outstanding := None, cp_ledger := recover_from_crash (cp_ledger p), cp_root := root_of_ledger (cp_ledger p)\<rparr>,
     Ok \<lparr>rr_discarded_staged_capsule = has_staged_capsule (cp_ledger p),
         rr_tombstoned_reservation = (cp_outstanding p \<noteq> None),
         rr_rederived_head = head_anchor (cp_ledger p),
         rr_replayed_capsules = word_of_nat (length (dl_capsules (cp_ledger p)))\<rparr>)"
  using ledger_chain [OF ledger.reach_inv [OF assms]]
  by (simp add: recover_def recover_from_crash_def Let_def root_of_ledger_def head_anchor_def)

lemma publisher_step_cases:
  assumes "publisher_step p p'" "publisher_inv p"
  shows "(cp_ledger p' = cp_ledger p \<or> ledger_step (cp_ledger p) (cp_ledger p')) \<and>
    cp_root p' = root_of_ledger (cp_ledger p')"
  using assms
proof (induction rule: publisher_step.induct)
  case (ps_materialize p r c)
  obtain l' u where lu: "stage_capsule (cp_ledger p) c = (l', u)" by fastforce
  then have "ledger_step (cp_ledger p) l'" "root_of_ledger l' = root_of_ledger (cp_ledger p)"
    using ls_stage [of "cp_ledger p" c] stage_keeps_root [of "cp_ledger p" c] by simp_all
  then show ?case
    using ps_materialize lu by (simp add: materialize_def publisher_inv_def split: result.split)
next
  case (ps_publish p m)
  obtain l' r where lr: "publish_staged (cp_ledger p) = (l', r)" by fastforce
  have step: "ledger_step (cp_ledger p) l'" using ls_publish [of "cp_ledger p"] lr by simp
  show ?case
  proof (cases r)
    case (Ok a)
    then show ?thesis
      using ps_publish step lr publish_staged_Ok_anchor [of "cp_ledger p" l' a]
      by (simp add: publish_def publisher_inv_def root_of_ledger_def Let_def split: result.split)
  next
    case (Err e)
    then show ?thesis
      using ps_publish lr publish_staged_Err [of "cp_ledger p" l' e]
      by (simp add: publish_def publisher_inv_def split: result.split)
  qed
next
  case (ps_recover p)
  then show ?case
    using recover_reachable [of p] ls_recover [of "cp_ledger p"]
    by (simp add: publisher_inv_def)
next
  case (ps_abort_materialized p m)
  then show ?case
    using ls_abort [of "cp_ledger p"]
    by (simp add: abort_materialized_def publisher_inv_def)
qed (auto simp: reserve_def abort_def publisher_inv_def Let_def)

lemma publisher_step_inv: "publisher_inv p \<Longrightarrow> publisher_step p p' \<Longrightarrow> publisher_inv p'"
  using publisher_step_cases [of p p'] by (auto simp: publisher_inv_def intro: reach_step)

interpretation publisher: version_log publisher_init publisher_step publisher_inv publisher_versions succeeds
proof
  show "publisher_inv s" if "publisher_init s" for s
    using that by (auto simp: publisher_init_def publisher_inv_def capsule_publisher_new_def)
  show "successively succeeds (publisher_versions s)" if "publisher_init s" for s
    using that ledger_log.reach_legal
    by (auto simp: publisher_init_def publisher_versions_def capsule_publisher_new_def)
  show "publisher_versions s \<noteq> []" for s
    by (simp add: publisher_versions_def ledger_versions_def)
  show "publisher_versions t = publisher_versions s \<or>
      (\<exists>v. succeeds (last (publisher_versions s)) v \<and> publisher_versions t = publisher_versions s @ [v])"
    if "publisher_inv s" "publisher_step s t" for s t
    using publisher_step_cases [OF that(2,1)] ledger_versions_step [of "cp_ledger s" "cp_ledger t"] that(1)
      ledger.reach_inv [of "cp_ledger s"]
    by (auto simp: publisher_versions_def publisher_inv_def)
qed (rule publisher_step_inv)

subsection \<open>What readers see and what recovery restores\<close>

text \<open>
  C2: Publication refines an append-only log of world versions: in every reachable publisher the
  root a reader sees is the complete last version of the log with its anchor and its count,
  consecutive versions are related by a delta that applies, and whatever the publisher does
  next, the versions readers may have seen stay a prefix of the log.
\<close>

theorem publisher_refines_version_log:
  assumes "reach publisher_init publisher_step p" "publisher_step\<^sup>*\<^sup>* p p'"
  shows "pr_snapshot (cp_root p) = last (publisher_versions p) \<and>
    pr_anchor (cp_root p) = snapshot_anchor (last (publisher_versions p)) \<and>
    unat (pr_capsule_high_water_mark (cp_root p)) + 1 = length (publisher_versions p) \<and>
    successively succeeds (publisher_versions p) \<and>
    prefix (publisher_versions p) (publisher_versions p')"
proof -
  have inv: "publisher_inv p" using assms(1) by (rule publisher.reach_inv)
  then have r: "reach ledger_init ledger_step (cp_ledger p)" "cp_root p = root_of_ledger (cp_ledger p)"
    by (simp_all add: publisher_inv_def)
  have c: "replay_capsules (dl_root_snapshot (cp_ledger p)) (dl_capsules (cp_ledger p)) =
      Ok (dl_head_snapshot (cp_ledger p))" "length (dl_capsules (cp_ledger p)) \<le> 65536"
    using reach_chain [OF r(1)] by (simp_all add: chain_ok_def max_ledger_capsules_def)
  have "unat (word_of_nat (length (dl_capsules (cp_ledger p))) :: u64) = length (dl_capsules (cp_ledger p))"
    using c(2) by (simp add: unsigned_of_nat take_bit_nat_eq_self_iff)
  then show ?thesis
    using publisher.reach_legal [OF assms(1)] publisher.steps_prefix [OF inv assms(2)]
      last_replay_history [OF c(1)] length_replay_history [OF c(1)] r(2)
    by (simp add: root_of_ledger_def head_anchor_def publisher_versions_def ledger_versions_def)
qed

text \<open>
  C16: Recovery never refuses a reachable publisher: it succeeds, reports what it discarded,
  leaves no reservation and no staged capsule, and readers see the same root as before.
\<close>

theorem publisher_recovery_succeeds:
  assumes "reach publisher_init publisher_step p"
  shows "\<exists>p' report. recover p = (p', Ok report) \<and>
    cp_outstanding p' = None \<and> \<not> has_staged_capsule (cp_ledger p') \<and> cp_root p' = cp_root p \<and>
    rr_rederived_head report = pr_anchor (cp_root p) \<and>
    (rr_discarded_staged_capsule report \<longleftrightarrow> has_staged_capsule (cp_ledger p)) \<and>
    (rr_tombstoned_reservation report \<longleftrightarrow> cp_outstanding p \<noteq> None) \<and>
    rr_replayed_capsules report = pr_capsule_high_water_mark (cp_root p)"
proof -
  have r: "reach ledger_init ledger_step (cp_ledger p)" "cp_root p = root_of_ledger (cp_ledger p)"
    using publisher.reach_inv [OF assms] by (simp_all add: publisher_inv_def)
  show ?thesis
    using r(2) by (simp add: recover_reachable [OF r(1)] has_staged_capsule_def recover_from_crash_def root_of_ledger_def)
qed

text \<open>
  C17: The protocol completes: when nothing is in flight and the ledger is not full, reserving the
  successor of a capsule that extends the head, materializing it and publishing it all succeed,
  and the published root is the capsule's successor.
\<close>

theorem publication_completes:
  assumes "reach publisher_init publisher_step p" "cp_outstanding p = None" "\<not> has_staged_capsule (cp_ledger p)"
    and "length (dl_capsules (cp_ledger p)) < max_ledger_capsules" "stageable (cp_ledger p) c"
  shows "\<exists>p1 r p2 m p3 root. reserve p (oc_successor_anchor c) = (p1, Ok r) \<and> materialize p1 r c = (p2, Ok m) \<and>
    publish p2 m = (p3, Ok root) \<and> pr_anchor root = oc_successor_anchor c \<and> cp_root p3 = root \<and>
    cp_outstanding p3 = None \<and> dl_capsules (cp_ledger p3) = dl_capsules (cp_ledger p) @ [c]"
proof -
  let ?l = "cp_ledger p"
  let ?r = "\<lparr>rv_serial = cp_next_serial p, rv_basis = head_anchor ?l, rv_successor = oc_successor_anchor c\<rparr>"
  let ?p1 = "p\<lparr>cp_next_serial := saturating_add (cp_next_serial p) 1, cp_outstanding := Some (cp_next_serial p)\<rparr>"
  have chain: "chain_ok ?l"
    using publisher.reach_inv [OF assms(1)] reach_chain by (simp add: publisher_inv_def)
  from assms(5) obtain s where s: "integrity_is_valid c" "oc_basis_anchor c = head_anchor ?l"
    "apply_delta (dl_head_snapshot ?l) (oc_delta c) = Ok s" "snapshot_anchor s = oc_successor_anchor c"
    by (auto simp: stageable_def)
  have cursor: "sa_fortress_id (oc_successor_anchor c) = sa_fortress_id (head_anchor ?l)"
      "sa_cursor (head_anchor ?l) < sa_cursor (oc_successor_anchor c)"
    using s(1,2) by (auto simp: integrity_is_valid_def less_observation_cursor_def)
  have 1: "reserve p (oc_successor_anchor c) = (?p1, Ok ?r)"
    using assms(2,3) cursor by (simp add: reserve_def Let_def not_le)
  have "stage_capsule ?l c = (?l\<lparr>dl_unpublished_capsule := Some c\<rparr>, Ok ())"
    using s assms(3) chain
    by (simp add: stage_capsule_def Let_def has_staged_capsule_def chain_ok_def head_anchor_def snapshot_anchor_def)
  then have 2: "materialize ?p1 ?r c = (?p1\<lparr>cp_ledger := ?l\<lparr>dl_unpublished_capsule := Some c\<rparr>\<rparr>,
      Ok \<lparr>mt_reservation = ?r, mt_capsule_digest = oc_capsule_digest c\<rparr>)"
    using s(2) by (simp add: materialize_def check_live_def)
  have "publish_staged (?l\<lparr>dl_unpublished_capsule := Some c\<rparr>) =
      (?l\<lparr>dl_unpublished_capsule := None, dl_capsules := dl_capsules ?l @ [c], dl_head_snapshot := s\<rparr>,
       Ok (oc_successor_anchor c))"
    using s assms(4) by (simp add: publish_staged_def head_anchor_def)
  with 1 2 show ?thesis
    by (simp add: publish_def check_live_def head_anchor_def Let_def)
qed

text \<open>
  A refused publication keeps its reservation and its staged capsule while the caller's token
  is consumed: on a full ledger publishing fails, and from then on every reservation is refused
  until recovery runs.
\<close>

theorem refused_publication_blocks_reservations:
  assumes "check_live p (mt_reservation m) = Ok ()" "dl_unpublished_capsule (cp_ledger p) = Some c"
    "integrity_is_valid c" "max_ledger_capsules \<le> length (dl_capsules (cp_ledger p))"
  shows "publish p m = (p, fail BudgetExceeded) \<and> reserve p a = (p, fail Conflict)"
proof -
  have "publish_staged (cp_ledger p) = (cp_ledger p, fail BudgetExceeded)"
    using assms(2-4) by (simp add: publish_staged_def)
  then have "publish p m = (p, fail BudgetExceeded)"
    using assms(1) by (simp add: publish_def fail_def)
  moreover have "cp_outstanding p \<noteq> None"
    using assms(1) by (auto simp: check_live_def split: if_splits)
  ultimately show ?thesis by (simp add: reserve_def)
qed

subsection \<open>A concrete publication\<close>

definition sample_publisher :: capsule_publisher where
  "sample_publisher = capsule_publisher_new sample_ledger"

lemma sample_publisher_reach: "reach publisher_init publisher_step sample_publisher"
  using sample_ledger_reach by (intro reach_init) (auto simp: publisher_init_def sample_publisher_def)

lemma sample_stageable: "stageable sample_ledger sample_capsule"
  using sample_capsule_valid sample_delta_applies
  by (simp add: stageable_def sample_ledger_def durable_ledger_new_def head_anchor_def sample_capsule_def Let_def)

theorem publisher_refines_version_log_witness:
  "pr_snapshot (cp_root sample_publisher) = last (publisher_versions sample_publisher) \<and>
   prefix (publisher_versions sample_publisher) (publisher_versions (fst (recover sample_publisher)))"
  using publisher_refines_version_log [OF sample_publisher_reach r_into_rtranclp [of publisher_step, OF ps_recover]]
  by blast

theorem publisher_recovery_succeeds_witness:
  "\<exists>p' report. recover sample_publisher = (p', Ok report) \<and> cp_root p' = cp_root sample_publisher"
  using publisher_recovery_succeeds [OF sample_publisher_reach] by blast

theorem publication_completes_witness:
  "\<exists>p1 r p2 m p3 root. reserve sample_publisher (oc_successor_anchor sample_capsule) = (p1, Ok r) \<and>
     materialize p1 r sample_capsule = (p2, Ok m) \<and> publish p2 m = (p3, Ok root) \<and>
     dl_capsules (cp_ledger p3) = [sample_capsule]"
proof -
  have "cp_outstanding sample_publisher = None" "\<not> has_staged_capsule (cp_ledger sample_publisher)"
    "length (dl_capsules (cp_ledger sample_publisher)) < max_ledger_capsules"
    "stageable (cp_ledger sample_publisher) sample_capsule" "dl_capsules (cp_ledger sample_publisher) = []"
    using sample_stageable
    by (simp_all add: sample_publisher_def capsule_publisher_new_def has_staged_capsule_def sample_ledger_def
        durable_ledger_new_def max_ledger_capsules_def)
  with publication_completes [OF sample_publisher_reach, of sample_capsule] show ?thesis by fastforce
qed

definition full_publisher :: capsule_publisher where
  "full_publisher = sample_publisher\<lparr>cp_outstanding := Some 1, cp_ledger :=
     sample_ledger\<lparr>dl_capsules := replicate 65536 sample_capsule, dl_unpublished_capsule := Some sample_capsule\<rparr>\<rparr>"

definition full_materialization :: materialization where
  "full_materialization =
     \<lparr>mt_reservation = \<lparr>rv_serial = 1, rv_basis = oc_basis_anchor sample_capsule,
        rv_successor = oc_successor_anchor sample_capsule\<rparr>, mt_capsule_digest = oc_capsule_digest sample_capsule\<rparr>"

theorem refused_publication_blocks_reservations_witness:
  "publish full_publisher full_materialization = (full_publisher, fail BudgetExceeded) \<and>
   reserve full_publisher (oc_successor_anchor sample_capsule) = (full_publisher, fail Conflict)"
proof (rule refused_publication_blocks_reservations [OF _ _ sample_capsule_valid])
  show "check_live full_publisher (mt_reservation full_materialization) = Ok ()"
    by (simp add: check_live_def full_publisher_def full_materialization_def sample_publisher_def
        capsule_publisher_new_def head_anchor_def sample_ledger_def durable_ledger_new_def sample_capsule_def Let_def)
  show "dl_unpublished_capsule (cp_ledger full_publisher) = Some sample_capsule"
    "max_ledger_capsules \<le> length (dl_capsules (cp_ledger full_publisher))"
    by (simp_all add: full_publisher_def max_ledger_capsules_def)
qed

end
