(* ===== verification/Merkle.thy ===== *)
theory Merkle
  imports World_Model
begin

text \<open>
  \<^verbatim>\<open>crates/dfmcp-world/src/merkle.rs\<close>: Merkle trees over the records of a snapshot and
  inclusion proofs of entities. A level is halved until one digest is left; an odd last digest
  moves up unchanged. Shown: the tree yields a proof exactly for the entities it holds and every
  such proof verifies against the overall root (completeness), and no other proof at its position
  verifies unless verifying it hashes two different strings to the same digest (soundness).
\<close>

definition empty_domain :: "u8 list" where
  "empty_domain = str_bytes ''dfmcp-merkle-empty-v1''"

definition leaf_domain :: "u8 list" where
  "leaf_domain = str_bytes ''dfmcp-merkle-leaf-v1''"

definition pair_domain :: "u8 list" where
  "pair_domain = str_bytes ''dfmcp-merkle-pair-v1''"

definition hash_leaf :: "u8 list \<Rightarrow> digest32" where
  "hash_leaf bytes = digest_of_bytes (leaf_domain @ be_bytes 8 (length bytes) @ bytes)"

definition pair_input :: "digest32 \<Rightarrow> digest32 \<Rightarrow> u8 list" where
  "pair_input left right = pair_domain @ left @ right"

definition hash_pair :: "digest32 \<Rightarrow> digest32 \<Rightarrow> digest32" where
  "hash_pair left right = digest_of_bytes (pair_input left right)"

fun next_level :: "digest32 list \<Rightarrow> digest32 list" where
  "next_level (left # right # rest) = hash_pair left right # next_level rest"
| "next_level [only] = [only]"
| "next_level [] = []"

lemma length_next_level [simp]: "length (next_level level) = (length level + 1) div 2"
  by (induction level rule: next_level.induct) auto

function reduce_levels :: "digest32 list \<Rightarrow> digest32 list" where
  "reduce_levels level = (if length level > 1 then reduce_levels (next_level level) else level)"
  by pat_completeness auto
termination by (relation "measure length") auto

declare reduce_levels.simps [simp del]

definition merkle_root :: "digest32 list \<Rightarrow> digest32" where
  "merkle_root level =
     (if level = [] then digest_of_bytes empty_domain
      else case reduce_levels level of root # _ \<Rightarrow> root | [] \<Rightarrow> digest_of_bytes empty_domain)"

function path_loop ::
  "digest32 list \<Rightarrow> nat \<Rightarrow> (digest32 \<times> bool) list \<Rightarrow> (digest32 \<times> bool) list option" where
  "path_loop level index siblings =
     (if length level > 1 then
        if even index then
          path_loop (next_level level) (index div 2)
            (if index + 1 < length level then siblings @ [(level ! (index + 1), False)] else siblings)
        else if index - 1 < length level then
          path_loop (next_level level) (index div 2) (siblings @ [(level ! (index - 1), True)])
        else None
      else Some siblings)"
  by pat_completeness auto
termination by (relation "measure (\<lambda>(level, _, _). length level)") auto

declare path_loop.simps [simp del]

definition merkle_path :: "digest32 list \<Rightarrow> nat \<Rightarrow> (digest32 \<times> bool) list option" where
  "merkle_path level index = (if index \<ge> length level then None else path_loop level index [])"

record merkle_inclusion_proof =
  mp_leaf_digest :: digest32
  mp_sibling_hashes :: "digest32 list"
  mp_sibling_is_left :: "bool list"

fun climb :: "digest32 \<Rightarrow> digest32 \<times> bool \<Rightarrow> digest32" where
  "climb current (sibling, sibling_is_left) =
     (if sibling_is_left then hash_pair sibling current else hash_pair current sibling)"

definition verify_root :: "merkle_inclusion_proof \<Rightarrow> digest32 \<Rightarrow> bool" where
  "verify_root proof expected_root =
     (if length (mp_sibling_hashes proof) \<noteq> length (mp_sibling_is_left proof) then False
      else foldl climb (mp_leaf_digest proof) (zip (mp_sibling_hashes proof) (mp_sibling_is_left proof))
        = expected_root)"

record merkle_state_tree =
  mt_entities_root :: digest32
  mt_edges_root :: digest32
  mt_chunks_root :: digest32
  mt_events_root :: digest32
  mt_overall_root :: digest32
  mt_entity_leaf_hashes :: "(entity_id, digest32) btree_map"

definition from_snapshot :: "world_snapshot \<Rightarrow> merkle_state_tree" where
  "from_snapshot s =
     (let g = ws_graph s;
          entity_leaf_hashes = map (\<lambda>(i, entity). (i, hash_leaf (enc_entity entity))) (wg_entities g);
          entities_root = merkle_root (map snd entity_leaf_hashes);
          edges_root = merkle_root (map (\<lambda>(_, edge). hash_leaf (enc_edge edge)) (wg_edges g));
          chunks_root = merkle_root (map (\<lambda>(_, chunk). hash_leaf (enc_chunk chunk)) (wg_chunks g));
          events_root = merkle_root (map (\<lambda>(_, event). hash_leaf (enc_event event)) (wg_events g))
      in \<lparr>mt_entities_root = entities_root, mt_edges_root = edges_root, mt_chunks_root = chunks_root,
          mt_events_root = events_root,
          mt_overall_root = merkle_root [entities_root, edges_root, chunks_root, events_root],
          mt_entity_leaf_hashes = entity_leaf_hashes\<rparr>)"

text \<open>
  \<^verbatim>\<open>binary_search\<close> on the ascending, distinct keys: the position of the key, found by halving
  the interval.
\<close>

function binary_search :: "'a::linorder list \<Rightarrow> 'a \<Rightarrow> nat \<Rightarrow> nat \<Rightarrow> nat option" where
  "binary_search xs x lo hi =
     (if lo < hi then
        let mid = lo + (hi - lo) div 2 in
        if xs ! mid = x then Some mid
        else if xs ! mid < x then binary_search xs x (Suc mid) hi
        else binary_search xs x lo mid
      else None)"
  by pat_completeness auto
termination by (relation "measure (\<lambda>(_, _, lo, hi). hi - lo)") auto

declare binary_search.simps [simp del]

definition generate_entity_proof :: "merkle_state_tree \<Rightarrow> entity_id \<Rightarrow> merkle_inclusion_proof option" where
  "generate_entity_proof t i =
     (let entity_ids = map fst (mt_entity_leaf_hashes t);
          leaves = map snd (mt_entity_leaf_hashes t)
      in case binary_search entity_ids i 0 (length entity_ids) of
           None \<Rightarrow> None
         | Some index \<Rightarrow>
             if index < length leaves then
               case merkle_path leaves index of
                 None \<Rightarrow> None
               | Some path \<Rightarrow>
                   let siblings = path @ [(mt_edges_root t, False),
                         (hash_pair (mt_chunks_root t) (mt_events_root t), False)]
                   in Some \<lparr>mp_leaf_digest = leaves ! index, mp_sibling_hashes = map fst siblings,
                            mp_sibling_is_left = map snd siblings\<rparr>
             else None)"

subsection \<open>Completeness\<close>

lemma next_level_nth:
  assumes "i < length level"
  shows "next_level level ! (i div 2) =
    (if even i then if i + 1 < length level then hash_pair (level ! i) (level ! (i + 1)) else level ! i
     else hash_pair (level ! (i - 1)) (level ! i))"
  using assms
proof (induction level arbitrary: i rule: next_level.induct)
  case (1 left right rest)
  then show ?case
  proof (cases i)
    case (Suc j)
    then show ?thesis using 1 by (cases j) (auto simp: nth_Cons')
  qed simp
qed auto

lemma path_climbs:
  assumes "index < length level"
  shows "\<exists>path. path_loop level index siblings = Some (siblings @ path) \<and>
    reduce_levels level = [foldl climb (level ! index) path]"
  using assms
proof (induction level index siblings rule: path_loop.induct)
  case (1 level index siblings)
  show ?case
  proof (cases "length level > 1")
    case False
    then have "length level = 1" "index = 0" using 1(3) by linarith+
    then show ?thesis by (cases level) (auto simp: path_loop.simps reduce_levels.simps)
  next
    case True
    have half: "index div 2 < length (next_level level)" using 1(3) by simp
    have lvl: "reduce_levels level = reduce_levels (next_level level)"
      using True by (simp add: reduce_levels.simps [of level])
    consider (last) "even index" "\<not> index + 1 < length level" | (left) "even index" "index + 1 < length level"
      | (right) "odd index" by blast
    then show ?thesis
    proof cases
      case last
      then show ?thesis
        using 1(1) [OF True last(1) half] next_level_nth [OF 1(3)] True lvl
        by (auto simp: path_loop.simps [of level])
    next
      case left
      from 1(1) [OF True left(1) half] left obtain path where
        "path_loop (next_level level) (index div 2) (siblings @ [(level ! (index + 1), False)]) =
          Some ((siblings @ [(level ! (index + 1), False)]) @ path)"
        "reduce_levels (next_level level) = [foldl climb (next_level level ! (index div 2)) path]" by auto
      then show ?thesis
        using left next_level_nth [OF 1(3)] True lvl
        by (intro exI [of _ "(level ! (index + 1), False) # path"])
          (simp add: path_loop.simps [of level])
    next
      case right
      have i: "index - 1 < length level" using 1(3) by simp
      from 1(2) [OF True _ i half] right obtain path where
        "path_loop (next_level level) (index div 2) (siblings @ [(level ! (index - 1), True)]) =
          Some ((siblings @ [(level ! (index - 1), True)]) @ path)"
        "reduce_levels (next_level level) = [foldl climb (next_level level ! (index div 2)) path]" by auto
      then show ?thesis
        using right i next_level_nth [OF 1(3)] True lvl
        by (intro exI [of _ "(level ! (index - 1), True) # path"])
          (simp add: path_loop.simps [of level])
    qed
  qed
qed

lemma binary_search_Some:
  "binary_search xs x lo hi = Some i \<Longrightarrow> lo \<le> i \<and> i < hi \<and> xs ! i = x"
proof (induction xs x lo hi rule: binary_search.induct)
  case (1 xs x lo hi)
  show ?case
    using 1(3) 1(1) [OF _ refl] 1(2) [OF _ refl]
    by (subst (asm) binary_search.simps) (fastforce simp: Let_def split: if_splits)
qed

lemma binary_search_None:
  assumes "sorted_wrt (<) xs" "hi \<le> length xs" "binary_search xs x lo hi = None" "lo \<le> i" "i < hi"
  shows "xs ! i \<noteq> x"
  using assms
proof (induction xs x lo hi arbitrary: i rule: binary_search.induct)
  case (1 xs x lo hi)
  define mid where "mid = lo + (hi - lo) div 2"
  have lh: "lo < hi" using 1(6,7) by simp
  then have m: "mid < hi" "lo \<le> mid" by (auto simp: mid_def)
  have r: "xs ! mid \<noteq> x" "xs ! mid < x \<Longrightarrow> binary_search xs x (Suc mid) hi = None"
    "\<not> xs ! mid < x \<Longrightarrow> binary_search xs x lo mid = None"
    using 1(5) lh by (auto simp: binary_search.simps [of xs x lo hi] Let_def mid_def split: if_splits)
  have lt: "xs ! j < xs ! k" if "j < k" "k < length xs" for j k
    using 1(3) that by (simp add: sorted_wrt_iff_nth_less)
  show ?case
  proof (cases "xs ! mid < x")
    case True
    show ?thesis
    proof (cases "i \<le> mid")
      case le: True
      then have "xs ! i \<le> xs ! mid" using lt [of i mid] m 1(4) by (cases "i = mid") auto
      then show ?thesis using True by auto
    next
      case False
      then show ?thesis
        using 1(1) [OF lh mid_def r(1) True 1(3,4) r(2) [OF True], of i] 1(7) by simp
    qed
  next
    case False
    show ?thesis
    proof (cases "i < mid")
      case True
      then show ?thesis using 1(2) [OF lh mid_def r(1) False 1(3) _ r(3) [OF False] 1(6) True] m 1(4) by simp
    next
      case ge: False
      then have "xs ! mid \<le> xs ! i" using lt [of mid i] 1(4,7) by (cases "i = mid") auto
      then show ?thesis using False r(1) by auto
    qed
  qed
qed

lemma binary_search_sorted:
  assumes "sorted_wrt (<) xs"
  shows "binary_search xs x 0 (length xs) = Some i \<longleftrightarrow> i < length xs \<and> xs ! i = x"
proof
  assume "i < length xs \<and> xs ! i = x"
  then obtain j where j: "binary_search xs x 0 (length xs) = Some j"
    using binary_search_None [OF assms order_refl _ le0, of x i] by (cases "binary_search xs x 0 (length xs)") auto
  then have "j < length xs" "xs ! j = xs ! i" using binary_search_Some [OF j] \<open>i < length xs \<and> _\<close> by simp_all
  then have "j = i"
    using assms \<open>i < length xs \<and> _\<close> nth_eq_iff_index_eq [of xs j i] strict_sorted_iff by blast
  with j show "binary_search xs x 0 (length xs) = Some i" by simp
qed (use binary_search_Some in blast)

lemma overall_root_shape:
  "merkle_root [a, b, c, d] = hash_pair (hash_pair a b) (hash_pair c d)"
  by (simp add: merkle_root_def reduce_levels.simps)

lemma generate_entity_proof_verifies:
  assumes "bt_sorted (mt_entity_leaf_hashes t)" "map_of (mt_entity_leaf_hashes t) i = Some leaf"
    and "mt_entities_root t = merkle_root (map snd (mt_entity_leaf_hashes t))"
    and "mt_overall_root t =
      merkle_root [mt_entities_root t, mt_edges_root t, mt_chunks_root t, mt_events_root t]"
  shows "\<exists>p. generate_entity_proof t i = Some p \<and> mp_leaf_digest p = leaf \<and> verify_root p (mt_overall_root t)"
proof -
  let ?m = "mt_entity_leaf_hashes t"
  from map_of_SomeD [OF assms(2)] obtain k where k: "k < length ?m" "?m ! k = (i, leaf)"
    by (auto simp: in_set_conv_nth)
  have "binary_search (map fst ?m) i 0 (length (map fst ?m)) = Some k"
    using binary_search_sorted [of "map fst ?m" i k] k assms(1) by (simp add: bt_sorted_def)
  moreover from path_climbs [of k "map snd ?m" "[]"] k(1) obtain path where
    path: "path_loop (map snd ?m) k [] = Some path"
    and root: "reduce_levels (map snd ?m) = [foldl climb (map snd ?m ! k) path]" by auto
  have "mt_entities_root t = foldl climb leaf path"
    using root k assms(3) by (auto simp: merkle_root_def)
  ultimately show ?thesis
    using path k
    by (simp add: generate_entity_proof_def merkle_path_def verify_root_def Let_def assms(4) overall_root_shape
        zip_map_fst_snd)
qed

text \<open>A proof is generated for exactly the entities of the snapshot, and it verifies.\<close>

lemma entity_proof_iff:
  assumes "bt_sorted (wg_entities (ws_graph s))"
  shows "case map_of (wg_entities (ws_graph s)) i of
      None \<Rightarrow> generate_entity_proof (from_snapshot s) i = None
    | Some e \<Rightarrow> \<exists>p. generate_entity_proof (from_snapshot s) i = Some p \<and>
        mp_leaf_digest p = hash_leaf (enc_entity e) \<and> verify_root p (mt_overall_root (from_snapshot s))"
proof -
  let ?t = "from_snapshot s"
  let ?es = "wg_entities (ws_graph s)"
  have m: "mt_entity_leaf_hashes ?t = map (\<lambda>(i, e). (i, hash_leaf (enc_entity e))) ?es"
    by (simp add: from_snapshot_def Let_def)
  have fst_m: "map fst (mt_entity_leaf_hashes ?t) = map fst ?es" unfolding m by (rule map_fst_map_snd)
  have sorted: "bt_sorted (mt_entity_leaf_hashes ?t)" using assms unfolding m by (simp only: bt_sorted_map_snd)
  have look: "map_of (mt_entity_leaf_hashes ?t) i = map_option (\<lambda>e. hash_leaf (enc_entity e)) (map_of ?es i)"
    unfolding m by (rule map_of_map_snd)
  show ?thesis
  proof (cases "map_of ?es i")
    case None
    then have "i \<notin> set (map fst ?es)" by (simp add: map_of_eq_None_iff)
    then have "binary_search (map fst ?es) i 0 (length (map fst ?es)) = None"
      using binary_search_sorted [of "map fst ?es" i] assms
      by (metis bt_sorted_def nth_mem not_None_eq)
    then have "generate_entity_proof ?t i = None" unfolding generate_entity_proof_def fst_m Let_def by simp
    then show ?thesis using None by simp
  next
    case (Some e)
    then show ?thesis
      using generate_entity_proof_verifies [OF sorted, of i "hash_leaf (enc_entity e)"] look
      by (simp add: from_snapshot_def Let_def)
  qed
qed

subsection \<open>Soundness\<close>

text \<open>The strings that verifying a path hashes, from the leaf up.\<close>

fun climb_inputs :: "digest32 \<Rightarrow> (digest32 \<times> bool) list \<Rightarrow> u8 list list" where
  "climb_inputs current [] = []"
| "climb_inputs current ((sibling, is_left) # path) =
     (if is_left then pair_input sibling current else pair_input current sibling) #
     climb_inputs (climb current (sibling, is_left)) path"

definition proof_inputs :: "merkle_inclusion_proof \<Rightarrow> u8 list list" where
  "proof_inputs p = climb_inputs (mp_leaf_digest p) (zip (mp_sibling_hashes p) (mp_sibling_is_left p))"

definition proof_digests_ok :: "merkle_inclusion_proof \<Rightarrow> bool" where
  "proof_digests_ok p \<longleftrightarrow> is_digest (mp_leaf_digest p) \<and> (\<forall>d \<in> set (mp_sibling_hashes p). is_digest d)"

definition collides :: "u8 list list \<Rightarrow> u8 list list \<Rightarrow> bool" where
  "collides xs ys \<longleftrightarrow> (\<exists>(x, y) \<in> set (zip xs ys). x \<noteq> y \<and> digest_of_bytes x = digest_of_bytes y)"

lemma pair_input_inject:
  "is_digest a \<Longrightarrow> is_digest c \<Longrightarrow> pair_input a b = pair_input c d \<longleftrightarrow> a = c \<and> b = d"
  by (auto simp: pair_input_def is_digest_def)

lemma climb_digest [simp]: "is_digest (climb a x)"
  by (cases x) (simp add: hash_pair_def)

lemma climb_binding:
  assumes "map snd ps = map snd qs" "foldl climb a ps = foldl climb b qs" "is_digest a" "is_digest b"
    and "\<forall>x \<in> set ps. is_digest (fst x)" "\<forall>x \<in> set qs. is_digest (fst x)"
  shows "a = b \<and> ps = qs \<or> collides (climb_inputs a ps) (climb_inputs b qs)"
  using assms
proof (induction ps arbitrary: qs a b)
  case (Cons x ps)
  obtain y ys where qs: "qs = y # ys" using Cons.prems(1) by (cases qs) auto
  obtain s l where x: "x = (s, l)" by fastforce
  obtain t where y: "y = (t, l)" using Cons.prems(1) qs x by (cases y) auto
  have "climb a x = climb b y \<and> ps = ys \<or>
      collides (climb_inputs (climb a x) ps) (climb_inputs (climb b y) ys)"
    using Cons.prems qs by (intro Cons.IH) auto
  then show ?case
  proof
    assume "climb a x = climb b y \<and> ps = ys"
    then show ?thesis
      using Cons.prems(3-6) pair_input_inject
      by (auto simp: qs x y hash_pair_def collides_def split: if_splits)
  next
    assume "collides (climb_inputs (climb a x) ps) (climb_inputs (climb b y) ys)"
    then show ?thesis by (auto simp: qs x y collides_def)
  qed
qed simp

lemma proofs_binding:
  assumes "verify_root p root" "verify_root q root" "mp_sibling_is_left p = mp_sibling_is_left q"
    and "proof_digests_ok p" "proof_digests_ok q"
  shows "p = q \<or> collides (proof_inputs p) (proof_inputs q)"
proof -
  let ?P = "zip (mp_sibling_hashes p) (mp_sibling_is_left p)"
  let ?Q = "zip (mp_sibling_hashes q) (mp_sibling_is_left q)"
  have len: "length (mp_sibling_hashes p) = length (mp_sibling_is_left p)"
      "length (mp_sibling_hashes q) = length (mp_sibling_is_left q)"
    and f: "foldl climb (mp_leaf_digest p) ?P = foldl climb (mp_leaf_digest q) ?Q"
    using assms(1,2) by (auto simp: verify_root_def split: if_splits)
  have "mp_leaf_digest p = mp_leaf_digest q \<and> ?P = ?Q \<or> collides (proof_inputs p) (proof_inputs q)"
    unfolding proof_inputs_def
    using assms(3-5) len f by (intro climb_binding) (auto simp: proof_digests_ok_def dest: set_zip_leftD)
  moreover have "mp_sibling_hashes p = mp_sibling_hashes q" if "?P = ?Q"
    using that len by (metis map_fst_zip)
  ultimately show ?thesis using assms(3) by (cases p; cases q) auto
qed

lemma next_level_digests: "\<forall>d \<in> set level. is_digest d \<Longrightarrow> \<forall>d \<in> set (next_level level). is_digest d"
  by (induction level rule: next_level.induct) (auto simp: hash_pair_def)

lemma path_loop_digests:
  assumes "path_loop level index siblings = Some path" "index < length level"
    and "\<forall>d \<in> set level. is_digest d" "\<forall>x \<in> set siblings. is_digest (fst x)"
  shows "\<forall>x \<in> set path. is_digest (fst x)"
  using assms
proof (induction level index siblings rule: path_loop.induct)
  case (1 level index siblings)
  note next_digests = next_level_digests [OF 1(5)]
  have half: "index div 2 < length (next_level level)" using 1(4) by simp
  show ?case
  proof (cases "length level > 1")
    case long: True
    show ?thesis
    proof (cases "even index")
      case True
      let ?sib = "if index + 1 < length level then siblings @ [(level ! (index + 1), False)] else siblings"
      have "path_loop (next_level level) (index div 2) ?sib = Some path"
        using 1(3) by (subst (asm) path_loop.simps) (simp only: long True if_True)
      moreover have "\<forall>x \<in> set ?sib. is_digest (fst x)" using 1(5,6) by simp
      ultimately show ?thesis by (rule 1(1) [OF long True _ half next_digests])
    next
      case False
      have small: "index - 1 < length level" using 1(4) by simp
      have "path_loop (next_level level) (index div 2) (siblings @ [(level ! (index - 1), True)]) = Some path"
        using 1(3) by (subst (asm) path_loop.simps) (simp only: long False small if_True if_False)
      moreover have "\<forall>x \<in> set (siblings @ [(level ! (index - 1), True)]). is_digest (fst x)"
        using 1(5,6) small by simp
      ultimately show ?thesis by (rule 1(2) [OF long False small _ half next_digests])
    qed
  next
    case False
    then show ?thesis using 1(3,6) by (simp add: path_loop.simps [of level])
  qed
qed

lemma merkle_root_digest: "\<forall>d \<in> set level. is_digest d \<Longrightarrow> is_digest (merkle_root level)"
proof -
  have "\<forall>d \<in> set level. is_digest d \<Longrightarrow> \<forall>d \<in> set (reduce_levels level). is_digest d" for level
  proof (induction level rule: reduce_levels.induct)
    case (1 level)
    then show ?case
      using next_level_digests [of level] by (cases "length level > 1") (simp_all add: reduce_levels.simps [of level])
  qed
  then show "is_digest (merkle_root level)" if "\<forall>d \<in> set level. is_digest d"
    using that by (auto simp: merkle_root_def split: list.splits)
qed

lemma generated_proof_digests:
  assumes "generate_entity_proof (from_snapshot s) i = Some q"
  shows "proof_digests_ok q"
proof -
  let ?t = "from_snapshot s"
  have leaves: "\<forall>d \<in> set (map snd (mt_entity_leaf_hashes ?t)). is_digest d"
    by (auto simp: from_snapshot_def Let_def hash_leaf_def)
  have roots: "is_digest (mt_edges_root ?t)"
    by (auto simp: from_snapshot_def Let_def hash_leaf_def intro!: merkle_root_digest)
  obtain index where "binary_search (map fst (mt_entity_leaf_hashes ?t)) i 0 (length (map fst (mt_entity_leaf_hashes ?t))) = Some index"
    using assms by (cases "binary_search (map fst (mt_entity_leaf_hashes ?t)) i 0 (length (map fst (mt_entity_leaf_hashes ?t)))")
      (simp_all add: generate_entity_proof_def Let_def)
  with assms obtain path where "index < length (map snd (mt_entity_leaf_hashes ?t))"
    "path_loop (map snd (mt_entity_leaf_hashes ?t)) index [] = Some path"
    "q = \<lparr>mp_leaf_digest = map snd (mt_entity_leaf_hashes ?t) ! index,
       mp_sibling_hashes = map fst path @ [mt_edges_root ?t, hash_pair (mt_chunks_root ?t) (mt_events_root ?t)],
       mp_sibling_is_left = map snd path @ [False, False]\<rparr>"
    by (auto simp: generate_entity_proof_def merkle_path_def Let_def split: option.splits if_splits)
  moreover from path_loop_digests [OF this(2,1) leaves] have "\<forall>x \<in> set path. is_digest (fst x)" by simp
  ultimately show ?thesis
    using leaves roots by (auto simp: proof_digests_ok_def hash_pair_def)
qed

text \<open>
  C21: Inclusion proofs are complete and sound. For every entity of a snapshot the tree generates a
  proof whose leaf is the hash of the entity's canonical bytes, and among all proofs with its
  directions (the same position in the tree) it is the only one that verifies against the
  snapshot's root: any other that verifies exhibits, at some height, two different strings with
  the same SHA-256 digest.
\<close>

theorem entity_proofs_exact:
  assumes "bt_sorted (wg_entities (ws_graph s))" "map_of (wg_entities (ws_graph s)) i = Some e"
  shows "\<exists>q. generate_entity_proof (from_snapshot s) i = Some q \<and> mp_leaf_digest q = hash_leaf (enc_entity e) \<and>
    verify_root q (mt_overall_root (from_snapshot s)) \<and>
    (\<forall>p. mp_sibling_is_left p = mp_sibling_is_left q \<and> proof_digests_ok p \<longrightarrow>
       verify_root p (mt_overall_root (from_snapshot s)) \<longrightarrow> p = q \<or> collides (proof_inputs p) (proof_inputs q))"
proof -
  obtain q where q: "generate_entity_proof (from_snapshot s) i = Some q"
      "mp_leaf_digest q = hash_leaf (enc_entity e)" "verify_root q (mt_overall_root (from_snapshot s))"
    using entity_proof_iff [OF assms(1), of i] assms(2) by auto
  then show ?thesis using proofs_binding generated_proof_digests [OF q(1)] by blast
qed

subsection \<open>A concrete tree\<close>

definition sample_tree_world :: world_snapshot where
  "sample_tree_world = world_snapshot_new 7 100 (ObservationCursor 1 1) True
     (empty_graph\<lparr>wg_entities := [(3, \<lparr>er_id = 3, er_generation = 0, er_revision = 1, er_kind = EkUnit,
        er_label = ''Urist'', er_fields = []\<rparr>)]\<rparr>)"

lemma sample_tree_sorted: "bt_sorted (wg_entities (ws_graph sample_tree_world))"
  by (simp add: sample_tree_world_def)

text \<open>The proof of the only entity with every byte of its leaf changed.\<close>

definition tampered :: "merkle_inclusion_proof \<Rightarrow> merkle_inclusion_proof" where
  "tampered p = p\<lparr>mp_leaf_digest := map (\<lambda>b. b + 1) (mp_leaf_digest p)\<rparr>"

theorem entity_proofs_exact_witness:
  "\<exists>q. generate_entity_proof (from_snapshot sample_tree_world) 3 = Some q \<and>
     verify_root q (mt_overall_root (from_snapshot sample_tree_world)) \<and>
     (verify_root (tampered q) (mt_overall_root (from_snapshot sample_tree_world)) = False
      \<or> collides (proof_inputs (tampered q)) (proof_inputs q))"
proof -
  let ?root = "mt_overall_root (from_snapshot sample_tree_world)"
  have "map_of (wg_entities (ws_graph sample_tree_world)) 3 \<noteq> None" by (simp add: sample_tree_world_def)
  then obtain e where "map_of (wg_entities (ws_graph sample_tree_world)) 3 = Some e" by blast
  from entity_proofs_exact [OF sample_tree_sorted this] obtain q where
    q: "generate_entity_proof (from_snapshot sample_tree_world) 3 = Some q" "verify_root q ?root"
    and unique: "\<And>p. mp_sibling_is_left p = mp_sibling_is_left q \<Longrightarrow> proof_digests_ok p \<Longrightarrow>
      verify_root p ?root \<Longrightarrow> p = q \<or> collides (proof_inputs p) (proof_inputs q)" by blast
  have ok: "proof_digests_ok q" by (rule generated_proof_digests [OF q(1)])
  then have "mp_leaf_digest q \<noteq> []" by (auto simp: proof_digests_ok_def is_digest_def)
  then have "map (\<lambda>b. b + 1) (mp_leaf_digest q) \<noteq> mp_leaf_digest q" by (cases "mp_leaf_digest q") simp_all
  then have "tampered q \<noteq> q" by (auto simp: tampered_def dest: arg_cong [where f = mp_leaf_digest])
  moreover have "mp_sibling_is_left (tampered q) = mp_sibling_is_left q" "proof_digests_ok (tampered q)"
    using ok by (simp_all add: tampered_def proof_digests_ok_def is_digest_def)
  ultimately show ?thesis using unique [of "tampered q"] q by blast
qed

end
