(* ===== verification/Terrain.thy ===== *)
theory Terrain
  imports World_Model
begin

text \<open>
  \<^verbatim>\<open>crates/dfmcp-world/src/terrain.rs\<close>: tile access to the run-length encoded terrain chunks
  and predicates over regions. Coordinates are 32-bit signed integers, kept as integers; the
  Euclidean quotient and remainder by 16 are the quotient and remainder of the logic. Shown: the
  streaming lookup agrees with the expansion of the runs, encoding inverts expansion, the result
  of a tile update on every branch, that an update changes exactly its tile, and the exact
  meaning of the three-valued region predicate.
\<close>

definition terrain_chunk_edge :: int where
  "terrain_chunk_edge = 16"

definition terrain_chunk_tiles :: u32 where
  "terrain_chunk_tiles = 256"

definition max_region_terrain_tiles :: u64 where
  "max_region_terrain_tiles = 65536"

definition tile_unknown :: u32 where
  "tile_unknown = -1"

record tile_slot =
  ts_chunk :: chunk_coord
  ts_offset :: u32

definition tile_slot_of :: "map_coord \<Rightarrow> tile_slot" where
  "tile_slot_of coord =
     (let local_x = mx coord mod terrain_chunk_edge; local_y = my coord mod terrain_chunk_edge in
      \<lparr>ts_chunk = ChunkCoord (mx coord div terrain_chunk_edge) (my coord div terrain_chunk_edge) (mz coord),
       ts_offset = word_of_int \<bar>local_y * terrain_chunk_edge + local_x\<bar>\<rparr>)"

definition chunk_is_canonical :: "map_chunk \<Rightarrow> bool" where
  "chunk_is_canonical c \<longleftrightarrow>
     uint (mc_width c) = terrain_chunk_edge \<and> uint (mc_height c) = terrain_chunk_edge \<and>
     encoded_tile_count c = Some terrain_chunk_tiles"

fun code_in_runs :: "u32 \<Rightarrow> terrain_run list \<Rightarrow> u32 \<Rightarrow> u32 option" where
  "code_in_runs start [] offset = None"
| "code_in_runs start (run # runs) offset =
     (case checked_add start (tr_length run) of
        None \<Rightarrow> None
      | Some stop \<Rightarrow> if offset < stop then Some (tr_tile_code run) else code_in_runs stop runs offset)"

definition code_in_chunk :: "map_chunk \<Rightarrow> u32 \<Rightarrow> u32 option" where
  "code_in_chunk c offset =
     (if \<not> chunk_is_canonical c then None else code_in_runs 0 (mc_terrain_runs c) offset)"

definition push_code :: "u32 \<Rightarrow> terrain_run list \<Rightarrow> terrain_run list" where
  "push_code code runs =
     (if runs \<noteq> [] \<and> tr_tile_code (last runs) = code
      then butlast runs @ [(last runs)\<lparr>tr_length := tr_length (last runs) + 1\<rparr>]
      else runs @ [\<lparr>tr_tile_code = code, tr_length = 1\<rparr>])"

definition encode_runs :: "u32 list \<Rightarrow> terrain_run list" where
  "encode_runs codes = fold push_code codes []"

definition expand_runs :: "terrain_run list \<Rightarrow> u32 list" where
  "expand_runs runs = concat (map (\<lambda>run. replicate (unat (tr_length run)) (tr_tile_code run)) runs)"

definition decode_runs :: "map_chunk \<Rightarrow> u32 list option" where
  "decode_runs c = (if \<not> chunk_is_canonical c then None else Some (expand_runs (mc_terrain_runs c)))"

datatype region_truth = Matches | Differs | TruthUnknown

definition validate_region :: "map_cuboid \<Rightarrow> u64 res" where
  "validate_region area =
     (if mx (cmin area) > mx (cmax area) \<or> my (cmin area) > my (cmax area) \<or> mz (cmin area) > mz (cmax area)
      then fail InvalidRequest
      else
        and_then (ok_or (cuboid_tile_count area) (dfmcp_error BudgetExceeded)) (\<lambda>tiles.
          if tiles > max_region_terrain_tiles then fail BudgetExceeded else Ok tiles))"

definition region_tiles :: "map_cuboid \<Rightarrow> map_coord list" where
  "region_tiles area =
     concat (map (\<lambda>z. concat (map (\<lambda>y. map (\<lambda>x. \<lparr>mx = x, my = y, mz = z\<rparr>)
       [mx (cmin area)..mx (cmax area)]) [my (cmin area)..my (cmax area)])) [mz (cmin area)..mz (cmax area)])"

definition tile_code_at :: "world_snapshot \<Rightarrow> map_coord \<Rightarrow> u32 option" where
  "tile_code_at s coord =
     (let slot = tile_slot_of coord in
      case map_of (wg_chunks (ws_graph s)) (ts_chunk slot) of
        None \<Rightarrow> None
      | Some chunk \<Rightarrow>
          (case code_in_chunk chunk (ts_offset slot) of
             None \<Rightarrow> None
           | Some code \<Rightarrow> if code \<noteq> tile_unknown then Some code else None))"

fun region_scan :: "world_snapshot \<Rightarrow> u32 \<Rightarrow> map_coord list \<Rightarrow> bool \<Rightarrow> region_truth" where
  "region_scan s expected [] seen_unknown = (if seen_unknown then TruthUnknown else Matches)"
| "region_scan s expected (coord # coords) seen_unknown =
     (case tile_code_at s coord of
        Some code \<Rightarrow> if code = expected then region_scan s expected coords seen_unknown else Differs
      | None \<Rightarrow> region_scan s expected coords True)"

definition region_terrain_truth :: "world_snapshot \<Rightarrow> map_cuboid \<Rightarrow> u32 \<Rightarrow> region_truth" where
  "region_terrain_truth s area expected =
     (if \<not> is_ok (validate_region area) then TruthUnknown
      else region_scan s expected (region_tiles area) False)"

definition set_tile_code :: "world_snapshot \<Rightarrow> map_coord \<Rightarrow> u32 \<Rightarrow> world_snapshot \<times> bool res" where
  "set_tile_code s coord code =
     (let slot = tile_slot_of coord in
      case map_of (wg_chunks (ws_graph s)) (ts_chunk slot) of
        None \<Rightarrow> (s, fail PreconditionsFailed)
      | Some chunk \<Rightarrow>
          (case decode_runs chunk of
             None \<Rightarrow> (s, fail PreconditionsFailed)
           | Some codes \<Rightarrow>
               let index = unat (ts_offset slot) in
               if index \<ge> length codes then (s, fail InternalInvariantViolation)
               else if codes ! index = tile_unknown then (s, fail PreconditionsFailed)
               else if codes ! index = code then (s, Ok False)
               else
                 (case checked_add (mc_revision chunk) 1 of
                    None \<Rightarrow> (s, fail BudgetExceeded)
                  | Some revision \<Rightarrow>
                      (s\<lparr>ws_graph := (ws_graph s)\<lparr>wg_chunks :=
                         bt_insert (ts_chunk slot)
                           (chunk\<lparr>mc_revision := revision, mc_terrain_runs := encode_runs (codes[index := code])\<rparr>)
                           (wg_chunks (ws_graph s))\<rparr>\<rparr>, Ok True))))"

definition uniform_chunk :: "chunk_coord \<Rightarrow> u32 \<Rightarrow> map_chunk" where
  "uniform_chunk coord tile_code =
     \<lparr>mc_coord = coord, mc_revision = 1, mc_width = 16, mc_height = 16,
      mc_terrain_runs = [\<lparr>tr_tile_code = tile_code, tr_length = terrain_chunk_tiles\<rparr>],
      mc_sparse_overlays = []\<rparr>"

subsection \<open>Runs\<close>

lemma expand_runs_simps [simp]:
  "expand_runs [] = []"
  "expand_runs (run # runs) = replicate (unat (tr_length run)) (tr_tile_code run) @ expand_runs runs"
  "expand_runs (runs @ runs') = expand_runs runs @ expand_runs runs'"
  by (simp_all add: expand_runs_def)

lemma sum_run_lengths_Some:
  "sum_run_lengths start runs = Some n \<longleftrightarrow> unat n = unat start + length (expand_runs runs)"
proof (induction runs arbitrary: start)
  case Nil
  show ?case using word_unat_eq_iff [of start n] by auto
next
  case (Cons run runs)
  show ?case
  proof (cases "checked_add start (tr_length run)")
    case None
    then have "2 ^ 32 \<le> unat start + unat (tr_length run)" by (simp add: checked_add_None_iff)
    moreover have "unat n < 2 ^ 32" using unsigned_less [of n] by simp
    ultimately show ?thesis using None by simp
  next
    case (Some stop)
    then have "unat stop = unat start + unat (tr_length run)" by (simp add: checked_add_Some_iff)
    then show ?thesis using Some Cons [of stop] by (simp add: add.assoc)
  qed
qed

lemma code_in_runs_expand:
  assumes "sum_run_lengths start runs = Some n" "start \<le> offset"
  shows "code_in_runs start runs offset =
    (if offset < n then Some (expand_runs runs ! (unat offset - unat start)) else None)"
  using assms
proof (induction runs arbitrary: start)
  case Nil
  then show ?case by auto
next
  case (Cons run runs)
  then obtain stop where stop: "checked_add start (tr_length run) = Some stop"
    "unat stop = unat start + unat (tr_length run)" "sum_run_lengths stop runs = Some n"
    by (auto simp: checked_add_Some_iff split: option.splits)
  have n: "unat n = unat stop + length (expand_runs runs)" using stop(3) by (simp add: sum_run_lengths_Some)
  show ?case
  proof (cases "offset < stop")
    case True
    then have "offset < n" using n by (simp add: word_less_nat_alt)
    then show ?thesis using True stop Cons.prems(2) by (simp add: nth_append word_less_nat_alt word_le_nat_alt less_diff_conv2)
  next
    case False
    then show ?thesis
      using Cons.IH [OF stop(3)] stop(1,2) Cons.prems(2)
      by (auto simp: nth_append word_less_nat_alt word_le_nat_alt not_less)
  qed
qed

lemma push_code_expand:
  assumes "length (expand_runs runs) < 2 ^ 32 - 1"
  shows "expand_runs (push_code code runs) = expand_runs runs @ [code]"
proof (cases "runs \<noteq> [] \<and> tr_tile_code (last runs) = code")
  case False
  then show ?thesis by (auto simp: push_code_def)
next
  case True
  have split: "expand_runs runs = expand_runs (butlast runs) @ replicate (unat (tr_length (last runs))) code"
    using True expand_runs_simps(3) [of "butlast runs" "[last runs]"] by simp
  then have "unat (tr_length (last runs)) < 2 ^ 32 - 1" using assms by simp
  then have "unat (tr_length (last runs) + 1) = Suc (unat (tr_length (last runs)))"
    by (simp add: unat_word_ariths)
  then show ?thesis
    using True split by (auto simp: push_code_def replicate_append_same)
qed

lemma fold_push_code:
  "length (expand_runs runs) + length codes < 2 ^ 32 \<Longrightarrow>
   expand_runs (fold push_code codes runs) = expand_runs runs @ codes"
  by (induction codes arbitrary: runs) (simp_all add: push_code_expand)

lemma expand_encode_runs: "length codes < 2 ^ 32 \<Longrightarrow> expand_runs (encode_runs codes) = codes"
  by (simp add: encode_runs_def fold_push_code)

text \<open>Runs in normal form: no empty run and no two equal neighbours.\<close>

definition runs_normal :: "terrain_run list \<Rightarrow> bool" where
  "runs_normal runs \<longleftrightarrow> (\<forall>run \<in> set runs. tr_length run \<noteq> 0) \<and>
     successively (\<lambda>a b. tr_tile_code a \<noteq> tr_tile_code b) runs"

lemma runs_normal_snoc:
  "runs_normal (runs @ [r]) \<longleftrightarrow> runs_normal runs \<and> tr_length r \<noteq> 0 \<and>
     (runs \<noteq> [] \<longrightarrow> tr_tile_code (last runs) \<noteq> tr_tile_code r)"
  by (auto simp: runs_normal_def successively_append_iff)

lemma push_code_normal:
  assumes "runs_normal runs" "length (expand_runs runs) < 2 ^ 32 - 1"
  shows "runs_normal (push_code code runs)"
proof (cases "runs \<noteq> [] \<and> tr_tile_code (last runs) = code")
  case False
  then show ?thesis using assms(1) by (auto simp: push_code_def runs_normal_snoc)
next
  case True
  then obtain rs r where runs: "runs = rs @ [r]" using append_butlast_last_id by metis
  have "unat (tr_length r) < 2 ^ 32 - 1" using assms(2) by (simp add: runs)
  then have "unat (tr_length r + 1) = Suc (unat (tr_length r))" by (simp add: unat_word_ariths)
  then have "tr_length r + 1 \<noteq> 0" by (metis nat.distinct(1) unat_0)
  then show ?thesis using True assms(1) by (simp add: push_code_def runs runs_normal_snoc)
qed

lemma fold_push_code_normal:
  "runs_normal runs \<Longrightarrow> length (expand_runs runs) + length codes < 2 ^ 32 \<Longrightarrow>
   runs_normal (fold push_code codes runs)"
  by (induction codes arbitrary: runs) (simp_all add: push_code_normal push_code_expand)

text \<open>
  Run-length encoding is exact and normal: expanding the encoding of a tile sequence gives the
  sequence back, no run is empty and no two neighbouring runs have the same code.
\<close>

theorem encode_runs_roundtrip:
  assumes "length codes < 2 ^ 32"
  shows "expand_runs (encode_runs codes) = codes \<and> (\<forall>run \<in> set (encode_runs codes). tr_length run \<noteq> 0) \<and>
    successively (\<lambda>a b. tr_tile_code a \<noteq> tr_tile_code b) (encode_runs codes)"
  using expand_encode_runs [OF assms] fold_push_code_normal [of "[]" codes] assms
  by (simp add: encode_runs_def runs_normal_def)

subsection \<open>Tiles\<close>

lemma unat_word_of_int_byte: "0 \<le> k \<Longrightarrow> k < 256 \<Longrightarrow> unat (word_of_int k :: u32) = nat k"
  by (simp add: unat_eq_nat_uint unsigned_of_int take_bit_int_eq_self)

lemma tile_offset: "unat (ts_offset (tile_slot_of p)) = nat (my p mod 16 * 16 + mx p mod 16)"
  and tile_offset_less: "unat (ts_offset (tile_slot_of p)) < 256"
proof -
  have b: "0 \<le> my p mod 16 * 16 + mx p mod 16" "my p mod 16 * 16 + mx p mod 16 < 256"
    using pos_mod_bound [of 16 "mx p"] pos_mod_bound [of 16 "my p"] pos_mod_sign [of 16 "mx p"]
      pos_mod_sign [of 16 "my p"] by linarith+
  then have "unat (word_of_int (my p mod 16 * 16 + mx p mod 16) :: u32) = nat (my p mod 16 * 16 + mx p mod 16)"
    by (rule unat_word_of_int_byte)
  then show "unat (ts_offset (tile_slot_of p)) = nat (my p mod 16 * 16 + mx p mod 16)"
    using b by (simp add: tile_slot_of_def terrain_chunk_edge_def Let_def)
  then show "unat (ts_offset (tile_slot_of p)) < 256" using b by simp
qed

lemma radix_16:
  assumes "0 \<le> a" "a < 16" "0 \<le> c" "c < 16" "b * 16 + a = d * 16 + (c :: int)"
  shows "a = c \<and> b = d"
proof -
  have "(b * 16 + a) mod 16 = a" "(d * 16 + c) mod 16 = c" using assms(1-4) by simp_all
  with assms(5) show ?thesis by simp
qed

lemma tile_slot_inject:
  assumes "tile_slot_of p = tile_slot_of q"
  shows "p = q"
proof -
  have d: "mx p div 16 = mx q div 16" "my p div 16 = my q div 16" "mz p = mz q"
    using assms by (simp_all add: tile_slot_of_def terrain_chunk_edge_def Let_def)
  have "nat (my p mod 16 * 16 + mx p mod 16) = nat (my q mod 16 * 16 + mx q mod 16)"
    using assms tile_offset by metis
  then have "my p mod 16 * 16 + mx p mod 16 = my q mod 16 * 16 + mx q mod 16"
    by (subst (asm) eq_nat_nat_iff) simp_all
  then have "mx p mod 16 = mx q mod 16 \<and> my p mod 16 = my q mod 16" by (intro radix_16) simp_all
  with d have "mx p = mx q" "my p = my q" by (metis div_mult_mod_eq)+
  with d(3) show ?thesis by simp
qed

lemma canonical_expand_length: "chunk_is_canonical c \<Longrightarrow> length (expand_runs (mc_terrain_runs c)) = 256"
  by (auto simp: chunk_is_canonical_def encoded_tile_count_def sum_run_lengths_Some terrain_chunk_tiles_def)

lemma code_in_chunk_decode:
  assumes "unat offset < 256"
  shows "code_in_chunk c offset = map_option (\<lambda>codes. codes ! unat offset) (decode_runs c)"
  using assms code_in_runs_expand [of 0 "mc_terrain_runs c" terrain_chunk_tiles offset]
  by (auto simp: code_in_chunk_def decode_runs_def chunk_is_canonical_def encoded_tile_count_def
      terrain_chunk_tiles_def word_less_nat_alt)

text \<open>The expanded tiles of the canonical chunk a tile lies in.\<close>

definition chunk_tiles :: "world_snapshot \<Rightarrow> chunk_coord \<Rightarrow> u32 list option" where
  "chunk_tiles s c = Option.bind (map_of (wg_chunks (ws_graph s)) c) decode_runs"

lemma tile_code_at_tiles:
  "tile_code_at s p =
     (case chunk_tiles s (ts_chunk (tile_slot_of p)) of
        None \<Rightarrow> None
      | Some codes \<Rightarrow>
          if codes ! unat (ts_offset (tile_slot_of p)) = tile_unknown then None
          else Some (codes ! unat (ts_offset (tile_slot_of p))))"
  using tile_offset_less [of p]
  by (auto simp: tile_code_at_def Let_def chunk_tiles_def code_in_chunk_decode split: option.splits)

lemma chunk_tiles_length: "chunk_tiles s c = Some codes \<Longrightarrow> length codes = 256"
  by (auto simp: chunk_tiles_def decode_runs_def canonical_expand_length split: if_splits
      dest!: bind_eq_Some_conv [THEN iffD1])

lemma canonical_update:
  assumes "chunk_is_canonical c" "length codes = 256"
  shows "decode_runs (c\<lparr>mc_revision := r, mc_terrain_runs := encode_runs codes\<rparr>) = Some codes"
  using assms expand_encode_runs [of codes]
  by (auto simp: decode_runs_def chunk_is_canonical_def encoded_tile_count_def sum_run_lengths_Some
      terrain_chunk_tiles_def)

text \<open>
  What a tile update answers, on every branch: a tile that is not observed fails, a tile that
  already has the code is left alone, an exhausted chunk revision is refused, and every other
  update succeeds; whenever the answer is not a change, the snapshot is untouched.
\<close>

theorem set_tile_code_result:
  "snd (set_tile_code s p code) =
     (case tile_code_at s p of
        None \<Rightarrow> fail PreconditionsFailed
      | Some current \<Rightarrow>
          if current = code then Ok False
          else if \<exists>c. map_of (wg_chunks (ws_graph s)) (ts_chunk (tile_slot_of p)) = Some c \<and> mc_revision c = -1
          then fail BudgetExceeded
          else Ok True) \<and>
   (snd (set_tile_code s p code) \<noteq> Ok True \<longrightarrow> fst (set_tile_code s p code) = s)"
proof (cases "map_of (wg_chunks (ws_graph s)) (ts_chunk (tile_slot_of p))")
  case None
  then show ?thesis by (simp add: set_tile_code_def tile_code_at_def Let_def)
next
  case (Some c)
  show ?thesis
  proof (cases "decode_runs c")
    case None
    then show ?thesis
      using Some by (simp add: set_tile_code_def tile_code_at_tiles chunk_tiles_def Let_def)
  next
    case codes: (Some codes)
    have "unat (ts_offset (tile_slot_of p)) < length codes"
      using tile_offset_less [of p] chunk_tiles_length [of s "ts_chunk (tile_slot_of p)" codes] Some codes
      by (simp add: chunk_tiles_def)
    then show ?thesis
      using Some codes checked_add_None_max [of "mc_revision c"]
      by (cases "checked_add (mc_revision c) 1")
        (simp_all add: set_tile_code_def tile_code_at_tiles chunk_tiles_def Let_def)
  qed
qed

text \<open>
  A tile update changes exactly its tile: afterwards the tile reads as the new code (or as
  unobserved when the code is the unknown marker), every other tile reads as before, and the
  revision of the chunk has advanced by one.
\<close>

theorem set_tile_code_changes_one_tile:
  assumes "set_tile_code s p code = (s', Ok True)"
  shows "tile_code_at s' p = (if code = tile_unknown then None else Some code) \<and>
    (\<forall>q. q \<noteq> p \<longrightarrow> tile_code_at s' q = tile_code_at s q) \<and>
    (\<exists>c c'. map_of (wg_chunks (ws_graph s)) (ts_chunk (tile_slot_of p)) = Some c \<and>
       map_of (wg_chunks (ws_graph s')) (ts_chunk (tile_slot_of p)) = Some c' \<and>
       unat (mc_revision c') = unat (mc_revision c) + 1)"
proof -
  let ?k = "ts_chunk (tile_slot_of p)"
  let ?i = "unat (ts_offset (tile_slot_of p))"
  from assms obtain c codes r where c: "map_of (wg_chunks (ws_graph s)) ?k = Some c"
    "decode_runs c = Some codes" "checked_add (mc_revision c) 1 = Some r"
    and s': "s' = s\<lparr>ws_graph := (ws_graph s)\<lparr>wg_chunks := bt_insert ?k
      (c\<lparr>mc_revision := r, mc_terrain_runs := encode_runs (codes[?i := code])\<rparr>) (wg_chunks (ws_graph s))\<rparr>\<rparr>"
    by (auto simp: set_tile_code_def Let_def split: option.splits if_splits)
  have canon: "chunk_is_canonical c" and len: "length codes = 256"
    using c(2) canonical_expand_length [of c] by (auto simp: decode_runs_def split: if_splits)
  have at_k: "chunk_tiles s ?k = Some codes" "chunk_tiles s' ?k = Some (codes[?i := code])"
    using c(1,2) canonical_update [OF canon, of "codes[?i := code]"] len
    by (simp_all add: chunk_tiles_def s' map_of_bt_insert)
  have else_k: "chunk_tiles s' k = chunk_tiles s k" if "k \<noteq> ?k" for k
    using that by (simp add: chunk_tiles_def s' map_of_bt_insert)
  have "tile_code_at s' q = tile_code_at s q" if "q \<noteq> p" for q
  proof (cases "ts_chunk (tile_slot_of q) = ?k")
    case True
    then have "ts_offset (tile_slot_of q) \<noteq> ts_offset (tile_slot_of p)"
      using that tile_slot_inject [of q p] by auto
    then have "unat (ts_offset (tile_slot_of q)) \<noteq> ?i" by (metis word_unat_eq_iff)
    then show ?thesis by (simp add: tile_code_at_tiles True at_k)
  qed (simp add: tile_code_at_tiles else_k)
  moreover have "tile_code_at s' p = (if code = tile_unknown then None else Some code)"
    using tile_offset_less [of p] len by (simp add: tile_code_at_tiles at_k)
  ultimately show ?thesis
    using c(1,3) by (simp add: s' map_of_bt_insert checked_add_Some_iff)
qed

subsection \<open>Regions\<close>

lemma set_region_tiles: "set (region_tiles area) = cuboid_tiles area"
proof -
  have "p \<in> set (region_tiles area)" if "cuboid_contains area p" for p
    using that by (cases p) (auto simp: region_tiles_def cuboid_contains_def image_iff)
  then show ?thesis by (auto simp: region_tiles_def cuboid_tiles_def cuboid_contains_def)
qed

lemma region_scan_result:
  "region_scan s expected ps u =
     (if \<exists>p \<in> set ps. \<exists>c. tile_code_at s p = Some c \<and> c \<noteq> expected then Differs
      else if u \<or> (\<exists>p \<in> set ps. tile_code_at s p = None) then TruthUnknown else Matches)"
  by (induction ps arbitrary: u) (auto split: option.splits)

text \<open>
  The region predicate means what it says: for an admissible region it is a match exactly when
  every tile is observed with the expected code, a difference exactly when some observed tile has
  another code, and unknown otherwise; a region that is not admissible is unknown.
\<close>

theorem region_terrain_truth_exact:
  "region_terrain_truth s area expected =
     (if \<not> is_ok (validate_region area) then TruthUnknown
      else if \<exists>p \<in> cuboid_tiles area. \<exists>c. tile_code_at s p = Some c \<and> c \<noteq> expected then Differs
      else if \<exists>p \<in> cuboid_tiles area. tile_code_at s p = None then TruthUnknown
      else Matches)"
  by (simp only: region_terrain_truth_def region_scan_result set_region_tiles simp_thms)

subsection \<open>A concrete chunk\<close>

definition sample_terrain :: world_snapshot where
  "sample_terrain = world_snapshot_new 7 100 (ObservationCursor 1 1) True
     (empty_graph\<lparr>wg_chunks := [(ChunkCoord 0 0 5, uniform_chunk (ChunkCoord 0 0 5) 2)]\<rparr>)"

lemma sample_terrain_update:
  "\<exists>s. set_tile_code sample_terrain \<lparr>mx = 3, my = 1, mz = 5\<rparr> 1 = (s, Ok True)"
proof -
  have "chunk_is_canonical (uniform_chunk (ChunkCoord 0 0 5) 2)"
    by (simp add: chunk_is_canonical_def uniform_chunk_def terrain_chunk_edge_def terrain_chunk_tiles_def
        encoded_tile_count_def checked_add_def)
  then have "decode_runs (uniform_chunk (ChunkCoord 0 0 5) 2) = Some (replicate 256 2)"
    by (simp add: decode_runs_def uniform_chunk_def terrain_chunk_tiles_def)
  moreover have "tile_slot_of \<lparr>mx = 3, my = 1, mz = 5\<rparr> = \<lparr>ts_chunk = ChunkCoord 0 0 5, ts_offset = 19\<rparr>"
    by (simp add: tile_slot_of_def terrain_chunk_edge_def)
  ultimately show ?thesis
    by (simp add: set_tile_code_def sample_terrain_def tile_unknown_def checked_add_def uniform_chunk_def)
qed

theorem set_tile_code_changes_one_tile_witness:
  "tile_code_at (fst (set_tile_code sample_terrain \<lparr>mx = 3, my = 1, mz = 5\<rparr> 1)) \<lparr>mx = 3, my = 1, mz = 5\<rparr> = Some 1"
proof -
  obtain s where "set_tile_code sample_terrain \<lparr>mx = 3, my = 1, mz = 5\<rparr> 1 = (s, Ok True)"
    using sample_terrain_update by blast
  with set_tile_code_changes_one_tile [OF this] show ?thesis by (simp add: tile_unknown_def)
qed

theorem encode_runs_roundtrip_witness:
  "encode_runs [2, 2, 1] = [\<lparr>tr_tile_code = 2, tr_length = 2\<rparr>, \<lparr>tr_tile_code = 1, tr_length = 1\<rparr>] \<and>
   expand_runs (encode_runs [2, 2, 1]) = [2, 2, 1]"
  using encode_runs_roundtrip [of "[2, 2, 1]"] by (simp add: encode_runs_def push_code_def)

theorem set_tile_code_result_witness:
  "snd (set_tile_code sample_terrain \<lparr>mx = 3, my = 1, mz = 6\<rparr> 1) = fail PreconditionsFailed \<and>
   fst (set_tile_code sample_terrain \<lparr>mx = 3, my = 1, mz = 6\<rparr> 1) = sample_terrain"
proof -
  have "tile_code_at sample_terrain \<lparr>mx = 3, my = 1, mz = 6\<rparr> = None"
    by (simp add: tile_code_at_def sample_terrain_def tile_slot_of_def terrain_chunk_edge_def Let_def)
  with set_tile_code_result [of sample_terrain "\<lparr>mx = 3, my = 1, mz = 6\<rparr>" 1] show ?thesis by simp
qed

end
