(* ===== verification/Journal_Delta.thy ===== *)
theory Journal_Delta
  imports Prelude
begin

text \<open>
  \<^verbatim>\<open>crates/dfmcp-world/src/journal_delta.rs\<close>: the byte-exact payload delta of the journals.
  The encoder scans base and target once for aligned runs and a common suffix and emits literal
  and copy commands; the decoder checks every command before it builds the output. Lengths are
  \<^verbatim>\<open>usize\<close>, kept as naturals; both loops of the encoder terminate because the position
  advances. Shown: decoding what was encoded gives the target back within any allowance that
  admits it, an encoding saves at least 128 bytes, and the preflight is complete, so that
  decoding what it accepts cannot fail and has the announced length.
\<close>

definition jd_magic :: "u8 list" where
  "jd_magic = str_bytes ''DFMDLT01''"

definition jd_header :: nat where
  "jd_header = 20"

definition min_copy :: nat where
  "min_copy = 32"

definition min_savings :: nat where
  "min_savings = 128"

definition max_payload :: nat where
  "max_payload = 16 * 1024 * 1024"

definition max_commands :: nat where
  "max_commands = 32768"

datatype jd_error = LimitExceeded | InvalidEncoding | WrongBaseLength

record encoder =
  en_bytes :: "u8 list"
  en_commands :: nat
  en_maximum :: nat

definition en_room :: "encoder \<Rightarrow> nat \<Rightarrow> bool" where
  "en_room e amount \<longleftrightarrow> en_commands e < max_commands \<and> amount \<le> en_maximum e - length (en_bytes e)"

text \<open>The two appending operations, with the encoder they leave, or nothing when there is no room.\<close>

definition en_literal :: "encoder \<Rightarrow> u8 list \<Rightarrow> encoder option" where
  "en_literal e v =
     (if v = [] then Some e
      else if \<not> en_room e (5 + length v) then None
      else Some (e\<lparr>en_bytes := en_bytes e @ [0] @ be_bytes 4 (length v) @ v,
                   en_commands := en_commands e + 1\<rparr>))"

definition en_copy :: "encoder \<Rightarrow> nat \<Rightarrow> nat \<Rightarrow> encoder option" where
  "en_copy e offset len =
     (if len = 0 then Some e
      else if \<not> en_room e 9 then None
      else Some (e\<lparr>en_bytes := en_bytes e @ [1] @ be_bytes 4 offset @ be_bytes 4 len,
                   en_commands := en_commands e + 1\<rparr>))"

definition slice :: "nat \<Rightarrow> nat \<Rightarrow> 'a list \<Rightarrow> 'a list" where
  "slice a b xs = take (b - a) (drop a xs)"

function run_end :: "u8 list \<Rightarrow> u8 list \<Rightarrow> nat \<Rightarrow> nat \<Rightarrow> nat" where
  "run_end base target stop position =
     (if position < stop \<and> position < length base \<and> target ! position = base ! position
      then run_end base target stop (position + 1) else position)"
  by pat_completeness auto
termination by (relation "measure (\<lambda>(_, _, stop, position). stop - position)") auto

declare run_end.simps [simp del]

lemma run_end_bounds:
  "position \<le> run_end base target stop position \<and> (position \<le> stop \<longrightarrow> run_end base target stop position \<le> stop)"
proof (induction base target stop position rule: run_end.induct)
  case (1 base target stop position)
  show ?case
    unfolding run_end.simps [of base target stop position] using 1 by auto
qed

function encode_loop ::
  "u8 list \<Rightarrow> u8 list \<Rightarrow> nat \<Rightarrow> encoder \<Rightarrow> nat \<Rightarrow> nat \<Rightarrow> (encoder \<times> nat) option" where
  "encode_loop base target stop e position literal_start =
     (if position < stop then
        let run_start = position; reached = run_end base target stop position;
            next = (if reached < stop then reached + 1 else reached) in
        if reached - run_start \<ge> min_copy then
          (case en_literal e (slice literal_start run_start target) of
             None \<Rightarrow> None
           | Some e1 \<Rightarrow>
               (case en_copy e1 run_start (reached - run_start) of
                  None \<Rightarrow> None
                | Some e2 \<Rightarrow> encode_loop base target stop e2 next reached))
        else encode_loop base target stop e next literal_start
      else Some (e, literal_start))"
  by pat_completeness auto
termination
proof (relation "measure (\<lambda>(_, _, stop, _, position, _). stop - position)", goal_cases)
  case (2 base target stop e position literal_start run_start reached nxt e1 e2)
  then show ?case using run_end_bounds [of position base target stop] by (auto split: if_splits)
next
  case (3 base target stop e position literal_start run_start reached nxt)
  then show ?case using run_end_bounds [of position base target stop] by (auto split: if_splits)
qed simp

declare encode_loop.simps [simp del]

definition common_suffix :: "u8 list \<Rightarrow> u8 list \<Rightarrow> nat" where
  "common_suffix base target = length (takeWhile (\<lambda>(a, b). a = b) (zip (rev base) (rev target)))"

definition jd_encode :: "u8 list \<Rightarrow> u8 list \<Rightarrow> (u8 list option, jd_error) result" where
  "jd_encode base target =
     (if length base > max_payload \<or> length target > max_payload then Err LimitExceeded
      else if length target < min_savings then Ok None
      else
        let maximum = length target - min_savings in
        if maximum < jd_header + 9 then Ok None
        else
          let e = \<lparr>en_bytes = jd_magic @ be_bytes 4 (length base) @ be_bytes 4 (length target) @ be_bytes 4 0,
                   en_commands = 0, en_maximum = maximum\<rparr>;
              common = common_suffix base target;
              suffix = (if common \<ge> min_copy then common else 0);
              stop = length target - suffix in
          (case encode_loop base target stop e 0 0 of
             None \<Rightarrow> Ok None
           | Some (e1, literal_start) \<Rightarrow>
               (case en_literal e1 (slice literal_start stop target) of
                  None \<Rightarrow> Ok None
                | Some e2 \<Rightarrow>
                    (case en_copy e2 (length base - suffix) suffix of
                       None \<Rightarrow> Ok None
                     | Some e3 \<Rightarrow>
                         Ok (Some (take 16 (en_bytes e3) @ be_bytes 4 (en_commands e3) @ drop 20 (en_bytes e3)))))))"

subsection \<open>The decoder\<close>

definition jd_take :: "nat \<Rightarrow> (u8 list, jd_error) reader" where
  "jd_take n bs = (if n \<le> length bs then Ok (take n bs, drop n bs) else Err InvalidEncoding)"

definition jd_u32 :: "(nat, jd_error) reader" where
  "jd_u32 = rd_bind (jd_take 4) (\<lambda>v. rd_return (be_value v))"

fun validate_commands ::
  "nat \<Rightarrow> u8 list \<Rightarrow> nat \<Rightarrow> nat \<Rightarrow> (nat, jd_error) reader" where
  "validate_commands 0 base len produced bs = Ok (produced, bs)"
| "validate_commands (Suc n) base len produced bs =
     and_then (jd_take 1 bs) (\<lambda>(tag, r1).
     and_then
       (if hd tag = 0 then
          and_then (jd_u32 r1) (\<lambda>(k, r2). and_then (jd_take k r2) (\<lambda>(_, r3). Ok (k, r3)))
        else if hd tag = 1 then
          and_then (jd_u32 r1) (\<lambda>(offset, r2). and_then (jd_u32 r2) (\<lambda>(k, r3).
            if offset > length base \<or> k > length base - offset then Err InvalidEncoding else Ok (k, r3)))
        else Err InvalidEncoding) (\<lambda>(amount, r).
     if amount = 0 \<or> amount > len - produced then Err InvalidEncoding
     else validate_commands n base len (produced + amount) r))"

definition jd_validate :: "u8 list \<Rightarrow> u8 list \<Rightarrow> nat \<Rightarrow> (nat \<times> nat \<times> u8 list, jd_error) result" where
  "jd_validate base encoded maximum =
     (if maximum > max_payload \<or> length base > max_payload \<or> length encoded > max_payload
      then Err LimitExceeded
      else
        and_then (jd_take 8 encoded) (\<lambda>(magic, r1).
        if magic \<noteq> jd_magic then Err InvalidEncoding
        else and_then (jd_u32 r1) (\<lambda>(base_len, r2).
        if base_len \<noteq> length base then Err WrongBaseLength
        else and_then (jd_u32 r2) (\<lambda>(len, r3).
        if len > maximum then Err LimitExceeded
        else and_then (jd_u32 r3) (\<lambda>(commands, body).
        if commands = 0 \<or> commands > max_commands then Err InvalidEncoding
        else and_then (validate_commands commands base len 0 body) (\<lambda>(produced, rest).
        if produced \<noteq> len \<or> rest \<noteq> [] then Err InvalidEncoding
        else Ok (len, commands, body)))))))"

definition expanded_length :: "u8 list \<Rightarrow> u8 list \<Rightarrow> nat \<Rightarrow> (nat, jd_error) result" where
  "expanded_length base encoded maximum =
     and_then (jd_validate base encoded maximum) (\<lambda>(len, _, _). Ok len)"

fun decode_commands :: "nat \<Rightarrow> u8 list \<Rightarrow> u8 list \<Rightarrow> u8 list \<Rightarrow> (u8 list, jd_error) result" where
  "decode_commands 0 base bs out = Ok out"
| "decode_commands (Suc n) base bs out =
     and_then (jd_take 1 bs) (\<lambda>(tag, r1).
       if hd tag = 0 then
         and_then (jd_u32 r1) (\<lambda>(k, r2). and_then (jd_take k r2) (\<lambda>(v, r3).
           decode_commands n base r3 (out @ v)))
       else if hd tag = 1 then
         and_then (jd_u32 r1) (\<lambda>(offset, r2). and_then (jd_u32 r2) (\<lambda>(k, r3).
           if offset + k \<le> length base
           then decode_commands n base r3 (out @ slice offset (offset + k) base)
           else Err InvalidEncoding))
       else Err InvalidEncoding)"

definition jd_decode :: "u8 list \<Rightarrow> u8 list \<Rightarrow> nat \<Rightarrow> (u8 list, jd_error) result" where
  "jd_decode base encoded maximum =
     and_then (jd_validate base encoded maximum) (\<lambda>(_, commands, body).
       decode_commands commands base body [])"

subsection \<open>Commands\<close>

datatype command = Literal "u8 list" | Copy nat nat

fun enc_command :: "command \<Rightarrow> u8 list" where
  "enc_command (Literal v) = [0] @ be_bytes 4 (length v) @ v"
| "enc_command (Copy offset len) = [1] @ be_bytes 4 offset @ be_bytes 4 len"

fun command_output :: "u8 list \<Rightarrow> command \<Rightarrow> u8 list" where
  "command_output base (Literal v) = v"
| "command_output base (Copy offset len) = slice offset (offset + len) base"

fun command_ok :: "u8 list \<Rightarrow> command \<Rightarrow> bool" where
  "command_ok base (Literal v) \<longleftrightarrow> v \<noteq> [] \<and> length v < 2 ^ 32"
| "command_ok base (Copy offset len) \<longleftrightarrow> 0 < len \<and> offset + len \<le> length base"

definition command_bytes :: "command list \<Rightarrow> u8 list" where
  "command_bytes cs = concat (map enc_command cs)"

definition commands_output :: "u8 list \<Rightarrow> command list \<Rightarrow> u8 list" where
  "commands_output base cs = concat (map (command_output base) cs)"

lemma jd_take_append [simp]: "jd_take n (bs @ rest) = Ok (bs, rest)" if "length bs = n"
  using that by (simp add: jd_take_def)

lemma jd_take_1 [simp]: "jd_take 1 (b # rest) = Ok ([b], rest)" "jd_take (Suc 0) (b # rest) = Ok ([b], rest)"
  by (simp_all add: jd_take_def)

lemma jd_u32_be [simp]: "n < 2 ^ 32 \<Longrightarrow> jd_u32 (be_bytes 4 n @ rest) = Ok (n, rest)"
  by (simp add: jd_u32_def rd_bind_def rd_return_def be_value_be_bytes)

lemma length_slice: "a \<le> b \<Longrightarrow> b \<le> length xs \<Longrightarrow> length (slice a b xs) = b - a"
  by (simp add: slice_def)

lemma command_output_nonempty: "command_ok base c \<Longrightarrow> command_output base c \<noteq> []"
  by (cases c) (auto simp: slice_def)

lemma validate_command_bytes:
  assumes "\<forall>c \<in> set cs. command_ok base c" "length base < 2 ^ 32"
    and "produced + length (commands_output base cs) \<le> len"
  shows "validate_commands (length cs) base len produced (command_bytes cs @ rest) =
    Ok (produced + length (commands_output base cs), rest)"
  using assms
proof (induction cs arbitrary: produced)
  case (Cons c cs)
  then show ?case
    by (cases c) (auto simp: command_bytes_def commands_output_def length_slice)
qed (simp add: command_bytes_def commands_output_def)

lemma decode_command_bytes:
  assumes "\<forall>c \<in> set cs. command_ok base c" "length base < 2 ^ 32"
  shows "decode_commands (length cs) base (command_bytes cs @ rest) out = Ok (out @ commands_output base cs)"
  using assms
proof (induction cs arbitrary: out)
  case (Cons c cs)
  then show ?case
    by (cases c) (simp_all add: command_bytes_def commands_output_def)
qed (simp add: command_bytes_def commands_output_def)

subsection \<open>What the encoder emits\<close>

definition jd_prefix :: "u8 list \<Rightarrow> u8 list \<Rightarrow> u8 list" where
  "jd_prefix base target = jd_magic @ be_bytes 4 (length base) @ be_bytes 4 (length target)"

text \<open>The encoder has emitted commands that rebuild the target up to a position.\<close>

definition emitted :: "u8 list \<Rightarrow> u8 list \<Rightarrow> encoder \<Rightarrow> nat \<Rightarrow> bool" where
  "emitted base target e pos \<longleftrightarrow>
     (\<exists>cs. en_bytes e = jd_prefix base target @ be_bytes 4 0 @ command_bytes cs \<and> en_commands e = length cs \<and>
        length cs \<le> max_commands \<and> (\<forall>c \<in> set cs. command_ok base c) \<and>
        commands_output base cs = take pos target) \<and>
     length (en_bytes e) \<le> en_maximum e"

lemma en_literal_emits:
  assumes "emitted base target e a" "a \<le> b" "b \<le> length target" "length target < 2 ^ 32"
    and "en_literal e (slice a b target) = Some e'"
  shows "emitted base target e' b \<and> en_maximum e' = en_maximum e"
proof (cases "slice a b target = []")
  case True
  then have "a = b" using assms(2,3) length_slice [of a b target] by simp
  then show ?thesis using assms(1,5) True by (simp add: en_literal_def)
next
  case False
  obtain cs where cs: "en_bytes e = jd_prefix base target @ be_bytes 4 0 @ command_bytes cs"
    "en_commands e = length cs" "\<forall>c \<in> set cs. command_ok base c" "commands_output base cs = take a target"
    using assms(1) by (auto simp: emitted_def)
  have room: "length cs < max_commands" "5 + length (slice a b target) \<le> en_maximum e - length (en_bytes e)"
    and e': "e' = e\<lparr>en_bytes := en_bytes e @ enc_command (Literal (slice a b target)), en_commands := Suc (length cs)\<rparr>"
    using assms(5) False cs(2) by (auto simp: en_literal_def en_room_def split: if_splits)
  have out: "commands_output base (cs @ [Literal (slice a b target)]) = take b target"
    using cs(4) assms(2) by (simp add: commands_output_def slice_def flip: take_add)
  have "length (slice a b target) < 2 ^ 32" using assms(2-4) by (simp add: length_slice)
  then show ?thesis
    using assms(1) cs room out False unfolding emitted_def e'
    by (intro conjI exI [of _ "cs @ [Literal (slice a b target)]"]) (auto simp: command_bytes_def)
qed

lemma en_copy_emits:
  assumes "emitted base target e a" "slice o1 (o1 + n) base = slice a (a + n) target"
    and "o1 + n \<le> length base" "a + n \<le> length target" "en_copy e o1 n = Some e'"
  shows "emitted base target e' (a + n) \<and> en_maximum e' = en_maximum e"
proof (cases "n = 0")
  case True
  then show ?thesis using assms by (simp add: en_copy_def)
next
  case False
  obtain cs where cs: "en_bytes e = jd_prefix base target @ be_bytes 4 0 @ command_bytes cs"
    "en_commands e = length cs" "\<forall>c \<in> set cs. command_ok base c" "commands_output base cs = take a target"
    using assms(1) by (auto simp: emitted_def)
  have room: "length cs < max_commands" "9 \<le> en_maximum e - length (en_bytes e)"
    and e': "e' = e\<lparr>en_bytes := en_bytes e @ enc_command (Copy o1 n), en_commands := Suc (length cs)\<rparr>"
    using assms(5) False cs(2) by (auto simp: en_copy_def en_room_def split: if_splits)
  have out: "commands_output base (cs @ [Copy o1 n]) = take (a + n) target"
    using cs(4) assms(2) by (simp add: commands_output_def slice_def take_add)
  show ?thesis
    using assms(1,3) cs room out False unfolding emitted_def e'
    by (intro conjI exI [of _ "cs @ [Copy o1 n]"]) (auto simp: command_bytes_def)
qed

lemma run_end_matches:
  assumes "position \<le> i" "i < run_end base target stop position"
  shows "i < length base \<and> target ! i = base ! i"
  using assms
proof (induction base target stop position rule: run_end.induct)
  case (1 base target stop position)
  show ?case
  proof (cases "position < stop \<and> position < length base \<and> target ! position = base ! position")
    case True
    then have "run_end base target stop position = run_end base target stop (position + 1)"
      by (simp add: run_end.simps [of base target stop position])
    then show ?thesis using 1 True by (cases "i = position") auto
  next
    case False
    then have "run_end base target stop position = position"
      by (subst run_end.simps) auto
    then show ?thesis using 1 by simp
  qed
qed

lemma run_slice_eq:
  assumes "position \<le> stop" "stop \<le> length target"
  shows "slice position (run_end base target stop position) base =
    slice position (run_end base target stop position) target \<and>
    (position < run_end base target stop position \<longrightarrow> run_end base target stop position \<le> length base)"
proof -
  let ?r = "run_end base target stop position"
  have b: "position \<le> ?r" "?r \<le> stop" using run_end_bounds [of position base target stop] assms(1) by auto
  have m: "i < length base \<and> target ! i = base ! i" if "position \<le> i" "i < ?r" for i
    using run_end_matches [OF that] .
  have le: "?r \<le> length base" if "position < ?r"
  proof -
    have "position \<le> ?r - 1" "?r - 1 < ?r" using that by auto
    then have "?r - 1 < length base" using m by blast
    then show ?thesis by linarith
  qed
  show ?thesis
  proof (cases "position < ?r")
    case True
    then show ?thesis
      using b assms(2) m le by (auto intro!: nth_equalityI simp: slice_def)
  qed (use b in \<open>simp add: slice_def\<close>)
qed

lemma encode_loop_emits:
  assumes "emitted base target e literal_start" "literal_start \<le> position" "position \<le> stop"
    and "stop \<le> length target" "length target < 2 ^ 32"
    and "encode_loop base target stop e position literal_start = Some (e', ls)"
  shows "emitted base target e' ls \<and> ls \<le> stop \<and> en_maximum e' = en_maximum e"
  using assms
proof (induction base target stop e position literal_start rule: encode_loop.induct)
  case (1 base target stop e position literal_start)
  let ?r = "run_end base target stop position"
  let ?n = "if ?r < stop then ?r + 1 else ?r"
  note IH = 1(1,2) [OF _ refl refl refl]
  note prems = 1(3-8)
  have b: "position \<le> ?r" "?r \<le> stop" using run_end_bounds [of position base target stop] prems(3) by auto
  show ?case
  proof (cases "position < stop")
    case False
    then have "encode_loop base target stop e position literal_start = Some (e, literal_start)"
      by (simp add: encode_loop.simps [of base target stop e position literal_start])
    then show ?thesis using prems by auto
  next
    case True
    note step = encode_loop.simps [of base target stop e position literal_start]
    show ?thesis
    proof (cases "?r - position \<ge> min_copy")
      case False
      have "encode_loop base target stop e ?n literal_start = Some (e', ls)"
        using prems(6) True False by (simp add: step Let_def)
      then show ?thesis using IH(2) [OF True False] prems b by auto
    next
      case copy: True
      from prems(6) obtain e1 e2 where e1: "en_literal e (slice literal_start position target) = Some e1"
        and e2: "en_copy e1 position (?r - position) = Some e2"
        and rest: "encode_loop base target stop e2 ?n ?r = Some (e', ls)"
        using True copy by (auto simp: step Let_def split: option.splits)
      have pos: "position < ?r" using copy by (simp add: min_copy_def)
      have "emitted base target e1 position \<and> en_maximum e1 = en_maximum e"
        using prems b True by (intro en_literal_emits [OF prems(1,2) _ prems(5) e1]) simp
      moreover have "slice position ?r base = slice position ?r target \<and> ?r \<le> length base"
        using run_slice_eq [of position stop target base] prems(3,4) pos by blast
      ultimately have "emitted base target e2 ?r \<and> en_maximum e2 = en_maximum e"
        using en_copy_emits [of base target e1 position position "?r - position" e2] e2 pos b prems(4) by auto
      then show ?thesis using IH(1) [OF True copy e1 e2] rest prems(4,5) b by auto
    qed
  qed
qed

lemma common_prefix_takeWhile:
  "take (length (takeWhile (\<lambda>(a, b). a = b) (zip xs ys))) xs =
   take (length (takeWhile (\<lambda>(a, b). a = b) (zip xs ys))) ys \<and>
   length (takeWhile (\<lambda>(a, b). a = b) (zip xs ys)) \<le> length xs \<and>
   length (takeWhile (\<lambda>(a, b). a = b) (zip xs ys)) \<le> length ys"
  by (induction xs ys rule: list_induct2') auto

lemma common_suffix_eq:
  "drop (length base - common_suffix base target) base = drop (length target - common_suffix base target) target \<and>
   common_suffix base target \<le> length base \<and> common_suffix base target \<le> length target"
  using common_prefix_takeWhile [of "rev base" "rev target"]
  by (simp add: common_suffix_def [symmetric] take_rev)

lemma jd_encode_emits:
  assumes "jd_encode base target = Ok (Some out)"
  shows "\<exists>cs. out = jd_prefix base target @ be_bytes 4 (length cs) @ command_bytes cs \<and>
    length cs \<le> max_commands \<and> (\<forall>c \<in> set cs. command_ok base c) \<and> commands_output base cs = target \<and>
    length out + min_savings \<le> length target \<and> length target \<le> max_payload \<and> length base \<le> max_payload"
proof -
  define maximum where "maximum = length target - min_savings"
  define e where "e = \<lparr>en_bytes = jd_magic @ be_bytes 4 (length base) @ be_bytes 4 (length target) @ be_bytes 4 0,
    en_commands = 0, en_maximum = maximum\<rparr>"
  define suffix where "suffix = (if common_suffix base target \<ge> min_copy then common_suffix base target else 0)"
  define stop where "stop = length target - suffix"
  have lim: "length base \<le> max_payload" "length target \<le> max_payload" "min_savings \<le> length target"
      "jd_header + 9 \<le> maximum"
    using assms by (auto simp: jd_encode_def Let_def maximum_def split: if_splits)
  obtain e1 ls e2 e3 where loop: "encode_loop base target stop e 0 0 = Some (e1, ls)"
    and e2: "en_literal e1 (slice ls stop target) = Some e2"
    and e3: "en_copy e2 (length base - suffix) suffix = Some e3"
    and out: "out = take 16 (en_bytes e3) @ be_bytes 4 (en_commands e3) @ drop 20 (en_bytes e3)"
    using assms lim
    by (auto simp: jd_encode_def Let_def maximum_def [symmetric] e_def [symmetric] suffix_def [symmetric]
        stop_def [symmetric] split: option.splits)
  have t32: "length target < 2 ^ 32" using lim(2) by (simp add: max_payload_def)
  have suf: "drop (length base - suffix) base = drop stop target" "suffix \<le> length base" "suffix \<le> length target"
    using common_suffix_eq [of base target] by (auto simp: suffix_def stop_def)
  have "emitted base target e 0"
    using lim(4) unfolding emitted_def e_def
    by (intro conjI exI [of _ "[]"])
      (simp_all add: jd_prefix_def command_bytes_def commands_output_def jd_header_def jd_magic_def)
  then have "emitted base target e1 ls \<and> ls \<le> stop \<and> en_maximum e1 = maximum"
    using encode_loop_emits [OF _ _ _ _ t32 loop] by (simp add: stop_def e_def)
  then have "emitted base target e2 stop \<and> en_maximum e2 = maximum"
    using en_literal_emits [of base, OF _ _ _ t32 e2] by (simp add: stop_def)
  then have "emitted base target e3 (stop + suffix) \<and> en_maximum e3 = maximum"
    using en_copy_emits [of base target e2 stop "length base - suffix" suffix e3] e3 suf
    by (auto simp: slice_def stop_def)
  moreover have "stop + suffix = length target" using suf(3) by (simp add: stop_def)
  ultimately obtain cs where cs: "en_bytes e3 = jd_prefix base target @ be_bytes 4 0 @ command_bytes cs"
    "en_commands e3 = length cs" "length cs \<le> max_commands" "\<forall>c \<in> set cs. command_ok base c"
    "commands_output base cs = target" "length (en_bytes e3) \<le> maximum"
    by (auto simp: emitted_def)
  have l16: "length (jd_prefix base target) = 16" by (simp add: jd_prefix_def jd_magic_def)
  then have "out = jd_prefix base target @ be_bytes 4 (length cs) @ command_bytes cs"
    using out cs(1,2) by simp
  moreover have "length out + min_savings \<le> length target"
    using calculation cs(1,6) lim(3) by (simp add: maximum_def)
  ultimately show ?thesis using cs lim by blast
qed

text \<open>
  C22: The payload delta is exact: whatever the encoder produces, decoding it against the same base
  under any admissible allowance that covers the target yields the target byte for byte, and the
  encoding is at least 128 bytes shorter than the target.
\<close>

theorem journal_delta_roundtrip:
  assumes "jd_encode base target = Ok (Some out)" "length target \<le> maximum" "maximum \<le> max_payload"
  shows "jd_decode base out maximum = Ok target \<and> expanded_length base out maximum = Ok (length target) \<and>
    length out + 128 \<le> length target"
proof -
  from jd_encode_emits [OF assms(1)] obtain cs where
    out: "out = jd_prefix base target @ be_bytes 4 (length cs) @ command_bytes cs"
    and cs: "length cs \<le> max_commands" "\<forall>c \<in> set cs. command_ok base c" "commands_output base cs = target"
    and lim: "length out + min_savings \<le> length target" "length target \<le> max_payload" "length base \<le> max_payload"
    by blast
  have "cs \<noteq> []" using cs(3) lim(1) by (auto simp: commands_output_def min_savings_def)
  moreover have "length base < 2 ^ 32" "length target < 2 ^ 32" "length cs < 2 ^ 32"
    using lim cs(1) by (simp_all add: max_payload_def max_commands_def)
  moreover have "validate_commands (length cs) base (length target) 0 (command_bytes cs @ []) =
      Ok (0 + length (commands_output base cs), [])"
    using cs calculation(2) by (intro validate_command_bytes) auto
  moreover have "decode_commands (length cs) base (command_bytes cs @ []) [] = Ok ([] @ commands_output base cs)"
    using cs calculation(2) by (intro decode_command_bytes) auto
  moreover have "length jd_magic = 8" by (simp add: jd_magic_def)
  ultimately have "jd_validate base out maximum = Ok (length target, length cs, command_bytes cs)"
    using assms(2,3) lim cs(1,3) by (simp add: jd_validate_def out jd_prefix_def)
  then show ?thesis
    using \<open>decode_commands _ _ _ _ = _\<close> cs(3) lim(1) by (simp add: jd_decode_def expanded_length_def min_savings_def)
qed

subsection \<open>The preflight is complete\<close>

lemma validate_decodes:
  assumes "validate_commands n base len produced bs = Ok (p, rest)"
  shows "\<exists>tail. decode_commands n base bs out = Ok (out @ tail) \<and> produced + length tail = p"
  using assms
proof (induction n arbitrary: produced bs out)
  case (Suc n)
  from Suc.prems obtain tag r1 amount r where
    tag: "jd_take 1 bs = Ok (tag, r1)"
    and amount: "(if hd tag = 0 then
          and_then (jd_u32 r1) (\<lambda>(k, r2). and_then (jd_take k r2) (\<lambda>(_, r3). Ok (k, r3)))
        else if hd tag = 1 then
          and_then (jd_u32 r1) (\<lambda>(offset, r2). and_then (jd_u32 r2) (\<lambda>(k, r3).
            if offset > length base \<or> k > length base - offset then Err InvalidEncoding else Ok (k, r3)))
        else Err InvalidEncoding) = Ok (amount, r)"
    and rest: "validate_commands n base len (produced + amount) r = Ok (p, rest)"
    by (auto split: if_splits)
  show ?case
  proof (cases "hd tag = 0")
    case True
    with amount obtain r2 v where "jd_u32 r1 = Ok (amount, r2)" "jd_take amount r2 = Ok (v, r)" "length v = amount"
      by (auto simp: jd_take_def split: if_splits)
    then show ?thesis using Suc.IH [OF rest, of "out @ v"] True tag by fastforce
  next
    case False
    with amount obtain offset r2 where c: "hd tag = 1" "jd_u32 r1 = Ok (offset, r2)" "jd_u32 r2 = Ok (amount, r)"
      "offset + amount \<le> length base"
      by (auto split: if_splits)
    then show ?thesis
      using Suc.IH [OF rest, of "out @ slice offset (offset + amount) base"] tag
      by (fastforce simp: length_slice)
  qed
qed simp

text \<open>
  C23: The preflight is complete: when it accepts an encoding and announces a length, the decoder
  succeeds and its output has exactly that length, which is within the allowance; when it
  refuses, the decoder refuses with the same error.
\<close>

theorem journal_delta_preflight_complete:
  "(\<exists>out. expanded_length base encoded maximum = Ok (length out) \<and> length out \<le> maximum \<and>
      jd_decode base encoded maximum = Ok out) \<or>
   (\<exists>err. expanded_length base encoded maximum = Err err \<and> jd_decode base encoded maximum = Err err)"
proof (cases "jd_validate base encoded maximum")
  case (Err e)
  then show ?thesis by (simp add: expanded_length_def jd_decode_def)
next
  case (Ok v)
  obtain len commands body where v: "v = (len, commands, body)" by (metis prod_cases3)
  have b: "validate_commands commands base len 0 body = Ok (len, [])" "len \<le> maximum"
    using Ok v by (auto simp: jd_validate_def split: if_splits)
  from validate_decodes [OF b(1), of "[]"] obtain out where "decode_commands commands base body [] = Ok out"
    "length out = len" by auto
  then show ?thesis using Ok v b(2) by (auto simp: expanded_length_def jd_decode_def)
qed

text \<open>An unchanged payload of 200 bytes becomes one copy command.\<close>

lemma sample_jd_encode:
  "jd_encode (replicate 200 7) (replicate 200 7) =
     Ok (Some (jd_prefix (replicate 200 7) (replicate 200 7) @ be_bytes 4 1 @ enc_command (Copy 0 200)))"
proof -
  have "common_suffix (replicate 200 7) (replicate 200 7) = 200"
    by (simp add: common_suffix_def zip_replicate takeWhile_replicate)
  moreover have "encode_loop b t 0 e 0 0 = Some (e, 0)" for b t e
    by (simp add: encode_loop.simps [of b t 0 e 0 0])
  moreover have "length jd_magic = 8" by (simp add: jd_magic_def)
  ultimately show ?thesis
    by (simp add: jd_encode_def max_payload_def min_savings_def jd_header_def min_copy_def en_literal_def en_copy_def
        en_room_def max_commands_def slice_def jd_prefix_def Let_def)
qed

theorem journal_delta_roundtrip_witness:
  "jd_decode (replicate 200 7)
     (jd_prefix (replicate 200 7) (replicate 200 7) @ be_bytes 4 1 @ enc_command (Copy 0 200)) 200 =
   Ok (replicate 200 7)"
  using journal_delta_roundtrip [OF sample_jd_encode, of 200] by (simp add: max_payload_def)

end
