(* ===== verification/Retention.thy ===== *)
theory Retention
  imports World_Model "HOL-Library.Product_Lexorder"
begin

text \<open>
  \<^verbatim>\<open>crates/dfmcp-world/src/retention.rs\<close>: the bounded store of world versions. A collection
  keeps the newest versions and the older ones a root names, and leaves a bounded number of
  tombstones. Shown: what a collection keeps and frees, that the newest version and (within the
  pin budget) every rooted version survive unchanged, the size bound, and that a version is
  never both retained and buried. Recording counts with a 64-bit sequence number; runs stop
  before it overflows.
\<close>

definition max_tombstones :: nat where
  "max_tombstones = 4096"

datatype version_status = Retained world_snapshot | Collected u64 u64 | VersionUnknown

record retention_report =
  rep_retained :: nat
  rep_collected :: "digest32 list"
  rep_pinned_outside_window :: nat
  rep_dangling_roots :: nat

record version_retention =
  vr_recent_window :: nat
  vr_max_pinned :: nat
  vr_next_seq :: u64
  vr_versions :: "(digest32, u64 \<times> world_snapshot) btree_map"
  vr_tombstones :: "(digest32, u64 \<times> u64) btree_map"
  vr_tombstone_order :: "digest32 list"

definition version_retention_new :: "nat \<Rightarrow> nat \<Rightarrow> version_retention" where
  "version_retention_new recent_window max_pinned =
     \<lparr>vr_recent_window = max recent_window 1, vr_max_pinned = max_pinned, vr_next_seq = 0,
      vr_versions = [], vr_tombstones = [], vr_tombstone_order = []\<rparr>"

text \<open>\<^verbatim>\<open>max_by_key\<close> and \<^verbatim>\<open>min_by_key\<close> on the sequence number: the last maximum, the first minimum.\<close>

fun max_by_seq :: "(u64 \<times> 'v) list \<Rightarrow> (u64 \<times> 'v) option" where
  "max_by_seq [] = None"
| "max_by_seq (e # es) =
     (case max_by_seq es of None \<Rightarrow> Some e | Some m \<Rightarrow> if fst m \<ge> fst e then Some m else Some e)"

fun min_by_seq :: "(u64 \<times> 'v) list \<Rightarrow> (u64 \<times> 'v) option" where
  "min_by_seq [] = None"
| "min_by_seq (e # es) =
     (case min_by_seq es of None \<Rightarrow> Some e | Some m \<Rightarrow> if fst m < fst e then Some m else Some e)"

definition newest :: "version_retention \<Rightarrow> world_snapshot option" where
  "newest v = map_option snd (max_by_seq (map snd (vr_versions v)))"

definition oldest :: "version_retention \<Rightarrow> world_snapshot option" where
  "oldest v = map_option snd (min_by_seq (map snd (vr_versions v)))"

definition record_version :: "version_retention \<Rightarrow> world_snapshot \<Rightarrow> version_retention" where
  "record_version v s =
     (if (case newest v of Some n \<Rightarrow> ws_state_hash n = ws_state_hash s | None \<Rightarrow> False) then v
      else
        let seq = vr_next_seq v + 1 in
        v\<lparr>vr_next_seq := seq,
          vr_tombstones := bt_remove (ws_state_hash s) (vr_tombstones v),
          vr_versions := bt_insert (ws_state_hash s)
            (case map_of (vr_versions v) (ws_state_hash s) of
               Some (_, snapshot) \<Rightarrow> (seq, snapshot)
             | None \<Rightarrow> (seq, s)) (vr_versions v)\<rparr>)"

definition by_age :: "version_retention \<Rightarrow> (u64 \<times> digest32) list" where
  "by_age v = rev (sort (map (\<lambda>(hash, (seq, _)). (seq, hash)) (vr_versions v)))"

definition window_of :: "version_retention \<Rightarrow> digest32 list" where
  "window_of v = map snd (take (vr_recent_window v) (by_age v))"

definition pinned_of :: "version_retention \<Rightarrow> (digest32, unit) btree_map \<Rightarrow> digest32 list" where
  "pinned_of v roots =
     map snd (take (vr_max_pinned v)
       (filter (\<lambda>(_, hash). hash \<notin> set (window_of v) \<and> bt_contains hash roots) (by_age v)))"

fun trim_tombstones ::
  "(digest32, u64 \<times> world_snapshot) btree_map \<Rightarrow> (digest32, u64 \<times> u64) btree_map \<Rightarrow> digest32 list
     \<Rightarrow> (digest32, u64 \<times> u64) btree_map \<times> digest32 list" where
  "trim_tombstones versions tombstones [] = (tombstones, [])"
| "trim_tombstones versions tombstones (old # order) =
     (if length (old # order) > max_tombstones
      then trim_tombstones versions
        (if bt_contains old versions then tombstones else bt_remove old tombstones) order
      else (tombstones, old # order))"

fun bury :: "u64 \<Rightarrow> (u64 \<times> digest32) list \<Rightarrow> version_retention \<Rightarrow> version_retention" where
  "bury now [] v = v"
| "bury now ((seq, hash) # victims) v =
     bury now victims
       (v\<lparr>vr_versions := bt_remove hash (vr_versions v),
          vr_tombstones := bt_insert hash (seq, now) (vr_tombstones v),
          vr_tombstone_order := vr_tombstone_order v @ [hash]\<rparr>)"

definition collect :: "version_retention \<Rightarrow> (digest32, unit) btree_map \<Rightarrow> version_retention \<times> retention_report" where
  "collect v roots =
     (let window = window_of v;
          pinned = pinned_of v roots;
          victims = filter (\<lambda>(_, hash). \<not> (hash \<in> set window \<or> hash \<in> set pinned)) (rev (by_age v));
          v1 = bury (vr_next_seq v) victims v;
          (tombstones, order) = trim_tombstones (vr_versions v1) (vr_tombstones v1) (vr_tombstone_order v1)
      in (v1\<lparr>vr_tombstones := tombstones, vr_tombstone_order := order\<rparr>,
          \<lparr>rep_retained = length (vr_versions v1), rep_collected = map snd victims,
           rep_pinned_outside_window = length (remdups pinned),
           rep_dangling_roots =
             length (filter (\<lambda>(root, _). root \<notin> set window \<and> root \<notin> set pinned) roots)\<rparr>))"

definition version_status_of :: "version_retention \<Rightarrow> digest32 \<Rightarrow> version_status" where
  "version_status_of v hash =
     (case map_of (vr_versions v) hash of
        Some (_, snapshot) \<Rightarrow> Retained snapshot
      | None \<Rightarrow>
          (case map_of (vr_tombstones v) hash of
             Some (last_seen, collected_at) \<Rightarrow> Collected last_seen collected_at
           | None \<Rightarrow> VersionUnknown))"

definition version_get :: "version_retention \<Rightarrow> digest32 \<Rightarrow> world_snapshot option" where
  "version_get v hash = map_option snd (map_of (vr_versions v) hash)"

definition find_hex :: "version_retention \<Rightarrow> string \<Rightarrow> digest32 option" where
  "find_hex v hex =
     find (\<lambda>hash. to_hex hash = hex) (map fst (vr_versions v) @ map fst (vr_tombstones v))"

subsection \<open>Burying and trimming\<close>

lemma bury_fields:
  "vr_versions (bury now vs v) = filter (\<lambda>e. fst e \<notin> snd ` set vs) (vr_versions v)"
  "vr_next_seq (bury now vs v) = vr_next_seq v"
  "vr_recent_window (bury now vs v) = vr_recent_window v"
  "vr_max_pinned (bury now vs v) = vr_max_pinned v"
  "vr_tombstone_order (bury now vs v) = vr_tombstone_order v @ map snd vs"
  by (induction now vs v rule: bury.induct) (auto simp: bt_remove_def intro: filter_cong)

lemma bury_tombstones:
  "bt_sorted (vr_tombstones v) \<Longrightarrow> bt_sorted (vr_tombstones (bury now vs v))"
  "fst ` set (vr_tombstones (bury now vs v)) = fst ` set (vr_tombstones v) \<union> snd ` set vs"
  by (induction now vs v rule: bury.induct) (auto simp: bt_sorted_insert fst_set_bt_insert)

lemma trim_tombstones_fields:
  assumes "trim_tombstones versions tombs order = (tombs', order')"
  shows "length order' \<le> max_tombstones \<and> fst ` set tombs' \<subseteq> fst ` set tombs \<and>
    (bt_sorted tombs \<longrightarrow> bt_sorted tombs') \<and>
    (fst ` set tombs \<subseteq> set order \<longrightarrow> fst ` set tombs \<inter> fst ` set versions = {} \<longrightarrow> fst ` set tombs' \<subseteq> set order')"
  using assms
proof (induction versions tombs order rule: trim_tombstones.induct)
  case (2 versions tombs old order)
  define tombs2 where "tombs2 = (if bt_contains old versions then tombs else bt_remove old tombs)"
  have c: "bt_contains old versions \<longleftrightarrow> old \<in> fst ` set versions" by (force simp: bt_contains_def)
  have t2: "fst ` set tombs2 = (if old \<in> fst ` set versions then fst ` set tombs else fst ` set tombs - {old})"
    by (auto simp: tombs2_def c bt_remove_def)
  have sorted: "bt_sorted tombs \<longrightarrow> bt_sorted tombs2" by (simp add: tombs2_def bt_sorted_remove)
  show ?case
  proof (cases "length (old # order) > max_tombstones")
    case False
    then show ?thesis using 2(2) by (auto simp: not_less)
  next
    case True
    then have "trim_tombstones versions tombs2 order = (tombs', order')" using 2(2) by (simp add: tombs2_def)
    note IH = 2(1) [OF True, folded tombs2_def, OF this]
    have "fst ` set tombs2 \<subseteq> fst ` set tombs" using t2 by auto
    moreover have "fst ` set tombs2 \<subseteq> set order"
      if "fst ` set tombs \<subseteq> set (old # order)" "fst ` set tombs \<inter> fst ` set versions = {}"
    proof (cases "old \<in> fst ` set versions")
      case True
      then have "old \<notin> fst ` set tombs" using that(2) by blast
      then show ?thesis using that(1) t2 True by (simp add: subset_insert)
    qed (use that(1) t2 in auto)
    ultimately show ?thesis using IH sorted by (intro conjI impI) (blast+)
  qed
qed (auto simp: max_tombstones_def)

subsection \<open>Ages\<close>

lemma max_by_seq_None: "max_by_seq es = None \<longleftrightarrow> es = []"
  by (cases es) (auto split: option.splits)

lemma max_by_seq_Some: "max_by_seq es = Some m \<Longrightarrow> m \<in> set es \<and> (\<forall>e \<in> set es. fst e \<le> fst m)"
proof (induction es arbitrary: m)
  case (Cons e es)
  then show ?case
    by (cases "max_by_seq es") (fastforce simp: max_by_seq_None split: if_splits)+
qed simp

lemma set_by_age: "set (by_age v) = (\<lambda>(hash, (seq, _)). (seq, hash)) ` set (vr_versions v)"
  by (simp add: by_age_def)

lemma sorted_le_last: "sorted xs \<Longrightarrow> x \<in> set xs \<Longrightarrow> x \<le> last xs"
  by (induction xs) auto

lemma by_age_hd: "x \<in> set (by_age v) \<Longrightarrow> by_age v \<noteq> [] \<and> x \<le> hd (by_age v)"
  unfolding by_age_def by (auto simp only: hd_rev set_rev intro!: sorted_le_last sorted_sort) simp_all

definition seq_unique :: "(digest32, u64 \<times> world_snapshot) btree_map \<Rightarrow> bool" where
  "seq_unique m \<longleftrightarrow> (\<forall>h q s h' s'. (h, (q, s)) \<in> set m \<longrightarrow> (h', (q, s')) \<in> set m \<longrightarrow> h = h')"

lemma seq_uniqueD: "seq_unique m \<Longrightarrow> (h, (q, s)) \<in> set m \<Longrightarrow> (h', (q, s')) \<in> set m \<Longrightarrow> h = h'"
  unfolding seq_unique_def by blast

lemma seq_unique_subset: "seq_unique m \<Longrightarrow> set m' \<subseteq> set m \<Longrightarrow> seq_unique m'"
  unfolding seq_unique_def by blast

definition vr_inv :: "version_retention \<Rightarrow> bool" where
  "vr_inv v \<longleftrightarrow> 1 \<le> vr_recent_window v \<and> bt_sorted (vr_versions v) \<and>
     (\<forall>hash seq s. (hash, (seq, s)) \<in> set (vr_versions v) \<longrightarrow> ws_state_hash s = hash \<and> seq \<le> vr_next_seq v) \<and>
     seq_unique (vr_versions v) \<and>
     bt_sorted (vr_tombstones v) \<and> fst ` set (vr_tombstones v) \<inter> fst ` set (vr_versions v) = {} \<and>
     fst ` set (vr_tombstones v) \<subseteq> set (vr_tombstone_order v) \<and> length (vr_tombstone_order v) \<le> max_tombstones"

lemma newest_in_window:
  assumes "vr_inv v" "max_by_seq (map snd (vr_versions v)) = Some (q, s)"
  shows "ws_state_hash s \<in> set (window_of v) \<and> (ws_state_hash s, (q, s)) \<in> set (vr_versions v)"
proof -
  from max_by_seq_Some [OF assms(2)] obtain h where h: "(h, (q, s)) \<in> set (vr_versions v)"
    and mx: "\<And>h' q' s'. (h', (q', s')) \<in> set (vr_versions v) \<Longrightarrow> q' \<le> q" by fastforce
  have hash: "ws_state_hash s = h" using assms(1) h by (simp add: vr_inv_def)
  have "(q, h) \<in> set (by_age v)" using h by (force simp: set_by_age)
  then have ne: "by_age v \<noteq> []" and le: "(q, h) \<le> hd (by_age v)" using by_age_hd by blast+
  obtain q0 h0 where hd: "hd (by_age v) = (q0, h0)" by fastforce
  then have "(q0, h0) \<in> set (by_age v)" using ne by (metis hd_in_set)
  then obtain s0 where s0: "(h0, (q0, s0)) \<in> set (vr_versions v)" by (auto simp: set_by_age)
  have "q \<le> q0" using le hd by (auto simp: less_eq_prod_def)
  with mx [OF s0] have "q0 = q" by simp
  then have "h0 = h" using assms(1) h s0 seq_uniqueD [of "vr_versions v"] by (simp add: vr_inv_def)
  moreover have "1 \<le> vr_recent_window v" using assms(1) by (simp add: vr_inv_def)
  ultimately have "h \<in> set (window_of v)"
    using ne hd by (cases "by_age v"; cases "vr_recent_window v") (auto simp: window_of_def)
  with h hash show ?thesis by simp
qed

subsection \<open>Runs\<close>

inductive vr_step :: "version_retention \<Rightarrow> version_retention \<Rightarrow> bool" where
  vr_record: "vr_next_seq v \<noteq> -1 \<Longrightarrow> vr_step v (record_version v s)"
| vr_collect: "vr_step v (fst (collect v roots))"

definition vr_init :: "version_retention \<Rightarrow> bool" where
  "vr_init v \<longleftrightarrow> (\<exists>w p. v = version_retention_new w p)"

lemma record_version_inv:
  assumes "vr_inv v" "vr_next_seq v \<noteq> -1"
  shows "vr_inv (record_version v s)"
proof (cases "case newest v of Some n \<Rightarrow> ws_state_hash n = ws_state_hash s | None \<Rightarrow> False")
  case True
  then show ?thesis using assms by (simp add: record_version_def)
next
  case False
  define h where "h = ws_state_hash s"
  define seq where "seq = vr_next_seq v + 1"
  define s1 where "s1 = (case map_of (vr_versions v) h of Some (_, x) \<Rightarrow> x | None \<Rightarrow> s)"
  define m where "m = bt_insert h (seq, s1) (vr_versions v)"
  have v': "record_version v s = v\<lparr>vr_next_seq := seq, vr_tombstones := bt_remove h (vr_tombstones v), vr_versions := m\<rparr>"
    using False
    by (simp add: record_version_def Let_def h_def seq_def m_def s1_def split: option.splits)
  have sorted: "bt_sorted (vr_versions v)"
    and entries: "\<And>k q x. (k, (q, x)) \<in> set (vr_versions v) \<Longrightarrow> ws_state_hash x = k \<and> q \<le> vr_next_seq v"
    using assms(1) by (auto simp: vr_inv_def)
  have lt: "vr_next_seq v < seq"
    using assms(2) checked_add_None_max [of "vr_next_seq v"] checked_add_greater [of "vr_next_seq v" 1]
    by (auto simp: checked_add_def seq_def split: if_splits)
  have s1: "ws_state_hash s1 = h"
    using entries by (auto simp: s1_def h_def split: option.splits dest!: map_of_SomeD)
  have set_m: "set m = insert (h, (seq, s1)) {e \<in> set (vr_versions v). fst e \<noteq> h}"
    using sorted by (auto simp: m_def set_bt_insert)
  have "seq_unique m"
    unfolding seq_unique_def set_m using entries lt assms(1) seq_uniqueD [of "vr_versions v"]
    by (auto simp: vr_inv_def dest: leD)
  moreover have "\<forall>k q x. (k, (q, x)) \<in> set m \<longrightarrow> ws_state_hash x = k \<and> q \<le> seq"
    using entries s1 order_trans [OF _ less_imp_le [OF lt]] by (auto simp: set_m)
  moreover have "fst ` set (bt_remove h (vr_tombstones v)) \<inter> fst ` set m = {}"
    using assms(1) by (auto simp: set_m bt_remove_def vr_inv_def)
  moreover have "fst ` set (bt_remove h (vr_tombstones v)) \<subseteq> set (vr_tombstone_order v)"
    using assms(1) by (auto simp: bt_remove_def vr_inv_def)
  moreover have "bt_sorted m" using sorted by (simp add: m_def bt_sorted_insert)
  ultimately show ?thesis using assms(1) unfolding v' by (simp add: vr_inv_def bt_sorted_remove)
qed

definition kept_by :: "version_retention \<Rightarrow> (digest32, unit) btree_map \<Rightarrow> digest32 set" where
  "kept_by v roots = set (window_of v) \<union> set (pinned_of v roots)"

definition victims_of :: "version_retention \<Rightarrow> (digest32, unit) btree_map \<Rightarrow> (u64 \<times> digest32) list" where
  "victims_of v roots =
     filter (\<lambda>(_, hash). \<not> (hash \<in> set (window_of v) \<or> hash \<in> set (pinned_of v roots))) (rev (by_age v))"

lemma victims_hashes: "snd ` set (victims_of v roots) = fst ` set (vr_versions v) - kept_by v roots"
proof -
  have "h \<in> snd ` set (victims_of v roots)" if "(h, (q, s)) \<in> set (vr_versions v)" "h \<notin> kept_by v roots" for h q s
  proof -
    have "(q, h) \<in> set (by_age v)" using that(1) by (force simp: set_by_age)
    then have "(q, h) \<in> set (victims_of v roots)" using that(2) by (simp add: victims_of_def kept_by_def)
    then show ?thesis by force
  qed
  moreover have "h \<in> fst ` set (vr_versions v) - kept_by v roots" if victim: "(q, h) \<in> set (victims_of v roots)" for q h
  proof -
    have "(q, h) \<in> set (by_age v)" "h \<notin> kept_by v roots" using victim by (auto simp: victims_of_def kept_by_def)
    moreover from this obtain s where "(h, (q, s)) \<in> set (vr_versions v)" by (auto simp: set_by_age)
    ultimately show ?thesis by force
  qed
  ultimately show ?thesis by (intro subset_antisym subsetI) auto
qed

lemma collect_versions:
  "vr_versions (fst (collect v roots)) = filter (\<lambda>e. fst e \<in> kept_by v roots) (vr_versions v)"
proof -
  have "vr_versions (fst (collect v roots)) = vr_versions (bury (vr_next_seq v) (victims_of v roots) v)"
    by (simp add: collect_def Let_def victims_of_def split: prod.split)
  also have "\<dots> = filter (\<lambda>e. fst e \<in> kept_by v roots) (vr_versions v)"
    unfolding bury_fields victims_hashes by (rule filter_cong) auto
  finally show ?thesis .
qed

lemma disjoint_shrink: "A \<subseteq> B \<Longrightarrow> B \<inter> C = {} \<Longrightarrow> A \<inter> C = {}"
  by blast

lemma collect_inv:
  assumes "vr_inv v"
  shows "vr_inv (fst (collect v roots))"
proof -
  define v1 where "v1 = bury (vr_next_seq v) (victims_of v roots) v"
  obtain t ord where trim: "trim_tombstones (vr_versions v1) (vr_tombstones v1) (vr_tombstone_order v1) = (t, ord)"
    by fastforce
  have c: "fst (collect v roots) = v1\<lparr>vr_tombstones := t, vr_tombstone_order := ord\<rparr>"
    using trim by (simp add: collect_def Let_def v1_def victims_of_def)
  have versions: "vr_versions v1 = filter (\<lambda>e. fst e \<in> kept_by v roots) (vr_versions v)"
    using collect_versions [of v roots] by (simp add: c)
  have tombs: "fst ` set (vr_tombstones v1) = fst ` set (vr_tombstones v) \<union> (fst ` set (vr_versions v) - kept_by v roots)"
    and order: "set (vr_tombstone_order v1) = set (vr_tombstone_order v) \<union> (fst ` set (vr_versions v) - kept_by v roots)"
    by (simp_all add: v1_def bury_tombstones bury_fields victims_hashes)
  have old: "fst ` set (vr_tombstones v) \<inter> fst ` set (vr_versions v) = {}"
      "fst ` set (vr_tombstones v) \<subseteq> set (vr_tombstone_order v)" "bt_sorted (vr_tombstones v)"
    using assms by (simp_all add: vr_inv_def)
  have sub: "fst ` set (vr_versions v1) \<subseteq> fst ` set (vr_versions v) \<inter> kept_by v roots"
    by (auto simp: versions)
  have disj: "fst ` set (vr_tombstones v1) \<inter> fst ` set (vr_versions v1) = {}"
    and within: "fst ` set (vr_tombstones v1) \<subseteq> set (vr_tombstone_order v1)"
    using old(1,2) sub unfolding tombs order by blast+
  have sorted: "bt_sorted (vr_tombstones v1)" using old(3) by (simp add: v1_def bury_tombstones)
  note T = trim_tombstones_fields [OF trim]
  have t: "length ord \<le> max_tombstones" "bt_sorted t" "fst ` set t \<subseteq> set ord"
      "fst ` set t \<subseteq> fst ` set (vr_tombstones v1)"
    by (rule T [THEN conjunct1], rule T [THEN conjunct2, THEN conjunct2, THEN conjunct1, THEN mp, OF sorted],
        rule T [THEN conjunct2, THEN conjunct2, THEN conjunct2, THEN mp, THEN mp, OF within disj],
        rule T [THEN conjunct2, THEN conjunct1])
  have apart: "fst ` set t \<inter> fst ` set (vr_versions v1) = {}"
    by (rule disjoint_shrink [OF t(4) disj])
  have "seq_unique (vr_versions v1)"
  proof (rule seq_unique_subset)
    show "seq_unique (vr_versions v)" using assms by (simp add: vr_inv_def)
  qed (simp add: versions)
  moreover have "bt_sorted (vr_versions v1)"
      "\<forall>h q s. (h, (q, s)) \<in> set (vr_versions v1) \<longrightarrow> ws_state_hash s = h \<and> q \<le> vr_next_seq v"
    using assms unfolding vr_inv_def versions by (auto intro: bt_sorted_filter)
  moreover have "vr_next_seq v1 = vr_next_seq v" "1 \<le> vr_recent_window v1"
    using assms by (simp_all add: v1_def bury_fields vr_inv_def)
  ultimately show ?thesis using t apart unfolding c vr_inv_def by simp
qed

interpretation retention: invariant_system vr_init vr_step vr_inv
proof
  show "vr_inv v" if "vr_init v" for v
    using that by (auto simp: vr_init_def version_retention_new_def vr_inv_def seq_unique_def)
  show "vr_inv w" if "vr_inv v" "vr_step v w" for v w
    using that(2,1) by cases (auto intro: record_version_inv collect_inv)
qed

subsection \<open>What a collection keeps\<close>

lemma version_get_collect:
  assumes "vr_inv v"
  shows "version_get (fst (collect v roots)) h = (if h \<in> kept_by v roots then version_get v h else None)"
proof -
  have "bt_sorted (vr_versions v)" using assms by (simp add: vr_inv_def)
  from map_of_bt_retain [OF this, of "\<lambda>k _. k \<in> kept_by v roots" h] show ?thesis
    by (simp add: version_get_def collect_versions bt_retain_def split: option.splits)
qed

lemma newest_collect:
  assumes "vr_inv v" "newest v = Some s"
  shows "newest (fst (collect v roots)) = Some s"
proof -
  let ?m = "vr_versions (fst (collect v roots))"
  from assms(2) obtain q where q: "max_by_seq (map snd (vr_versions v)) = Some (q, s)"
    by (auto simp: newest_def)
  have e: "ws_state_hash s \<in> set (window_of v)" "(ws_state_hash s, (q, s)) \<in> set (vr_versions v)"
    using newest_in_window [OF assms(1) q] by simp_all
  have mem: "(ws_state_hash s, (q, s)) \<in> set ?m" using e by (simp add: collect_versions kept_by_def)
  then obtain q' s' where m: "max_by_seq (map snd ?m) = Some (q', s')"
    by (cases "max_by_seq (map snd ?m)") (auto simp: max_by_seq_None)
  from max_by_seq_Some [OF m] obtain h' where h': "(h', (q', s')) \<in> set ?m" by auto
  have "q \<le> q'" using max_by_seq_Some [OF m] mem by force
  moreover have "q' \<le> q" using max_by_seq_Some [OF q] h' by (force simp: collect_versions)
  ultimately have "q' = q" by simp
  then have mem': "(h', (q, s')) \<in> set (vr_versions v)" using h' by (simp add: collect_versions)
  have inv: "seq_unique (vr_versions v)" "bt_sorted (vr_versions v)" using assms(1) by (simp_all add: vr_inv_def)
  have "h' = ws_state_hash s" by (rule seq_uniqueD [OF inv(1) mem' e(2)])
  then have "s' = s" using mem' e(2) bt_entry_iff [OF inv(2), of h'] by simp
  with m show ?thesis by (simp add: newest_def)
qed

lemma length_collect:
  assumes "vr_inv v"
  shows "length (vr_versions (fst (collect v roots))) \<le> vr_recent_window v + vr_max_pinned v"
proof -
  let ?m = "vr_versions (fst (collect v roots))"
  have "bt_sorted ?m" using collect_inv [OF assms] by (simp add: vr_inv_def)
  then have "length ?m = card (fst ` set ?m)"
    using distinct_card [of "map fst ?m"] bt_sorted_distinct [of ?m] by simp
  also have "\<dots> \<le> card (kept_by v roots)"
    by (intro card_mono) (auto simp: collect_versions kept_by_def)
  also have "\<dots> \<le> card (set (window_of v)) + card (set (pinned_of v roots))"
    unfolding kept_by_def by (rule card_Un_le)
  also have "\<dots> \<le> length (window_of v) + length (pinned_of v roots)"
    by (intro add_mono card_length)
  also have "\<dots> \<le> vr_recent_window v + vr_max_pinned v"
    by (intro add_mono) (simp_all add: window_of_def pinned_of_def)
  finally show ?thesis .
qed

definition rooted_outside :: "version_retention \<Rightarrow> (digest32, unit) btree_map \<Rightarrow> nat" where
  "rooted_outside v roots =
     length (filter (\<lambda>(_, hash). hash \<notin> set (window_of v) \<and> bt_contains hash roots) (by_age v))"

lemma rooted_kept:
  assumes "rooted_outside v roots \<le> vr_max_pinned v" "bt_contains h roots" "version_get v h = Some s"
  shows "h \<in> kept_by v roots"
proof -
  from assms(3) obtain q where "(h, (q, s)) \<in> set (vr_versions v)"
    by (auto simp: version_get_def dest!: map_of_SomeD)
  then have "(q, h) \<in> set (by_age v)" by (force simp: set_by_age)
  then show ?thesis
    using assms(1,2) by (force simp: kept_by_def pinned_of_def rooted_outside_def)
qed

text \<open>
  A collection never loses a live version: in every reachable store the newest version
  survives, every version a root names survives unchanged as long as no more than the pin budget
  of them lie outside the window, no version is altered, and at most the window plus the pin
  budget of versions are left.
\<close>

theorem collection_keeps_live_versions:
  assumes "reach vr_init vr_step v"
  shows "(\<forall>s. newest v = Some s \<longrightarrow> newest (fst (collect v roots)) = Some s) \<and>
    (\<forall>h s. rooted_outside v roots \<le> vr_max_pinned v \<longrightarrow> bt_contains h roots \<longrightarrow>
       version_get v h = Some s \<longrightarrow> version_get (fst (collect v roots)) h = Some s) \<and>
    (\<forall>h s. version_get (fst (collect v roots)) h = Some s \<longrightarrow> version_get v h = Some s) \<and>
    length (vr_versions (fst (collect v roots))) \<le> vr_recent_window v + vr_max_pinned v"
proof -
  have inv: "vr_inv v" using assms by (rule retention.reach_inv)
  show ?thesis
    using newest_collect [OF inv] version_get_collect [OF inv] length_collect [OF inv] rooted_kept [of v roots]
    by (auto split: if_splits)
qed

lemma trim_forgets_recollected:
  assumes "\<not> bt_contains h versions" "length (h # order) > max_tombstones" "bt_sorted tombs"
  shows "map_of (fst (trim_tombstones versions tombs (h # order))) h = None"
proof -
  have "map_of (fst (trim_tombstones versions t os)) h = None" if "map_of t h = None" for t os
    using that
  proof (induction versions t os rule: trim_tombstones.induct)
    case (2 versions t old os)
    then show ?case by (auto simp: map_of_bt_remove)
  qed simp
  then show ?thesis using assms by (simp add: map_of_bt_remove)
qed

subsection \<open>A concrete store\<close>

definition sample_version :: "u64 \<Rightarrow> world_snapshot" where
  "sample_version n = world_snapshot_new 7 n (ObservationCursor 1 n) True empty_graph"

definition sample_store :: version_retention where
  "sample_store = record_version (version_retention_new 1 0) (sample_version 1)"

lemma sample_store_reach: "reach vr_init vr_step sample_store"
  unfolding sample_store_def
proof (rule reach_step)
  show "reach vr_init vr_step (version_retention_new 1 0)" by (rule reach_init) (auto simp: vr_init_def)
qed (rule vr_record, simp add: version_retention_new_def)

theorem collection_keeps_live_versions_witness:
  "newest (fst (collect sample_store [])) = Some (sample_version 1)"
proof -
  have "newest sample_store = Some (sample_version 1)"
    by (simp add: sample_store_def record_version_def version_retention_new_def newest_def Let_def)
  with collection_keeps_live_versions [OF sample_store_reach] show ?thesis by blast
qed

end
