(* ===== verification/Actions.thy ===== *)
theory Actions
  imports Delta_Codec
begin

text \<open>
  \<^verbatim>\<open>crates/dfmcp-intent/src/action.rs\<close>: the actions of a plan, their risk, capability, scope,
  normal form and canonical bytes. The bytes enter plan digests and idempotency keys, so the
  property that matters is that they identify the action: the encoding is a prefix code on
  well-formed normalized actions (\<open>prefix_code\<close>, which every decodable encoding satisfies).
\<close>

datatype dig_mode = Mine | Channel | UpStair | DownStair | UpDownStair | Ramp | RemoveConstruction

datatype building_kind =
    Workshop string | Furnace string | Furniture string | Construction string | Trap string
  | FarmPlot | Bridge | Well | CustomBuilding string

datatype furniture_kind = Bed | Door | Table | Chair

primrec furniture_str :: "furniture_kind \<Rightarrow> string" where
  "furniture_str Bed = ''Bed''"
| "furniture_str Door = ''Door''"
| "furniture_str Table = ''Table''"
| "furniture_str Chair = ''Chair''"

primrec item_token :: "furniture_kind \<Rightarrow> string" where
  "item_token Bed = ''BED''"
| "item_token Door = ''DOOR''"
| "item_token Table = ''TABLE''"
| "item_token Chair = ''CHAIR''"

record material_selector =
  ms_required_tokens :: "string list"
  ms_forbidden_tokens :: "string list"
  ms_prefer_nearest :: bool
  ms_reserve_count :: u32

datatype work_order_condition =
    ItemCountBelow string u32
  | MaterialAvailable string u32
  | CompletedOrder string

datatype action =
    Pause bool
  | DesignateDig map_cuboid dig_mode
  | Build building_kind map_coord map_cuboid material_selector
  | SetLabor "entity_id list" string bool
  | CreateWorkOrder string string u32 "work_order_condition list"
  | ConfigureStockpile entity_id "string list" "u32 option" "u32 option" "u32 option"
  | AssignSquad "entity_id list" entity_id
  | SetBurrowMembership "entity_id list" entity_id bool
  | SetStandingOrder string string
  | Extension string string "(string, string) btree_map"
  | PlaceFurniture furniture_kind entity_id map_coord

record action_scope =
  as_entity_ids :: "entity_id list"
  as_map_area :: "map_cuboid option"

definition action_risk :: "action \<Rightarrow> risk_tier" where
  "action_risk a =
     (case a of
        Pause _ \<Rightarrow> Reversible
      | SetLabor _ _ _ \<Rightarrow> Reversible
      | CreateWorkOrder _ _ _ _ \<Rightarrow> Reversible
      | ConfigureStockpile _ _ _ _ _ \<Rightarrow> Reversible
      | SetBurrowMembership _ _ _ \<Rightarrow> Reversible
      | _ \<Rightarrow> Guarded)"

definition action_capability :: "action \<Rightarrow> capability" where
  "action_capability a =
     (case a of
        Pause _ \<Rightarrow> CapControlClock
      | DesignateDig _ _ \<Rightarrow> CapDesignate
      | Build _ _ _ _ \<Rightarrow> CapConstruct
      | PlaceFurniture _ _ _ \<Rightarrow> CapConstruct
      | SetLabor _ _ _ \<Rightarrow> CapConfigureLabor
      | CreateWorkOrder _ _ _ _ \<Rightarrow> CapConfigureProduction
      | ConfigureStockpile _ _ _ _ _ \<Rightarrow> CapConfigureLogistics
      | AssignSquad _ _ \<Rightarrow> CapConfigureMilitary
      | SetBurrowMembership _ _ _ \<Rightarrow> CapConfigureLogistics
      | SetStandingOrder _ _ \<Rightarrow> CapConfigureLogistics
      | Extension _ _ _ \<Rightarrow> CapExtension)"

definition normalized_ids :: "entity_id list \<Rightarrow> entity_id list" where
  "normalized_ids ids = remdups_adj (sort ids)"

definition action_scope_of :: "action \<Rightarrow> action_scope" where
  "action_scope_of a =
     (case a of
        DesignateDig area _ \<Rightarrow> \<lparr>as_entity_ids = [], as_map_area = Some area\<rparr>
      | Build _ _ footprint _ \<Rightarrow> \<lparr>as_entity_ids = [], as_map_area = Some footprint\<rparr>
      | PlaceFurniture _ item location \<Rightarrow>
          \<lparr>as_entity_ids = [item], as_map_area = Some \<lparr>cmin = location, cmax = location\<rparr>\<rparr>
      | SetLabor units _ _ \<Rightarrow> \<lparr>as_entity_ids = units, as_map_area = None\<rparr>
      | ConfigureStockpile stockpile _ _ _ _ \<Rightarrow> \<lparr>as_entity_ids = [stockpile], as_map_area = None\<rparr>
      | AssignSquad units squad \<Rightarrow> \<lparr>as_entity_ids = normalized_ids (units @ [squad]), as_map_area = None\<rparr>
      | SetBurrowMembership units burrow _ \<Rightarrow>
          \<lparr>as_entity_ids = normalized_ids (units @ [burrow]), as_map_area = None\<rparr>
      | _ \<Rightarrow> \<lparr>as_entity_ids = [], as_map_area = None\<rparr>)"

definition naturally_temporal :: "action \<Rightarrow> bool" where
  "naturally_temporal a =
     (case a of
        DesignateDig _ _ \<Rightarrow> True
      | Build _ _ _ _ \<Rightarrow> True
      | PlaceFurniture _ _ _ \<Rightarrow> True
      | CreateWorkOrder _ _ _ _ \<Rightarrow> True
      | _ \<Rightarrow> False)"

text \<open>\<^verbatim>\<open>{:010}\<close>: decimal, padded with zeros to ten digits.\<close>

definition show_padded :: "u32 \<Rightarrow> string" where
  "show_padded n = (let d = show_nat (unat n) in replicate (10 - length d) (CHR ''0'') @ d)"

definition condition_key :: "work_order_condition \<Rightarrow> string" where
  "condition_key c =
     (case c of
        ItemCountBelow token threshold \<Rightarrow> ''0:'' @ token @ '':'' @ show_padded threshold
      | MaterialAvailable token minimum \<Rightarrow> ''1:'' @ token @ '':'' @ show_padded minimum
      | CompletedOrder order_name \<Rightarrow> ''2:'' @ order_name)"

definition action_normalized :: "action \<Rightarrow> action" where
  "action_normalized a =
     (case a of
        SetLabor units labor enabled \<Rightarrow> SetLabor (normalized_ids units) labor enabled
      | AssignSquad units squad \<Rightarrow> AssignSquad (normalized_ids units) squad
      | SetBurrowMembership units burrow assigned \<Rightarrow> SetBurrowMembership (normalized_ids units) burrow assigned
      | CreateWorkOrder name job_token amount conditions \<Rightarrow>
          CreateWorkOrder name job_token amount (remdups_adj (sort_key condition_key conditions))
      | other \<Rightarrow> other)"

subsection \<open>Canonical bytes\<close>

definition put_coord :: "map_coord \<Rightarrow> u8 list" where
  "put_coord c = put_i32 (mx c) @ put_i32 (my c) @ put_i32 (mz c)"

definition put_cuboid :: "map_cuboid \<Rightarrow> u8 list" where
  "put_cuboid c = put_coord (cmin c) @ put_coord (cmax c)"

definition put_ids :: "entity_id list \<Rightarrow> u8 list" where
  "put_ids ids = put_list put_u64 (normalized_ids ids)"

definition put_string_set :: "string list \<Rightarrow> u8 list" where
  "put_string_set values = put_list put_str values"

definition put_option_u32 :: "u32 option \<Rightarrow> u8 list" where
  "put_option_u32 v = put_option put_u32 v"

primrec dig_mode_code :: "dig_mode \<Rightarrow> u8" where
  "dig_mode_code Mine = 0"
| "dig_mode_code Channel = 1"
| "dig_mode_code UpStair = 2"
| "dig_mode_code DownStair = 3"
| "dig_mode_code UpDownStair = 4"
| "dig_mode_code Ramp = 5"
| "dig_mode_code RemoveConstruction = 6"

primrec furniture_code :: "furniture_kind \<Rightarrow> u8" where
  "furniture_code Bed = 0"
| "furniture_code Door = 1"
| "furniture_code Table = 2"
| "furniture_code Chair = 3"

fun put_building_kind :: "building_kind \<Rightarrow> u8 list" where
  "put_building_kind (Workshop v) = 0 # put_str v"
| "put_building_kind (Furnace v) = 1 # put_str v"
| "put_building_kind (Furniture v) = 2 # put_str v"
| "put_building_kind (Construction v) = 3 # put_str v"
| "put_building_kind (Trap v) = 4 # put_str v"
| "put_building_kind FarmPlot = [5]"
| "put_building_kind Bridge = [6]"
| "put_building_kind Well = [7]"
| "put_building_kind (CustomBuilding v) = 8 # put_str v"

fun put_condition :: "work_order_condition \<Rightarrow> u8 list" where
  "put_condition (ItemCountBelow token threshold) = 0 # put_str token @ put_u32 threshold"
| "put_condition (MaterialAvailable token minimum) = 1 # put_str token @ put_u32 minimum"
| "put_condition (CompletedOrder order_name) = 2 # put_str order_name"

fun enc_action :: "action \<Rightarrow> u8 list" where
  "enc_action (Pause paused) = 0 # put_bool paused"
| "enc_action (DesignateDig area mode) = 1 # put_cuboid area @ [dig_mode_code mode]"
| "enc_action (Build kind location footprint material) =
     2 # put_building_kind kind @ put_coord location @ put_cuboid footprint @
       put_string_set (ms_required_tokens material) @ put_string_set (ms_forbidden_tokens material) @
       put_bool (ms_prefer_nearest material) @ put_u32 (ms_reserve_count material)"
| "enc_action (SetLabor units labor enabled) = 3 # put_ids units @ put_str labor @ put_bool enabled"
| "enc_action (CreateWorkOrder name job_token amount conditions) =
     4 # put_str name @ put_str job_token @ put_u32 amount @ put_list put_condition conditions"
| "enc_action (ConfigureStockpile stockpile accepts max_bins max_barrels max_wheelbarrows) =
     5 # put_u64 stockpile @ put_string_set accepts @ put_option_u32 max_bins @
       put_option_u32 max_barrels @ put_option_u32 max_wheelbarrows"
| "enc_action (AssignSquad units squad) = 6 # put_ids units @ put_u64 squad"
| "enc_action (SetBurrowMembership units burrow assigned) =
     7 # put_ids units @ put_u64 burrow @ put_bool assigned"
| "enc_action (SetStandingOrder key val) = 8 # put_str key @ put_str val"
| "enc_action (Extension namespace name parameters) =
     9 # put_str namespace @ put_str name @ put_list (\<lambda>(key, val). put_str key @ put_str val) parameters"
| "enc_action (PlaceFurniture kind item location) =
     10 # furniture_code kind # put_u64 item @ put_coord location"

subsection \<open>Prefix codes\<close>

named_theorems pfx_iffs \<open>how concatenated codes split\<close>

locale prefix_code =
  fixes enc :: "'a \<Rightarrow> u8 list" and valid :: "'a \<Rightarrow> bool"
  assumes parse_unique: "valid x \<Longrightarrow> valid y \<Longrightarrow> enc x @ r = enc y @ s \<Longrightarrow> x = y \<and> r = s"
begin

lemma split_iff: "valid x \<Longrightarrow> valid y \<Longrightarrow> enc x @ r = enc y @ s \<longleftrightarrow> x = y \<and> r = s"
  using parse_unique by blast

lemma code_inject: "valid x \<Longrightarrow> valid y \<Longrightarrow> enc x = enc y \<Longrightarrow> x = y"
  using parse_unique [of x y "[]" "[]"] by simp

lemma concat_unique:
  "length xs = length ys \<Longrightarrow> \<forall>x \<in> set xs. valid x \<Longrightarrow> \<forall>y \<in> set ys. valid y \<Longrightarrow>
   concat (map enc xs) @ r = concat (map enc ys) @ s \<Longrightarrow> xs = ys \<and> r = s"
proof (induction xs ys rule: list_induct2)
  case (Cons x xs y ys)
  then have "x = y \<and> concat (map enc xs) @ r = concat (map enc ys) @ s"
    using parse_unique [of x y "concat (map enc xs) @ r" "concat (map enc ys) @ s"] by simp
  then show ?case using Cons by simp
qed simp

end

sublocale codec \<subseteq> prefix_code enc valid
  by unfold_locales (rule prefix_free)

lemma strict_prefix: "strict_codec enc dec valid \<Longrightarrow> prefix_code enc valid"
  using codec.prefix_free [of enc dec valid] by (simp add: strict_codec_def prefix_code.intro)

lemmas pfx_u64 [pfx_iffs] = prefix_code.split_iff [OF strict_prefix [OF strict_u64] TrueI TrueI]
lemmas pfx_u32 [pfx_iffs] = prefix_code.split_iff [OF strict_prefix [OF strict_u32] TrueI TrueI]
lemmas pfx_str [pfx_iffs] = prefix_code.split_iff [OF strict_prefix [OF strict_string]]

lemma pfx_bool [pfx_iffs]: "put_bool a @ r = put_bool b @ s \<longleftrightarrow> a = b \<and> r = s"
  by (auto simp: put_bool_def)

lemma strict_i32: "strict_codec put_i32 rd_i32 i32_range"
  by (rule strict_codecI) (auto simp: rd_iffs rd_evals)

lemmas prefix_i32 = strict_prefix [OF strict_i32]
lemmas pfx_i32 [pfx_iffs] = prefix_code.split_iff [OF prefix_i32]

lemma prefix_list:
  assumes "prefix_code enc valid"
  shows "prefix_code (put_list enc) (\<lambda>xs. length xs < 2 ^ 64 \<and> (\<forall>x \<in> set xs. valid x))"
proof
  fix xs ys r s
  assume xs: "length xs < 2 ^ 64 \<and> (\<forall>x \<in> set xs. valid x)" and ys: "length ys < 2 ^ 64 \<and> (\<forall>y \<in> set ys. valid y)"
    and eq: "put_list enc xs @ r = put_list enc ys @ s"
  have "(word_of_nat (length xs) :: u64) = word_of_nat (length ys)"
    and rest: "concat (map enc xs) @ r = concat (map enc ys) @ s"
    using eq by (auto simp: put_list_def pfx_u64)
  then have "unat (word_of_nat (length xs) :: u64) = unat (word_of_nat (length ys) :: u64)" by simp
  then have "length xs = length ys"
    using xs ys by (simp add: unsigned_of_nat take_bit_nat_eq_self)
  then show "xs = ys \<and> r = s"
    using prefix_code.concat_unique [OF assms] xs ys rest by blast
qed

lemma prefix_option:
  assumes "prefix_code enc valid"
  shows "prefix_code (put_option enc) (\<lambda>x. \<forall>y. x = Some y \<longrightarrow> valid y)"
  by unfold_locales
    (auto simp: put_option_def split: option.splits dest: prefix_code.parse_unique [OF assms])

lemma prefix_pair:
  assumes p1: "prefix_code e1 v1" and p2: "prefix_code e2 v2"
  shows "prefix_code (\<lambda>(a, b). e1 a @ e2 b) (\<lambda>(a, b). v1 a \<and> v2 b)"
proof
  fix x y r s
  assume "case x of (a, b) \<Rightarrow> v1 a \<and> v2 b" "case y of (a, b) \<Rightarrow> v1 a \<and> v2 b"
    and "(case x of (a, b) \<Rightarrow> e1 a @ e2 b) @ r = (case y of (a, b) \<Rightarrow> e1 a @ e2 b) @ s"
  then show "x = y \<and> r = s"
    using prefix_code.parse_unique [OF p1, of "fst x" "fst y" "e2 (snd x) @ r" "e2 (snd y) @ s"]
      prefix_code.parse_unique [OF p2, of "snd x" "snd y" r s]
    by (simp add: case_prod_beta prod_eq_iff)
qed

lemma pfx_coord [pfx_iffs]:
  assumes "coord_ok a" "coord_ok b"
  shows "put_coord a @ r = put_coord b @ s \<longleftrightarrow> a = b \<and> r = s"
  using assms
  by (cases a; cases b) (simp add: put_coord_def coord_ok_def pfx_i32 conj_ac del: append_eq_append_conv)

lemma pfx_cuboid [pfx_iffs]:
  "coord_ok (cmin a) \<Longrightarrow> coord_ok (cmax a) \<Longrightarrow> coord_ok (cmin b) \<Longrightarrow> coord_ok (cmax b) \<Longrightarrow>
   put_cuboid a @ r = put_cuboid b @ s \<longleftrightarrow> a = b \<and> r = s"
  by (cases a; cases b) (auto simp: put_cuboid_def pfx_coord)

definition texts_ok :: "string list \<Rightarrow> bool" where
  "texts_ok xs \<longleftrightarrow> length xs < 2 ^ 64 \<and> (\<forall>x \<in> set xs. text_ok x)"

fun building_ok :: "building_kind \<Rightarrow> bool" where
  "building_ok (Workshop v) = text_ok v"
| "building_ok (Furnace v) = text_ok v"
| "building_ok (Furniture v) = text_ok v"
| "building_ok (Construction v) = text_ok v"
| "building_ok (Trap v) = text_ok v"
| "building_ok (CustomBuilding v) = text_ok v"
| "building_ok _ = True"

fun condition_ok :: "work_order_condition \<Rightarrow> bool" where
  "condition_ok (ItemCountBelow token threshold) = text_ok token"
| "condition_ok (MaterialAvailable token minimum) = text_ok token"
| "condition_ok (CompletedOrder name) = text_ok name"

text \<open>What the types of the source guarantee of an action, with identifier lists in normal form.\<close>

fun action_ok :: "action \<Rightarrow> bool" where
  "action_ok (Pause _) = True"
| "action_ok (DesignateDig area _) = (coord_ok (cmin area) \<and> coord_ok (cmax area))"
| "action_ok (Build kind location footprint material) =
     (building_ok kind \<and> coord_ok location \<and> coord_ok (cmin footprint) \<and> coord_ok (cmax footprint) \<and>
      texts_ok (ms_required_tokens material) \<and> texts_ok (ms_forbidden_tokens material))"
| "action_ok (SetLabor units labor _) =
     (normalized_ids units = units \<and> length units < 2 ^ 64 \<and> text_ok labor)"
| "action_ok (CreateWorkOrder name job_token _ conditions) =
     (text_ok name \<and> text_ok job_token \<and> length conditions < 2 ^ 64 \<and> (\<forall>c \<in> set conditions. condition_ok c))"
| "action_ok (ConfigureStockpile _ accepts _ _ _) = texts_ok accepts"
| "action_ok (AssignSquad units _) = (normalized_ids units = units \<and> length units < 2 ^ 64)"
| "action_ok (SetBurrowMembership units _ _) = (normalized_ids units = units \<and> length units < 2 ^ 64)"
| "action_ok (SetStandingOrder key val) = (text_ok key \<and> text_ok val)"
| "action_ok (Extension namespace name parameters) =
     (text_ok namespace \<and> text_ok name \<and> length parameters < 2 ^ 64 \<and>
      (\<forall>e \<in> set parameters. text_ok (fst e) \<and> text_ok (snd e)))"
| "action_ok (PlaceFurniture _ _ location) = coord_ok location"

lemma pfx_ids [pfx_iffs]:
  "normalized_ids a = a \<Longrightarrow> length a < 2 ^ 64 \<Longrightarrow> normalized_ids b = b \<Longrightarrow> length b < 2 ^ 64 \<Longrightarrow>
   put_ids a @ r = put_ids b @ s \<longleftrightarrow> a = b \<and> r = s"
  using prefix_code.split_iff [OF prefix_list [OF strict_prefix [OF strict_u64]], of a b r s] by (simp add: put_ids_def)

lemma pfx_texts [pfx_iffs]:
  "texts_ok a \<Longrightarrow> texts_ok b \<Longrightarrow> put_string_set a @ r = put_string_set b @ s \<longleftrightarrow> a = b \<and> r = s"
  using prefix_code.split_iff [OF prefix_list [OF strict_prefix [OF strict_string]], of a b r s]
  by (simp add: put_string_set_def texts_ok_def)

lemma pfx_option_u32 [pfx_iffs]: "put_option_u32 a @ r = put_option_u32 b @ s \<longleftrightarrow> a = b \<and> r = s"
  using prefix_code.split_iff [OF prefix_option [OF strict_prefix [OF strict_u32]], of a b r s]
  by (simp add: put_option_u32_def)

lemma prefix_condition: "prefix_code put_condition condition_ok"
proof
  show "x = y \<and> r = s" if "condition_ok x" "condition_ok y" "put_condition x @ r = put_condition y @ s" for x y r s
    using that by (cases x; cases y) (simp_all add: pfx_iffs)
qed

lemma pfx_conditions [pfx_iffs]:
  "length a < 2 ^ 64 \<and> (\<forall>c \<in> set a. condition_ok c) \<Longrightarrow> length b < 2 ^ 64 \<and> (\<forall>c \<in> set b. condition_ok c) \<Longrightarrow>
   put_list put_condition a @ r = put_list put_condition b @ s \<longleftrightarrow> a = b \<and> r = s"
  by (rule prefix_code.split_iff [OF prefix_list [OF prefix_condition]])

lemma pfx_parameters [pfx_iffs]:
  "length a < 2 ^ 64 \<and> (\<forall>e \<in> set a. text_ok (fst e) \<and> text_ok (snd e)) \<Longrightarrow>
   length b < 2 ^ 64 \<and> (\<forall>e \<in> set b. text_ok (fst e) \<and> text_ok (snd e)) \<Longrightarrow>
   put_list (\<lambda>(key, val). put_str key @ put_str val) a @ r = put_list (\<lambda>(key, val). put_str key @ put_str val) b @ s
     \<longleftrightarrow> a = b \<and> r = s"
  by (rule prefix_code.split_iff
      [OF prefix_list [OF prefix_pair [OF strict_prefix [OF strict_string] strict_prefix [OF strict_string]]]])
    (auto simp: case_prod_unfold)

lemma pfx_building [pfx_iffs]:
  "building_ok a \<Longrightarrow> building_ok b \<Longrightarrow> put_building_kind a @ r = put_building_kind b @ s \<longleftrightarrow> a = b \<and> r = s"
  by (cases a; cases b) (simp_all add: pfx_iffs)

lemma dig_mode_code_inject: "dig_mode_code a = dig_mode_code b \<longleftrightarrow> a = b"
  by (cases a; cases b) simp_all

lemma furniture_code_inject: "furniture_code a = furniture_code b \<longleftrightarrow> a = b"
  by (cases a; cases b) simp_all

lemma sorted_distinct_adj_strict: "sorted xs \<Longrightarrow> distinct_adj xs \<Longrightarrow> sorted_wrt (<) (xs :: 'a :: linorder list)"
proof (induction xs rule: induct_list012)
  case (3 x y zs)
  then have "sorted_wrt (<) (y # zs)" "x < y" by auto
  then show ?case by auto
qed simp_all

text \<open>Sorting and deduplicating is the ascending enumeration of the set of identifiers.\<close>

lemma normalized_ids_set [simp]: "set (normalized_ids ids) = set ids"
  by (simp add: normalized_ids_def)

lemma distinct_normalized_ids: "distinct (normalized_ids ids) \<and> sorted (normalized_ids ids)"
proof -
  have "sorted (normalized_ids ids)" by (simp add: normalized_ids_def)
  moreover have "distinct_adj (normalized_ids ids)" by (simp add: normalized_ids_def)
  ultimately have "sorted_wrt (<) (normalized_ids ids)"
    by (simp add: sorted_distinct_adj_strict)
  then show ?thesis by (simp add: strict_sorted_iff)
qed

lemma normalized_ids_enumerates: "normalized_ids ids = sorted_list_of_set (set ids)"
  using distinct_normalized_ids [of ids]
  by (metis normalized_ids_set sorted_list_of_set.idem_if_sorted_distinct)

lemma normalized_ids_idem [simp]: "normalized_ids (normalized_ids ids) = normalized_ids ids"
  by (simp add: normalized_ids_enumerates)

text \<open>
  The canonical bytes of an action identify it. Two well-formed actions (identifier lists in
  normal form, texts that are UTF-8 strings) with the same bytes are the same action, so a plan
  digest or an idempotency key computed from the bytes never confuses two different actions before
  hashing.
\<close>
theorem action_bytes_identify:
  assumes "action_ok a" "action_ok b" "enc_action a = enc_action b"
  shows "a = b"
  using assms
  by (cases a; cases b)
    (simp_all add: pfx_iffs pfx_iffs [where r = "[]" and s = "[]", simplified]
      dig_mode_code_inject furniture_code_inject)

lemma action_bytes_identify_witness:
  "enc_action (SetLabor [2, 5] ''MINE'' True) \<noteq> enc_action (SetLabor [2, 5] ''MINE'' False)"
proof
  have ok: "action_ok (SetLabor [2, 5] ''MINE'' e)" for e
    by (simp add: normalized_ids_def text_ok_def utf8_valid_def)
  assume "enc_action (SetLabor [2, 5] ''MINE'' True) = enc_action (SetLabor [2, 5] ''MINE'' False)"
  from action_bytes_identify [OF ok ok this] show False by simp
qed

end
