(* ===== verification/Alert_Fsm.thy ===== *)
theory Alert_Fsm
  imports Actions
begin

text \<open>
  \<^verbatim>\<open>crates/dfmcp-intent/src/alert_fsm.rs\<close>: the civilian alert monitor. Observations are consumed
  one at a time; the monitor proposes lockdown as soon as a threat is present and proposes a
  release only after a sustained clear period. Runs are logged by what each operation did
  (\<open>alert_event\<close>), and the invariant ties the monitor's two counters to the newest events of the
  log, so a release can be traced back to the observations that justify it.
\<close>

definition max_alert_units :: nat where
  "max_alert_units = 512"

datatype threat_level = Peace | Cautious | EmergencyLockdown | Recovering

datatype threat_assessment = Present | Clear | Unknown

record alert_observation =
  ao_anchor :: state_anchor
  ao_source_scope :: digest32
  ao_threat :: threat_assessment
  ao_complete_civilian_roster :: bool

record alert_recovery_policy =
  rp_minimum_clear_ticks :: u64
  rp_minimum_clear_samples :: u32
  rp_maximum_sample_gap_ticks :: u64

definition alert_recovery_policy_default :: alert_recovery_policy where
  "alert_recovery_policy_default =
     \<lparr>rp_minimum_clear_ticks = 100, rp_minimum_clear_samples = 2, rp_maximum_sample_gap_ticks = 100\<rparr>"

record alert_decision =
  ad_anchor :: state_anchor
  ad_source_scope :: digest32
  ad_target_level :: threat_level
  ad_actions :: "action list"
  ad_clear_since :: "game_tick option"
  ad_clear_samples :: u32
  ad_release_ready :: bool

record civilian_alert_fsm =
  fsm_current_level :: threat_level
  fsm_safe_burrow_id :: entity_id
  fsm_military_squad_ids :: "entity_id list"
  fsm_recovery_policy :: alert_recovery_policy
  fsm_last_observation :: "(alert_observation \<times> entity_id list) option"
  fsm_clear_since :: "game_tick option"
  fsm_clear_samples :: u32
  fsm_emergency_seen :: bool

text \<open>The ordered set collected from the roster is its ascending enumeration.\<close>

definition canonical_units :: "entity_id list \<Rightarrow> entity_id list res" where
  "canonical_units units =
     (if length units > max_alert_units then fail BudgetExceeded
      else let unique = normalized_ids units in
        if length unique \<noteq> length units \<or> 0 \<in> set unique then fail InvalidRequest
        else Ok unique)"

definition with_recovery_policy ::
    "entity_id \<Rightarrow> entity_id list \<Rightarrow> alert_recovery_policy \<Rightarrow> civilian_alert_fsm res" where
  "with_recovery_policy safe_burrow_id military_squad_ids recovery_policy =
     (if safe_burrow_id = 0 then fail InvalidRequest
      else and_then (canonical_units military_squad_ids) (\<lambda>squads.
        if \<not> (2 \<le> rp_minimum_clear_samples recovery_policy \<and> rp_minimum_clear_samples recovery_policy \<le> 1024)
          \<or> \<not> (1 \<le> rp_minimum_clear_ticks recovery_policy \<and> rp_minimum_clear_ticks recovery_policy \<le> 1000000)
          \<or> \<not> (1 \<le> rp_maximum_sample_gap_ticks recovery_policy \<and> rp_maximum_sample_gap_ticks recovery_policy \<le> 1000000)
        then fail InvalidRequest
        else Ok \<lparr>fsm_current_level = Peace, fsm_safe_burrow_id = safe_burrow_id,
                 fsm_military_squad_ids = squads, fsm_recovery_policy = recovery_policy,
                 fsm_last_observation = None, fsm_clear_since = None, fsm_clear_samples = 0,
                 fsm_emergency_seen = False\<rparr>))"

definition civilian_alert_fsm_new :: "entity_id \<Rightarrow> entity_id list \<Rightarrow> civilian_alert_fsm res" where
  "civilian_alert_fsm_new safe_burrow_id military_squad_ids =
     with_recovery_policy safe_burrow_id military_squad_ids alert_recovery_policy_default"

definition protection_actions :: "civilian_alert_fsm \<Rightarrow> entity_id list \<Rightarrow> bool \<Rightarrow> action list" where
  "protection_actions f civilians assigned =
     (if civilians \<noteq> [] then [SetBurrowMembership civilians (fsm_safe_burrow_id f) assigned] else []) @
     [SetStandingOrder ''CIVILIAN_BURROW_RESTRICTION'' (if assigned then ''ACTIVE'' else ''INACTIVE'')]"

definition transition_to ::
    "civilian_alert_fsm \<Rightarrow> threat_level \<Rightarrow> entity_id list \<Rightarrow> action list res" where
  "transition_to f new_level civilian_ids =
     and_then (canonical_units civilian_ids) (\<lambda>civilians.
       if fsm_current_level f = new_level then Ok []
       else if civilians = [] then fail InvalidRequest
       else if new_level = EmergencyLockdown
         \<or> fsm_current_level f = EmergencyLockdown \<and> new_level = Recovering
       then Ok (protection_actions f civilians True)
       else if fsm_current_level f \<in> {EmergencyLockdown, Recovering} \<and> new_level = Peace
       then Ok (protection_actions f civilians False)
       else Ok [])"

definition reset_clearance :: "civilian_alert_fsm \<Rightarrow> civilian_alert_fsm" where
  "reset_clearance f = f\<lparr>fsm_clear_since := None, fsm_clear_samples := 0\<rparr>"

definition alert_protected :: "civilian_alert_fsm \<Rightarrow> bool" where
  "alert_protected f \<longleftrightarrow>
     fsm_emergency_seen f \<or> fsm_current_level f \<in> {EmergencyLockdown, Recovering}"

definition alert_release_ready :: "civilian_alert_fsm \<Rightarrow> alert_observation \<Rightarrow> bool" where
  "alert_release_ready f observation \<longleftrightarrow>
     ao_threat observation = Clear \<and> ao_complete_civilian_roster observation \<and>
     fsm_clear_samples f \<ge> rp_minimum_clear_samples (fsm_recovery_policy f) \<and>
     (case fsm_clear_since f of
        None \<Rightarrow> False
      | Some since \<Rightarrow> saturating_sub (sa_tick (ao_anchor observation)) since
          \<ge> rp_minimum_clear_ticks (fsm_recovery_policy f))"

definition alert_target :: "bool \<Rightarrow> bool \<Rightarrow> threat_assessment \<Rightarrow> threat_level" where
  "alert_target protected release_ready threat =
     (case threat of
        Present \<Rightarrow> EmergencyLockdown
      | Unknown \<Rightarrow> (if protected then EmergencyLockdown else Cautious)
      | Clear \<Rightarrow> (if protected \<and> \<not> release_ready then Recovering else Peace))"

definition decision :: "civilian_alert_fsm \<Rightarrow> alert_observation \<Rightarrow> entity_id list \<Rightarrow> alert_decision" where
  "decision f observation civilians =
     (let protected = alert_protected f;
          release_ready = alert_release_ready f observation;
          target_level = alert_target protected release_ready (ao_threat observation);
          actions =
            (case target_level of
               EmergencyLockdown \<Rightarrow> protection_actions f civilians True
             | Recovering \<Rightarrow> protection_actions f civilians True
             | Peace \<Rightarrow> (if protected \<and> release_ready then protection_actions f civilians False else [])
             | Cautious \<Rightarrow> [])
      in \<lparr>ad_anchor = ao_anchor observation, ad_source_scope = ao_source_scope observation,
          ad_target_level = target_level, ad_actions = actions,
          ad_clear_since = fsm_clear_since f, ad_clear_samples = fsm_clear_samples f,
          ad_release_ready = release_ready\<rparr>)"

text \<open>The continuity test of an observation against the previous one.\<close>

definition observation_continuous ::
    "alert_recovery_policy \<Rightarrow> alert_observation \<Rightarrow> entity_id list \<Rightarrow> alert_observation \<Rightarrow> entity_id list \<Rightarrow> bool" where
  "observation_continuous policy previous previous_civilians observation civilians \<longleftrightarrow>
     (let anchor = ao_anchor observation; prior = ao_anchor previous in
      cursor_checked_next (sa_cursor prior) = Some (sa_cursor anchor) \<and>
      sa_tick anchor > sa_tick prior \<and>
      sa_tick anchor - sa_tick prior \<le> rp_maximum_sample_gap_ticks policy \<and>
      ao_source_scope observation = ao_source_scope previous \<and>
      civilians = previous_civilians \<and>
      ao_complete_civilian_roster previous)"

definition count_threat :: "civilian_alert_fsm \<Rightarrow> alert_observation \<Rightarrow> civilian_alert_fsm" where
  "count_threat f observation =
     (case ao_threat observation of
        Present \<Rightarrow> reset_clearance (f\<lparr>fsm_emergency_seen := True\<rparr>)
      | Clear \<Rightarrow>
          if ao_complete_civilian_roster observation
          then f\<lparr>fsm_clear_since :=
                   (case fsm_clear_since f of None \<Rightarrow> Some (sa_tick (ao_anchor observation)) | Some t \<Rightarrow> Some t),
                 fsm_clear_samples := saturating_add (fsm_clear_samples f) 1\<rparr>
          else reset_clearance f
      | Unknown \<Rightarrow> reset_clearance f)"

definition absorb_observation ::
    "civilian_alert_fsm \<Rightarrow> bool \<Rightarrow> alert_observation \<Rightarrow> entity_id list \<Rightarrow> civilian_alert_fsm \<times> alert_decision res" where
  "absorb_observation f continuous observation civilians =
     (let f = (if continuous then f else reset_clearance f);
          f = count_threat f observation;
          decided = decision f observation civilians
      in (f\<lparr>fsm_last_observation := Some (observation, civilians)\<rparr>, Ok decided))"

definition accept_observation ::
    "civilian_alert_fsm \<Rightarrow> alert_observation \<Rightarrow> entity_id list \<Rightarrow> civilian_alert_fsm \<times> alert_decision res" where
  "accept_observation f observation civilian_ids =
     (case canonical_units civilian_ids of
        Err e \<Rightarrow> (f, Err e)
      | Ok civilians \<Rightarrow>
          if sa_fortress_id (ao_anchor observation) = 0
            \<or> sa_state_hash (ao_anchor observation) = digest_zero
            \<or> ao_source_scope observation = digest_zero
          then (f, fail InvalidRequest)
          else
            (case fsm_last_observation f of
               None \<Rightarrow> absorb_observation f False observation civilians
             | Some (previous, previous_civilians) \<Rightarrow>
                 if sa_fortress_id (ao_anchor observation) \<noteq> sa_fortress_id (ao_anchor previous)
                 then (f, fail InvalidRequest)
                 else if observation = previous \<and> civilians = previous_civilians
                 then let f = (if ao_threat observation = Present then f\<lparr>fsm_emergency_seen := True\<rparr> else f)
                      in (f, Ok (decision f observation civilians))
                 else if sa_cursor (ao_anchor observation) \<le> sa_cursor (ao_anchor previous)
                   \<or> cur_epoch (sa_cursor (ao_anchor observation)) = cur_epoch (sa_cursor (ao_anchor previous))
                     \<and> sa_tick (ao_anchor observation) < sa_tick (ao_anchor previous)
                 then (f, fail InvalidRequest)
                 else absorb_observation f
                        (observation_continuous (fsm_recovery_policy f) previous previous_civilians
                           observation civilians)
                        observation civilians))"

definition plan_observation ::
    "civilian_alert_fsm \<Rightarrow> alert_observation \<Rightarrow> entity_id list \<Rightarrow> civilian_alert_fsm \<times> alert_decision res" where
  "plan_observation f observation civilian_ids =
     (case accept_observation f observation civilian_ids of
        (f', Ok d) \<Rightarrow> (f', Ok d)
      | (f', Err e) \<Rightarrow> (reset_clearance f', Err e))"

definition confirm_observed_level :: "civilian_alert_fsm \<Rightarrow> threat_level \<Rightarrow> civilian_alert_fsm" where
  "confirm_observed_level f observed_level =
     (let was_protected = fsm_current_level f \<in> {EmergencyLockdown, Recovering};
          f = (if observed_level \<in> {EmergencyLockdown, Recovering}
               then (if was_protected then f\<lparr>fsm_emergency_seen := True\<rparr>
                     else reset_clearance (f\<lparr>fsm_emergency_seen := True\<rparr>))
               else f);
          f = f\<lparr>fsm_current_level := observed_level\<rparr>
      in if observed_level = Peace then reset_clearance (f\<lparr>fsm_emergency_seen := False\<rparr>) else f)"

subsection \<open>Runs and their log\<close>

datatype alert_op = Observe alert_observation "entity_id list" | Confirm threat_level

datatype alert_event =
    Fresh alert_observation "entity_id list"
  | Replayed
  | Refused
  | Confirmed threat_level

primrec alert_exec :: "civilian_alert_fsm \<Rightarrow> alert_op \<Rightarrow> civilian_alert_fsm" where
  "alert_exec f (Observe observation civilian_ids) = fst (plan_observation f observation civilian_ids)"
| "alert_exec f (Confirm level) = confirm_observed_level f level"

text \<open>What an operation did: an observation that becomes the last observation is fresh.\<close>

primrec alert_event_of :: "civilian_alert_fsm \<Rightarrow> alert_op \<Rightarrow> alert_event" where
  "alert_event_of f (Observe observation civilian_ids) =
     (case plan_observation f observation civilian_ids of
        (f', Err e) \<Rightarrow> Refused
      | (f', Ok d) \<Rightarrow>
          (case fsm_last_observation f' of
             Some (o', r') \<Rightarrow> if fsm_last_observation f' = fsm_last_observation f then Replayed else Fresh o' r'
           | None \<Rightarrow> Refused))"
| "alert_event_of f (Confirm level) = Confirmed level"

text \<open>The log has the newest event first.\<close>

definition alert_step :: "civilian_alert_fsm \<times> alert_event list \<Rightarrow> alert_op \<Rightarrow> civilian_alert_fsm \<times> alert_event list" where
  "alert_step s op = (alert_exec (fst s) op, alert_event_of (fst s) op # snd s)"

fun fresh_observations :: "alert_event list \<Rightarrow> (alert_observation \<times> entity_id list) list" where
  "fresh_observations [] = []"
| "fresh_observations (Fresh ob roster # es) = (ob, roster) # fresh_observations es"
| "fresh_observations (_ # es) = fresh_observations es"

definition breaks_clearance :: "alert_event \<Rightarrow> bool" where
  "breaks_clearance e \<longleftrightarrow> e = Refused \<or> e = Confirmed Peace"

definition observed_clear :: "alert_observation \<Rightarrow> bool" where
  "observed_clear ob \<longleftrightarrow> ao_threat ob = Clear \<and> ao_complete_civilian_roster ob"

text \<open>Nonempty, newest first: clear, complete, and each continuing the one before it.\<close>

fun clear_chain :: "alert_recovery_policy \<Rightarrow> (alert_observation \<times> entity_id list) list \<Rightarrow> bool" where
  "clear_chain p [] = False"
| "clear_chain p [(ob, roster)] = observed_clear ob"
| "clear_chain p ((ob, roster) # (ob', roster') # xs) =
     (observed_clear ob \<and> observation_continuous p ob' roster' ob roster \<and> clear_chain p ((ob', roster') # xs))"

definition sustained_clear :: "alert_recovery_policy \<Rightarrow> alert_event list \<Rightarrow> nat \<Rightarrow> game_tick \<Rightarrow> bool" where
  "sustained_clear p log n since \<longleftrightarrow>
     (\<exists>k. (\<forall>e \<in> set (take k log). \<not> breaks_clearance e) \<and>
          clear_chain p (fresh_observations (take k log)) \<and>
          n \<le> length (fresh_observations (take k log)) \<and>
          since = sa_tick (ao_anchor (fst (last (fresh_observations (take k log))))))"

definition alert_inv :: "civilian_alert_fsm \<times> alert_event list \<Rightarrow> bool" where
  "alert_inv s \<longleftrightarrow>
     (case s of (f, log) \<Rightarrow>
        fsm_last_observation f = (case fresh_observations log of [] \<Rightarrow> None | x # _ \<Rightarrow> Some x) \<and>
        (case fsm_clear_since f of
           None \<Rightarrow> fsm_clear_samples f = 0
         | Some t \<Rightarrow> sustained_clear (fsm_recovery_policy f) log (unat (fsm_clear_samples f)) t))"

definition alert_init :: "civilian_alert_fsm \<times> alert_event list \<Rightarrow> bool" where
  "alert_init s \<longleftrightarrow> (\<exists>b squads p. with_recovery_policy b squads p = Ok (fst s)) \<and> snd s = []"

definition alert_next :: "civilian_alert_fsm \<times> alert_event list \<Rightarrow> civilian_alert_fsm \<times> alert_event list \<Rightarrow> bool" where
  "alert_next s t \<longleftrightarrow> (\<exists>op. t = alert_step s op)"

subsection \<open>What the operations change\<close>

named_theorems alert_simps \<open>effects of the monitor's operations on its fields\<close>

lemma reset_clearance_fields [alert_simps]:
  "fsm_clear_since (reset_clearance f) = None" "fsm_clear_samples (reset_clearance f) = 0"
  "fsm_last_observation (reset_clearance f) = fsm_last_observation f"
  "fsm_recovery_policy (reset_clearance f) = fsm_recovery_policy f"
  "fsm_emergency_seen (reset_clearance f) = fsm_emergency_seen f"
  "fsm_current_level (reset_clearance f) = fsm_current_level f"
  "fsm_safe_burrow_id (reset_clearance f) = fsm_safe_burrow_id f"
  by (simp_all add: reset_clearance_def)

lemma count_threat_fields [alert_simps]:
  "fsm_last_observation (count_threat f ob) = fsm_last_observation f"
  "fsm_recovery_policy (count_threat f ob) = fsm_recovery_policy f"
  "fsm_emergency_seen (count_threat f ob) \<longleftrightarrow> fsm_emergency_seen f \<or> ao_threat ob = Present"
  "fsm_clear_since (count_threat f ob) =
     (if observed_clear ob then Some (case fsm_clear_since f of None \<Rightarrow> sa_tick (ao_anchor ob) | Some t \<Rightarrow> t) else None)"
  "fsm_clear_samples (count_threat f ob) = (if observed_clear ob then saturating_add (fsm_clear_samples f) 1 else 0)"
  by (auto simp: count_threat_def observed_clear_def alert_simps split: threat_assessment.splits option.splits)

lemma decision_last_observation [alert_simps]:
  "decision (f\<lparr>fsm_last_observation := x\<rparr>) ob r = decision f ob r"
proof -
  have "alert_protected (f\<lparr>fsm_last_observation := x\<rparr>) = alert_protected f"
    "alert_release_ready (f\<lparr>fsm_last_observation := x\<rparr>) ob = alert_release_ready f ob"
    "protection_actions (f\<lparr>fsm_last_observation := x\<rparr>) r b = protection_actions f r b" for b
    by (simp_all add: alert_protected_def alert_release_ready_def protection_actions_def split: option.splits)
  then show ?thesis by (auto simp: decision_def Let_def split: threat_level.splits)
qed

text \<open>The three outcomes of an observation: refused, replayed, or absorbed.\<close>

lemma plan_observation_cases:
  obtains (refused) e where "plan_observation f ob ids = (reset_clearance f, Err e)"
  | (replayed) roster f' where "canonical_units ids = Ok roster" "fsm_last_observation f = Some (ob, roster)"
      "f' = f\<lparr>fsm_emergency_seen := fsm_emergency_seen f \<or> ao_threat ob = Present\<rparr>"
      "plan_observation f ob ids = (f', Ok (decision f' ob roster))"
  | (absorbed) roster c where "canonical_units ids = Ok roster" "fsm_last_observation f \<noteq> Some (ob, roster)"
      "plan_observation f ob ids = absorb_observation f c ob roster"
      "c \<Longrightarrow> \<exists>ob' roster'. fsm_last_observation f = Some (ob', roster') \<and>
         observation_continuous (fsm_recovery_policy f) ob' roster' ob roster"
proof (cases "plan_observation f ob ids")
  case (Pair f' r)
  consider (err) e where "r = Err e" | (ok) d where "r = Ok d" by (cases r)
  then show thesis
  proof cases
    case err
    have "f' = reset_clearance f"
      using Pair unfolding err plan_observation_def accept_observation_def absorb_observation_def Let_def
      by (auto split: result.splits if_splits option.splits prod.splits)
    then show thesis using that(1) Pair err by simp
  next
    case ok
    then obtain roster where roster: "canonical_units ids = Ok roster"
      using Pair by (cases "canonical_units ids") (auto simp: plan_observation_def accept_observation_def)
    show thesis
    proof (cases "fsm_last_observation f = Some (ob, roster)")
      case True
      have "f\<lparr>fsm_emergency_seen := fsm_emergency_seen f\<rparr> = f" by simp
      then show thesis
        using that(2) [OF roster True refl] Pair ok roster True
        by (auto simp: plan_observation_def accept_observation_def Let_def fail_def split: if_splits)
    next
      case False
      show thesis
      proof (cases "fsm_last_observation f")
        case None
        then show thesis
          using that(3) [OF roster False, of False] Pair ok roster
          by (auto simp: plan_observation_def accept_observation_def absorb_observation_def Let_def fail_def split: if_splits)
      next
        case (Some p)
        then show thesis
          using that(3) [OF roster False, of "observation_continuous (fsm_recovery_policy f) (fst p) (snd p) ob roster"]
            Pair ok roster False
          by (cases p) (auto simp: plan_observation_def accept_observation_def absorb_observation_def Let_def fail_def split: if_splits)
      qed
    qed
  qed
qed

lemma absorb_observation_fields [alert_simps]:
  assumes "absorb_observation f c ob roster = (f', r)"
  shows "fsm_last_observation f' = Some (ob, roster)"
    and "fsm_recovery_policy f' = fsm_recovery_policy f"
    and "fsm_emergency_seen f' \<longleftrightarrow> fsm_emergency_seen f \<or> ao_threat ob = Present"
    and "fsm_clear_since f' = (if observed_clear ob
           then Some (case (if c then fsm_clear_since f else None) of None \<Rightarrow> sa_tick (ao_anchor ob) | Some t \<Rightarrow> t)
           else None)"
    and "fsm_clear_samples f' = (if observed_clear ob
           then saturating_add (if c then fsm_clear_samples f else 0) 1 else 0)"
    and "r = Ok (decision f' ob roster)"
  using assms by (cases c; auto simp: absorb_observation_def Let_def alert_simps)+

lemma plan_observation_Ok:
  assumes "plan_observation f ob ids = (f', Ok d)"
  obtains roster where "canonical_units ids = Ok roster" "fsm_last_observation f' = Some (ob, roster)"
    "d = decision f' ob roster" "fsm_emergency_seen f' \<longleftrightarrow> fsm_emergency_seen f \<or> ao_threat ob = Present"
    "fsm_recovery_policy f' = fsm_recovery_policy f"
proof (cases rule: plan_observation_cases [of f ob ids])
  case (absorbed roster c)
  then show thesis using that [OF absorbed(1)] absorb_observation_fields [of f c ob roster f' "Ok d"] assms by auto
qed (use assms that in auto)

lemma fresh_observations_append:
  "fresh_observations (es @ es') = fresh_observations es @ fresh_observations es'"
  by (induction es rule: fresh_observations.induct) auto

lemma fresh_hd_take:
  "fresh_observations (take k log) \<noteq> [] \<Longrightarrow>
   \<exists>xs. fresh_observations log = hd (fresh_observations (take k log)) # xs"
  using fresh_observations_append [of "take k log" "drop k log"]
  by (cases "fresh_observations (take k log)") auto

lemma clear_chain_nonempty [dest]: "clear_chain p xs \<Longrightarrow> xs \<noteq> []"
  by auto

lemma sustained_clear_skip:
  assumes "sustained_clear p log n since" "\<not> breaks_clearance e" "fresh_observations [e] = []"
  shows "sustained_clear p (e # log) n since"
proof -
  have skip: "fresh_observations (e # es) = fresh_observations es" for es
    using assms(3) fresh_observations_append [of "[e]" es] by simp
  obtain k where "(\<forall>e \<in> set (take k log). \<not> breaks_clearance e)"
    "clear_chain p (fresh_observations (take k log))" "n \<le> length (fresh_observations (take k log))"
    "since = sa_tick (ao_anchor (fst (last (fresh_observations (take k log)))))"
    using assms(1) by (auto simp: sustained_clear_def)
  then show ?thesis
    unfolding sustained_clear_def using assms(2) by (intro exI [of _ "Suc k"]) (simp add: skip)
qed

lemma sustained_clear_extend:
  assumes "sustained_clear p log n since" "observed_clear ob"
    and "\<exists>xs. fresh_observations log = (ob', roster') # xs" "observation_continuous p ob' roster' ob roster"
  shows "sustained_clear p (Fresh ob roster # log) (Suc n) since"
proof -
  obtain k where k: "(\<forall>e \<in> set (take k log). \<not> breaks_clearance e)"
    "clear_chain p (fresh_observations (take k log))" "n \<le> length (fresh_observations (take k log))"
    "since = sa_tick (ao_anchor (fst (last (fresh_observations (take k log)))))"
    using assms(1) by (auto simp: sustained_clear_def)
  then obtain x xs where xs: "fresh_observations (take k log) = x # xs"
    by (cases "fresh_observations (take k log)") auto
  moreover have "x = (ob', roster')" using fresh_hd_take [of k log] xs assms(3) by auto
  ultimately show ?thesis
    unfolding sustained_clear_def using k assms(2,4)
    by (intro exI [of _ "Suc k"]) (simp add: breaks_clearance_def)
qed

lemma sustained_clear_start:
  "observed_clear ob \<Longrightarrow> n \<le> 1 \<Longrightarrow> sustained_clear p (Fresh ob roster # log) n (sa_tick (ao_anchor ob))"
  unfolding sustained_clear_def by (intro exI [of _ 1]) (simp add: breaks_clearance_def)

lemma sustained_clear_mono: "sustained_clear p log n since \<Longrightarrow> m \<le> n \<Longrightarrow> sustained_clear p log m since"
  unfolding sustained_clear_def by (elim exE) (rule exI, auto)

lemma alert_inv_observe:
  assumes inv: "alert_inv (f, log)"
  shows "alert_inv (alert_step (f, log) (Observe ob ids))"
proof (cases rule: plan_observation_cases [of f ob ids])
  case (refused e)
  then show ?thesis using inv by (simp add: alert_inv_def alert_step_def alert_simps)
next
  case (replayed roster f')
  then show ?thesis
    using inv sustained_clear_skip [of "fsm_recovery_policy f" log _ _ Replayed]
    by (auto simp: alert_inv_def alert_step_def breaks_clearance_def split: option.splits)
next
  case (absorbed roster c)
  obtain f' r where f': "absorb_observation f c ob roster = (f', r)" by fastforce
  note fields = absorb_observation_fields [OF f']
  have event: "alert_event_of f (Observe ob ids) = Fresh ob roster"
    using absorbed f' fields by simp
  have "sustained_clear (fsm_recovery_policy f) (Fresh ob roster # log) (unat (fsm_clear_samples f')) t"
    if t: "fsm_clear_since f' = Some t" for t
  proof (cases "c \<and> fsm_clear_since f \<noteq> None")
    case True
    have clear: "observed_clear ob" using t fields(4) by (simp split: if_splits)
    obtain ob' roster' where last: "fsm_last_observation f = Some (ob', roster')"
      and cont: "observation_continuous (fsm_recovery_policy f) ob' roster' ob roster"
      using absorbed(4) True by blast
    have sus: "sustained_clear (fsm_recovery_policy f) log (unat (fsm_clear_samples f)) t"
      using inv True t fields(4) clear by (auto simp: alert_inv_def)
    have newest: "\<exists>xs. fresh_observations log = (ob', roster') # xs"
      using inv last by (cases "fresh_observations log") (auto simp: alert_inv_def)
    have "unat (fsm_clear_samples f') \<le> Suc (unat (fsm_clear_samples f))"
      using fields(5) clear True by (simp add: unat_saturating_add)
    then show ?thesis using sustained_clear_extend [OF sus clear newest cont] sustained_clear_mono by blast
  next
    case False
    then have "observed_clear ob" "t = sa_tick (ao_anchor ob)" "unat (fsm_clear_samples f') \<le> 1"
      using inv t fields(4,5) by (auto simp: alert_inv_def unat_saturating_add split: if_splits)
    then show ?thesis by (simp add: sustained_clear_start)
  qed
  moreover have "fsm_clear_since f' = None \<Longrightarrow> fsm_clear_samples f' = 0"
    using fields(4,5) by (simp split: if_splits)
  ultimately show ?thesis
    using event absorbed f' fields by (auto simp: alert_inv_def alert_step_def split: option.splits)
qed

lemma alert_inv_confirm:
  assumes inv: "alert_inv (f, log)"
  shows "alert_inv (alert_step (f, log) (Confirm level))"
proof (cases "level = Peace")
  case True
  then show ?thesis
    using inv by (simp add: alert_inv_def alert_step_def confirm_observed_level_def alert_simps Let_def)
next
  case False
  then have "\<not> breaks_clearance (Confirmed level)" by (simp add: breaks_clearance_def)
  then show ?thesis
    using inv False sustained_clear_skip [of "fsm_recovery_policy f" log _ _ "Confirmed level"]
    by (auto simp: alert_inv_def alert_step_def confirm_observed_level_def alert_simps Let_def split: option.splits)
qed

interpretation alert_monitor: invariant_system alert_init alert_next alert_inv
proof
  show "alert_inv s" if "alert_init s" for s
    using that by (cases s) (auto simp: alert_init_def alert_inv_def with_recovery_policy_def
      split: if_splits)
  show "alert_inv t" if "alert_inv s" "alert_next s t" for s t
    using that alert_inv_observe alert_inv_confirm by (cases s) (metis alert_next_def alert_op.exhaust)
qed

text \<open>
  C24: A release is proposed only after a sustained clear period. When the monitor, in any state it
  can reach, answers an observation with \<^verbatim>\<open>release_ready\<close>, the newest events of its log contain no
  refusal and no confirmed peace, and the observations absorbed during them are at least the
  configured number of samples, all clear with a complete roster, each the direct successor of the
  one before it within the permitted gap and for the same source and roster; they end in the
  answered observation and span at least the configured number of ticks.
\<close>
theorem release_needs_sustained_clearance:
  assumes "reach alert_init alert_next (f, log)"
    and "plan_observation f ob ids = (f', Ok d)" and "ad_release_ready d"
  shows "\<exists>k. let events = take k (alert_event_of f (Observe ob ids) # log);
                 samples = fresh_observations events; policy = fsm_recovery_policy f
             in Refused \<notin> set events \<and> Confirmed Peace \<notin> set events \<and>
                clear_chain policy samples \<and> fst (hd samples) = ob \<and>
                unat (rp_minimum_clear_samples policy) \<le> length samples \<and>
                unat (rp_minimum_clear_ticks policy) \<le>
                  unat (sa_tick (ao_anchor ob)) - unat (sa_tick (ao_anchor (fst (last samples))))"
proof -
  define log' where "log' = alert_event_of f (Observe ob ids) # log"
  have "alert_next (f, log) (f', log')"
    unfolding alert_next_def log'_def using assms(2) by (intro exI [of _ "Observe ob ids"]) (simp add: alert_step_def)
  then have "alert_inv (f', log')" using assms(1) alert_monitor.reach_inv reach_step by metis
  moreover obtain roster where roster: "fsm_last_observation f' = Some (ob, roster)" "d = decision f' ob roster"
    and policy: "fsm_recovery_policy f' = fsm_recovery_policy f"
    using assms(2) by (rule plan_observation_Ok)
  moreover obtain since where since: "fsm_clear_since f' = Some since"
    "rp_minimum_clear_samples (fsm_recovery_policy f) \<le> fsm_clear_samples f'"
    "rp_minimum_clear_ticks (fsm_recovery_policy f) \<le> saturating_sub (sa_tick (ao_anchor ob)) since"
    using assms(3) roster(2) policy
    by (auto simp: decision_def Let_def alert_release_ready_def split: option.splits)
  ultimately obtain k where k: "\<forall>e \<in> set (take k log'). \<not> breaks_clearance e"
      "clear_chain (fsm_recovery_policy f) (fresh_observations (take k log'))"
      "unat (fsm_clear_samples f') \<le> length (fresh_observations (take k log'))"
      "since = sa_tick (ao_anchor (fst (last (fresh_observations (take k log')))))"
    and newest: "\<exists>xs. fresh_observations log' = (ob, roster) # xs"
    by (auto simp: alert_inv_def sustained_clear_def split: list.splits)
  have "fst (hd (fresh_observations (take k log'))) = ob"
    using fresh_hd_take [OF clear_chain_nonempty [OF k(2)]] newest by (metis fst_conv list.inject)
  moreover have "unat (rp_minimum_clear_ticks (fsm_recovery_policy f)) \<le> unat (sa_tick (ao_anchor ob)) - unat since"
    using since(3) by (auto simp: saturating_sub_def word_le_nat_alt unat_sub split: if_splits)
  moreover have "unat (rp_minimum_clear_samples (fsm_recovery_policy f)) \<le> length (fresh_observations (take k log'))"
    using since(2) k(3) by (simp add: word_le_nat_alt)
  ultimately show ?thesis
    using k unfolding log'_def by (intro exI [of _ k]) (auto simp only: Let_def breaks_clearance_def)
qed

definition sample_monitor :: civilian_alert_fsm where
  "sample_monitor =
     \<lparr>fsm_current_level = Peace, fsm_safe_burrow_id = 7, fsm_military_squad_ids = [],
      fsm_recovery_policy = alert_recovery_policy_default, fsm_last_observation = None,
      fsm_clear_since = None, fsm_clear_samples = 0, fsm_emergency_seen = False\<rparr>"

definition sample_clear :: "u64 \<Rightarrow> alert_observation" where
  "sample_clear i =
     \<lparr>ao_anchor = \<lparr>sa_fortress_id = 1, sa_cursor = ObservationCursor 1 i, sa_tick = 100 * i,
                    sa_state_hash = replicate 32 1\<rparr>,
      ao_source_scope = replicate 32 2, ao_threat = Clear, ao_complete_civilian_roster = True\<rparr>"

lemmas sample_evals =
  plan_observation_def accept_observation_def absorb_observation_def canonical_units_def max_alert_units_def
  normalized_ids_def sample_clear_def sample_monitor_def count_threat_def reset_clearance_def decision_def
  alert_release_ready_def alert_recovery_policy_default_def observation_continuous_def digest_zero_def
  cursor_checked_next_def checked_add_def saturating_add_def saturating_sub_def
  less_eq_observation_cursor_def less_observation_cursor_def Let_def

lemma release_needs_sustained_clearance_witness:
  "\<exists>f log f' d. plan_observation f (sample_clear 2) [3] = (f', Ok d) \<and> ad_release_ready d \<and>
     (\<exists>k. 2 \<le> length (fresh_observations (take k (alert_event_of f (Observe (sample_clear 2) [3]) # log))))"
proof -
  define f where "f = fst (plan_observation sample_monitor (sample_clear 1) [3])"
  have "alert_init (sample_monitor, [])"
    unfolding alert_init_def
    by (simp, intro exI [of _ 7] exI [of _ "[]"] exI [of _ alert_recovery_policy_default]) code_simp
  moreover have "alert_next (sample_monitor, []) (f, [alert_event_of sample_monitor (Observe (sample_clear 1) [3])])"
    unfolding alert_next_def by (rule exI [of _ "Observe (sample_clear 1) [3]"]) (simp add: alert_step_def f_def)
  ultimately have "reach alert_init alert_next (f, [alert_event_of sample_monitor (Observe (sample_clear 1) [3])])"
    by (meson reach.intros)
  moreover have "case snd (plan_observation f (sample_clear 2) [3]) of Ok d \<Rightarrow> ad_release_ready d | Err _ \<Rightarrow> False"
    unfolding f_def by (simp add: sample_evals)
  then have "\<exists>f' d. plan_observation f (sample_clear 2) [3] = (f', Ok d) \<and> ad_release_ready d"
    by (cases "plan_observation f (sample_clear 2) [3]") (auto split: result.splits)
  moreover have "fsm_recovery_policy f = alert_recovery_policy_default" unfolding f_def by (simp add: sample_evals)
  ultimately show ?thesis
    using release_needs_sustained_clearance
    by (fastforce simp: Let_def alert_recovery_policy_default_def)
qed

lemma emergency_latch_exec:
  "fsm_emergency_seen f \<Longrightarrow> Confirm Peace \<noteq> op \<Longrightarrow> fsm_emergency_seen (alert_exec f op)"
proof (cases op)
  case (Observe ob ids)
  assume "fsm_emergency_seen f"
  then show ?thesis
    unfolding Observe alert_exec.simps
    by (cases rule: plan_observation_cases [of f ob ids])
      (auto simp: reset_clearance_fields absorb_observation_fields(3) [OF surjective_pairing])
qed (auto simp: confirm_observed_level_def alert_simps Let_def)

lemma emergency_latch_run:
  "fsm_emergency_seen f \<Longrightarrow> Confirm Peace \<notin> set ops \<Longrightarrow> fsm_emergency_seen (foldl alert_exec f ops)"
  by (induction ops arbitrary: f) (auto intro: emergency_latch_exec)

lemma protected_decision:
  assumes "fsm_emergency_seen f" "\<not> ad_release_ready (decision f ob roster)"
  shows "ad_target_level (decision f ob roster) \<in> {EmergencyLockdown, Recovering}"
    and "ad_actions (decision f ob roster) = protection_actions f roster True"
  using assms
  by (auto simp: decision_def Let_def alert_target_def alert_protected_def split: threat_assessment.splits)

text \<open>
  C25: Protection outlives the threat. Once an observation with a present threat is accepted, and
  until an observed peace is confirmed, every later accepted observation is answered with lockdown or
  recovery and with the proposal to keep its whole roster in the safe burrow, unless the answer is a
  ready release; refused observations, replays, unknown assessments and other confirmations change
  nothing about this.
\<close>
theorem protection_outlives_threat:
  assumes "plan_observation f ob ids = (f1, Ok d)" and "ao_threat ob = Present"
    and "Confirm Peace \<notin> set ops"
    and "plan_observation (foldl alert_exec f1 ops) ob2 ids2 = (f2, Ok d2)"
    and "\<not> ad_release_ready d2"
  shows "ad_target_level d2 \<in> {EmergencyLockdown, Recovering} \<and>
         (\<exists>roster. set roster = set ids2 \<and> ad_actions d2 = protection_actions f2 roster True)"
proof -
  have "fsm_emergency_seen f1" using assms(1,2) by (auto elim: plan_observation_Ok)
  then have "fsm_emergency_seen (foldl alert_exec f1 ops)" using assms(3) by (rule emergency_latch_run)
  moreover obtain roster where "canonical_units ids2 = Ok roster" "d2 = decision f2 ob2 roster"
    and "fsm_emergency_seen f2 \<longleftrightarrow> fsm_emergency_seen (foldl alert_exec f1 ops) \<or> ao_threat ob2 = Present"
    using assms(4) by (rule plan_observation_Ok)
  moreover from this(1) have "set roster = set ids2"
    by (auto simp: canonical_units_def Let_def split: if_splits)
  ultimately show ?thesis using protected_decision assms(5) by auto
qed

lemma protection_outlives_threat_witness:
  "\<exists>f1 d f2 d2. plan_observation sample_monitor ((sample_clear 1)\<lparr>ao_threat := Present\<rparr>) [3] = (f1, Ok d) \<and>
     plan_observation (foldl alert_exec f1 [Observe (sample_clear 1) [0]]) (sample_clear 2) [4, 3] = (f2, Ok d2) \<and>
     ad_target_level d2 \<in> {EmergencyLockdown, Recovering}"
proof -
  define ob where "ob = (sample_clear 1)\<lparr>ao_threat := Present\<rparr>"
  define f1 where "f1 = fst (plan_observation sample_monitor ob [3])"
  define f2 where "f2 = foldl alert_exec f1 [Observe (sample_clear 1) [0]]"
  have "case snd (plan_observation f2 (sample_clear 2) [4, 3]) of Ok d2 \<Rightarrow> \<not> ad_release_ready d2 | Err _ \<Rightarrow> False"
    unfolding f2_def f1_def ob_def by (simp add: sample_evals fail_def)
  then obtain f3 d2 where d2: "plan_observation f2 (sample_clear 2) [4, 3] = (f3, Ok d2)" "\<not> ad_release_ready d2"
    by (cases "plan_observation f2 (sample_clear 2) [4, 3]") (auto split: result.splits)
  have "case snd (plan_observation sample_monitor ob [3]) of Ok d \<Rightarrow> True | Err _ \<Rightarrow> False"
    unfolding ob_def by (simp add: sample_evals)
  then obtain d where d: "plan_observation sample_monitor ob [3] = (f1, Ok d)"
    by (cases "plan_observation sample_monitor ob [3]") (auto simp: f1_def split: result.splits)
  show ?thesis
    using protection_outlives_threat [OF d _ _ d2(1) [unfolded f2_def] d2(2)] d d2(1)
    unfolding f2_def ob_def by auto
qed

subsection \<open>Recovery\<close>

definition observation_named :: "alert_observation \<Rightarrow> bool" where
  "observation_named ob \<longleftrightarrow> sa_fortress_id (ao_anchor ob) \<noteq> 0 \<and>
     sa_state_hash (ao_anchor ob) \<noteq> digest_zero \<and> ao_source_scope ob \<noteq> digest_zero"

text \<open>Clear observations, oldest first, that continue \<open>prior\<close> for one roster.\<close>

fun clear_feed :: "alert_recovery_policy \<Rightarrow> entity_id list \<Rightarrow> alert_observation \<Rightarrow> alert_observation list \<Rightarrow> bool" where
  "clear_feed p roster prior [] = True"
| "clear_feed p roster prior (ob # obs) =
     (observation_continuous p prior roster ob roster \<and> observed_clear ob \<and> observation_named ob \<and>
      sa_fortress_id (ao_anchor ob) = sa_fortress_id (ao_anchor prior) \<and> clear_feed p roster ob obs)"

definition clearing :: "civilian_alert_fsm \<Rightarrow> entity_id list \<Rightarrow> alert_observation \<Rightarrow> game_tick \<Rightarrow> bool" where
  "clearing f roster prior since \<longleftrightarrow>
     fsm_last_observation f = Some (prior, roster) \<and> fsm_clear_since f = Some since"

lemma plan_observation_continues:
  assumes "clearing f roster prior since" "canonical_units ids = Ok roster"
    and "clear_feed (fsm_recovery_policy f) roster prior [ob]"
  obtains f' where "plan_observation f ob ids = (f', Ok (decision f' ob roster))" "clearing f' roster ob since"
    "fsm_clear_samples f' = saturating_add (fsm_clear_samples f) 1" "fsm_recovery_policy f' = fsm_recovery_policy f"
proof -
  have cont: "observation_continuous (fsm_recovery_policy f) prior roster ob roster" and clear: "observed_clear ob"
    using assms(3) by simp_all
  have "sa_cursor (ao_anchor prior) < sa_cursor (ao_anchor ob)" "sa_tick (ao_anchor prior) < sa_tick (ao_anchor ob)"
    using cont cursor_checked_next_greater by (auto simp: observation_continuous_def Let_def)
  then have plan: "plan_observation f ob ids = absorb_observation f True ob roster"
    using assms cont
    by (auto simp: plan_observation_def accept_observation_def clearing_def observation_named_def
        absorb_observation_def Let_def)
  obtain f' r where f': "absorb_observation f True ob roster = (f', r)" by fastforce
  show thesis
    using absorb_observation_fields [OF f'] assms(1) clear f' plan by (intro that [of f']) (auto simp: clearing_def)
qed

lemma clear_feed_counts:
  assumes "clearing f roster prior since" "canonical_units ids = Ok roster"
    and "clear_feed (fsm_recovery_policy f) roster prior obs"
  shows "clearing (foldl alert_exec f (map (\<lambda>ob. Observe ob ids) obs)) roster (last (prior # obs)) since \<and>
         unat (fsm_clear_samples (foldl alert_exec f (map (\<lambda>ob. Observe ob ids) obs))) =
           min (unat (fsm_clear_samples f) + length obs) (2 ^ 32 - 1) \<and>
         fsm_recovery_policy (foldl alert_exec f (map (\<lambda>ob. Observe ob ids) obs)) = fsm_recovery_policy f"
  using assms
proof (induction obs arbitrary: f prior)
  case Nil
  then show ?case using unsigned_less [of "fsm_clear_samples f", where ?'a = nat] by simp
next
  case (Cons ob obs)
  then have "clear_feed (fsm_recovery_policy f) roster prior [ob]" by simp
  from plan_observation_continues [OF Cons.prems(1,2) this] obtain f' where
    f': "plan_observation f ob ids = (f', Ok (decision f' ob roster))" "clearing f' roster ob since"
    "fsm_clear_samples f' = saturating_add (fsm_clear_samples f) 1" "fsm_recovery_policy f' = fsm_recovery_policy f"
    by blast
  then show ?case
    using Cons.IH [OF f'(2) Cons.prems(2)] Cons.prems(3) by (simp add: unat_saturating_add)
qed

lemma clear_feed_snoc:
  "clear_feed p roster prior (obs @ [ob]) \<longleftrightarrow>
     clear_feed p roster prior obs \<and> clear_feed p roster (last (prior # obs)) [ob]"
  by (induction obs arbitrary: prior) auto

text \<open>
  C26: Recovery is reached. A monitor that has started counting (its last observation is clear and
  remembered with the tick at which the clear period began) and is then fed clear, complete
  observations that continue one another answers the last of them with \<^verbatim>\<open>release_ready\<close> as soon as
  the number of samples and the span of ticks both reach the configured minimum.
\<close>
theorem sustained_clearance_releases:
  assumes "clearing f roster prior since" "canonical_units ids = Ok roster"
    and feed: "clear_feed (fsm_recovery_policy f) roster prior (obs @ [ob])"
    and samples: "unat (rp_minimum_clear_samples (fsm_recovery_policy f)) \<le> unat (fsm_clear_samples f) + length obs + 1"
    and ticks: "unat (rp_minimum_clear_ticks (fsm_recovery_policy f)) \<le> unat (sa_tick (ao_anchor ob)) - unat since"
  shows "\<exists>f' d. plan_observation (foldl alert_exec f (map (\<lambda>ob. Observe ob ids) obs)) ob ids = (f', Ok d) \<and>
                ad_release_ready d \<and> ad_target_level d = Peace"
proof -
  define f1 where "f1 = foldl alert_exec f (map (\<lambda>ob. Observe ob ids) obs)"
  have f1: "clearing f1 roster (last (prior # obs)) since" "fsm_recovery_policy f1 = fsm_recovery_policy f"
      "unat (fsm_clear_samples f1) = min (unat (fsm_clear_samples f) + length obs) (2 ^ 32 - 1)"
    using clear_feed_counts [OF assms(1,2)] feed unfolding f1_def clear_feed_snoc by auto
  have "clear_feed (fsm_recovery_policy f1) roster (last (prior # obs)) [ob]"
    using feed f1(2) by (simp only: clear_feed_snoc)
  from plan_observation_continues [OF f1(1) assms(2) this] obtain f2 where
    f2: "plan_observation f1 ob ids = (f2, Ok (decision f2 ob roster))" "clearing f2 roster ob since"
    "fsm_clear_samples f2 = saturating_add (fsm_clear_samples f1) 1" "fsm_recovery_policy f2 = fsm_recovery_policy f"
    using f1(2) by metis
  have "unat (rp_minimum_clear_samples (fsm_recovery_policy f)) \<le> unat (fsm_clear_samples f2)"
    using samples f1(3) f2(3) unsigned_less [of "rp_minimum_clear_samples (fsm_recovery_policy f)", where ?'a = nat]
    by (simp add: unat_saturating_add)
  moreover have "rp_minimum_clear_ticks (fsm_recovery_policy f) \<le> saturating_sub (sa_tick (ao_anchor ob)) since"
    using ticks by (auto simp: saturating_sub_def word_le_nat_alt unat_sub)
  moreover have "observed_clear ob" using feed unfolding clear_feed_snoc by simp
  ultimately have "alert_release_ready f2 ob"
    using f2(2,4) by (simp add: alert_release_ready_def observed_clear_def clearing_def word_le_nat_alt)
  then show ?thesis
    using f2(1) by (auto simp: f1_def decision_def Let_def alert_target_def alert_release_ready_def)
qed

lemma sustained_clearance_releases_witness:
  "\<exists>f' d. plan_observation (foldl alert_exec (fst (plan_observation sample_monitor (sample_clear 1) [3])) []) (sample_clear 2) [3]
       = (f', Ok d) \<and> ad_release_ready d"
proof -
  define f where "f = fst (plan_observation sample_monitor (sample_clear 1) [3])"
  have "clearing f [3] (sample_clear 1) 100" "canonical_units [3] = Ok [3]"
    "clear_feed (fsm_recovery_policy f) [3] (sample_clear 1) ([] @ [sample_clear 2])"
    "unat (rp_minimum_clear_samples (fsm_recovery_policy f)) \<le> unat (fsm_clear_samples f) + length ([] :: alert_observation list) + 1"
    "unat (rp_minimum_clear_ticks (fsm_recovery_policy f)) \<le> unat (sa_tick (ao_anchor (sample_clear 2))) - unat (100 :: u64)"
    unfolding f_def
    by (simp_all add: sample_evals clearing_def observed_clear_def observation_named_def)
  from sustained_clearance_releases [OF this] show ?thesis by (auto simp: f_def)
qed

end
