(* ===== verification/Lab_Facts.thy ===== *)
theory Lab_Facts
  imports Terrain
begin

text \<open>
  What the predicate evaluators share: three-valued truth (\<^verbatim>\<open>query.rs\<close>) and the facts that count as
  laboratory input (\<^verbatim>\<open>laboratory_fact_value\<close> of \<^verbatim>\<open>evidence.rs\<close>): known facts of the two registered
  derivations, with the zero digest, not from the future.
\<close>

datatype predicate_truth = PTrue | PFalse | PUnknown

definition truth_from_bool :: "bool \<Rightarrow> predicate_truth" where
  "truth_from_bool b = (if b then PTrue else PFalse)"

definition truth_is_true :: "predicate_truth \<Rightarrow> bool" where
  "truth_is_true t \<longleftrightarrow> t = PTrue"

primrec truth_not :: "predicate_truth \<Rightarrow> predicate_truth" where
  "truth_not PTrue = PFalse"
| "truth_not PFalse = PTrue"
| "truth_not PUnknown = PUnknown"

definition lab_scenario :: string where
  "lab_scenario = ''dfmcp.lab-scenario/1''"

definition lab_effects :: string where
  "lab_effects = ''dfmcp.reference-effects/1''"

definition laboratory_fact_value :: "fact \<Rightarrow> game_tick \<Rightarrow> val option" where
  "laboratory_fact_value f snapshot_tick =
     (if fact_observed_at f > snapshot_tick \<or> fact_source_digest f \<noteq> digest_zero \<or>
         \<not> (case fact_source f of Derived name \<Rightarrow> name = lab_scenario \<or> name = lab_effects | _ \<Rightarrow> False)
      then None else known_value f)"

definition lab_fact_is_eligible :: "fact \<Rightarrow> game_tick \<Rightarrow> bool" where
  "lab_fact_is_eligible f snapshot_tick \<longleftrightarrow> laboratory_fact_value f snapshot_tick \<noteq> None"

definition lab_field :: "entity_record \<Rightarrow> string \<Rightarrow> game_tick \<Rightarrow> val option" where
  "lab_field r name tick =
     (case map_of (er_fields r) name of None \<Rightarrow> None | Some f \<Rightarrow> laboratory_fact_value f tick)"

lemma truth_from_bool_simps [simp]:
  "truth_from_bool b = PTrue \<longleftrightarrow> b" "truth_from_bool b = PFalse \<longleftrightarrow> \<not> b" "truth_from_bool b \<noteq> PUnknown"
  "truth_not (truth_from_bool b) = truth_from_bool (\<not> b)"
  by (simp_all add: truth_from_bool_def)

lemma truth_not_simps [simp]:
  "truth_not (truth_not t) = t" "truth_not t = PTrue \<longleftrightarrow> t = PFalse" "truth_not t = PFalse \<longleftrightarrow> t = PTrue"
  "truth_not t = PUnknown \<longleftrightarrow> t = PUnknown"
  by (cases t; simp)+

end
