(* ===== verification/Flood.thy ===== *)
theory Flood
  imports Prelude
begin

text \<open>
  The two array algorithms of the laboratory access model (\<^verbatim>\<open>laboratory_access.rs\<close>), stated once for
  both of its grids.

  \<^item> Breadth-first search over array indices: a vector of marks and a queue. \<open>flood_marks_reachable\<close>
    says that it marks exactly the indices that can be reached.
  \<^item> Running sums in place along one axis of an array (\<open>accumulate\<close>), the second half of a
    difference array.

  Vectors are lists. Indexing past the end would stop the program; the guards on the length below
  are true for every grid the callers build, which is shown where the grids are built.
\<close>

subsection \<open>Breadth-first search\<close>

definition flood_visit :: "(nat \<Rightarrow> bool) \<Rightarrow> nat \<Rightarrow> bool list \<times> nat list \<Rightarrow> bool list \<times> nat list" where
  "flood_visit passable next s =
     (case s of (reached, pending) \<Rightarrow>
        if next < length reached \<and> passable next \<and> \<not> reached ! next
        then (reached[next := True], pending @ [next])
        else (reached, pending))"

definition unmarked :: "bool list \<Rightarrow> nat" where
  "unmarked reached = length (filter Not reached)"

lemma unmarked_update:
  "i < length reached \<Longrightarrow> \<not> reached ! i \<Longrightarrow> Suc (unmarked (reached[i := True])) = unmarked reached"
proof (induction reached arbitrary: i)
  case (Cons r reached)
  then show ?case by (cases i) (auto simp: unmarked_def)
qed simp

lemma flood_visit_measure:
  "2 * unmarked (fst (fold (flood_visit passable) ns (reached, pending)))
     + length (snd (fold (flood_visit passable) ns (reached, pending)))
   \<le> 2 * unmarked reached + length pending"
proof (induction ns arbitrary: reached pending)
  case (Cons n ns)
  have "2 * unmarked (fst (flood_visit passable n (reached, pending)))
      + length (snd (flood_visit passable n (reached, pending))) \<le> 2 * unmarked reached + length pending"
    using unmarked_update [of n reached] by (auto simp: flood_visit_def)
  then show ?case
    using Cons.IH [of "fst (flood_visit passable n (reached, pending))" "snd (flood_visit passable n (reached, pending))"]
    by simp
qed simp

function flood :: "(nat \<Rightarrow> nat list) \<Rightarrow> (nat \<Rightarrow> bool) \<Rightarrow> bool list \<Rightarrow> nat list \<Rightarrow> bool list" where
  "flood neighbors passable reached [] = reached"
| "flood neighbors passable reached (current # pending) =
     (let s = fold (flood_visit passable) (neighbors current) (reached, pending)
      in flood neighbors passable (fst s) (snd s))"
  by pat_completeness auto
termination
proof (relation "measure (\<lambda>(_, _, reached, pending). 2 * unmarked reached + length pending)", goal_cases)
  case (2 neighbors passable reached current pending s)
  then show ?case
    using flood_visit_measure [of passable "neighbors current" reached pending] by (simp add: case_prod_unfold)
qed simp

text \<open>The search from \<open>entry\<close> in a vector of length \<open>n\<close>.\<close>

definition flood_from :: "(nat \<Rightarrow> nat list) \<Rightarrow> (nat \<Rightarrow> bool) \<Rightarrow> nat \<Rightarrow> nat \<Rightarrow> bool list" where
  "flood_from neighbors passable n entry =
     (if passable entry
      then flood neighbors passable ((replicate n False)[entry := True]) [entry]
      else replicate n False)"

text \<open>One move of the search.\<close>

definition move :: "(nat \<Rightarrow> nat list) \<Rightarrow> (nat \<Rightarrow> bool) \<Rightarrow> nat \<Rightarrow> nat \<Rightarrow> nat \<Rightarrow> bool" where
  "move neighbors passable n i j \<longleftrightarrow> j \<in> set (neighbors i) \<and> j < n \<and> passable j"

definition marked :: "bool list \<Rightarrow> nat set" where
  "marked reached = {i. i < length reached \<and> reached ! i}"

lemma marked_update: "i < length reached \<Longrightarrow> marked (reached[i := True]) = insert i (marked reached)"
  by (auto simp: marked_def nth_list_update)

lemma flood_visit_effect:
  assumes "fold (flood_visit passable) ns (reached, pending) = (reached', pending')"
  shows "length reached' = length reached \<and>
         marked reached' = marked reached \<union> {j \<in> set ns. j < length reached \<and> passable j} \<and>
         set pending' = set pending \<union> (marked reached' - marked reached)"
  using assms
proof (induction ns arbitrary: reached pending)
  case (Cons n ns)
  show ?case
  proof (cases "n < length reached \<and> passable n \<and> \<not> reached ! n")
    case True
    then have "flood_visit passable n (reached, pending) = (reached[n := True], pending @ [n])"
      by (simp add: flood_visit_def)
    then have "fold (flood_visit passable) ns (reached[n := True], pending @ [n]) = (reached', pending')"
      using Cons.prems by simp
    from Cons.IH [OF this] True show ?thesis
      by (auto simp: marked_update) (auto simp: marked_def)
  next
    case False
    then have "flood_visit passable n (reached, pending) = (reached, pending)"
      by (auto simp: flood_visit_def)
    then have "fold (flood_visit passable) ns (reached, pending) = (reached', pending')"
      using Cons.prems by simp
    from Cons.IH [OF this] False show ?thesis by (auto simp: marked_def)
  qed
qed auto

lemma length_flood [simp]: "length (flood neighbors passable reached pending) = length reached"
proof (induction neighbors passable reached pending rule: flood.induct)
  case (2 neighbors passable reached current pending)
  then show ?case
    using flood_visit_effect [of passable "neighbors current" reached pending] by (auto simp: Let_def prod_eq_iff)
qed simp

text \<open>
  The invariant: pending indices are marked, and the moves from marked indices that are not pending
  stay among the marked ones.
\<close>

definition flood_inv :: "(nat \<Rightarrow> nat list) \<Rightarrow> (nat \<Rightarrow> bool) \<Rightarrow> bool list \<Rightarrow> nat list \<Rightarrow> bool" where
  "flood_inv neighbors passable reached pending \<longleftrightarrow>
     set pending \<subseteq> marked reached \<and>
     (\<forall>i j. i \<in> marked reached - set pending \<longrightarrow> move neighbors passable (length reached) i j \<longrightarrow> j \<in> marked reached)"

lemma flood_inv_step:
  assumes "flood_inv neighbors passable reached (current # pending)"
    and "fold (flood_visit passable) (neighbors current) (reached, pending) = (reached', pending')"
  shows "flood_inv neighbors passable reached' pending'"
  using assms flood_visit_effect [OF assms(2)] unfolding flood_inv_def move_def by auto

lemma flood_closed:
  assumes "flood_inv neighbors passable reached pending" "i \<in> marked (flood neighbors passable reached pending)"
    and "move neighbors passable (length reached) i j"
  shows "j \<in> marked (flood neighbors passable reached pending)"
  using assms
proof (induction neighbors passable reached pending rule: flood.induct)
  case (2 neighbors passable reached current pending)
  obtain r p where rp: "fold (flood_visit passable) (neighbors current) (reached, pending) = (r, p)" by fastforce
  then show ?case
    using 2 flood_inv_step [OF 2(2) rp] flood_visit_effect [OF rp] by simp
qed (auto simp: flood_inv_def)

lemma flood_grows: "marked reached \<subseteq> marked (flood neighbors passable reached pending)"
proof (induction neighbors passable reached pending rule: flood.induct)
  case (2 neighbors passable reached current pending)
  obtain r p where rp: "fold (flood_visit passable) (neighbors current) (reached, pending) = (r, p)" by fastforce
  then show ?case using 2 flood_visit_effect [OF rp] by auto
qed simp

lemma flood_sound:
  assumes "set pending \<subseteq> marked reached"
    and "\<forall>i \<in> marked reached. (move neighbors passable (length reached))\<^sup>*\<^sup>* e i"
    and "i \<in> marked (flood neighbors passable reached pending)"
  shows "(move neighbors passable (length reached))\<^sup>*\<^sup>* e i"
  using assms
proof (induction neighbors passable reached pending rule: flood.induct)
  case (2 neighbors passable reached current pending)
  obtain r p where rp: "fold (flood_visit passable) (neighbors current) (reached, pending) = (r, p)" by fastforce
  note eff = flood_visit_effect [OF rp]
  have "\<forall>i \<in> marked r. (move neighbors passable (length reached))\<^sup>*\<^sup>* e i"
  proof
    fix i
    assume "i \<in> marked r"
    then have "i \<in> marked reached \<or> move neighbors passable (length reached) current i"
      using eff by (auto simp: move_def)
    then show "(move neighbors passable (length reached))\<^sup>*\<^sup>* e i"
      using 2(2,3) by (auto intro: rtranclp.rtrancl_into_rtrancl)
  qed
  then show ?case using 2(1) [of "(r, p)"] 2(2-4) eff rp by auto
qed simp

theorem flood_from_reachable:
  assumes "entry < n"
  shows "length (flood_from neighbors passable n entry) = n \<and>
         (\<forall>i < n. flood_from neighbors passable n entry ! i \<longleftrightarrow>
            passable entry \<and> (move neighbors passable n)\<^sup>*\<^sup>* entry i)"
proof (cases "passable entry")
  case True
  let ?r = "(replicate n False)[entry := True]"
  have m: "marked ?r = {entry}" using assms by (auto simp: marked_def nth_list_update)
  have inv: "flood_inv neighbors passable ?r [entry]" using m by (simp add: flood_inv_def)
  have "i \<in> marked (flood neighbors passable ?r [entry])" if "(move neighbors passable n)\<^sup>*\<^sup>* entry i" for i
    using that
  proof (induction rule: rtranclp_induct)
    case base
    then show ?case using flood_grows [of ?r neighbors passable "[entry]"] m by blast
  next
    case (step i j)
    then show ?case using flood_closed [OF inv] by (simp del: flood.simps)
  qed
  moreover have "(move neighbors passable n)\<^sup>*\<^sup>* entry i" if "i \<in> marked (flood neighbors passable ?r [entry])" for i
    using flood_sound [of "[entry]" ?r neighbors passable entry i] that m by (simp del: flood.simps)
  ultimately have iff: "i \<in> marked (flood neighbors passable ?r [entry]) \<longleftrightarrow> (move neighbors passable n)\<^sup>*\<^sup>* entry i" for i
    by blast
  have "flood neighbors passable ?r [entry] ! i \<longleftrightarrow> (move neighbors passable n)\<^sup>*\<^sup>* entry i" if "i < n" for i
    using iff [of i] that unfolding marked_def length_flood by simp
  then show ?thesis using True by (simp add: flood_from_def del: flood.simps)
qed (simp add: flood_from_def)

subsection \<open>Running sums in place\<close>

definition add_at :: "nat \<Rightarrow> int \<Rightarrow> int list \<Rightarrow> int list" where
  "add_at i v d = d[i := d ! i + v]"

text \<open>\<^verbatim>\<open>difference[i] += difference[i - s]\<close> for the indices of a list, in its order.\<close>

definition accumulate :: "nat \<Rightarrow> nat list \<Rightarrow> int list \<Rightarrow> int list" where
  "accumulate s is d = fold (\<lambda>i d. add_at i (d ! (i - s)) d) is d"

lemma length_add_at [simp]: "length (add_at i v d) = length d"
  by (simp add: add_at_def)

lemma nth_add_at: "i < length d \<Longrightarrow> add_at i v d ! j = d ! j + (if j = i then v else 0)"
  by (simp add: add_at_def nth_list_update)

lemma length_accumulate [simp]: "length (accumulate s is d) = length d"
  unfolding accumulate_def by (induction "is" arbitrary: d) auto

lemma accumulate_nth:
  assumes "sorted_wrt (<) is" "0 < s" "\<forall>i \<in> set is. s \<le> i \<and> i < length d"
  shows "accumulate s is d ! i = d ! i + (if i \<in> set is then accumulate s is d ! (i - s) else 0)"
  using assms
proof (induction "is" arbitrary: d i)
  case (Cons a "is")
  define d' where "d' = add_at a (d ! (a - s)) d"
  have acc: "accumulate s (a # is) d = accumulate s is d'" by (simp add: accumulate_def d'_def)
  have IH: "accumulate s is d' ! i = d' ! i + (if i \<in> set is then accumulate s is d' ! (i - s) else 0)" for i
    using Cons by (simp add: d'_def)
  have d': "d' ! j = d ! j + (if j = a then d ! (a - s) else 0)" for j
    using Cons.prems by (simp add: d'_def nth_add_at)
  have "a - s \<notin> set is" "a \<notin> set is" "a - s \<noteq> a"
    using Cons.prems by (auto dest!: bspec [of "set is" "\<lambda>x. a < x"])
  then have "accumulate s is d' ! (a - s) = d ! (a - s)" using IH [of "a - s"] d' by simp
  then show ?case unfolding acc using IH [of i] d' [of i] \<open>a \<notin> set is\<close> by auto
qed (simp add: accumulate_def)

end
