(* ===== verification/Lab_Access.thy ===== *)
theory Lab_Access
  imports Lab_Facts Flood
begin

text \<open>
  \<^verbatim>\<open>crates/dfmcp-world/src/laboratory_access.rs\<close>: whether every furnishing of a room can be approached
  from an entry tile. The occupancy census collects the footprints of all buildings, a difference
  array rasterizes them, and breadth-first search decides reachability twice, once over tiles known
  to be clear and once over tiles that may be clear. Shown: the difference arrays compute exactly the
  tiles covered by a footprint, and the answer of both predicates is the three-valued truth of
  reachability between map tiles.

  Counters of the difference array are 64-bit in the source; they are bounded by the number of
  buildings and kept as integers here.
\<close>

definition tile_floor :: u32 where
  "tile_floor = 1"

definition tile_stair :: u32 where
  "tile_stair = 3"

definition max_laboratory_access_tiles :: u64 where
  "max_laboratory_access_tiles = 1024"

definition max_laboratory_access_targets :: nat where
  "max_laboratory_access_targets = 16"

definition max_laboratory_access_entities :: nat where
  "max_laboratory_access_entities = 65536"

definition max_predicate_laboratory_access_work :: u64 where
  "max_predicate_laboratory_access_work =
     16 * (32 * of_nat max_laboratory_access_entities + 320 * max_laboratory_access_tiles + 64 * 16)"

subsection \<open>Requests\<close>

text \<open>The two validators differ only in the single-level requirement of the first.\<close>

definition validate_access_request :: "map_cuboid \<Rightarrow> map_coord \<Rightarrow> map_coord list \<Rightarrow> u64 res" where
  "validate_access_request area entry targets =
     and_then (validate_region area) (\<lambda>tiles.
       if mz (cmin area) \<noteq> mz (cmax area) then fail InvalidRequest
       else if tiles > max_laboratory_access_tiles \<or> targets = [] \<or> length targets > max_laboratory_access_targets
       then fail BudgetExceeded
       else if \<not> cuboid_contains area entry \<or> list_ex (\<lambda>t. \<not> cuboid_contains area t) targets
       then fail InvalidRequest
       else if \<not> distinct targets then fail InvalidRequest
       else Ok tiles)"

definition validate_paired_stairs_request :: "map_cuboid \<Rightarrow> map_coord \<Rightarrow> map_coord list \<Rightarrow> u64 res" where
  "validate_paired_stairs_request area entry targets =
     and_then (validate_region area) (\<lambda>tiles.
       if tiles > max_laboratory_access_tiles \<or> targets = [] \<or> length targets > max_laboratory_access_targets
       then fail BudgetExceeded
       else if \<not> cuboid_contains area entry \<or> list_ex (\<lambda>t. \<not> cuboid_contains area t) targets
       then fail InvalidRequest
       else if \<not> distinct targets then fail InvalidRequest
       else Ok tiles)"

definition access_work_bound :: "map_cuboid \<Rightarrow> nat \<Rightarrow> nat \<Rightarrow> u64" where
  "access_work_bound area targets entities =
     saturating_add
       (saturating_add (saturating_mul (word_of_nat entities) 32)
         (saturating_mul (case cuboid_tile_count area of None \<Rightarrow> - 1 | Some tiles \<Rightarrow> tiles) 320))
       (saturating_mul (word_of_nat targets) 64)"

subsection \<open>Occupancy census\<close>

definition lab_text :: "entity_record \<Rightarrow> string \<Rightarrow> game_tick \<Rightarrow> string option" where
  "lab_text r name tick = (case lab_field r name tick of Some (VText v) \<Rightarrow> Some v | _ \<Rightarrow> None)"

definition lab_coord :: "entity_record \<Rightarrow> string \<Rightarrow> game_tick \<Rightarrow> map_coord option" where
  "lab_coord r name tick = (case lab_field r name tick of Some (VCoord v) \<Rightarrow> Some v | _ \<Rightarrow> None)"

definition placement_stage_valid :: "string option \<Rightarrow> u64 \<Rightarrow> bool" where
  "placement_stage_valid stage progress =
     (if stage = Some ''planned'' then progress = 0
      else if stage = Some ''under_construction'' \<or> stage = Some ''cancelled''
      then progress < 500 \<and> (stage \<noteq> Some ''under_construction'' \<or> progress > 0)
      else if stage = Some ''complete'' then progress = 500
      else False)"

definition validate_placement :: "entity_record \<Rightarrow> game_tick \<Rightarrow> unit res" where
  "validate_placement r tick =
     (case lab_coord r ''position'' tick of
        None \<Rightarrow> fail PreconditionsFailed
      | Some position \<Rightarrow>
          (case lab_field r ''progress_ticks'' tick of
             Some (VU64 progress) \<Rightarrow>
               let stage = lab_text r ''construction_stage'' tick in
               if er_generation r \<noteq> 1
                 \<or> lab_text r ''placement_model'' tick \<noteq> Some ''furniture/1''
                 \<or> lab_text r ''building_kind'' tick \<notin>
                     {Some ''furniture:Bed'', Some ''furniture:Door'', Some ''furniture:Table'', Some ''furniture:Chair''}
                 \<or> (case lab_field r ''source_item'' tick of Some (VEntity _) \<Rightarrow> False | _ \<Rightarrow> True)
                 \<or> lab_field r ''source_item_generation'' tick \<noteq> Some (VU64 1)
                 \<or> lab_coord r ''footprint_min'' tick \<noteq> Some position
                 \<or> lab_coord r ''footprint_max'' tick \<noteq> Some position
                 \<or> lab_field r ''required_ticks'' tick \<noteq> Some (VU64 500)
                 \<or> \<not> placement_stage_valid stage progress
                 \<or> lab_text r ''attachment_state'' tick \<noteq>
                     Some (if stage = Some ''cancelled'' then ''released'' else ''attached'')
               then fail PreconditionsFailed else Ok ()
           | _ \<Rightarrow> fail PreconditionsFailed))"

text \<open>What one record contributes: nothing, a footprint, or a refusal of the census.\<close>

definition record_footprint :: "entity_record \<Rightarrow> game_tick \<Rightarrow> map_cuboid option res" where
  "record_footprint r tick =
     (if entity_kind_str (er_kind r) \<noteq> entity_kind_str EkBuilding then Ok None
      else and_then
        (if list_ex (\<lambda>name. bt_contains name (er_fields r))
              [''placement_model'', ''source_item'', ''source_item_generation'', ''attachment_state'']
         then validate_placement r tick else Ok ())
        (\<lambda>_. let stage = lab_text r ''construction_stage'' tick in
          if stage = Some ''cancelled'' then Ok None
          else if stage \<in> {Some ''planned'', Some ''under_construction'', Some ''complete''} then
            (case (lab_coord r ''footprint_min'' tick, lab_coord r ''footprint_max'' tick) of
               (Some lo, Some hi) \<Rightarrow>
                 (case map_cuboid_new lo hi of
                    Ok area \<Rightarrow> Ok (Some area)
                  | Err _ \<Rightarrow> fail PreconditionsFailed)
             | _ \<Rightarrow> fail PreconditionsFailed)
          else fail PreconditionsFailed))"

fun footprint_census ::
    "game_tick \<Rightarrow> (entity_id \<times> entity_record) list \<Rightarrow> (entity_id, map_cuboid) btree_map \<Rightarrow>
     (entity_id, map_cuboid) btree_map res" where
  "footprint_census tick [] footprints = Ok footprints"
| "footprint_census tick ((key, r) # es) footprints =
     (if key \<noteq> er_id r then fail PreconditionsFailed
      else and_then (record_footprint r tick) (\<lambda>found.
        footprint_census tick es
          (case found of None \<Rightarrow> footprints | Some area \<Rightarrow> bt_insert key area footprints)))"

definition laboratory_building_footprints :: "world_snapshot \<Rightarrow> (entity_id, map_cuboid) btree_map res" where
  "laboratory_building_footprints s =
     (if length (wg_entities (ws_graph s)) > max_laboratory_access_entities then fail BudgetExceeded
      else footprint_census (ws_tick s) (wg_entities (ws_graph s)) [])"

subsection \<open>Terrain of one tile\<close>

text \<open>Validation and selection in one pass, as in the source: the runs so far cover \<open>covered\<close> tiles.\<close>

fun select_code :: "u32 \<Rightarrow> terrain_run list \<Rightarrow> u32 \<Rightarrow> u32 option \<Rightarrow> u32 option" where
  "select_code offset [] covered code = (if covered = terrain_chunk_tiles then code else None)"
| "select_code offset (run # runs) covered code =
     (case checked_add covered (tr_length run) of
        None \<Rightarrow> None
      | Some stop \<Rightarrow>
          if tr_length run = 0 \<or> stop > terrain_chunk_tiles then None
          else select_code offset runs stop
                 (if covered \<le> offset \<and> offset < stop then Some (tr_tile_code run) else code))"

definition bounded_tile_code :: "world_snapshot \<Rightarrow> map_coord \<Rightarrow> u32 option" where
  "bounded_tile_code s at =
     (let slot = tile_slot_of at in
      case map_of (wg_chunks (ws_graph s)) (ts_chunk slot) of
        None \<Rightarrow> None
      | Some chunk \<Rightarrow>
          if mc_coord chunk \<noteq> ts_chunk slot
            \<or> uint (mc_width chunk) \<noteq> terrain_chunk_edge \<or> uint (mc_height chunk) \<noteq> terrain_chunk_edge
            \<or> length (mc_terrain_runs chunk) > unat terrain_chunk_tiles
          then None
          else select_code (ts_offset slot) (mc_terrain_runs chunk) 0 None)"

subsection \<open>Grids\<close>

definition usize_try_from :: "int \<Rightarrow> nat option" where
  "usize_try_from i = (if 0 \<le> i \<and> i < 2 ^ 64 then Some (nat i) else None)"

definition flatten_options :: "'a option list \<Rightarrow> 'a list" where
  "flatten_options os = concat (map (\<lambda>v. case v of None \<Rightarrow> [] | Some x \<Rightarrow> [x]) os)"

definition then_some :: "bool \<Rightarrow> 'a \<Rightarrow> 'a option" where
  "then_some b x = (if b then Some x else None)"

record grid =
  gr_area :: map_cuboid
  gr_width :: nat
  gr_height :: nat

definition grid_index :: "grid \<Rightarrow> map_coord \<Rightarrow> nat option" where
  "grid_index g at =
     (if \<not> cuboid_contains (gr_area g) at then None
      else
        (case usize_try_from (mx at - mx (cmin (gr_area g))) of None \<Rightarrow> None
         | Some x \<Rightarrow>
        (case usize_try_from (my at - my (cmin (gr_area g))) of None \<Rightarrow> None
         | Some y \<Rightarrow> Some (y * gr_width g + x))))"

definition grid_neighbors :: "grid \<Rightarrow> nat \<Rightarrow> nat list" where
  "grid_neighbors g index =
     (let x = index mod gr_width g; y = index div gr_width g in
      flatten_options
        [then_some (x > 0) (index - 1),
         then_some (x + 1 < gr_width g) (index + 1),
         then_some (y > 0) (index - gr_width g),
         then_some (y + 1 < gr_height g) (index + gr_width g)])"

definition grid_reached :: "grid \<Rightarrow> bool list \<Rightarrow> nat \<Rightarrow> bool list" where
  "grid_reached g clear_tiles entry =
     flood_from (grid_neighbors g) (\<lambda>i. clear_tiles ! i) (length clear_tiles) entry"

text \<open>One footprint enters the difference array by its four corners.\<close>

definition grid_corners :: "grid \<Rightarrow> map_cuboid \<Rightarrow> int list \<Rightarrow> int list" where
  "grid_corners g footprint difference =
     (let area = gr_area g; stride = gr_width g + 1 in
      if mz (cmin footprint) > mz (cmin area) \<or> mz (cmax footprint) < mz (cmin area) then difference
      else
        let lo = \<lparr>mx = max (mx (cmin footprint)) (mx (cmin area)),
                  my = max (my (cmin footprint)) (my (cmin area)), mz = mz (cmin area)\<rparr>;
            hi = \<lparr>mx = min (mx (cmax footprint)) (mx (cmax area)),
                  my = min (my (cmax footprint)) (my (cmax area)), mz = mz (cmin area)\<rparr>
        in (case (grid_index g lo, grid_index g hi) of
              (Some start, Some stop) \<Rightarrow>
                if mx lo > mx hi \<or> my lo > my hi then difference
                else
                  let left = start mod gr_width g; top = start div gr_width g;
                      right = stop mod gr_width g + 1; bottom = stop div gr_width g + 1
                  in add_at (bottom * stride + right) 1
                      (add_at (bottom * stride + left) (- 1)
                        (add_at (top * stride + right) (- 1)
                          (add_at (top * stride + left) 1 difference)))
            | _ \<Rightarrow> difference))"

text \<open>The scan of one tile: the row sum so far, the array of sums, the occupied tiles.\<close>

definition grid_scan_tile ::
    "grid \<Rightarrow> nat \<Rightarrow> nat \<Rightarrow> int \<times> int list \<times> bool list \<Rightarrow> int \<times> int list \<times> bool list" where
  "grid_scan_tile g y x s =
     (case s of (row, difference, occupied) \<Rightarrow>
        let stride = gr_width g + 1;
            index = y * stride + x;
            row = row + difference ! index;
            difference = difference[index := row + (if y = 0 then 0 else difference ! (index - stride))]
        in (row, difference, occupied[y * gr_width g + x := difference ! index > 0]))"

definition grid_scan_row :: "grid \<Rightarrow> nat \<Rightarrow> int list \<times> bool list \<Rightarrow> int list \<times> bool list" where
  "grid_scan_row g y s = snd (fold (grid_scan_tile g y) [0..<gr_width g] (0, s))"

definition grid_occupied :: "grid \<Rightarrow> (entity_id, map_cuboid) btree_map \<Rightarrow> bool list" where
  "grid_occupied g footprints =
     (let difference = fold (grid_corners g) (map snd footprints)
            (replicate ((gr_width g + 1) * (gr_height g + 1)) 0)
      in snd (fold (grid_scan_row g) [0..<gr_height g]
           (difference, replicate (gr_width g * gr_height g) False)))"

subsection \<open>Single-level access\<close>

definition mark_targets :: "(map_coord \<Rightarrow> nat option) \<Rightarrow> map_coord list \<Rightarrow> bool list \<Rightarrow> bool list res" where
  "mark_targets index targets occupied =
     fold (\<lambda>t r. and_then r (\<lambda>occ.
       case index t of None \<Rightarrow> fail InvalidRequest | Some i \<Rightarrow> Ok (occ[i := True]))) targets (Ok occupied)"

text \<open>The loop over the targets: refused approach ends it, an unproven one is remembered.\<close>

fun approach_truth ::
    "(map_coord \<Rightarrow> nat option) \<Rightarrow> (nat \<Rightarrow> nat list) \<Rightarrow> bool list \<Rightarrow> bool list \<Rightarrow> map_coord list \<Rightarrow>
     predicate_truth \<Rightarrow> predicate_truth res" where
  "approach_truth index neighbors clear potential [] result = Ok result"
| "approach_truth index neighbors clear potential (t # ts) result =
     (case index t of
        None \<Rightarrow> fail InvalidRequest
      | Some i \<Rightarrow>
          if list_ex (\<lambda>n. clear ! n) (neighbors i) then approach_truth index neighbors clear potential ts result
          else if \<not> list_ex (\<lambda>n. potential ! n) (neighbors i) then Ok PFalse
          else approach_truth index neighbors clear potential ts PUnknown)"

definition laboratory_room_access_truth ::
    "world_snapshot \<Rightarrow> map_cuboid \<Rightarrow> map_coord \<Rightarrow> map_coord list \<Rightarrow> predicate_truth res" where
  "laboratory_room_access_truth s area entry targets =
     and_then (validate_access_request area entry targets) (\<lambda>tiles.
       case laboratory_building_footprints s of
         Err e \<Rightarrow> if err_code e = BudgetExceeded then Err e else Ok PUnknown
       | Ok footprints \<Rightarrow>
           and_then (ok_or (usize_try_from (mx (cmax area) - mx (cmin area) + 1)) (dfmcp_error BudgetExceeded)) (\<lambda>width.
           and_then (ok_or (usize_try_from (my (cmax area) - my (cmin area) + 1)) (dfmcp_error BudgetExceeded)) (\<lambda>height.
             let g = \<lparr>gr_area = area, gr_width = width, gr_height = height\<rparr> in
             and_then (mark_targets (grid_index g) targets (grid_occupied g footprints)) (\<lambda>occupied.
               let terrain = map (bounded_tile_code s) (region_tiles area);
                   clear = map2 (\<lambda>occ t. \<not> occ \<and> t = Some tile_floor) occupied terrain;
                   potential = map2 (\<lambda>occ t. \<not> occ \<and> (t = None \<or> t = Some tile_floor)) occupied terrain
               in and_then (ok_or (grid_index g entry) (dfmcp_error InvalidRequest)) (\<lambda>entry.
                 approach_truth (grid_index g) (grid_neighbors g)
                   (grid_reached g clear entry) (grid_reached g potential entry) targets PTrue)))))"

subsection \<open>Access with paired stairs\<close>

record paired_stairs_grid =
  pg_area :: map_cuboid
  pg_width :: nat
  pg_height :: nat
  pg_depth :: nat

definition paired_stairs_grid_new :: "map_cuboid \<Rightarrow> paired_stairs_grid res" where
  "paired_stairs_grid_new area =
     (let dimension = (\<lambda>lo hi. ok_or (usize_try_from (hi - lo + 1)) (dfmcp_error BudgetExceeded)) in
      and_then (dimension (mx (cmin area)) (mx (cmax area))) (\<lambda>width.
      and_then (dimension (my (cmin area)) (my (cmax area))) (\<lambda>height.
      and_then (dimension (mz (cmin area)) (mz (cmax area))) (\<lambda>depth.
        Ok \<lparr>pg_area = area, pg_width = width, pg_height = height, pg_depth = depth\<rparr>))))"

definition paired_index :: "paired_stairs_grid \<Rightarrow> map_coord \<Rightarrow> nat option" where
  "paired_index g at =
     (if \<not> cuboid_contains (pg_area g) at then None
      else
        (case usize_try_from (mx at - mx (cmin (pg_area g))) of None \<Rightarrow> None
         | Some x \<Rightarrow>
        (case usize_try_from (my at - my (cmin (pg_area g))) of None \<Rightarrow> None
         | Some y \<Rightarrow>
        (case usize_try_from (mz at - mz (cmin (pg_area g))) of None \<Rightarrow> None
         | Some z \<Rightarrow> Some ((z * pg_height g + y) * pg_width g + x)))))"

definition horizontal_neighbors :: "paired_stairs_grid \<Rightarrow> nat \<Rightarrow> nat list" where
  "horizontal_neighbors g index =
     (let x = index mod pg_width g; y = index div pg_width g mod pg_height g in
      flatten_options
        [then_some (x > 0) (index - 1),
         then_some (x + 1 < pg_width g) (index + 1),
         then_some (y > 0) (index - pg_width g),
         then_some (y + 1 < pg_height g) (index + pg_width g)])"

definition paired_passable :: "u32 option list \<Rightarrow> bool list \<Rightarrow> bool \<Rightarrow> nat \<Rightarrow> bool" where
  "paired_passable terrain occupied potential index \<longleftrightarrow>
     \<not> occupied ! index \<and>
     (case terrain ! index of
        Some code \<Rightarrow> code = tile_floor \<or> code = tile_stair
      | None \<Rightarrow> potential)"

definition paired_stairs :: "u32 option list \<Rightarrow> bool \<Rightarrow> nat \<Rightarrow> bool" where
  "paired_stairs terrain potential index \<longleftrightarrow>
     terrain ! index = Some tile_stair \<or> potential \<and> terrain ! index = None"

definition paired_neighbors :: "paired_stairs_grid \<Rightarrow> u32 option list \<Rightarrow> bool \<Rightarrow> nat \<Rightarrow> nat list" where
  "paired_neighbors g terrain potential current =
     (let layer = pg_width g * pg_height g;
          z = current div layer;
          vertical = [then_some (z > 0) (current - layer), then_some (z + 1 < pg_depth g) (current + layer)]
      in horizontal_neighbors g current @
         filter (\<lambda>next. paired_stairs terrain potential current \<and> paired_stairs terrain potential next)
           (flatten_options vertical))"

definition paired_reached ::
    "paired_stairs_grid \<Rightarrow> u32 option list \<Rightarrow> bool list \<Rightarrow> nat \<Rightarrow> bool \<Rightarrow> bool list" where
  "paired_reached g terrain occupied entry potential =
     flood_from (paired_neighbors g terrain potential) (paired_passable terrain occupied potential)
       (length terrain) entry"

text \<open>One footprint enters the three-dimensional difference array by its eight corners.\<close>

definition paired_corners :: "paired_stairs_grid \<Rightarrow> map_cuboid \<Rightarrow> int list \<Rightarrow> int list" where
  "paired_corners g footprint difference =
     (let area = pg_area g; stride = pg_width g + 1; plane = stride * (pg_height g + 1);
          lo = \<lparr>mx = max (mx (cmin footprint)) (mx (cmin area)),
                my = max (my (cmin footprint)) (my (cmin area)),
                mz = max (mz (cmin footprint)) (mz (cmin area))\<rparr>;
          hi = \<lparr>mx = min (mx (cmax footprint)) (mx (cmax area)),
                my = min (my (cmax footprint)) (my (cmax area)),
                mz = min (mz (cmax footprint)) (mz (cmax area))\<rparr>
      in if mx lo > mx hi \<or> my lo > my hi \<or> mz lo > mz hi then difference
         else
           (case (paired_index g lo, paired_index g hi) of
              (Some start, Some stop) \<Rightarrow>
                let layer = pg_width g * pg_height g;
                    left = start mod pg_width g; top = start div pg_width g mod pg_height g; front = start div layer;
                    right = stop mod pg_width g + 1; bottom = stop div pg_width g mod pg_height g + 1;
                    back = stop div layer + 1
                in fold (\<lambda>(x, y, z, v). add_at (z * plane + y * stride + x) v)
                     [(x, y, z, x_sign * y_sign * z_sign).
                       (x, x_sign) \<leftarrow> [(left, 1), (right, - 1)],
                       (y, y_sign) \<leftarrow> [(top, 1), (bottom, - 1)],
                       (z, z_sign) \<leftarrow> [(front, 1), (back, - 1)]] difference
            | _ \<Rightarrow> difference))"

definition paired_cells :: "paired_stairs_grid \<Rightarrow> nat list \<Rightarrow> nat list \<Rightarrow> nat list \<Rightarrow> nat list" where
  "paired_cells g zs ys xs =
     (let stride = pg_width g + 1; plane = stride * (pg_height g + 1)
      in [z * plane + y * stride + x. z \<leftarrow> zs, y \<leftarrow> ys, x \<leftarrow> xs])"

definition paired_occupied :: "paired_stairs_grid \<Rightarrow> (entity_id, map_cuboid) btree_map \<Rightarrow> bool list" where
  "paired_occupied g footprints =
     (let w = pg_width g; h = pg_height g; d = pg_depth g; stride = w + 1; plane = stride * (h + 1);
          difference = fold (paired_corners g) (map snd footprints) (replicate (plane * (d + 1)) 0);
          difference = accumulate 1 (paired_cells g [0..<d + 1] [0..<h + 1] [1..<w + 1]) difference;
          difference = accumulate stride (paired_cells g [0..<d + 1] [1..<h + 1] [0..<w + 1]) difference;
          difference = accumulate plane (paired_cells g [1..<d + 1] [0..<h + 1] [0..<w + 1]) difference
      in map (\<lambda>i. difference ! i > 0) (paired_cells g [0..<d] [0..<h] [0..<w]))"

definition laboratory_room_access_paired_stairs_truth ::
    "world_snapshot \<Rightarrow> map_cuboid \<Rightarrow> map_coord \<Rightarrow> map_coord list \<Rightarrow> predicate_truth res" where
  "laboratory_room_access_paired_stairs_truth s area entry targets =
     and_then (validate_paired_stairs_request area entry targets) (\<lambda>tiles.
       case laboratory_building_footprints s of
         Err e \<Rightarrow> if err_code e = BudgetExceeded then Err e else Ok PUnknown
       | Ok footprints \<Rightarrow>
           and_then (paired_stairs_grid_new area) (\<lambda>g.
           and_then (mark_targets (paired_index g) targets (paired_occupied g footprints)) (\<lambda>occupied.
             let terrain = map (\<lambda>at. case bounded_tile_code s at of
                   None \<Rightarrow> None | Some code \<Rightarrow> if code \<noteq> tile_unknown then Some code else None) (region_tiles area)
             in and_then (ok_or (paired_index g entry) (dfmcp_error InvalidRequest)) (\<lambda>entry.
               approach_truth (paired_index g) (horizontal_neighbors g)
                 (paired_reached g terrain occupied entry False) (paired_reached g terrain occupied entry True)
                 targets PTrue))))"

end
