(* ===== verification/Lab_Grids.thy ===== *)
theory Lab_Grids
  imports Lab_Access
begin

text \<open>
  The grids of the laboratory access model: positions of an array and tiles of an area are in
  bijection, array neighbours are adjacent tiles, and the difference arrays of
  \<^verbatim>\<open>Grid::occupied\<close> and \<^verbatim>\<open>PairedStairsGrid::occupied\<close> compute exactly the tiles covered by some
  footprint.
\<close>

subsection \<open>Tiles and array positions\<close>

definition pos :: "nat \<Rightarrow> nat \<Rightarrow> nat \<Rightarrow> nat \<Rightarrow> nat \<Rightarrow> nat" where
  "pos w h x y z = (z * h + y) * w + x"

lemma pos_split:
  assumes "x < w" "y < h"
  shows "pos w h x y z mod w = x" "pos w h x y z div w mod h = y" "pos w h x y z div (w * h) = z"
    and "pos w h x y z div w = z * h + y"
  using assms by (simp_all add: pos_def div_mult2_eq)

lemma pos_inject:
  assumes "x < w" "y < h" "x' < w" "y' < h"
  shows "pos w h x y z = pos w h x' y' z' \<longleftrightarrow> x = x' \<and> y = y' \<and> z = z'"
  using pos_split [OF assms(1,2), of z] pos_split [OF assms(3,4), of z'] by auto

lemma pos_bound: "x < w \<Longrightarrow> y < h \<Longrightarrow> pos w h x y z < w * h * d \<longleftrightarrow> z < d"
proof -
  assume xy: "x < w" "y < h"
  then have "0 < w * h" by simp
  then have "pos w h x y z < w * h * d \<longleftrightarrow> pos w h x y z div (w * h) < d"
    by (simp add: div_less_iff_less_mult mult.commute)
  then show ?thesis using pos_split(3) [OF xy] by simp
qed

lemma pos_cases:
  assumes "i < w * h * d"
  obtains x y z where "x < w" "y < h" "z < d" "i = pos w h x y z"
proof -
  have wh: "0 < w" "0 < h" using assms by (auto intro!: Nat.gr0I)
  have "i = pos w h (i mod w) (i div w mod h) (i div (w * h))"
    by (simp add: pos_def div_mult2_eq)
  moreover have "i div (w * h) < d" using assms wh by (simp add: div_less_iff_less_mult mult.commute)
  ultimately show thesis using that [of "i mod w" "i div w mod h"] wh by simp
qed

definition tile_at :: "map_cuboid \<Rightarrow> nat \<Rightarrow> nat \<Rightarrow> nat \<Rightarrow> map_coord" where
  "tile_at area w h i =
     \<lparr>mx = mx (cmin area) + int (i mod w), my = my (cmin area) + int (i div w mod h),
      mz = mz (cmin area) + int (i div (w * h))\<rparr>"

lemma tile_at_pos:
  "x < w \<Longrightarrow> y < h \<Longrightarrow> tile_at area w h (pos w h x y z) =
     \<lparr>mx = mx (cmin area) + int x, my = my (cmin area) + int y, mz = mz (cmin area) + int z\<rparr>"
  by (simp add: tile_at_def pos_split)

text \<open>The dimensions of an area, and the bijection between its tiles and array positions.\<close>

definition dims :: "map_cuboid \<Rightarrow> nat \<Rightarrow> nat \<Rightarrow> nat \<Rightarrow> bool" where
  "dims area w h d \<longleftrightarrow> cuboid_ordered area \<and>
     int w = mx (cmax area) - mx (cmin area) + 1 \<and> int h = my (cmax area) - my (cmin area) + 1 \<and>
     int d = mz (cmax area) - mz (cmin area) + 1"

lemma dims_pos: "dims area w h d \<Longrightarrow> 0 < w \<and> 0 < h \<and> 0 < d"
  by (auto simp: dims_def cuboid_ordered_def intro!: Nat.gr0I)

lemma tile_at_contains:
  assumes "dims area w h d" "i < w * h * d"
  shows "cuboid_contains area (tile_at area w h i)"
proof -
  obtain x y z where "x < w" "y < h" "z < d" "i = pos w h x y z" using assms(2) by (rule pos_cases)
  then show ?thesis using assms(1) by (simp add: tile_at_pos cuboid_contains_def dims_def)
qed

lemma tile_at_inject:
  assumes "i < w * h * d" "j < w * h * d" "tile_at area w h i = tile_at area w h j"
  shows "i = j"
proof -
  obtain x y z where 1: "x < w" "y < h" "z < d" "i = pos w h x y z" using assms(1) by (rule pos_cases)
  obtain x' y' z' where 2: "x' < w" "y' < h" "z' < d" "j = pos w h x' y' z'" using assms(2) by (rule pos_cases)
  show ?thesis using assms(3) 1 2 by (simp add: tile_at_pos)
qed

lemma tile_at_onto:
  assumes "dims area w h d" "cuboid_contains area p"
  obtains x y z where "x < w" "y < h" "z < d" "p = tile_at area w h (pos w h x y z)"
    "int x = mx p - mx (cmin area)" "int y = my p - my (cmin area)" "int z = mz p - mz (cmin area)"
proof -
  define x y z where "x = nat (mx p - mx (cmin area))" and "y = nat (my p - my (cmin area))"
    and "z = nat (mz p - mz (cmin area))"
  have "x < w" "y < h" "z < d" "int x = mx p - mx (cmin area)" "int y = my p - my (cmin area)"
    "int z = mz p - mz (cmin area)"
    using assms by (auto simp: x_def y_def z_def dims_def cuboid_contains_def)
  then show thesis using that [of x y z] by (simp add: tile_at_pos)
qed

lemma concat_map_upt:
  "concat (map (\<lambda>a. map (f a) [0..<n]) [0..<m]) = map (\<lambda>i. f (i div n) (i mod n)) [0..<m * n]"
proof (induction m)
  case (Suc m)
  have "Suc m * n = m * n + n" by simp
  then have "[0..<Suc m * n] = [0..<m * n] @ map (\<lambda>i. m * n + i) [0..<n]"
    by (simp only: upt_add_eq_append [of 0 "m * n" n] map_add_upt [symmetric] le0) (simp add: add.commute map_add_upt)
  then show ?case using Suc by simp
qed simp

lemma upto_map_upt: "[a..b] = map (\<lambda>i. a + int i) [0..<nat (b - a + 1)]"
proof (cases "a \<le> b")
  case True
  have "[a..b] = map int_of_nat' [0..<nat (b - a + 1)]" if "int_of_nat' = (\<lambda>i. a + int i)" for int_of_nat'
    using True that by (intro nth_equalityI) (auto simp: nth_upto)
  then show ?thesis by simp
qed simp

lemma region_tiles_positions:
  assumes "dims area w h d"
  shows "region_tiles area = map (tile_at area w h) [0..<w * h * d]"
proof -
  have n: "nat (mx (cmax area) - mx (cmin area) + 1) = w" "nat (my (cmax area) - my (cmin area) + 1) = h"
    "nat (mz (cmax area) - mz (cmin area) + 1) = d"
    using assms by (auto simp: dims_def)
  let ?t = "\<lambda>z y x. \<lparr>mx = mx (cmin area) + int x, my = my (cmin area) + int y, mz = mz (cmin area) + int z\<rparr>"
  have "region_tiles area =
      concat (map (\<lambda>z. concat (map (\<lambda>y. map (\<lambda>x. ?t z y x) [0..<w]) [0..<h])) [0..<d])"
    unfolding region_tiles_def upto_map_upt n by (simp add: comp_def)
  also have "\<dots> = map (\<lambda>i. ?t (i div (h * w)) (i mod (h * w) div w) (i mod (h * w) mod w)) [0..<d * (h * w)]"
    by (simp only: concat_map_upt)
  also have "\<dots> = map (tile_at area w h) [0..<w * h * d]"
  proof -
    have "i mod (h * w) mod w = i mod w" "i mod (h * w) div w = i div w mod h" for i
      using dims_pos [OF assms] by (simp_all add: mod_mod_cancel mult.commute [of h w] mod_mult2_eq)
    moreover have "d * (h * w) = w * h * d" "h * w = w * h" by simp_all
    ultimately show ?thesis by (simp only: tile_at_def map_eq_conv) simp
  qed
  finally show ?thesis .
qed

lemma set_flatten_options [simp]: "x \<in> set (flatten_options os) \<longleftrightarrow> Some x \<in> set os"
  by (induction os) (auto simp: flatten_options_def split: option.splits)

definition adjacent :: "map_coord \<Rightarrow> map_coord \<Rightarrow> bool" where
  "adjacent p q \<longleftrightarrow> mz p = mz q \<and> \<bar>mx p - mx q\<bar> + \<bar>my p - my q\<bar> = 1"

definition above_below :: "map_coord \<Rightarrow> map_coord \<Rightarrow> bool" where
  "above_below p q \<longleftrightarrow> mx p = mx q \<and> my p = my q \<and> \<bar>mz p - mz q\<bar> = 1"

lemma pos_neighbor:
  assumes "x < w" "y < h"
  shows "0 < x \<Longrightarrow> pos w h x y z - 1 = pos w h (x - 1) y z"
    and "pos w h x y z + 1 = pos w h (x + 1) y z"
    and "0 < y \<Longrightarrow> pos w h x y z - w = pos w h x (y - 1) z"
    and "pos w h x y z + w = pos w h x (y + 1) z"
    and "0 < z \<Longrightarrow> pos w h x y z - w * h = pos w h x y (z - 1)"
    and "pos w h x y z + w * h = pos w h x y (z + 1)"
  using assms by (auto simp: pos_def algebra_simps diff_mult_distrib gr0_conv_Suc)

text \<open>The four candidates of \<^verbatim>\<open>horizontal_neighbors\<close> by coordinates.\<close>

definition cross :: "nat \<Rightarrow> nat \<Rightarrow> nat \<Rightarrow> nat \<Rightarrow> nat \<Rightarrow> nat set" where
  "cross w h x y z =
     {j. 0 < x \<and> j = pos w h (x - 1) y z \<or> x + 1 < w \<and> j = pos w h (x + 1) y z \<or>
         0 < y \<and> j = pos w h x (y - 1) z \<or> y + 1 < h \<and> j = pos w h x (y + 1) z}"

lemma then_some_eq [simp]: "then_some b a = Some c \<longleftrightarrow> b \<and> c = a" "Some c = then_some b a \<longleftrightarrow> b \<and> c = a"
  by (auto simp: then_some_def)

lemma set_horizontal_neighbors:
  assumes "x < w" "y < h" "pg_width g = w" "pg_height g = h"
  shows "set (horizontal_neighbors g (pos w h x y z)) = cross w h x y z"
proof -
  note sp = pos_split [OF assms(1,2)] and nb = pos_neighbor [OF assms(1,2)]
  have "j \<in> set (horizontal_neighbors g (pos w h x y z)) \<longleftrightarrow>
      0 < x \<and> j = pos w h x y z - 1 \<or> x + 1 < w \<and> j = pos w h x y z + 1 \<or>
      0 < y \<and> j = pos w h x y z - w \<or> y + 1 < h \<and> j = pos w h x y z + w" for j
    using assms by (simp add: horizontal_neighbors_def Let_def sp)
  then show ?thesis unfolding cross_def using nb by (auto simp: set_eq_iff)
qed

lemma cross_adjacent:
  assumes "x < w" "y < h" "z < d"
  shows "j \<in> cross w h x y z \<longleftrightarrow>
     j < w * h * d \<and> adjacent (tile_at area w h (pos w h x y z)) (tile_at area w h j)"
proof
  assume "j \<in> cross w h x y z"
  then show "j < w * h * d \<and> adjacent (tile_at area w h (pos w h x y z)) (tile_at area w h j)"
    using assms by (auto simp: cross_def tile_at_pos adjacent_def pos_bound)
next
  assume j: "j < w * h * d \<and> adjacent (tile_at area w h (pos w h x y z)) (tile_at area w h j)"
  then obtain x' y' z' where p: "x' < w" "y' < h" "z' < d" "j = pos w h x' y' z'" by (auto elim: pos_cases)
  then have "z' = z" "\<bar>int x - int x'\<bar> + \<bar>int y - int y'\<bar> = 1"
    using j assms by (simp_all add: tile_at_pos adjacent_def)
  then have "z' = z \<and> (y' = y \<and> (0 < x \<and> x' = x - 1 \<or> x' = x + 1) \<or> x' = x \<and> (0 < y \<and> y' = y - 1 \<or> y' = y + 1))"
    by linarith
  then show "j \<in> cross w h x y z" using p by (auto simp: cross_def)
qed

lemma horizontal_neighbors_adjacent:
  assumes "i < w * h * d" "pg_width g = w" "pg_height g = h"
  shows "j \<in> set (horizontal_neighbors g i) \<longleftrightarrow> j < w * h * d \<and> adjacent (tile_at area w h i) (tile_at area w h j)"
  using assms(1) by (rule pos_cases) (simp add: set_horizontal_neighbors assms cross_adjacent)

lemma grid_neighbors_horizontal:
  "i < gr_width g * gr_height g \<Longrightarrow> pg_width g' = gr_width g \<Longrightarrow> pg_height g' = gr_height g \<Longrightarrow>
   grid_neighbors g i = horizontal_neighbors g' i"
  by (simp add: grid_neighbors_def horizontal_neighbors_def less_mult_imp_div_less mult.commute)

lemma usize_small: "0 \<le> i \<Longrightarrow> i < 2 ^ 64 \<Longrightarrow> usize_try_from i = Some (nat i)"
  by (simp add: usize_try_from_def)

lemma paired_index_position:
  assumes "dims area w h d" "w < 2 ^ 64" "h < 2 ^ 64" "d < 2 ^ 64"
    and "pg_area g = area" "pg_width g = w" "pg_height g = h"
  shows "paired_index g p = Some i \<longleftrightarrow> i < w * h * d \<and> tile_at area w h i = p"
proof (cases "cuboid_contains area p")
  case True
  with assms(1) obtain x y z where p: "x < w" "y < h" "z < d" "p = tile_at area w h (pos w h x y z)"
    and xyz: "int x = mx p - mx (cmin area)" "int y = my p - my (cmin area)" "int z = mz p - mz (cmin area)"
    by (rule tile_at_onto)
  have "usize_try_from (int x) = Some x" "usize_try_from (int y) = Some y" "usize_try_from (int z) = Some z"
    using p assms(2-4) by (simp_all add: usize_try_from_def)
  then have "paired_index g p = Some (pos w h x y z)"
    using True assms by (simp add: paired_index_def xyz [symmetric] pos_def)
  moreover have "pos w h x y z < w * h * d" using p pos_bound [OF p(1,2)] by simp
  ultimately show ?thesis using p(4) tile_at_inject [of "pos w h x y z" w h d i area] by auto
next
  case False
  then show ?thesis using assms tile_at_contains [OF assms(1)] by (auto simp: paired_index_def)
qed

lemma grid_index_position:
  assumes "dims area w h 1" "w < 2 ^ 64" "h < 2 ^ 64" "gr_area g = area" "gr_width g = w" "gr_height g = h"
  shows "grid_index g p = Some i \<longleftrightarrow> i < w * h \<and> tile_at area w h i = p"
proof -
  define g' where "g' = \<lparr>pg_area = area, pg_width = w, pg_height = h, pg_depth = 1\<rparr>"
  have "grid_index g p = paired_index g' p"
  proof (cases "cuboid_contains area p")
    case True
    then have "mz p - mz (cmin area) = 0" using assms(1) by (auto simp: dims_def cuboid_contains_def)
    then show ?thesis using assms(4-6)
      by (simp add: grid_index_def paired_index_def g'_def usize_try_from_def split: option.splits)
  qed (simp add: grid_index_def paired_index_def g'_def assms)
  then show ?thesis using paired_index_position [of area w h 1 g' p i] assms by (simp add: g'_def)
qed

subsection \<open>Difference arrays\<close>

definition edge :: "nat \<Rightarrow> nat \<Rightarrow> nat \<Rightarrow> int" where
  "edge a b x = of_bool (x = a) - of_bool (x = b)"

lemma sum_edge: "(\<Sum>x' \<le> x. edge a b x') = of_bool (a \<le> x) - of_bool (b \<le> x)"
  by (induction x) (auto simp: edge_def le_Suc_eq)

lemma sum_edge_range: "a \<le> b \<Longrightarrow> (\<Sum>x' \<le> x. edge a b x') = of_bool (a \<le> x \<and> x < b)"
  by (simp add: sum_edge)

lemma cell_inject: "x < s \<Longrightarrow> x' < s \<Longrightarrow> y * s + x = y' * s + x' \<longleftrightarrow> y = y' \<and> x = (x' :: nat)"
  by (metis add.commute div_mult_self3 mod_less mod_mult_self2 div_less add_0 less_nat_zero_code mult.commute not_gr_zero)

lemma cell_bound: "x < s \<Longrightarrow> y < n \<Longrightarrow> y * s + x < s * (n :: nat)"
  using mult_le_mono1 [of "Suc y" n s] by (simp add: mult.commute)

text \<open>How a region covers one axis of an area, in array coordinates.\<close>

definition axis :: "int \<Rightarrow> int \<Rightarrow> int \<Rightarrow> int \<Rightarrow> nat \<Rightarrow> nat \<Rightarrow> bool" where
  "axis lo hi amin amax l r \<longleftrightarrow>
     l < r \<and> int r \<le> amax - amin + 1 \<and> max lo amin = amin + int l \<and> min hi amax = amin + int (r - 1) \<and>
     (\<forall>x. int x \<le> amax - amin \<longrightarrow> (lo \<le> amin + int x \<and> amin + int x \<le> hi \<longleftrightarrow> l \<le> x \<and> x < r))"

lemma axis_cover: "max lo amin \<le> min hi amax \<Longrightarrow> \<exists>l r. axis lo hi amin amax l r"
  unfolding axis_def
  by (intro exI [of _ "nat (max lo amin - amin)"] exI [of _ "nat (min hi amax - amin) + 1"] conjI) auto

lemma scan_row_tiles:
  assumes "length d = (w + 1) * (h + 1)" "length occ = w * h" "y < h" "n \<le> w" "gr_width g = w"
  shows "\<exists>row d' occ'. fold (grid_scan_tile g y) [0..<n] (0, d, occ) = (row, d', occ') \<and>
    length d' = length d \<and> length occ' = length occ \<and> row = (\<Sum>x < n. d ! (y * (w + 1) + x)) \<and>
    (\<forall>x y'. x \<le> w \<longrightarrow> d' ! (y' * (w + 1) + x) =
       (if y' = y \<and> x < n
        then (\<Sum>x' \<le> x. d ! (y * (w + 1) + x')) + (if y = 0 then 0 else d ! ((y - 1) * (w + 1) + x))
        else d ! (y' * (w + 1) + x))) \<and>
    (\<forall>x y'. x < w \<longrightarrow> occ' ! (y' * w + x) =
       (if y' = y \<and> x < n then d' ! (y * (w + 1) + x) > 0 else occ ! (y' * w + x)))"
  using assms(4)
proof (induction n)
  case (Suc n)
  then obtain row d' occ' where IH: "fold (grid_scan_tile g y) [0..<n] (0, d, occ) = (row, d', occ')"
    "length d' = length d" "length occ' = length occ" "row = (\<Sum>x < n. d ! (y * (w + 1) + x))"
    and d': "\<And>x y'. x \<le> w \<Longrightarrow> d' ! (y' * (w + 1) + x) =
       (if y' = y \<and> x < n
        then (\<Sum>x' \<le> x. d ! (y * (w + 1) + x')) + (if y = 0 then 0 else d ! ((y - 1) * (w + 1) + x))
        else d ! (y' * (w + 1) + x))"
    and occ': "\<And>x y'. x < w \<Longrightarrow> occ' ! (y' * w + x) =
       (if y' = y \<and> x < n then d' ! (y * (w + 1) + x) > 0 else occ ! (y' * w + x))"
    by auto
  define i where "i = y * (w + 1) + n"
  define v where "v = (\<Sum>x' \<le> n. d ! (y * (w + 1) + x')) + (if y = 0 then 0 else d ! ((y - 1) * (w + 1) + n))"
  have i: "i < length d'" using cell_bound [of n "w + 1" y "h + 1"] Suc assms IH(2) by (simp add: i_def)
  have row: "row + d' ! i = (\<Sum>x' \<le> n. d ! (y * (w + 1) + x'))"
    using d' [of n y] Suc by (simp add: i_def IH(4) lessThan_Suc_atMost [symmetric])
  have "d' ! (i - (w + 1)) = d ! ((y - 1) * (w + 1) + n)" if "y \<noteq> 0"
  proof -
    have "i - (w + 1) = (y - 1) * (w + 1) + n" using that by (cases y) (auto simp: i_def)
    then show ?thesis using d' [of n "y - 1"] Suc that by simp
  qed
  then have v: "row + d' ! i + (if y = 0 then 0 else d' ! (i - (w + 1))) = v" using row by (simp add: v_def)
  have step: "fold (grid_scan_tile g y) [0..<Suc n] (0, d, occ) =
      (row + d' ! i, d'[i := v], occ'[y * w + n := v > 0])"
  proof -
    have "grid_scan_tile g y n (row, d', occ') = (row + d' ! i, d'[i := v], occ'[y * w + n := v > 0])"
      unfolding grid_scan_tile_def Let_def prod.case assms(5) i_def [symmetric] v nth_list_update_eq [OF i] ..
    then show ?thesis by (simp add: IH(1))
  qed
  have D: "d'[i := v] ! (y' * (w + 1) + x) = (if y' = y \<and> x = n then v else d' ! (y' * (w + 1) + x))"
    if "x \<le> w" for x y'
    using i cell_inject [of x "w + 1" n y' y] that Suc by (auto simp: nth_list_update i_def)
  have on: "y * w + n < length occ'" using cell_bound [of n w y h] Suc assms IH(3) by simp
  have O: "occ'[y * w + n := v > 0] ! (y' * w + x) = (if y' = y \<and> x = n then v > 0 else occ' ! (y' * w + x))"
    if "x < w" for x y'
    using on cell_inject [of x w n y' y] that Suc by (auto simp: nth_list_update)
  show ?case
  proof (intro exI conjI allI impI, rule step)
    show "row + d' ! i = (\<Sum>x < Suc n. d ! (y * (w + 1) + x))"
      using row by (simp add: lessThan_Suc_atMost)
  next
    fix x y'
    assume "x \<le> w"
    then show "d'[i := v] ! (y' * (w + 1) + x) =
       (if y' = y \<and> x < Suc n
        then (\<Sum>x' \<le> x. d ! (y * (w + 1) + x')) + (if y = 0 then 0 else d ! ((y - 1) * (w + 1) + x))
        else d ! (y' * (w + 1) + x))"
      using D d' by (auto simp: v_def less_Suc_eq)
  next
    fix x y'
    assume "x < w"
    then show "occ'[y * w + n := v > 0] ! (y' * w + x) =
       (if y' = y \<and> x < Suc n then d'[i := v] ! (y * (w + 1) + x) > 0 else occ ! (y' * w + x))"
      using O D occ' by (auto simp: less_Suc_eq)
  qed (simp_all add: IH)
qed simp

lemma scan_rows:
  assumes "length d = (w + 1) * (h + 1)" "length occ = w * h" "n \<le> h" "gr_width g = w"
  shows "\<exists>d' occ'. fold (grid_scan_row g) [0..<n] (d, occ) = (d', occ') \<and>
    length d' = length d \<and> length occ' = length occ \<and>
    (\<forall>x y. x \<le> w \<longrightarrow> d' ! (y * (w + 1) + x) =
       (if y < n \<and> x < w then \<Sum>y' \<le> y. \<Sum>x' \<le> x. d ! (y' * (w + 1) + x') else d ! (y * (w + 1) + x))) \<and>
    (\<forall>x y. x < w \<longrightarrow> y < n \<longrightarrow> occ' ! (y * w + x) = (0 < (\<Sum>y' \<le> y. \<Sum>x' \<le> x. d ! (y' * (w + 1) + x'))))"
  using assms(3)
proof (induction n)
  case 0
  then show ?case by (intro exI [of _ d] exI [of _ occ]) simp
next
  case (Suc n)
  then obtain d1 occ1 where IH: "fold (grid_scan_row g) [0..<n] (d, occ) = (d1, occ1)"
    "length d1 = length d" "length occ1 = length occ"
    and d1: "\<And>x y. x \<le> w \<Longrightarrow> d1 ! (y * (w + 1) + x) =
       (if y < n \<and> x < w then \<Sum>y' \<le> y. \<Sum>x' \<le> x. d ! (y' * (w + 1) + x') else d ! (y * (w + 1) + x))"
    and occ1: "\<And>x y. x < w \<Longrightarrow> y < n \<Longrightarrow> occ1 ! (y * w + x) = (0 < (\<Sum>y' \<le> y. \<Sum>x' \<le> x. d ! (y' * (w + 1) + x')))"
    by auto
  obtain row d2 occ2 where S: "fold (grid_scan_tile g n) [0..<w] (0, d1, occ1) = (row, d2, occ2)"
    "length d2 = length d1" "length occ2 = length occ1"
    and d2: "\<And>x y. x \<le> w \<Longrightarrow> d2 ! (y * (w + 1) + x) =
       (if y = n \<and> x < w
        then (\<Sum>x' \<le> x. d1 ! (n * (w + 1) + x')) + (if n = 0 then 0 else d1 ! ((n - 1) * (w + 1) + x))
        else d1 ! (y * (w + 1) + x))"
    and occ2: "\<And>x y. x < w \<Longrightarrow> occ2 ! (y * w + x) =
       (if y = n \<and> x < w then d2 ! (n * (w + 1) + x) > 0 else occ1 ! (y * w + x))"
    using scan_row_tiles [of d1 w h occ1 n w g] assms Suc.prems IH(2,3) by auto
  have new: "d2 ! (n * (w + 1) + x) = (\<Sum>y' \<le> n. \<Sum>x' \<le> x. d ! (y' * (w + 1) + x'))" if "x < w" for x
  proof -
    have "(\<Sum>x' \<le> x. d1 ! (n * (w + 1) + x')) = (\<Sum>x' \<le> x. d ! (n * (w + 1) + x'))"
      using that d1 by (intro sum.cong) auto
    then show ?thesis using that d2 [of x n] d1 [of x "n - 1"] by (cases n) auto
  qed
  show ?case
  proof (intro exI conjI allI impI)
    show "fold (grid_scan_row g) [0..<Suc n] (d, occ) = (d2, occ2)"
      using IH(1) S(1) assms(4) by (simp add: grid_scan_row_def)
    show "d2 ! (y * (w + 1) + x) =
        (if y < Suc n \<and> x < w then \<Sum>y' \<le> y. \<Sum>x' \<le> x. d ! (y' * (w + 1) + x') else d ! (y * (w + 1) + x))"
      if "x \<le> w" for x y
      using that new d2 [of x y] d1 [of x y] by (auto simp: less_Suc_eq)
    show "occ2 ! (y * w + x) = (0 < (\<Sum>y' \<le> y. \<Sum>x' \<le> x. d ! (y' * (w + 1) + x')))"
      if "x < w" "y < Suc n" for x y
      using that new occ2 [of x y] occ1 [of x y] by (auto simp: less_Suc_eq)
  qed (simp_all add: IH S)
qed

text \<open>The tile of an area at given array coordinates, and the part a footprint covers.\<close>

definition tile :: "map_cuboid \<Rightarrow> nat \<Rightarrow> nat \<Rightarrow> nat \<Rightarrow> map_coord" where
  "tile area x y z = \<lparr>mx = mx (cmin area) + int x, my = my (cmin area) + int y, mz = mz (cmin area) + int z\<rparr>"

definition clip :: "map_cuboid \<Rightarrow> map_cuboid \<Rightarrow> map_cuboid" where
  "clip area f =
     \<lparr>cmin = \<lparr>mx = max (mx (cmin f)) (mx (cmin area)), my = max (my (cmin f)) (my (cmin area)),
              mz = max (mz (cmin f)) (mz (cmin area))\<rparr>,
      cmax = \<lparr>mx = min (mx (cmax f)) (mx (cmax area)), my = min (my (cmax f)) (my (cmax area)),
              mz = min (mz (cmax f)) (mz (cmax area))\<rparr>\<rparr>"

lemma clip_cover:
  assumes "dims area w h d" "cuboid_ordered (clip area f)"
  obtains l r t b q k where "l < r" "r \<le> w" "t < b" "b \<le> h" "q < k" "k \<le> d"
    and "cmin (clip area f) = tile area l t q" "cmax (clip area f) = tile area (r - 1) (b - 1) (k - 1)"
    and "\<And>x y z. x < w \<Longrightarrow> y < h \<Longrightarrow> z < d \<Longrightarrow>
      cuboid_contains f (tile area x y z) \<longleftrightarrow> (l \<le> x \<and> x < r) \<and> (t \<le> y \<and> y < b) \<and> (q \<le> z \<and> z < k)"
proof -
  have ord: "max (mx (cmin f)) (mx (cmin area)) \<le> min (mx (cmax f)) (mx (cmax area))"
    "max (my (cmin f)) (my (cmin area)) \<le> min (my (cmax f)) (my (cmax area))"
    "max (mz (cmin f)) (mz (cmin area)) \<le> min (mz (cmax f)) (mz (cmax area))"
    using assms(2) by (simp_all add: cuboid_ordered_def clip_def)
  obtain l r t b q k where X: "axis (mx (cmin f)) (mx (cmax f)) (mx (cmin area)) (mx (cmax area)) l r"
    and Y: "axis (my (cmin f)) (my (cmax f)) (my (cmin area)) (my (cmax area)) t b"
    and Z: "axis (mz (cmin f)) (mz (cmax f)) (mz (cmin area)) (mz (cmax area)) q k"
    using axis_cover [OF ord(1)] axis_cover [OF ord(2)] axis_cover [OF ord(3)] by blast
  show thesis
  proof (rule that)
    show "l < r" "t < b" "q < k" using X Y Z by (simp_all add: axis_def)
    show "r \<le> w" "b \<le> h" "k \<le> d" using assms(1) X Y Z by (simp_all add: dims_def axis_def)
    show "cmin (clip area f) = tile area l t q" "cmax (clip area f) = tile area (r - 1) (b - 1) (k - 1)"
      using X Y Z by (simp_all add: clip_def axis_def tile_def)
    show "cuboid_contains f (tile area x y z) \<longleftrightarrow> (l \<le> x \<and> x < r) \<and> (t \<le> y \<and> y < b) \<and> (q \<le> z \<and> z < k)"
      if "x < w" "y < h" "z < d" for x y z
    proof -
      have "int x \<le> mx (cmax area) - mx (cmin area)" "int y \<le> my (cmax area) - my (cmin area)"
        "int z \<le> mz (cmax area) - mz (cmin area)"
        using assms(1) that by (simp_all add: dims_def)
      then have "mx (cmin f) \<le> mx (cmin area) + int x \<and> mx (cmin area) + int x \<le> mx (cmax f) \<longleftrightarrow> l \<le> x \<and> x < r"
        "my (cmin f) \<le> my (cmin area) + int y \<and> my (cmin area) + int y \<le> my (cmax f) \<longleftrightarrow> t \<le> y \<and> y < b"
        "mz (cmin f) \<le> mz (cmin area) + int z \<and> mz (cmin area) + int z \<le> mz (cmax f) \<longleftrightarrow> q \<le> z \<and> z < k"
        using X Y Z unfolding axis_def by blast+
      then show ?thesis by (simp add: cuboid_contains_def tile_def) blast
    qed
  qed
qed

lemma clip_empty: "\<not> cuboid_ordered (clip area f) \<Longrightarrow> cuboid_contains area p \<Longrightarrow> \<not> cuboid_contains f p"
  by (auto simp: cuboid_ordered_def clip_def cuboid_contains_def)

lemma tile_of_pos: "x < w \<Longrightarrow> y < h \<Longrightarrow> tile_at area w h (pos w h x y z) = tile area x y z"
  by (simp add: tile_at_pos tile_def)

lemma tile_contained: "dims area w h d \<Longrightarrow> x < w \<Longrightarrow> y < h \<Longrightarrow> z < d \<Longrightarrow> cuboid_contains area (tile area x y z)"
  by (simp add: cuboid_contains_def dims_def tile_def)

text \<open>What one footprint adds to the array, and the sum of it over a corner of the array.\<close>

lemma grid_corners_effect:
  assumes dim: "dims area w h 1" and small: "w < 2 ^ 64" "h < 2 ^ 64"
    and g: "gr_area g = area" "gr_width g = w" "gr_height g = h" and len: "length d = (w + 1) * (h + 1)"
  shows "\<exists>c. length (grid_corners g f d) = length d \<and>
     (\<forall>x y. x \<le> w \<longrightarrow> y \<le> h \<longrightarrow> grid_corners g f d ! (y * (w + 1) + x) = d ! (y * (w + 1) + x) + c y x) \<and>
     (\<forall>x y. x < w \<longrightarrow> y < h \<longrightarrow> (\<Sum>y' \<le> y. \<Sum>x' \<le> x. c y' x') = of_bool (cuboid_contains f (tile area x y 0)))"
proof (cases "cuboid_ordered (clip area f)")
  case False
  have z: "mz (cmax area) = mz (cmin area)" using dim by (simp add: dims_def)
  have "grid_corners g f d = d"
    using False g z by (auto simp: grid_corners_def Let_def cuboid_ordered_def clip_def split: option.splits)
  moreover have "\<not> cuboid_contains f (tile area x y 0)" if "x < w" "y < h" for x y
    using that clip_empty [OF False] tile_contained [OF dim, of x y 0] by simp
  ultimately show ?thesis by (intro exI [of _ "\<lambda>_ _. 0"]) simp
next
  case True
  obtain l r t b q k where c: "l < r" "r \<le> w" "t < b" "b \<le> h" "q < k" "k \<le> 1"
    and lo: "cmin (clip area f) = tile area l t q" and hi: "cmax (clip area f) = tile area (r - 1) (b - 1) (k - 1)"
    and cov: "\<And>x y z. x < w \<Longrightarrow> y < h \<Longrightarrow> z < 1 \<Longrightarrow>
      cuboid_contains f (tile area x y z) \<longleftrightarrow> (l \<le> x \<and> x < r) \<and> (t \<le> y \<and> y < b) \<and> (q \<le> z \<and> z < k)"
    using dim True by (rule clip_cover) blast
  have qk: "q = 0" "k = 1" using c by simp_all
  have index: "grid_index g (tile area x y 0) = Some (pos w h x y 0)" if "x < w" "y < h" for x y
    using grid_index_position [OF dim small g, of "tile area x y 0" "pos w h x y 0"] that pos_bound [of x w y h 0 1]
    by (simp add: tile_of_pos)
  have corners: "grid_corners g f d =
      add_at (b * (w + 1) + r) 1 (add_at (b * (w + 1) + l) (- 1)
        (add_at (t * (w + 1) + r) (- 1) (add_at (t * (w + 1) + l) 1 d)))"
  proof -
    have z: "mz (cmin f) \<le> mz (cmin area)" "mz (cmin area) \<le> mz (cmax f)" "mz (cmax area) = mz (cmin area)"
      using True dim by (auto simp: cuboid_ordered_def clip_def dims_def)
    have lo': "\<lparr>mx = max (mx (cmin f)) (mx (cmin area)), my = max (my (cmin f)) (my (cmin area)), mz = mz (cmin area)\<rparr>
        = tile area l t 0"
      using lo qk by (simp add: clip_def tile_def)
    have hi': "\<lparr>mx = min (mx (cmax f)) (mx (cmax area)), my = min (my (cmax f)) (my (cmax area)), mz = mz (cmin area)\<rparr>
        = tile area (r - 1) (b - 1) 0"
      using hi qk by (simp add: clip_def tile_def)
    have "l < w" "t < h" "r - 1 < w" "b - 1 < h" using c by simp_all
    then show ?thesis
      using z c unfolding grid_corners_def Let_def g lo' hi'
      by (simp add: index pos_split) (simp add: tile_def pos_def)
  qed
  have nth: "grid_corners g f d ! (y * (w + 1) + x) = d ! (y * (w + 1) + x) + edge l r x * edge t b y"
    if xy: "x \<le> w" "y \<le> h" for x y
  proof -
    define cell where "cell = (\<lambda>y x. y * (w + 1) + x)"
    have bound: "cell y' x' < length d" if "x' \<le> w" "y' \<le> h" for x' y'
      using cell_bound [of x' "w + 1" y' "h + 1"] that len by (simp add: cell_def)
    have eq: "cell y x = cell y' x' \<longleftrightarrow> y = y' \<and> x = x'" if "x' \<le> w" for x' y'
      using cell_inject [of x "w + 1" x' y y'] that xy by (simp add: cell_def)
    have "grid_corners g f d = add_at (cell b r) 1 (add_at (cell b l) (- 1) (add_at (cell t r) (- 1) (add_at (cell t l) 1 d)))"
      by (simp only: corners cell_def)
    then have "grid_corners g f d ! cell y x = d ! cell y x + edge l r x * edge t b y"
      using c bound by (simp add: nth_add_at eq) (auto simp: edge_def)
    then show ?thesis by (simp only: cell_def)
  qed
  have "(\<Sum>y' \<le> y. \<Sum>x' \<le> x. edge l r x' * edge t b y') = of_bool (cuboid_contains f (tile area x y 0))"
    if "x < w" "y < h" for x y
    using that c cov [of x y 0] qk
    by (simp add: sum_distrib_right [symmetric] sum_distrib_left [symmetric] sum_edge_range)
  then show ?thesis
    using nth corners by (intro exI [of _ "\<lambda>y x. edge l r x * edge t b y"]) simp
qed

lemma grid_corners_all:
  assumes "dims area w h 1" "w < 2 ^ 64" "h < 2 ^ 64"
    and "gr_area g = area" "gr_width g = w" "gr_height g = h" "length d = (w + 1) * (h + 1)"
  shows "\<exists>c. length (fold (grid_corners g) fs d) = length d \<and>
     (\<forall>x y. x \<le> w \<longrightarrow> y \<le> h \<longrightarrow> fold (grid_corners g) fs d ! (y * (w + 1) + x) = d ! (y * (w + 1) + x) + c y x) \<and>
     (\<forall>x y. x < w \<longrightarrow> y < h \<longrightarrow>
        (\<Sum>y' \<le> y. \<Sum>x' \<le> x. c y' x') = (\<Sum>f \<leftarrow> fs. of_bool (cuboid_contains f (tile area x y 0))))"
  using assms(7)
proof (induction fs arbitrary: d)
  case Nil
  then show ?case by (intro exI [of _ "\<lambda>_ _. 0"]) simp
next
  case (Cons f fs)
  obtain c where c: "length (grid_corners g f d) = length d"
    "\<And>x y. x \<le> w \<Longrightarrow> y \<le> h \<Longrightarrow> grid_corners g f d ! (y * (w + 1) + x) = d ! (y * (w + 1) + x) + c y x"
    "\<And>x y. x < w \<Longrightarrow> y < h \<Longrightarrow> (\<Sum>y' \<le> y. \<Sum>x' \<le> x. c y' x') = of_bool (cuboid_contains f (tile area x y 0))"
    using grid_corners_effect [OF assms(1-6) Cons.prems] by blast
  obtain c' where c': "length (fold (grid_corners g) fs (grid_corners g f d)) = length (grid_corners g f d)"
    "\<And>x y. x \<le> w \<Longrightarrow> y \<le> h \<Longrightarrow> fold (grid_corners g) fs (grid_corners g f d) ! (y * (w + 1) + x)
        = grid_corners g f d ! (y * (w + 1) + x) + c' y x"
    "\<And>x y. x < w \<Longrightarrow> y < h \<Longrightarrow>
        (\<Sum>y' \<le> y. \<Sum>x' \<le> x. c' y' x') = (\<Sum>f \<leftarrow> fs. of_bool (cuboid_contains f (tile area x y 0)))"
    using Cons.IH [of "grid_corners g f d"] Cons.prems c(1) by auto
  show ?case
    using c c' by (intro exI [of _ "\<lambda>y x. c y x + c' y x"]) (simp add: sum.distrib del: mult_Suc_right)
qed

lemma sum_of_bool_pos: "0 < (\<Sum>x \<leftarrow> xs. of_bool (P x) :: int) \<longleftrightarrow> (\<exists>x \<in> set xs. P x)"
proof -
  have "(\<Sum>x \<leftarrow> xs. of_bool (P x) :: int) = int (length (filter P xs))"
    by (induction xs) auto
  then show ?thesis by (simp add: filter_empty_conv)
qed

text \<open>The rasterization of the single-level model is exact.\<close>

lemma grid_occupied_exact:
  assumes "dims area w h 1" "w < 2 ^ 64" "h < 2 ^ 64" "gr_area g = area" "gr_width g = w" "gr_height g = h"
  shows "length (grid_occupied g fs) = w * h"
    and "i < w * h \<Longrightarrow> grid_occupied g fs ! i \<longleftrightarrow> (\<exists>f \<in> set (map snd fs). cuboid_contains f (tile_at area w h i))"
proof -
  let ?d0 = "replicate ((w + 1) * (h + 1)) 0 :: int list" and ?fs = "map snd fs"
  obtain c where c: "length (fold (grid_corners g) ?fs ?d0) = (w + 1) * (h + 1)"
    "\<And>x y. x \<le> w \<Longrightarrow> y \<le> h \<Longrightarrow> fold (grid_corners g) ?fs ?d0 ! (y * (w + 1) + x) = ?d0 ! (y * (w + 1) + x) + c y x"
    "\<And>x y. x < w \<Longrightarrow> y < h \<Longrightarrow>
        (\<Sum>y' \<le> y. \<Sum>x' \<le> x. c y' x') = (\<Sum>f \<leftarrow> ?fs. of_bool (cuboid_contains f (tile area x y 0)))"
    using grid_corners_all [OF assms, of ?d0 ?fs] by auto
  define d where "d = fold (grid_corners g) ?fs ?d0"
  have d: "d ! (y * (w + 1) + x) = c y x" if "x \<le> w" "y \<le> h" for x y
    using that c(2) [OF that] cell_bound [of x "w + 1" y "h + 1"]
    by (simp add: d_def del: mult_Suc_right replicate_Suc)
  obtain d' occ where s: "fold (grid_scan_row g) [0..<h] (d, replicate (w * h) False) = (d', occ)" "length occ = w * h"
    and occ: "\<And>x y. x < w \<Longrightarrow> y < h \<Longrightarrow> occ ! (y * w + x) = (0 < (\<Sum>y' \<le> y. \<Sum>x' \<le> x. d ! (y' * (w + 1) + x')))"
    using scan_rows [of d w h "replicate (w * h) False" h g] c(1) assms by (auto simp: d_def)
  have eq: "grid_occupied g fs = occ"
    using s assms by (simp add: grid_occupied_def Let_def d_def)
  then show "length (grid_occupied g fs) = w * h" using s by simp
  assume i: "i < w * h"
  then obtain x y z where p: "x < w" "y < h" "z < 1" "i = pos w h x y z" using pos_cases [of i w h 1] by auto
  have "(\<Sum>y' \<le> y. \<Sum>x' \<le> x. d ! (y' * (w + 1) + x')) = (\<Sum>y' \<le> y. \<Sum>x' \<le> x. c y' x')"
    using p d by (intro sum.cong) auto
  then show "grid_occupied g fs ! i \<longleftrightarrow> (\<exists>f \<in> set (map snd fs). cuboid_contains f (tile_at area w h i))"
    using eq occ [OF p(1,2)] c(3) [OF p(1,2)] p 
    by (simp add: sum_of_bool_pos tile_of_pos del: map_map) (simp add: pos_def)
qed

subsection \<open>Three dimensions\<close>

lemma sorted_concat_map:
  assumes "sorted_wrt (<) ys" "\<And>y. y \<in> set ys \<Longrightarrow> sorted_wrt (<) (f y)"
    and "\<And>y y' a b. y \<in> set ys \<Longrightarrow> y' \<in> set ys \<Longrightarrow> y < y' \<Longrightarrow> a \<in> set (f y) \<Longrightarrow> b \<in> set (f y') \<Longrightarrow> a < b"
  shows "sorted_wrt (<) (concat (map f ys))"
  using assms
proof (induction ys)
  case (Cons y ys)
  have "sorted_wrt (<) (concat (map f ys))"
    using Cons.prems(1) by (intro Cons.IH Cons.prems(2,3)) auto
  moreover have "a < b" if "a \<in> set (f y)" "y' \<in> set ys" "b \<in> set (f y')" for a b y'
    using Cons.prems(1) that by (intro Cons.prems(3) [of y y']) auto
  ultimately show ?case using Cons.prems(2) [of y] by (auto simp: sorted_wrt_append)
qed simp

lemma pos_less_y: "x < w \<Longrightarrow> y < y' \<Longrightarrow> pos w h x y z < pos w h x' y' z"
proof -
  assume "x < w" "y < y'"
  then have "(z * h + Suc y) * w \<le> (z * h + y') * w" by (intro mult_le_mono1) simp
  with \<open>x < w\<close> show ?thesis by (simp add: pos_def)
qed

lemma pos_less_z: "x < w \<Longrightarrow> y < h \<Longrightarrow> z < z' \<Longrightarrow> pos w h x y z < pos w h x' y' z'"
proof -
  assume a: "x < w" "y < h" "z < z'"
  then have "Suc z * h \<le> z' * h" by (intro mult_le_mono1) simp
  then have "Suc (z * h + y) * w \<le> (z' * h + y') * w" using a by (intro mult_le_mono1) simp
  with a show ?thesis by (simp add: pos_def)
qed

lemma paired_cells_pos:
  assumes "pg_width g = w" "pg_height g = h"
  shows "paired_cells g zs ys xs =
    concat (map (\<lambda>z. concat (map (\<lambda>y. map (\<lambda>x. pos (w + 1) (h + 1) x y z) xs) ys)) zs)"
  using assms by (simp add: paired_cells_def Let_def pos_def algebra_simps del: add_Suc_right mult_Suc_right)

lemma set_paired_cells:
  "pg_width g = w \<Longrightarrow> pg_height g = h \<Longrightarrow>
   i \<in> set (paired_cells g zs ys xs) \<longleftrightarrow>
   (\<exists>x \<in> set xs. \<exists>y \<in> set ys. \<exists>z \<in> set zs. i = pos (w + 1) (h + 1) x y z)"
  by (auto simp: paired_cells_pos)

lemma sorted_paired_cells:
  assumes "pg_width g = w" "pg_height g = h" "sorted_wrt (<) xs" "sorted_wrt (<) ys" "sorted_wrt (<) zs"
    and "\<forall>x \<in> set xs. x < w + 1" "\<forall>y \<in> set ys. y < h + 1"
  shows "sorted_wrt (<) (paired_cells g zs ys xs)"
  unfolding paired_cells_pos [OF assms(1,2)]
proof (rule sorted_concat_map [OF assms(5)])
  fix z
  show "sorted_wrt (<) (concat (map (\<lambda>y. map (\<lambda>x. pos (w + 1) (h + 1) x y z) xs) ys))"
  proof (rule sorted_concat_map [OF assms(4)])
    show "sorted_wrt (<) (map (\<lambda>x. pos (w + 1) (h + 1) x y z) xs)" for y
      unfolding sorted_wrt_map by (rule sorted_wrt_mono_rel [OF _ assms(3)]) (simp add: pos_def)
  qed (use assms pos_less_y in auto)
qed (use assms pos_less_z in \<open>auto simp del: mult_Suc_right\<close>)

text \<open>One pass of the in-place sums along an axis, in array coordinates.\<close>

lemma accumulate_pass:
  assumes g: "pg_width g = w" "pg_height g = h" and len: "length v = (w + 1) * (h + 1) * (d + 1)"
    and lists: "sorted_wrt (<) xs" "sorted_wrt (<) ys" "sorted_wrt (<) zs"
      "set xs \<subseteq> {..w}" "set ys \<subseteq> {..h}" "set zs \<subseteq> {..d}"
    and s: "0 < s" "\<And>x y z. x \<in> set xs \<Longrightarrow> y \<in> set ys \<Longrightarrow> z \<in> set zs \<Longrightarrow> s \<le> pos (w + 1) (h + 1) x y z"
    and c: "x \<le> w" "y \<le> h" "z \<le> d"
  shows "accumulate s (paired_cells g zs ys xs) v ! pos (w + 1) (h + 1) x y z =
     v ! pos (w + 1) (h + 1) x y z +
     (if x \<in> set xs \<and> y \<in> set ys \<and> z \<in> set zs
      then accumulate s (paired_cells g zs ys xs) v ! (pos (w + 1) (h + 1) x y z - s) else 0)"
proof -
  have sorted: "sorted_wrt (<) (paired_cells g zs ys xs)"
    using lists by (intro sorted_paired_cells [OF g]) auto
  have range: "\<forall>i \<in> set (paired_cells g zs ys xs). s \<le> i \<and> i < length v"
  proof
    fix i
    assume "i \<in> set (paired_cells g zs ys xs)"
    then obtain x y z where i: "x \<in> set xs" "y \<in> set ys" "z \<in> set zs" "i = pos (w + 1) (h + 1) x y z"
      unfolding set_paired_cells [OF g] by blast
    then have "x \<le> w" "y \<le> h" "z \<le> d" using lists(4-6) by auto
    then show "s \<le> i \<and> i < length v"
      using s(2) i pos_bound [of x "w + 1" y "h + 1" z "d + 1"] len by simp
  qed
  have mem: "pos (w + 1) (h + 1) x y z \<in> set (paired_cells g zs ys xs) \<longleftrightarrow> x \<in> set xs \<and> y \<in> set ys \<and> z \<in> set zs"
  proof -
    have eq: "pos (w + 1) (h + 1) x y z = pos (w + 1) (h + 1) x' y' z' \<longleftrightarrow> x = x' \<and> y = y' \<and> z = z'"
      if "x' \<in> set xs" "y' \<in> set ys" for x' y' z'
      using that lists(4,5) c by (intro pos_inject) auto
    show ?thesis unfolding set_paired_cells [OF g] by (simp only: eq cong: bex_cong) blast
  qed
  show ?thesis using accumulate_nth [OF sorted s(1) range, of "pos (w + 1) (h + 1) x y z"] by (simp only: mem)
qed

lemma prefix_sum:
  fixes f a :: "nat \<Rightarrow> int"
  assumes "\<And>x. x \<le> n \<Longrightarrow> a x = f x + (if x = 0 then 0 else a (x - 1))" "x \<le> n"
  shows "a x = (\<Sum>x' \<le> x. f x')"
  using assms(2)
proof (induction x)
  case 0
  then show ?case using assms(1) [of 0] by simp
next
  case (Suc x)
  then show ?case using assms(1) [of "Suc x"] by simp
qed

lemma fold_add_at_nth:
  assumes "\<forall>(i, v) \<in> set us. i < length d"
  shows "fold (\<lambda>(i, v). add_at i v) us d ! j = d ! j + (\<Sum>(i, v) \<leftarrow> us. if j = i then v else 0)"
    and "length (fold (\<lambda>(i, v). add_at i v) us d) = length d"
  using assms by (induction us arbitrary: d) (auto simp: nth_add_at)

definition corner_list :: "(nat \<Rightarrow> nat \<Rightarrow> nat \<Rightarrow> nat) \<Rightarrow> nat \<Rightarrow> nat \<Rightarrow> nat \<Rightarrow> nat \<Rightarrow> nat \<Rightarrow> nat \<Rightarrow> (nat \<times> int) list" where
  "corner_list c l r t b q k =
     [(c l t q, 1), (c l t k, - 1), (c l b q, - 1), (c l b k, 1),
      (c r t q, - 1), (c r t k, 1), (c r b q, 1), (c r b k, - 1)]"

lemma paired_corners_unfold:
  assumes g: "pg_area g = area" "pg_width g = w" "pg_height g = h"
  shows "paired_corners g f v =
       (if mx (cmax (clip area f)) < mx (cmin (clip area f)) \<or> my (cmax (clip area f)) < my (cmin (clip area f))
          \<or> mz (cmax (clip area f)) < mz (cmin (clip area f)) then v
        else
          (case (paired_index g (cmin (clip area f)), paired_index g (cmax (clip area f))) of
             (Some start, Some stop) \<Rightarrow>
               fold (\<lambda>(x, y, z, u). add_at (z * ((w + 1) * (h + 1)) + y * (w + 1) + x) u)
                 [(x, y, z, x_sign * y_sign * z_sign).
                   (x, x_sign) \<leftarrow> [(start mod w, 1), (stop mod w + 1, - 1)],
                   (y, y_sign) \<leftarrow> [(start div w mod h, 1), (stop div w mod h + 1, - 1)],
                   (z, z_sign) \<leftarrow> [(start div (w * h), 1), (stop div (w * h) + 1, - 1)]] v
           | _ \<Rightarrow> v))"
  unfolding paired_corners_def Let_def g clip_def map_cuboid.simps map_coord.simps by (rule refl)

lemma paired_corners_effect:
  assumes dim: "dims area w h d" and small: "w < 2 ^ 64" "h < 2 ^ 64" "d < 2 ^ 64"
    and g: "pg_area g = area" "pg_width g = w" "pg_height g = h"
    and len: "length v = (w + 1) * (h + 1) * (d + 1)"
  shows "\<exists>c. length (paired_corners g f v) = length v \<and>
     (\<forall>x y z. x \<le> w \<longrightarrow> y \<le> h \<longrightarrow> z \<le> d \<longrightarrow>
        paired_corners g f v ! pos (w + 1) (h + 1) x y z = v ! pos (w + 1) (h + 1) x y z + c z y x) \<and>
     (\<forall>x y z. x < w \<longrightarrow> y < h \<longrightarrow> z < d \<longrightarrow>
        (\<Sum>z' \<le> z. \<Sum>y' \<le> y. \<Sum>x' \<le> x. c z' y' x') = of_bool (cuboid_contains f (tile area x y z)))"
proof (cases "cuboid_ordered (clip area f)")
  case False
  have "paired_corners g f v = v"
    using False by (auto simp: paired_corners_unfold [OF g] cuboid_ordered_def not_le)
  moreover have "\<not> cuboid_contains f (tile area x y z)" if "x < w" "y < h" "z < d" for x y z
    using that clip_empty [OF False] tile_contained [OF dim, of x y z] by simp
  ultimately show ?thesis by (intro exI [of _ "\<lambda>_ _ _. 0"]) simp
next
  case True
  obtain l r t b q k where c: "l < r" "r \<le> w" "t < b" "b \<le> h" "q < k" "k \<le> d"
    and lo: "cmin (clip area f) = tile area l t q" and hi: "cmax (clip area f) = tile area (r - 1) (b - 1) (k - 1)"
    and cov: "\<And>x y z. x < w \<Longrightarrow> y < h \<Longrightarrow> z < d \<Longrightarrow>
      cuboid_contains f (tile area x y z) \<longleftrightarrow> (l \<le> x \<and> x < r) \<and> (t \<le> y \<and> y < b) \<and> (q \<le> z \<and> z < k)"
    using dim True by (rule clip_cover) blast
  define cell where "cell = (\<lambda>x y z. pos (w + 1) (h + 1) x y z)"
  have index: "paired_index g (tile area x y z) = Some (pos w h x y z)" if "x < w" "y < h" "z < d" for x y z
    using paired_index_position [OF dim small g, of "tile area x y z" "pos w h x y z"] that pos_bound [of x w y h z d]
    by (simp add: tile_of_pos)
  have corners: "paired_corners g f v = fold (\<lambda>(i, v). add_at i v) (corner_list cell l r t b q k) v"
  proof -
    have ord: "\<not> (mx (cmax (clip area f)) < mx (cmin (clip area f)) \<or> my (cmax (clip area f)) < my (cmin (clip area f))
        \<or> mz (cmax (clip area f)) < mz (cmin (clip area f)))"
      using True by (simp add: cuboid_ordered_def not_less)
    have "l < w" "t < h" "q < d" "r - 1 < w" "b - 1 < h" "k - 1 < d" "r - 1 + 1 = r" "b - 1 + 1 = b" "k - 1 + 1 = k"
      using c by simp_all
    moreover have "z * ((w + 1) * (h + 1)) + y * (w + 1) + x = cell x y z" for x y z
      by (simp add: cell_def pos_def algebra_simps)
    ultimately show ?thesis
      using ord by (simp only: paired_corners_unfold [OF g] if_False lo hi index option.case prod.case pos_split(1-3) corner_list_def) simp
  qed
  have bound: "cell x y z < length v" if "x \<le> w" "y \<le> h" "z \<le> d" for x y z
    using pos_bound [of x "w + 1" y "h + 1" z "d + 1"] that len by (simp add: cell_def)
  have eq: "cell x y z = cell x' y' z' \<longleftrightarrow> x = x' \<and> y = y' \<and> z = z'"
    if "x \<le> w" "y \<le> h" "x' \<le> w" "y' \<le> h" for x y z x' y' z'
    using pos_inject [of x "w + 1" y "h + 1" x' y' z z'] that by (simp add: cell_def)
  have in_range: "\<forall>(i, u) \<in> set (corner_list cell l r t b q k). i < length v"
    using c by (simp add: corner_list_def bound)
  have nth: "paired_corners g f v ! cell x y z = v ! cell x y z + edge l r x * edge t b y * edge q k z"
    if "x \<le> w" "y \<le> h" for x y z
    unfolding corners fold_add_at_nth(1) [OF in_range] using c that
    by (simp add: corner_list_def eq) (auto simp: edge_def)
  have "(\<Sum>z' \<le> z. \<Sum>y' \<le> y. \<Sum>x' \<le> x. edge l r x' * edge t b y' * edge q k z') =
      of_bool (cuboid_contains f (tile area x y z))" if "x < w" "y < h" "z < d" for x y z
  proof -
    have "(\<Sum>z' \<le> z. \<Sum>y' \<le> y. \<Sum>x' \<le> x. edge l r x' * edge t b y' * edge q k z') =
        (\<Sum>x' \<le> x. edge l r x') * (\<Sum>y' \<le> y. edge t b y') * (\<Sum>z' \<le> z. edge q k z')"
      by (simp add: sum_distrib_right [symmetric] sum_distrib_left [symmetric])
    then show ?thesis using c that cov by (simp add: sum_edge_range)
  qed
  then show ?thesis
    using nth fold_add_at_nth(2) [OF in_range] unfolding corners cell_def
    by (intro exI [of _ "\<lambda>z y x. edge l r x * edge t b y * edge q k z"]) simp
qed

lemma paired_corners_all:
  assumes "dims area w h d" "w < 2 ^ 64" "h < 2 ^ 64" "d < 2 ^ 64"
    and "pg_area g = area" "pg_width g = w" "pg_height g = h" "length v = (w + 1) * (h + 1) * (d + 1)"
  shows "\<exists>c. length (fold (paired_corners g) fs v) = length v \<and>
     (\<forall>x y z. x \<le> w \<longrightarrow> y \<le> h \<longrightarrow> z \<le> d \<longrightarrow>
        fold (paired_corners g) fs v ! pos (w + 1) (h + 1) x y z = v ! pos (w + 1) (h + 1) x y z + c z y x) \<and>
     (\<forall>x y z. x < w \<longrightarrow> y < h \<longrightarrow> z < d \<longrightarrow>
        (\<Sum>z' \<le> z. \<Sum>y' \<le> y. \<Sum>x' \<le> x. c z' y' x') = (\<Sum>f \<leftarrow> fs. of_bool (cuboid_contains f (tile area x y z))))"
  using assms(8)
proof (induction fs arbitrary: v)
  case Nil
  then show ?case by (intro exI [of _ "\<lambda>_ _ _. 0"]) simp
next
  case (Cons f fs)
  define v' where "v' = paired_corners g f v"
  obtain c where c: "length v' = length v"
    "\<And>x y z. x \<le> w \<Longrightarrow> y \<le> h \<Longrightarrow> z \<le> d \<Longrightarrow> v' ! pos (w + 1) (h + 1) x y z = v ! pos (w + 1) (h + 1) x y z + c z y x"
    "\<And>x y z. x < w \<Longrightarrow> y < h \<Longrightarrow> z < d \<Longrightarrow>
       (\<Sum>z' \<le> z. \<Sum>y' \<le> y. \<Sum>x' \<le> x. c z' y' x') = of_bool (cuboid_contains f (tile area x y z))"
    using paired_corners_effect [OF assms(1-7) Cons.prems] unfolding v'_def by blast
  obtain c' where c': "length (fold (paired_corners g) fs v') = length v'"
    "\<And>x y z. x \<le> w \<Longrightarrow> y \<le> h \<Longrightarrow> z \<le> d \<Longrightarrow>
       fold (paired_corners g) fs v' ! pos (w + 1) (h + 1) x y z = v' ! pos (w + 1) (h + 1) x y z + c' z y x"
    "\<And>x y z. x < w \<Longrightarrow> y < h \<Longrightarrow> z < d \<Longrightarrow>
       (\<Sum>z' \<le> z. \<Sum>y' \<le> y. \<Sum>x' \<le> x. c' z' y' x') = (\<Sum>f \<leftarrow> fs. of_bool (cuboid_contains f (tile area x y z)))"
    using Cons.IH [of v'] Cons.prems c(1) by auto
  show ?case
    using c c' by (intro exI [of _ "\<lambda>z y x. c z y x + c' z y x"]) (simp add: sum.distrib v'_def)
qed

lemma pos_ge:
  "1 \<le> x \<Longrightarrow> 1 \<le> pos w h x y z" "1 \<le> y \<Longrightarrow> w \<le> pos w h x y z" "1 \<le> z \<Longrightarrow> w * h \<le> pos w h x y z"
proof -
  show "1 \<le> x \<Longrightarrow> 1 \<le> pos w h x y z" by (simp add: pos_def)
  show "w \<le> pos w h x y z" if "1 \<le> y"
  proof -
    have "1 * w \<le> (z * h + y) * w" using that by (intro mult_le_mono1) simp
    then show ?thesis unfolding pos_def by linarith
  qed
  show "w * h \<le> pos w h x y z" if "1 \<le> z"
  proof -
    have "1 * h \<le> z * h" using that by (rule mult_le_mono1)
    then have "h \<le> z * h + y" by linarith
    then have "h * w \<le> (z * h + y) * w" by (rule mult_le_mono1)
    then show ?thesis unfolding pos_def mult.commute [of w h] by linarith
  qed
qed

lemma accumulate_range:
  assumes g: "pg_width g = w" "pg_height g = h" and len: "length v = (w + 1) * (h + 1) * (d + 1)"
    and s: "0 < s" "\<And>x y z. i \<le> x \<Longrightarrow> j \<le> y \<Longrightarrow> k \<le> z \<Longrightarrow> s \<le> pos (w + 1) (h + 1) x y z"
    and c: "x \<le> w" "y \<le> h" "z \<le> d"
  shows "accumulate s (paired_cells g [k..<d + 1] [j..<h + 1] [i..<w + 1]) v ! pos (w + 1) (h + 1) x y z =
     v ! pos (w + 1) (h + 1) x y z +
     (if i \<le> x \<and> j \<le> y \<and> k \<le> z
      then accumulate s (paired_cells g [k..<d + 1] [j..<h + 1] [i..<w + 1]) v ! (pos (w + 1) (h + 1) x y z - s) else 0)"
proof -
  have mem: "x \<in> set [i..<w + 1] \<longleftrightarrow> i \<le> x" "y \<in> set [j..<h + 1] \<longleftrightarrow> j \<le> y" "z \<in> set [k..<d + 1] \<longleftrightarrow> k \<le> z"
    using c by (auto simp del: upt_Suc)
  have sub: "set [i..<w + 1] \<subseteq> {..w}" "set [j..<h + 1] \<subseteq> {..h}" "set [k..<d + 1] \<subseteq> {..d}"
    by (auto simp del: upt_Suc)
  show ?thesis
    unfolding mem [symmetric]
    by (rule accumulate_pass [OF g len sorted_wrt_upt sorted_wrt_upt sorted_wrt_upt sub s(1) s(2) c])
      (simp_all del: upt_Suc)
qed

lemma paired_sums:
  assumes g: "pg_width g = w" "pg_height g = h" and len: "length v = (w + 1) * (h + 1) * (d + 1)"
    and c: "x \<le> w" "y \<le> h" "z \<le> d"
  defines "v1 \<equiv> accumulate 1 (paired_cells g [0..<d + 1] [0..<h + 1] [1..<w + 1]) v"
  defines "v2 \<equiv> accumulate (w + 1) (paired_cells g [0..<d + 1] [1..<h + 1] [0..<w + 1]) v1"
  defines "v3 \<equiv> accumulate ((w + 1) * (h + 1)) (paired_cells g [1..<d + 1] [0..<h + 1] [0..<w + 1]) v2"
  shows "v3 ! pos (w + 1) (h + 1) x y z = (\<Sum>z' \<le> z. \<Sum>y' \<le> y. \<Sum>x' \<le> x. v ! pos (w + 1) (h + 1) x' y' z')"
proof -
  let ?p = "pos (w + 1) (h + 1)"
  have l1: "length v1 = (w + 1) * (h + 1) * (d + 1)" and l2: "length v2 = (w + 1) * (h + 1) * (d + 1)"
    unfolding v1_def v2_def length_accumulate by (fact len)+
  have X: "v1 ! ?p x y z = v ! ?p x y z + (if x = 0 then 0 else v1 ! ?p (x - 1) y z)"
    if "x \<le> w" "y \<le> h" "z \<le> d" for x y z
  proof -
    have "v1 ! ?p x y z = v ! ?p x y z + (if 1 \<le> x \<and> 0 \<le> y \<and> 0 \<le> z then v1 ! (?p x y z - 1) else 0)"
      unfolding v1_def by (rule accumulate_range [OF g len _ _ that]) (auto intro: pos_ge(1) [unfolded One_nat_def])
    then show ?thesis using pos_neighbor(1) [of x "w + 1" y "h + 1" z] that by (cases "x = 0") auto
  qed
  have Y: "v2 ! ?p x y z = v1 ! ?p x y z + (if y = 0 then 0 else v2 ! ?p x (y - 1) z)"
    if "x \<le> w" "y \<le> h" "z \<le> d" for x y z
  proof -
    have "v2 ! ?p x y z = v1 ! ?p x y z + (if 0 \<le> x \<and> 1 \<le> y \<and> 0 \<le> z then v2 ! (?p x y z - (w + 1)) else 0)"
      unfolding v2_def by (rule accumulate_range [OF g l1 _ _ that]) (auto intro: pos_ge(2))
    then show ?thesis using pos_neighbor(3) [of x "w + 1" y "h + 1" z] that by (cases "y = 0") auto
  qed
  have Z: "v3 ! ?p x y z = v2 ! ?p x y z + (if z = 0 then 0 else v3 ! ?p x y (z - 1))"
    if "x \<le> w" "y \<le> h" "z \<le> d" for x y z
  proof -
    have "v3 ! ?p x y z = v2 ! ?p x y z + (if 0 \<le> x \<and> 0 \<le> y \<and> 1 \<le> z then v3 ! (?p x y z - ((w + 1) * (h + 1))) else 0)"
      unfolding v3_def by (rule accumulate_range [OF g l2 _ _ that]) (auto intro: pos_ge(3) simp del: mult_Suc mult_Suc_right)
    then show ?thesis using pos_neighbor(5) [of x "w + 1" y "h + 1" z] that by (cases "z = 0") auto
  qed
  have SX: "v1 ! ?p x y z = (\<Sum>x' \<le> x. v ! ?p x' y z)" if "x \<le> w" "y \<le> h" "z \<le> d" for x y z
    by (rule prefix_sum [of w "\<lambda>x. v1 ! ?p x y z" "\<lambda>x. v ! ?p x y z"]) (use X that in auto)
  have SY: "v2 ! ?p x y z = (\<Sum>y' \<le> y. v1 ! ?p x y' z)" if "x \<le> w" "y \<le> h" "z \<le> d" for x y z
    by (rule prefix_sum [of h "\<lambda>y. v2 ! ?p x y z" "\<lambda>y. v1 ! ?p x y z"]) (use Y that in auto)
  have SZ: "v3 ! ?p x y z = (\<Sum>z' \<le> z. v2 ! ?p x y z')" if "x \<le> w" "y \<le> h" "z \<le> d" for x y z
    by (rule prefix_sum [of d "\<lambda>z. v3 ! ?p x y z" "\<lambda>z. v2 ! ?p x y z"]) (use Z that in auto)
  show ?thesis
    unfolding SZ [OF c] by (intro sum.cong refl) (use c SX SY in \<open>auto intro!: sum.cong\<close>)
qed

text \<open>The rasterization of the model with stairs is exact.\<close>

lemma paired_occupied_exact:
  assumes "dims area w h d" "w < 2 ^ 64" "h < 2 ^ 64" "d < 2 ^ 64"
    and g: "pg_area g = area" "pg_width g = w" "pg_height g = h" "pg_depth g = d"
  shows "length (paired_occupied g fs) = w * h * d"
    and "i < w * h * d \<Longrightarrow>
      paired_occupied g fs ! i \<longleftrightarrow> (\<exists>f \<in> set (map snd fs). cuboid_contains f (tile_at area w h i))"
proof -
  let ?fs = "map snd fs" and ?p = "pos (w + 1) (h + 1)"
  let ?v0 = "replicate ((w + 1) * (h + 1) * (d + 1)) 0 :: int list"
  define v where "v = fold (paired_corners g) ?fs ?v0"
  obtain c where c: "length v = (w + 1) * (h + 1) * (d + 1)"
    "\<And>x y z. x \<le> w \<Longrightarrow> y \<le> h \<Longrightarrow> z \<le> d \<Longrightarrow> v ! ?p x y z = ?v0 ! ?p x y z + c z y x"
    "\<And>x y z. x < w \<Longrightarrow> y < h \<Longrightarrow> z < d \<Longrightarrow>
       (\<Sum>z' \<le> z. \<Sum>y' \<le> y. \<Sum>x' \<le> x. c z' y' x') = (\<Sum>f \<leftarrow> ?fs. of_bool (cuboid_contains f (tile area x y z)))"
    using paired_corners_all [OF assms(1-7), of ?v0 ?fs] unfolding v_def by (auto simp del: mult_Suc_right mult_Suc)
  define v3 where "v3 = accumulate ((w + 1) * (h + 1)) (paired_cells g [1..<d + 1] [0..<h + 1] [0..<w + 1])
     (accumulate (w + 1) (paired_cells g [0..<d + 1] [1..<h + 1] [0..<w + 1])
       (accumulate 1 (paired_cells g [0..<d + 1] [0..<h + 1] [1..<w + 1]) v))"
  have "?v0 ! ?p x y z = 0" if "x \<le> w" "y \<le> h" "z \<le> d" for x y z
    using pos_bound [of x "w + 1" y "h + 1" z "d + 1"] that by (intro nth_replicate) simp
  then have "(\<Sum>z' \<le> z. \<Sum>y' \<le> y. \<Sum>x' \<le> x. v ! ?p x' y' z') = (\<Sum>z' \<le> z. \<Sum>y' \<le> y. \<Sum>x' \<le> x. c z' y' x')"
    if "x \<le> w" "y \<le> h" "z \<le> d" for x y z
    using that c(2) by (intro sum.cong refl) auto
  then have sums: "v3 ! ?p x y z = (\<Sum>f \<leftarrow> ?fs. of_bool (cuboid_contains f (tile area x y z)))"
    if "x < w" "y < h" "z < d" for x y z
    using paired_sums [OF g(2,3) c(1), of x y z] c(3) [OF that] that unfolding v3_def by simp
  have cells: "paired_cells g [0..<d] [0..<h] [0..<w] = map (\<lambda>i. ?p (i mod w) (i div w mod h) (i div (w * h))) [0..<w * h * d]"
  proof (cases "w = 0 \<or> h = 0")
    case True
    then show ?thesis by (auto simp: paired_cells_pos [OF g(2,3)])
  next
    case False
    have "paired_cells g [0..<d] [0..<h] [0..<w] =
        map (\<lambda>i. ?p (i mod (h * w) mod w) (i mod (h * w) div w) (i div (h * w))) [0..<d * (h * w)]"
      unfolding paired_cells_pos [OF g(2,3)] by (simp only: concat_map_upt)
    moreover have "i mod (h * w) mod w = i mod w" "i mod (h * w) div w = i div w mod h" for i
      using False by (simp_all add: mod_mod_cancel mult.commute [of h w] mod_mult2_eq)
    moreover have "d * (h * w) = w * h * d" "h * w = w * h" by simp_all
    ultimately show ?thesis by (simp only:)
  qed
  have eq: "paired_occupied g fs = map (\<lambda>i. 0 < v3 ! ?p (i mod w) (i div w mod h) (i div (w * h))) [0..<w * h * d]"
    unfolding paired_occupied_def Let_def g v3_def v_def using cells by (simp only: map_map comp_def)
  then show "length (paired_occupied g fs) = w * h * d" by simp
  assume "i < w * h * d"
  then obtain x y z where p: "x < w" "y < h" "z < d" "i = pos w h x y z" by (rule pos_cases)
  have "paired_occupied g fs ! i \<longleftrightarrow> 0 < v3 ! ?p x y z"
    unfolding eq using \<open>i < w * h * d\<close> p(4) pos_split(1-3) [OF p(1,2), of z] by (simp only: length_upt nth_map nth_upt) simp
  then show "paired_occupied g fs ! i \<longleftrightarrow> (\<exists>f \<in> set (map snd fs). cuboid_contains f (tile_at area w h i))"
    unfolding sums [OF p(1-3)] sum_of_bool_pos p(4) tile_of_pos [OF p(1,2)] .
qed

end
