(* ===== verification/Lab_Routes.thy ===== *)
theory Lab_Routes
  imports Lab_Grids
begin

text \<open>
  What the two access predicates of \<^verbatim>\<open>laboratory_access.rs\<close> mean. Routes are defined between map
  tiles, without arrays or queues; the predicates answer true, false or unknown exactly as every
  target can, some target cannot, or it is open whether a target can be approached by a route.
\<close>

subsection \<open>Routes\<close>

definition route :: "(map_coord \<Rightarrow> map_coord \<Rightarrow> bool) \<Rightarrow> (map_coord \<Rightarrow> bool) \<Rightarrow> map_coord \<Rightarrow> map_coord \<Rightarrow> bool" where
  "route hop free p q \<longleftrightarrow> free p \<and> (\<lambda>a b. hop a b \<and> free b)\<^sup>*\<^sup>* p q"

lemma route_mono:
  assumes "route hop free p q" "\<And>a b. hop a b \<Longrightarrow> hop' a b" "\<And>a. free a \<Longrightarrow> free' a"
  shows "route hop' free' p q"
proof -
  have "(\<lambda>a b. hop a b \<and> free b) \<le> (\<lambda>a b. hop' a b \<and> free' b)" using assms(2,3) by auto
  then show ?thesis using assms(1,3) rtranclp_mono unfolding route_def by blast
qed

lemma route_free: "route hop free p q \<Longrightarrow> free q"
  unfolding route_def by (auto elim: rtranclp.cases)

text \<open>The search over array positions decides routes between the tiles at those positions.\<close>

lemma flood_from_route:
  assumes "entry < n" "j < n"
    and onto: "\<And>p. free p \<Longrightarrow> \<exists>i < n. T i = p" and inj: "\<And>i j. i < n \<Longrightarrow> j < n \<Longrightarrow> T i = T j \<Longrightarrow> i = j"
    and nbr: "\<And>i j. i < n \<Longrightarrow> j < n \<Longrightarrow> j \<in> set (neighbors i) \<longleftrightarrow> hop (T i) (T j)"
    and pass: "\<And>i. i < n \<Longrightarrow> passable i \<longleftrightarrow> free (T i)"
  shows "flood_from neighbors passable n entry ! j \<longleftrightarrow> route hop free (T entry) (T j)"
proof -
  have fwd: "(\<lambda>a b. hop a b \<and> free b)\<^sup>*\<^sup>* (T entry) (T i) \<and> i < n" if "(move neighbors passable n)\<^sup>*\<^sup>* entry i" for i
    using that
  proof (induction rule: rtranclp_induct)
    case (step i k)
    then have "hop (T i) (T k) \<and> free (T k)" "k < n" using nbr pass by (auto simp: move_def)
    with step.IH show ?case by (auto intro: rtranclp.rtrancl_into_rtrancl)
  qed (simp add: assms)
  have bwd: "\<exists>i < n. T i = q \<and> (move neighbors passable n)\<^sup>*\<^sup>* entry i"
    if "(\<lambda>a b. hop a b \<and> free b)\<^sup>*\<^sup>* (T entry) q" for q
    using that
  proof (induction rule: rtranclp_induct)
    case base
    then show ?case using assms(1) by blast
  next
    case (step a b)
    then obtain i where i: "i < n" "T i = a" "(move neighbors passable n)\<^sup>*\<^sup>* entry i" by blast
    obtain k where k: "k < n" "T k = b" using onto step.hyps(2) by blast
    have "move neighbors passable n i k" using i k nbr [of i k] pass [of k] step.hyps(2) by (simp add: move_def)
    with i(3) have "(move neighbors passable n)\<^sup>*\<^sup>* entry k" by (rule rtranclp.rtrancl_into_rtrancl)
    with k show ?case by blast
  qed
  have "(move neighbors passable n)\<^sup>*\<^sup>* entry j \<longleftrightarrow> (\<lambda>a b. hop a b \<and> free b)\<^sup>*\<^sup>* (T entry) (T j)"
    using fwd [of j] bwd [of "T j"] inj [OF _ assms(2)] by blast
  then show ?thesis
    using flood_from_reachable [OF assms(1), of neighbors passable] assms(2) pass [OF assms(1)]
    by (auto simp: route_def)
qed

subsection \<open>Requests and targets\<close>

lemma validate_region_dims:
  assumes "validate_region area = Ok tiles"
  obtains w h d where "dims area w h d" "w < 2 ^ 64" "h < 2 ^ 64" "d < 2 ^ 64"
proof -
  let ?w = "nat (mx (cmax area) - mx (cmin area) + 1)" and ?h = "nat (my (cmax area) - my (cmin area) + 1)"
    and ?d = "nat (mz (cmax area) - mz (cmin area) + 1)"
  have ord: "cuboid_ordered area" and "cuboid_tile_count area = Some tiles"
    using assms by (auto simp: validate_region_def cuboid_ordered_def split: if_splits)
  then have "mx (cmax area) - mx (cmin area) + 1 < 2 ^ 64" "my (cmax area) - my (cmin area) + 1 < 2 ^ 64"
    "mz (cmax area) - mz (cmin area) + 1 < 2 ^ 64"
    by (auto simp: cuboid_tile_count_def u64_try_from_def split: option.splits if_splits)
  with ord show thesis by (intro that [of ?w ?h ?d]) (auto simp: dims_def cuboid_ordered_def)
qed

lemma mark_targets_Ok:
  assumes "\<And>t. t \<in> set targets \<Longrightarrow> index t = Some (pos_of t) \<and> pos_of t < length occupied"
  shows "\<exists>marked. mark_targets index targets occupied = Ok marked \<and> length marked = length occupied \<and>
    (\<forall>i < length occupied. marked ! i \<longleftrightarrow> occupied ! i \<or> i \<in> pos_of ` set targets)"
  using assms
proof (induction targets arbitrary: occupied)
  case (Cons t ts)
  define occ where "occ = occupied[pos_of t := True]"
  have "mark_targets index (t # ts) occupied = mark_targets index ts occ"
    using Cons.prems by (simp add: mark_targets_def occ_def)
  moreover obtain marked where "mark_targets index ts occ = Ok marked" "length marked = length occ"
    "\<forall>i < length occ. marked ! i \<longleftrightarrow> occ ! i \<or> i \<in> pos_of ` set ts"
    using Cons.IH [of occ] Cons.prems by (auto simp: occ_def)
  ultimately show ?case using Cons.prems by (auto simp: occ_def nth_list_update)
qed (simp add: mark_targets_def)

lemma approach_truth_result:
  assumes "\<And>t. t \<in> set ts \<Longrightarrow> index t = Some (pos_of t)"
  shows "approach_truth index neighbors clear potential ts result = Ok
    (if \<exists>t \<in> set ts. \<not> list_ex ((!) clear) (neighbors (pos_of t)) \<and> \<not> list_ex ((!) potential) (neighbors (pos_of t))
     then PFalse
     else if \<exists>t \<in> set ts. \<not> list_ex ((!) clear) (neighbors (pos_of t)) then PUnknown else result)"
  using assms by (induction ts arbitrary: result) auto

text \<open>The verdict over all targets, from whether each can surely or possibly be approached.\<close>

definition verdict :: "('a \<Rightarrow> bool) \<Rightarrow> ('a \<Rightarrow> bool) \<Rightarrow> 'a set \<Rightarrow> predicate_truth" where
  "verdict sure possible targets =
     (if \<forall>t \<in> targets. sure t then PTrue else if \<forall>t \<in> targets. possible t then PUnknown else PFalse)"

lemma approach_verdict:
  assumes "\<And>t. t \<in> set ts \<Longrightarrow> index t = Some (pos_of t)"
    and "\<And>t. t \<in> set ts \<Longrightarrow> list_ex ((!) clear) (neighbors (pos_of t)) \<longleftrightarrow> sure t"
    and "\<And>t. t \<in> set ts \<Longrightarrow> list_ex ((!) potential) (neighbors (pos_of t)) \<longleftrightarrow> possible t"
    and "\<And>t. t \<in> set ts \<Longrightarrow> sure t \<Longrightarrow> possible t"
  shows "approach_truth index neighbors clear potential ts PTrue = Ok (verdict sure possible (set ts))"
  using approach_truth_result [of ts index pos_of neighbors clear potential PTrue] assms
  by (auto simp: verdict_def)

subsection \<open>The answers\<close>

definition approachable ::
    "(map_coord \<Rightarrow> map_coord \<Rightarrow> bool) \<Rightarrow> (map_coord \<Rightarrow> bool) \<Rightarrow> map_coord \<Rightarrow> map_coord \<Rightarrow> bool" where
  "approachable hop free entry t \<longleftrightarrow> (\<exists>p. adjacent t p \<and> route hop free entry p)"

lemma approachable_mono:
  "approachable hop free entry t \<Longrightarrow> (\<And>a b. hop a b \<Longrightarrow> hop' a b) \<Longrightarrow> (\<And>a. free a \<Longrightarrow> free' a) \<Longrightarrow>
   approachable hop' free' entry t"
  unfolding approachable_def using route_mono by blast

lemma tile_position:
  assumes "dims area w h d" "cuboid_contains area p"
  shows "\<exists>i < w * h * d. tile_at area w h i = p"
proof -
  obtain x y z where "x < w" "y < h" "z < d" "p = tile_at area w h (pos w h x y z)"
    using assms by (rule tile_at_onto)
  then show ?thesis using pos_bound [of x w y h z d] by auto
qed

lemma search_approach:
  assumes "e < n" "i < n" "dims area w h d" "n = w * h * d"
    and hn: "\<And>j. j \<in> set (hn i) \<longleftrightarrow> j < n \<and> adjacent (tile_at area w h i) (tile_at area w h j)"
    and inside: "\<And>p. free p \<Longrightarrow> cuboid_contains area p"
    and nbr: "\<And>i j. i < n \<Longrightarrow> j < n \<Longrightarrow> j \<in> set (neighbors i) \<longleftrightarrow> hop (tile_at area w h i) (tile_at area w h j)"
    and pass: "\<And>i. i < n \<Longrightarrow> passable i \<longleftrightarrow> free (tile_at area w h i)"
  shows "list_ex ((!) (flood_from neighbors passable n e)) (hn i) \<longleftrightarrow>
         approachable hop free (tile_at area w h e) (tile_at area w h i)"
proof -
  have onto: "\<exists>i < n. tile_at area w h i = p" if "cuboid_contains area p" for p
    using tile_position [OF assms(3) that] assms(4) by simp
  have inj: "i = j" if "i < n" "j < n" "tile_at area w h i = tile_at area w h j" for i j
    using tile_at_inject that assms(4) by blast
  have "flood_from neighbors passable n e ! j \<longleftrightarrow> route hop free (tile_at area w h e) (tile_at area w h j)"
    if "j < n" for j
    by (rule flood_from_route [OF assms(1) that, where T = "tile_at area w h"])
      (use onto inside inj nbr pass in blast)+
  then have "list_ex ((!) (flood_from neighbors passable n e)) (hn i) \<longleftrightarrow>
      (\<exists>j < n. adjacent (tile_at area w h i) (tile_at area w h j) \<and> route hop free (tile_at area w h e) (tile_at area w h j))"
    unfolding list_ex_iff using hn by blast
  also have "\<dots> \<longleftrightarrow> approachable hop free (tile_at area w h e) (tile_at area w h i)"
    unfolding approachable_def using onto inside route_free by metis
  finally show ?thesis .
qed

text \<open>A tile that can be walked: in the area, not a target, not in a building, and of suitable terrain.\<close>

definition room_free ::
    "(entity_id, map_cuboid) btree_map \<Rightarrow> map_cuboid \<Rightarrow> map_coord list \<Rightarrow> (map_coord \<Rightarrow> bool) \<Rightarrow> map_coord \<Rightarrow> bool" where
  "room_free footprints area targets terrain p \<longleftrightarrow>
     cuboid_contains area p \<and> p \<notin> set targets \<and> (\<forall>f \<in> set (map snd footprints). \<not> cuboid_contains f p) \<and> terrain p"

lemma validate_access_request_Ok:
  "validate_access_request area entry targets = Ok tiles \<longleftrightarrow>
     validate_region area = Ok tiles \<and> mz (cmin area) = mz (cmax area) \<and> tiles \<le> max_laboratory_access_tiles \<and>
     targets \<noteq> [] \<and> length targets \<le> max_laboratory_access_targets \<and> cuboid_contains area entry \<and>
     (\<forall>t \<in> set targets. cuboid_contains area t) \<and> distinct targets"
  by (auto simp: validate_access_request_def list_ex_iff not_less)

lemma validate_paired_stairs_request_Ok:
  "validate_paired_stairs_request area entry targets = Ok tiles \<longleftrightarrow>
     validate_region area = Ok tiles \<and> tiles \<le> max_laboratory_access_tiles \<and>
     targets \<noteq> [] \<and> length targets \<le> max_laboratory_access_targets \<and> cuboid_contains area entry \<and>
     (\<forall>t \<in> set targets. cuboid_contains area t) \<and> distinct targets"
  by (auto simp: validate_paired_stairs_request_def list_ex_iff not_less)

lemma usize_dims: "dims area w h d \<Longrightarrow> w < 2 ^ 64 \<Longrightarrow> h < 2 ^ 64 \<Longrightarrow> d < 2 ^ 64 \<Longrightarrow>
   usize_try_from (mx (cmax area) - mx (cmin area) + 1) = Some w \<and>
   usize_try_from (my (cmax area) - my (cmin area) + 1) = Some h \<and>
   usize_try_from (mz (cmax area) - mz (cmin area) + 1) = Some d"
  by (auto simp: dims_def usize_try_from_def)

lemma room_access_exact:
  assumes "validate_access_request area entry targets = Ok tiles"
    and "laboratory_building_footprints s = Ok footprints"
  shows "laboratory_room_access_truth s area entry targets = Ok (verdict
      (approachable adjacent
        (room_free footprints area targets (\<lambda>p. bounded_tile_code s p = Some tile_floor)) entry)
      (approachable adjacent
        (room_free footprints area targets
          (\<lambda>p. bounded_tile_code s p = None \<or> bounded_tile_code s p = Some tile_floor)) entry)
      (set targets))"
proof -
  note req = assms(1) [unfolded validate_access_request_Ok]
  then obtain w h d where dim: "dims area w h d" and small: "w < 2 ^ 64" "h < 2 ^ 64" "d < 2 ^ 64"
    using validate_region_dims by blast
  have d: "d = 1" using dim req by (simp add: dims_def)
  define g where "g = \<lparr>gr_area = area, gr_width = w, gr_height = h\<rparr>"
  define g' where "g' = \<lparr>pg_area = area, pg_width = w, pg_height = h, pg_depth = 1\<rparr>"
  have dim1: "dims area w h 1" using dim d by simp
  have gf: "gr_area g = area" "gr_width g = w" "gr_height g = h" by (simp_all add: g_def)
  note index = grid_index_position [OF dim1 small(1,2) gf]
  define n where "n = w * h"
  define pos_of where "pos_of = (\<lambda>t. the (grid_index g t))"
  have at: "grid_index g t = Some (pos_of t)" "pos_of t < n" "tile_at area w h (pos_of t) = t"
    if t: "cuboid_contains area t" for t
  proof -
    obtain i where "i < w * h" "tile_at area w h i = t" using tile_position [OF dim1 t] by auto
    then have "grid_index g t = Some i \<and> pos_of t = i \<and> i < n \<and> tile_at area w h i = t"
      using index [of t i] by (simp add: pos_of_def n_def)
    then show "grid_index g t = Some (pos_of t)" "pos_of t < n" "tile_at area w h (pos_of t) = t" by simp_all
  qed
  note occ = grid_occupied_exact [OF dim1 small(1,2) gf, where fs = footprints]
  obtain occupied where occupied: "mark_targets (grid_index g) targets (grid_occupied g footprints) = Ok occupied"
    "length occupied = n"
    and occ_nth: "\<And>i. i < n \<Longrightarrow> occupied ! i \<longleftrightarrow> grid_occupied g footprints ! i \<or> i \<in> pos_of ` set targets"
    using mark_targets_Ok [of targets "grid_index g" pos_of "grid_occupied g footprints"] at req occ(1)
    by (auto simp: n_def)
  have blocked: "occupied ! i \<longleftrightarrow> (\<exists>f \<in> set (map snd footprints). cuboid_contains f (tile_at area w h i)) \<or> tile_at area w h i \<in> set targets"
    if "i < n" for i
  proof -
    have "i \<in> pos_of ` set targets \<longleftrightarrow> tile_at area w h i \<in> set targets"
      using at req that tile_at_inject [of _ w h 1 _ area] by (auto simp: n_def image_iff) (metis mult.right_neutral)
    then show ?thesis using occ_nth [OF that] occ(2) [of i] that by (simp add: n_def)
  qed
  define terrain where "terrain = map (bounded_tile_code s) (region_tiles area)"
  have terrain: "length terrain = n" "\<And>i. i < n \<Longrightarrow> terrain ! i = bounded_tile_code s (tile_at area w h i)"
    using region_tiles_positions [OF dim1] by (simp_all add: terrain_def n_def)
  have nbr: "j \<in> set (grid_neighbors g i) \<longleftrightarrow> j < n \<and> adjacent (tile_at area w h i) (tile_at area w h j)"
    if "i < n" for i j
    using grid_neighbors_horizontal [of i g g'] horizontal_neighbors_adjacent [of i w h 1 g' j area] that
    by (simp add: g'_def gf n_def)
  have search: "list_ex ((!) (grid_reached g (map2 (\<lambda>o' t. \<not> o' \<and> P t) occupied terrain) (pos_of entry))) (grid_neighbors g (pos_of t))
      \<longleftrightarrow> approachable adjacent (room_free footprints area targets (\<lambda>p. P (bounded_tile_code s p))) entry t"
    if "t \<in> set targets" for t P
  proof -
    let ?free = "room_free footprints area targets (\<lambda>p. P (bounded_tile_code s p))"
    let ?clear = "map2 (\<lambda>o' t. \<not> o' \<and> P t) occupied terrain"
    have "list_ex ((!) (flood_from (grid_neighbors g) ((!) ?clear) n (pos_of entry))) (grid_neighbors g (pos_of t)) \<longleftrightarrow>
        approachable adjacent ?free (tile_at area w h (pos_of entry)) (tile_at area w h (pos_of t))"
    proof (rule search_approach [OF _ _ dim1])
      show "?clear ! i \<longleftrightarrow> ?free (tile_at area w h i)" if "i < n" for i
        using that blocked [OF that] terrain occupied(2) tile_at_contains [OF dim1, of i]
        by (auto simp: room_free_def n_def)
    qed (use at req that nbr in \<open>auto simp: n_def room_free_def\<close>)
    then show ?thesis using at req that terrain(1) occupied(2) by (simp add: grid_reached_def)
  qed
  have "laboratory_room_access_truth s area entry targets =
      approach_truth (grid_index g) (grid_neighbors g)
        (grid_reached g (map2 (\<lambda>o' t. \<not> o' \<and> t = Some tile_floor) occupied terrain) (pos_of entry))
        (grid_reached g (map2 (\<lambda>o' t. \<not> o' \<and> (t = None \<or> t = Some tile_floor)) occupied terrain) (pos_of entry))
        targets PTrue"
    using assms usize_dims [OF dim small] occupied(1) at(1) req
    by (simp add: laboratory_room_access_truth_def g_def [symmetric] terrain_def [symmetric] Let_def)
  also have "\<dots> = Ok (verdict
      (approachable adjacent (room_free footprints area targets (\<lambda>p. bounded_tile_code s p = Some tile_floor)) entry)
      (approachable adjacent (room_free footprints area targets
          (\<lambda>p. bounded_tile_code s p = None \<or> bounded_tile_code s p = Some tile_floor)) entry) (set targets))"
    by (rule approach_verdict [where pos_of = pos_of])
      (use at req search in \<open>auto elim!: approachable_mono simp: room_free_def\<close>)
  finally show ?thesis .
qed

text \<open>The code of an observed tile: a stored code of unknown terrain is no observation.\<close>

definition known_code :: "world_snapshot \<Rightarrow> map_coord \<Rightarrow> u32 option" where
  "known_code s p =
     (case bounded_tile_code s p of None \<Rightarrow> None | Some code \<Rightarrow> if code \<noteq> tile_unknown then Some code else None)"

text \<open>
  C27: The single-level access predicate decides routes. For a valid request and a complete
  occupancy census it answers, and the answer is true exactly when every target has a side tile that
  can be reached from the entry over observed floor. When no tile of the area is stored with the
  code of unknown terrain, the other answers are exact too: false when some target has no side tile
  that could be reached even if every unobserved tile were floor, and unknown otherwise. Routes stay
  inside the area and avoid targets and building footprints. (A stored code of unknown terrain is an
  obstacle for this predicate, see \<open>single_level_access_blocks_unobserved\<close>.)
\<close>
theorem room_access_decides_routes:
  assumes "validate_access_request area entry targets = Ok tiles"
    and "laboratory_building_footprints s = Ok footprints"
  shows "\<exists>truth. laboratory_room_access_truth s area entry targets = Ok truth \<and>
    (truth = PTrue \<longleftrightarrow> (\<forall>t \<in> set targets. approachable adjacent
       (room_free footprints area targets (\<lambda>p. known_code s p = Some tile_floor)) entry t)) \<and>
    ((\<forall>p. cuboid_contains area p \<longrightarrow> bounded_tile_code s p \<noteq> Some tile_unknown) \<longrightarrow>
     truth = verdict
       (approachable adjacent (room_free footprints area targets (\<lambda>p. known_code s p = Some tile_floor)) entry)
       (approachable adjacent
         (room_free footprints area targets (\<lambda>p. known_code s p = None \<or> known_code s p = Some tile_floor)) entry)
       (set targets))"
proof -
  have floor: "known_code s p = Some tile_floor \<longleftrightarrow> bounded_tile_code s p = Some tile_floor" for p
    by (auto simp: known_code_def tile_floor_def tile_unknown_def split: option.splits)
  have free: "room_free footprints area targets (\<lambda>p. known_code s p = None \<or> known_code s p = Some tile_floor) =
      room_free footprints area targets (\<lambda>p. bounded_tile_code s p = None \<or> bounded_tile_code s p = Some tile_floor)"
    if "\<forall>p. cuboid_contains area p \<longrightarrow> bounded_tile_code s p \<noteq> Some tile_unknown"
    using that by (auto simp: fun_eq_iff room_free_def floor) (auto simp: known_code_def split: option.splits if_splits)
  show ?thesis
    unfolding room_access_exact [OF assms] using free by (auto simp: verdict_def floor)
qed

lemma paired_neighbors_hops:
  assumes "i < w * h * d" "j < w * h * d" "pg_width g = w" "pg_height g = h" "pg_depth g = d"
  shows "j \<in> set (paired_neighbors g terrain potential i) \<longleftrightarrow>
    adjacent (tile_at area w h i) (tile_at area w h j) \<or>
    above_below (tile_at area w h i) (tile_at area w h j) \<and>
      paired_stairs terrain potential i \<and> paired_stairs terrain potential j"
proof -
  obtain x y z where i: "x < w" "y < h" "z < d" "i = pos w h x y z" using assms(1) by (rule pos_cases)
  obtain x' y' z' where j: "x' < w" "y' < h" "z' < d" "j = pos w h x' y' z'" using assms(2) by (rule pos_cases)
  note nb = pos_neighbor [OF i(1,2)]
  have "j \<in> set (flatten_options [then_some (i div (w * h) > 0) (i - w * h), then_some (i div (w * h) + 1 < d) (i + w * h)])
      \<longleftrightarrow> 0 < z \<and> j = pos w h x y (z - 1) \<or> z + 1 < d \<and> j = pos w h x y (z + 1)"
    using nb(5,6) [of z] i by (auto simp: pos_split(3))
  also have "\<dots> \<longleftrightarrow> x' = x \<and> y' = y \<and> (0 < z \<and> z' = z - 1 \<or> z' = z + 1)"
    using i j by (auto simp: pos_inject)
  also have "\<dots> \<longleftrightarrow> above_below (tile_at area w h i) (tile_at area w h j)"
    using i j by (auto simp: tile_at_pos above_below_def)
  finally show ?thesis
    using horizontal_neighbors_adjacent [OF assms(1,3,4), of j area] assms
    by (auto simp: paired_neighbors_def Let_def)
qed

definition walkable :: "world_snapshot \<Rightarrow> bool \<Rightarrow> map_coord \<Rightarrow> bool" where
  "walkable s potential p \<longleftrightarrow>
     known_code s p = Some tile_floor \<or> known_code s p = Some tile_stair \<or> potential \<and> known_code s p = None"

definition climbable :: "world_snapshot \<Rightarrow> bool \<Rightarrow> map_coord \<Rightarrow> bool" where
  "climbable s potential p \<longleftrightarrow> known_code s p = Some tile_stair \<or> potential \<and> known_code s p = None"

definition stair_hop :: "world_snapshot \<Rightarrow> bool \<Rightarrow> map_coord \<Rightarrow> map_coord \<Rightarrow> bool" where
  "stair_hop s potential p q \<longleftrightarrow>
     adjacent p q \<or> above_below p q \<and> climbable s potential p \<and> climbable s potential q"

lemma paired_access_exact:
  assumes "validate_paired_stairs_request area entry targets = Ok tiles"
    and "laboratory_building_footprints s = Ok footprints"
  shows "laboratory_room_access_paired_stairs_truth s area entry targets = Ok (verdict
      (approachable (stair_hop s False) (room_free footprints area targets (walkable s False)) entry)
      (approachable (stair_hop s True) (room_free footprints area targets (walkable s True)) entry)
      (set targets))"
proof -
  note req = assms(1) [unfolded validate_paired_stairs_request_Ok]
  then obtain w h d where dim: "dims area w h d" and small: "w < 2 ^ 64" "h < 2 ^ 64" "d < 2 ^ 64"
    using validate_region_dims by blast
  define g where "g = \<lparr>pg_area = area, pg_width = w, pg_height = h, pg_depth = d\<rparr>"
  have gf: "pg_area g = area" "pg_width g = w" "pg_height g = h" "pg_depth g = d" by (simp_all add: g_def)
  note index = paired_index_position [OF dim small gf(1-3)]
  define n where "n = w * h * d"
  define pos_of where "pos_of = (\<lambda>t. the (paired_index g t))"
  have at: "paired_index g t = Some (pos_of t)" "pos_of t < n" "tile_at area w h (pos_of t) = t"
    if t: "cuboid_contains area t" for t
  proof -
    obtain i where "i < w * h * d" "tile_at area w h i = t" using tile_position [OF dim t] by auto
    then have "paired_index g t = Some i \<and> pos_of t = i \<and> i < n \<and> tile_at area w h i = t"
      using index [of t i] by (simp add: pos_of_def n_def)
    then show "paired_index g t = Some (pos_of t)" "pos_of t < n" "tile_at area w h (pos_of t) = t" by simp_all
  qed
  note occ = paired_occupied_exact [OF dim small gf, where fs = footprints]
  obtain occupied where occupied: "mark_targets (paired_index g) targets (paired_occupied g footprints) = Ok occupied"
    "length occupied = n"
    and occ_nth: "\<And>i. i < n \<Longrightarrow> occupied ! i \<longleftrightarrow> paired_occupied g footprints ! i \<or> i \<in> pos_of ` set targets"
    using mark_targets_Ok [of targets "paired_index g" pos_of "paired_occupied g footprints"] at req occ(1)
    by (auto simp: n_def)
  have blocked: "occupied ! i \<longleftrightarrow> (\<exists>f \<in> set (map snd footprints). cuboid_contains f (tile_at area w h i)) \<or> tile_at area w h i \<in> set targets"
    if "i < n" for i
  proof -
    have "i \<in> pos_of ` set targets \<longleftrightarrow> tile_at area w h i \<in> set targets"
      using at req that tile_at_inject [of _ w h d _ area] by (auto simp: n_def image_iff) metis
    then show ?thesis using occ_nth [OF that] occ(2) [of i] that by (simp add: n_def)
  qed
  define terrain where "terrain = map (known_code s) (region_tiles area)"
  have terrain: "length terrain = n" "\<And>i. i < n \<Longrightarrow> terrain ! i = known_code s (tile_at area w h i)"
    using region_tiles_positions [OF dim] by (simp_all add: terrain_def n_def)
  have nbr: "j \<in> set (horizontal_neighbors g i) \<longleftrightarrow> j < n \<and> adjacent (tile_at area w h i) (tile_at area w h j)"
    if "i < n" for i j
    using horizontal_neighbors_adjacent [of i w h d g j area] that by (simp add: gf n_def)
  have search: "list_ex ((!) (paired_reached g terrain occupied (pos_of entry) b)) (horizontal_neighbors g (pos_of t))
      \<longleftrightarrow> approachable (stair_hop s b) (room_free footprints area targets (walkable s b)) entry t"
    if "t \<in> set targets" for t b
  proof -
    let ?free = "room_free footprints area targets (walkable s b)"
    have "list_ex ((!) (flood_from (paired_neighbors g terrain b) (paired_passable terrain occupied b) n (pos_of entry)))
        (horizontal_neighbors g (pos_of t)) \<longleftrightarrow>
        approachable (stair_hop s b) ?free (tile_at area w h (pos_of entry)) (tile_at area w h (pos_of t))"
    proof (rule search_approach [OF _ _ dim])
      show "paired_passable terrain occupied b i \<longleftrightarrow> ?free (tile_at area w h i)" if "i < n" for i
        using that blocked [OF that] terrain(2) [OF that] tile_at_contains [OF dim, of i]
        by (auto simp: room_free_def n_def paired_passable_def walkable_def split: option.splits)
      show "j \<in> set (paired_neighbors g terrain b i) \<longleftrightarrow> stair_hop s b (tile_at area w h i) (tile_at area w h j)"
        if "i < n" "j < n" for i j
        using paired_neighbors_hops [of i w h d j g terrain b area] that terrain(2)
        by (auto simp: gf n_def stair_hop_def climbable_def paired_stairs_def)
    qed (use at req that nbr in \<open>auto simp: n_def room_free_def\<close>)
    then show ?thesis using at req that terrain(1) by (simp add: paired_reached_def)
  qed
  have "laboratory_room_access_paired_stairs_truth s area entry targets =
      approach_truth (paired_index g) (horizontal_neighbors g)
        (paired_reached g terrain occupied (pos_of entry) False) (paired_reached g terrain occupied (pos_of entry) True)
        targets PTrue"
    using assms usize_dims [OF dim small] occupied(1) at(1) req
    by (simp add: laboratory_room_access_paired_stairs_truth_def paired_stairs_grid_new_def g_def [symmetric]
        terrain_def Let_def known_code_def [abs_def])
  also have "\<dots> = Ok (verdict
      (approachable (stair_hop s False) (room_free footprints area targets (walkable s False)) entry)
      (approachable (stair_hop s True) (room_free footprints area targets (walkable s True)) entry) (set targets))"
    by (rule approach_verdict [where pos_of = pos_of])
      (use at req search in \<open>auto elim!: approachable_mono simp: room_free_def walkable_def stair_hop_def climbable_def\<close>)
  finally show ?thesis .
qed

text \<open>
  C28: The access predicate with paired stairs decides routes. For a valid request and a complete
  occupancy census the answer is true when every target has a side tile that can be reached from
  the entry over known floor and stairs, changing level only between stairs on top of each other,
  false when some target has no side tile that could be reached even if every unobserved tile were
  floor or stairs, and unknown otherwise.
\<close>
theorem paired_access_decides_routes:
  assumes "validate_paired_stairs_request area entry targets = Ok tiles"
    and "laboratory_building_footprints s = Ok footprints"
  shows "laboratory_room_access_paired_stairs_truth s area entry targets = Ok (verdict
      (approachable (stair_hop s False) (room_free footprints area targets (walkable s False)) entry)
      (approachable (stair_hop s True) (room_free footprints area targets (walkable s True)) entry)
      (set targets))"
  using assms by (rule paired_access_exact)
subsection \<open>A corridor\<close>

text \<open>Three tiles in a row, the middle one of the given terrain.\<close>

definition corridor :: "u32 \<Rightarrow> world_snapshot" where
  "corridor code =
     world_snapshot_new 7 100 (ObservationCursor 1 1) True
       (empty_graph\<lparr>wg_chunks := [(ChunkCoord 0 0 0,
          (uniform_chunk (ChunkCoord 0 0 0) tile_floor)\<lparr>mc_terrain_runs :=
             [\<lparr>tr_tile_code = tile_floor, tr_length = 1\<rparr>, \<lparr>tr_tile_code = code, tr_length = 1\<rparr>,
              \<lparr>tr_tile_code = tile_floor, tr_length = 254\<rparr>]\<rparr>)]\<rparr>)"

definition corridor_tile :: "int \<Rightarrow> map_coord" where
  "corridor_tile x = \<lparr>mx = x, my = 0, mz = 0\<rparr>"

definition corridor_area :: map_cuboid where
  "corridor_area = \<lparr>cmin = corridor_tile 0, cmax = corridor_tile 3\<rparr>"

lemma corridor_request:
  "validate_access_request corridor_area (corridor_tile 0) [corridor_tile 3] = Ok 4"
  "validate_paired_stairs_request corridor_area (corridor_tile 0) [corridor_tile 3] = Ok 4"
  "laboratory_building_footprints (corridor code) = Ok []"
  by (simp_all add: validate_access_request_Ok validate_paired_stairs_request_Ok validate_region_def corridor_area_def corridor_tile_def
      cuboid_tile_count_def u64_try_from_def checked_mul_u64_def max_region_terrain_tiles_def
      max_laboratory_access_tiles_def max_laboratory_access_targets_def cuboid_contains_def
      laboratory_building_footprints_def corridor_def empty_graph_def max_laboratory_access_entities_def)

lemma corridor_codes:
  "bounded_tile_code (corridor code) (corridor_tile 0) = Some tile_floor"
  "bounded_tile_code (corridor code) (corridor_tile 1) = Some code"
  "bounded_tile_code (corridor code) (corridor_tile 2) = Some tile_floor"
  by (simp_all add: bounded_tile_code_def corridor_def corridor_tile_def tile_slot_of_def terrain_chunk_edge_def
      empty_graph_def uniform_chunk_def terrain_chunk_tiles_def checked_add_def Let_def
      word_le_nat_alt word_less_nat_alt)

lemma corridor_free:
  "room_free [] corridor_area [corridor_tile 3] P p \<longleftrightarrow> (\<exists>x \<in> {0, 1, 2}. p = corridor_tile x) \<and> P p"
proof -
  have "cuboid_contains corridor_area p \<longleftrightarrow> (\<exists>x \<in> {0, 1, 2, 3}. p = corridor_tile x)"
    by (cases p) (auto simp: cuboid_contains_def corridor_area_def corridor_tile_def)
  then show ?thesis by (auto simp: room_free_def corridor_tile_def)
qed

lemma corridor_adjacent: "adjacent (corridor_tile x) (corridor_tile y) \<longleftrightarrow> \<bar>x - y\<bar> = 1"
  by (simp add: adjacent_def corridor_tile_def)

lemma corridor_open:
  assumes "P (corridor_tile 0)" "P (corridor_tile 1)" "P (corridor_tile 2)" "\<And>p q. adjacent p q \<Longrightarrow> hop p q"
  shows "approachable hop (room_free [] corridor_area [corridor_tile 3] P) (corridor_tile 0) (corridor_tile 3)"
proof -
  let ?step = "\<lambda>a b. hop a b \<and> room_free [] corridor_area [corridor_tile 3] P b"
  have "?step (corridor_tile 0) (corridor_tile 1)" "?step (corridor_tile 1) (corridor_tile 2)"
    using assms by (auto simp: corridor_free corridor_adjacent)
  then have "route hop (room_free [] corridor_area [corridor_tile 3] P) (corridor_tile 0) (corridor_tile 2)"
    using assms(1) unfolding route_def by (auto simp: corridor_free intro: rtranclp.intros)
  then show ?thesis unfolding approachable_def by (intro exI [of _ "corridor_tile 2"]) (simp add: corridor_adjacent)
qed

lemma corridor_closed:
  assumes "\<not> P (corridor_tile 1)" "\<And>x y. hop (corridor_tile x) (corridor_tile y) \<Longrightarrow> \<bar>x - y\<bar> = 1"
  shows "\<not> approachable hop (room_free [] corridor_area [corridor_tile 3] P) (corridor_tile 0) (corridor_tile 3)"
proof -
  have "p = corridor_tile 0"
    if "(\<lambda>a b. hop a b \<and> room_free [] corridor_area [corridor_tile 3] P b)\<^sup>*\<^sup>* (corridor_tile 0) p" for p
    using that assms by (induction rule: rtranclp_induct) (auto simp: corridor_free dest: assms(2))
  then show ?thesis using corridor_adjacent [of 3 0] unfolding approachable_def route_def by auto
qed

lemma corridor_hop: "stair_hop s b (corridor_tile x) (corridor_tile y) \<Longrightarrow> \<bar>x - y\<bar> = 1"
  by (simp add: stair_hop_def corridor_adjacent) (auto simp: above_below_def corridor_tile_def)

lemma known_code_corridor:
  "known_code (corridor code) (corridor_tile 0) = Some tile_floor"
  "known_code (corridor code) (corridor_tile 1) = (if code = tile_unknown then None else Some code)"
  "known_code (corridor code) (corridor_tile 2) = Some tile_floor"
  by (simp_all add: known_code_def corridor_codes tile_floor_def tile_unknown_def)

theorem room_access_decides_routes_witness:
  "laboratory_room_access_truth (corridor tile_floor) corridor_area (corridor_tile 0) [corridor_tile 3] = Ok PTrue"
proof -
  have "approachable adjacent (room_free [] corridor_area [corridor_tile 3] (\<lambda>p. known_code (corridor tile_floor) p = Some tile_floor))
      (corridor_tile 0) (corridor_tile 3)"
    by (rule corridor_open) (simp_all add: known_code_corridor tile_floor_def tile_unknown_def)
  with room_access_decides_routes [OF corridor_request(1) corridor_request(3), of tile_floor] show ?thesis by auto
qed

theorem paired_access_decides_routes_witness:
  "laboratory_room_access_paired_stairs_truth (corridor tile_unknown) corridor_area (corridor_tile 0) [corridor_tile 3]
     = Ok PUnknown"
proof -
  have "approachable (stair_hop (corridor tile_unknown) True)
      (room_free [] corridor_area [corridor_tile 3] (walkable (corridor tile_unknown) True)) (corridor_tile 0) (corridor_tile 3)"
    by (rule corridor_open) (simp_all add: walkable_def known_code_corridor stair_hop_def)
  moreover have "\<not> approachable (stair_hop (corridor tile_unknown) False)
      (room_free [] corridor_area [corridor_tile 3] (walkable (corridor tile_unknown) False)) (corridor_tile 0) (corridor_tile 3)"
    by (rule corridor_closed) (auto simp: walkable_def known_code_corridor dest: corridor_hop)
  ultimately show ?thesis
    unfolding paired_access_decides_routes [OF corridor_request(2) corridor_request(3)] by (simp add: verdict_def)
qed

text \<open>
  The single-level predicate reads the code of unobserved terrain as an obstacle: in a corridor
  whose middle tile is stored as unobserved it answers that no route exists, where the model with
  stairs answers that it is unknown.
\<close>
lemma single_level_access_blocks_unobserved:
  "tile_code_at (corridor tile_unknown) (corridor_tile 1) = None \<and>
   laboratory_room_access_truth (corridor tile_unknown) corridor_area (corridor_tile 0) [corridor_tile 3] = Ok PFalse"
proof
  show "tile_code_at (corridor tile_unknown) (corridor_tile 1) = None"
    by (simp add: tile_code_at_def corridor_def corridor_tile_def tile_slot_of_def terrain_chunk_edge_def
        empty_graph_def uniform_chunk_def code_in_chunk_def chunk_is_canonical_def encoded_tile_count_def
        terrain_chunk_tiles_def checked_add_def Let_def)
  have "\<not> approachable adjacent (room_free [] corridor_area [corridor_tile 3]
      (\<lambda>p. bounded_tile_code (corridor tile_unknown) p = None \<or> bounded_tile_code (corridor tile_unknown) p = Some tile_floor))
      (corridor_tile 0) (corridor_tile 3)"
    by (rule corridor_closed) (simp_all add: corridor_codes corridor_adjacent tile_floor_def tile_unknown_def)
  moreover have "\<not> approachable adjacent (room_free [] corridor_area [corridor_tile 3]
      (\<lambda>p. bounded_tile_code (corridor tile_unknown) p = Some tile_floor)) (corridor_tile 0) (corridor_tile 3)"
    by (rule corridor_closed) (simp_all add: corridor_codes corridor_adjacent tile_floor_def tile_unknown_def)
  ultimately show "laboratory_room_access_truth (corridor tile_unknown) corridor_area (corridor_tile 0) [corridor_tile 3] = Ok PFalse"
    unfolding room_access_exact [OF corridor_request(1) corridor_request(3)] by (simp add: verdict_def)
qed

end
