(* ===== verification/Lab_Civilian.thy ===== *)
theory Lab_Civilian
  imports Lab_Facts Delta_Codec
begin

text \<open>
  \<^verbatim>\<open>crates/dfmcp-world/src/laboratory_civilian.rs\<close>: the complete-domain census of civilians and threats,
  and the safety of releasing one sealed roster of civilians from their burrow. The census is one
  pass over all entities; \<open>release_safe_iff\<close> says, without the pass, when a release is safe.
\<close>

definition max_laboratory_civilians :: nat where
  "max_laboratory_civilians = 64"

definition max_laboratory_civilian_entities :: nat where
  "max_laboratory_civilian_entities = 65536"

definition max_predicate_laboratory_civilian_work :: u64 where
  "max_predicate_laboratory_civilian_work = 16 * 32 * of_nat max_laboratory_civilian_entities"

definition laboratory_civilian_release_policy :: string where
  "laboratory_civilian_release_policy = ''dfmcp.laboratory-civilian-release/1''"

text \<open>The derived order compares the identifier, then the generation.\<close>

datatype laboratory_entity_identity =
  LaboratoryEntityIdentity (lei_id: entity_id) (lei_generation: u32)

instantiation laboratory_entity_identity :: linorder
begin

definition less_laboratory_entity_identity ::
    "laboratory_entity_identity \<Rightarrow> laboratory_entity_identity \<Rightarrow> bool" where
  "less_laboratory_entity_identity a b \<longleftrightarrow>
     lei_id a < lei_id b \<or> lei_id a = lei_id b \<and> lei_generation a < lei_generation b"

definition less_eq_laboratory_entity_identity ::
    "laboratory_entity_identity \<Rightarrow> laboratory_entity_identity \<Rightarrow> bool" where
  "less_eq_laboratory_entity_identity a b \<longleftrightarrow> a < b \<or> a = (b :: laboratory_entity_identity)"

instance
  by (intro_classes; (auto simp: less_laboratory_entity_identity_def less_eq_laboratory_entity_identity_def
        laboratory_entity_identity.expand)?)
    (metis laboratory_entity_identity.expand linorder_neqE)

end

datatype laboratory_threat_assessment = ThreatPresent | ThreatClear | ThreatUnknown

record laboratory_census =
  lc_anchor :: state_anchor
  lc_burrow :: "laboratory_entity_identity option"
  lc_civilians :: "laboratory_entity_identity list"
  lc_complete_civilian_roster :: bool
  lc_threat :: laboratory_threat_assessment
  lc_protected :: predicate_truth
  lc_protection_complete :: predicate_truth
  lc_released :: predicate_truth
  lc_source_scope :: digest32
  lc_inspected_entities :: nat

definition civilian_work_bound :: "nat \<Rightarrow> u64" where
  "civilian_work_bound entities = saturating_mul (word_of_nat entities) 32"

definition validate_civilian_request ::
    "laboratory_entity_identity \<Rightarrow> laboratory_entity_identity list \<Rightarrow> unit res" where
  "validate_civilian_request burrow civilians =
     (if civilians = [] \<or> length civilians > max_laboratory_civilians then fail BudgetExceeded
      else if lei_id burrow = 0 \<or> lei_generation burrow = 0 then fail InvalidRequest
      else if list_ex (\<lambda>c. lei_id c = 0 \<or> lei_id c = lei_id burrow \<or> lei_generation c = 0) civilians
           \<or> \<not> distinct (map lei_id civilians)
      then fail InvalidRequest else Ok ())"

definition laboratory_fortress_settings_entity_id :: "fortress_id \<Rightarrow> entity_id" where
  "laboratory_fortress_settings_entity_id fortress =
     (let digest = digest_of_bytes (str_bytes ''dfmcp-fortress-settings-v1'' @ [0] @ be_bytes 8 (unat fortress))
      in or 0x7E00000000000000 (and (word_of_nat (be_value (take 8 digest))) 0x00FFFFFFFFFFFFFF))"

definition record_identity :: "entity_record \<Rightarrow> laboratory_entity_identity option" where
  "record_identity r =
     (if er_id r \<noteq> 0 \<and> er_generation r \<noteq> 0
      then Some (LaboratoryEntityIdentity (er_id r) (er_generation r)) else None)"

definition scope_identity :: "entity_record \<Rightarrow> u8 list" where
  "scope_identity r = be_bytes 8 (unat (er_id r)) @ be_bytes 4 (unat (er_generation r))"

definition scope_source :: "entity_record \<Rightarrow> string \<Rightarrow> game_tick \<Rightarrow> u8 list" where
  "scope_source r name tick =
     (case map_of (er_fields r) name of
        None \<Rightarrow> [0]
      | Some f \<Rightarrow> if laboratory_fact_value f tick \<noteq> None then [1] else [2])"

text \<open>The state of the pass.\<close>

record census_state =
  cs_scope :: "u8 list"
  cs_civilians :: "laboratory_entity_identity list"
  cs_complete :: bool
  cs_any_assignment :: bool
  cs_all_unassigned :: bool
  cs_all_assigned :: bool
  cs_any_unassigned :: bool
  cs_present :: bool
  cs_unknown_threat :: bool

definition cs_push :: "u8 list \<Rightarrow> census_state \<Rightarrow> census_state" where
  "cs_push bs c = c\<lparr>cs_scope := cs_scope c @ bs\<rparr>"

definition kind_identity :: "world_snapshot \<Rightarrow> string \<Rightarrow> entity_id \<Rightarrow> laboratory_entity_identity option" where
  "kind_identity s kind i =
     (case map_of (wg_entities (ws_graph s)) i of
        Some r \<Rightarrow> if entity_kind_str (er_kind r) = kind then record_identity r else None
      | None \<Rightarrow> None)"

definition count_civilian :: "string \<Rightarrow> game_tick \<Rightarrow> entity_record \<Rightarrow> laboratory_entity_identity \<Rightarrow> census_state \<Rightarrow> census_state" where
  "count_civilian membership tick r unit c =
     (let c = (if length (cs_civilians c) < max_laboratory_civilians
               then c\<lparr>cs_civilians := cs_civilians c @ [unit]\<rparr> else c\<lparr>cs_complete := False\<rparr>)
      in case lab_field r membership tick of
           Some (VBool True) \<Rightarrow> c\<lparr>cs_any_assignment := True, cs_all_unassigned := False\<rparr>
         | Some (VBool False) \<Rightarrow> c\<lparr>cs_all_assigned := False, cs_any_unassigned := True\<rparr>
         | _ \<Rightarrow> c\<lparr>cs_all_assigned := False, cs_all_unassigned := False\<rparr>)"

definition census_unit :: "world_snapshot \<Rightarrow> string \<Rightarrow> entity_record \<Rightarrow> census_state \<Rightarrow> census_state" where
  "census_unit s membership r c =
     (let tick = ws_tick s;
          alive = lab_field r ''alive'' tick;
          c = cs_push ([0] @ scope_identity r @ scope_source r ''alive'' tick @
                [case alive of Some (VBool False) \<Rightarrow> 0 | Some (VBool True) \<Rightarrow> 1 | _ \<Rightarrow> 2]) c
      in case record_identity r of
           None \<Rightarrow> c\<lparr>cs_complete := False\<rparr>
         | Some unit \<Rightarrow>
             (case alive of
                Some (VBool False) \<Rightarrow> c
              | Some (VBool True) \<Rightarrow>
                  let c = cs_push (scope_source r ''squad'' tick) c in
                  if map_of (er_fields r) ''squad'' = None \<or> lab_field r ''squad'' tick = Some VNull
                  then count_civilian membership tick r unit (cs_push [0] c)
                  else
                    (case lab_field r ''squad'' tick of
                       Some (VEntity squad_id) \<Rightarrow>
                         let squad = kind_identity s ''squad'' squad_id;
                             c = cs_push ([1] @ be_bytes 8 (unat squad_id) @
                                   be_bytes 4 (case squad of None \<Rightarrow> 0 | Some q \<Rightarrow> unat (lei_generation q))) c
                         in if squad = None then c\<lparr>cs_complete := False\<rparr> else c
                     | _ \<Rightarrow> (cs_push [2] c)\<lparr>cs_complete := False\<rparr>)
              | _ \<Rightarrow> c\<lparr>cs_complete := False\<rparr>))"

definition census_creature :: "world_snapshot \<Rightarrow> entity_record \<Rightarrow> census_state \<Rightarrow> census_state" where
  "census_creature s r c =
     (let tick = ws_tick s;
          c = cs_push ([1] @ scope_identity r @ scope_source r ''hostile'' tick) c;
          c = (if record_identity r = None then c\<lparr>cs_unknown_threat := True\<rparr> else c)
      in case lab_field r ''hostile'' tick of
           Some (VBool False) \<Rightarrow> cs_push [0] c
         | Some (VBool True) \<Rightarrow>
             let c = cs_push ([1] @ scope_source r ''threat_status'' tick) c;
                 status = lab_field r ''threat_status'' tick
             in if status = Some (VText ''approaching'') then (cs_push [0] c)\<lparr>cs_present := True\<rparr>
                else if status = Some (VText ''attacking'') then (cs_push [1] c)\<lparr>cs_present := True\<rparr>
                else if status = Some (VText ''slain'') then cs_push [2] c
                else (cs_push [3] c)\<lparr>cs_unknown_threat := True\<rparr>
         | _ \<Rightarrow> (cs_push [2] c)\<lparr>cs_unknown_threat := True\<rparr>)"

fun census_pass ::
    "world_snapshot \<Rightarrow> string \<Rightarrow> (entity_id \<times> entity_record) list \<Rightarrow> census_state \<Rightarrow> census_state res" where
  "census_pass s membership [] c = Ok c"
| "census_pass s membership ((key, r) # es) c =
     (if key \<noteq> er_id r then fail InvalidRequest
      else census_pass s membership es
        (if entity_kind_str (er_kind r) = ''unit'' then census_unit s membership r c
         else if entity_kind_str (er_kind r) = ''creature'' then census_creature s r c
         else c))"

definition burrow_restriction :: "world_snapshot \<Rightarrow> val option" where
  "burrow_restriction s =
     (case map_of (wg_entities (ws_graph s)) (laboratory_fortress_settings_entity_id (ws_fortress_id s)) of
        None \<Rightarrow> None
      | Some r \<Rightarrow>
          if entity_kind_str (er_kind r) = ''fortress_settings'' \<and> record_identity r \<noteq> None
          then lab_field r ''standing_order.CIVILIAN_BURROW_RESTRICTION'' (ws_tick s) else None)"

definition census_start :: "world_snapshot \<Rightarrow> entity_id \<Rightarrow> census_state" where
  "census_start s selected_burrow =
     \<lparr>cs_scope = str_bytes laboratory_civilian_release_policy @ [0] @ be_bytes 8 (unat (ws_fortress_id s)) @
        be_bytes 8 (unat selected_burrow) @
        be_bytes 4 (case kind_identity s ''burrow'' selected_burrow of None \<Rightarrow> 0 | Some b \<Rightarrow> unat (lei_generation b)),
      cs_civilians = [], cs_complete = True, cs_any_assignment = False, cs_all_unassigned = True,
      cs_all_assigned = True, cs_any_unassigned = False, cs_present = False, cs_unknown_threat = False\<rparr>"

definition census_report :: "world_snapshot \<Rightarrow> entity_id \<Rightarrow> census_state \<Rightarrow> laboratory_census" where
  "census_report s selected_burrow c =
     (let burrow = kind_identity s ''burrow'' selected_burrow;
          active = burrow_restriction s = Some (VText ''ACTIVE'');
          inactive = burrow_restriction s = Some (VText ''INACTIVE'');
          retained = active \<or> cs_any_assignment c;
          released = burrow \<noteq> None \<and> cs_complete c \<and> cs_all_unassigned c \<and> inactive
      in \<lparr>lc_anchor = snapshot_anchor s, lc_burrow = burrow, lc_civilians = cs_civilians c,
          lc_complete_civilian_roster = cs_complete c,
          lc_threat = (if cs_present c then ThreatPresent else if cs_unknown_threat c then ThreatUnknown else ThreatClear),
          lc_protected = (if retained then PTrue else if released then PFalse else PUnknown),
          lc_protection_complete =
            (if inactive \<or> cs_any_unassigned c then PFalse
             else if burrow \<noteq> None \<and> cs_complete c \<and> cs_all_assigned c \<and> active then PTrue else PUnknown),
          lc_released = (if retained then PFalse else if released then PTrue else PUnknown),
          lc_source_scope = digest_of_bytes (cs_scope c),
          lc_inspected_entities = length (wg_entities (ws_graph s))\<rparr>)"

definition laboratory_civilian_census :: "world_snapshot \<Rightarrow> entity_id \<Rightarrow> laboratory_census res" where
  "laboratory_civilian_census s selected_burrow =
     (if selected_burrow = 0 \<or> ws_fortress_id s = 0 then fail InvalidRequest
      else if length (wg_entities (ws_graph s)) > max_laboratory_civilian_entities then fail BudgetExceeded
      else and_then
        (census_pass s (''burrow.'' @ show_nat (unat selected_burrow)) (wg_entities (ws_graph s))
          (census_start s selected_burrow))
        (\<lambda>c. Ok (census_report s selected_burrow c)))"

definition laboratory_civilian_release_safety_truth ::
    "world_snapshot \<Rightarrow> laboratory_entity_identity \<Rightarrow> laboratory_entity_identity list \<Rightarrow> predicate_truth res" where
  "laboratory_civilian_release_safety_truth s burrow civilians =
     and_then (validate_civilian_request burrow civilians) (\<lambda>_.
     and_then (laboratory_civilian_census s (lei_id burrow)) (\<lambda>census.
       if lc_threat census = ThreatPresent then Ok PFalse
       else if lc_burrow census \<noteq> Some burrow
       then Ok (case map_of (wg_entities (ws_graph s)) (lei_id burrow) of
                  Some r \<Rightarrow> if er_generation r = 0 then PUnknown else PFalse
                | None \<Rightarrow> PFalse)
       else if \<not> lc_complete_civilian_roster census \<or> lc_threat census = ThreatUnknown then Ok PUnknown
       else Ok (if lc_civilians census = sort civilians then PTrue else PFalse)))"

subsection \<open>What the census means\<close>

definition civilian_unit :: "world_snapshot \<Rightarrow> entity_record \<Rightarrow> bool" where
  "civilian_unit s r \<longleftrightarrow>
     entity_kind_str (er_kind r) = ''unit'' \<and> record_identity r \<noteq> None \<and>
     lab_field r ''alive'' (ws_tick s) = Some (VBool True) \<and>
     (map_of (er_fields r) ''squad'' = None \<or> lab_field r ''squad'' (ws_tick s) = Some VNull)"

definition settled_unit :: "world_snapshot \<Rightarrow> entity_record \<Rightarrow> bool" where
  "settled_unit s r \<longleftrightarrow>
     record_identity r \<noteq> None \<and>
     (lab_field r ''alive'' (ws_tick s) = Some (VBool False) \<or>
      lab_field r ''alive'' (ws_tick s) = Some (VBool True) \<and>
        (map_of (er_fields r) ''squad'' = None \<or> lab_field r ''squad'' (ws_tick s) = Some VNull \<or>
         (\<exists>q. lab_field r ''squad'' (ws_tick s) = Some (VEntity q) \<and> kind_identity s ''squad'' q \<noteq> None)))"

definition harmless_creature :: "world_snapshot \<Rightarrow> entity_record \<Rightarrow> bool" where
  "harmless_creature s r \<longleftrightarrow>
     record_identity r \<noteq> None \<and>
     (lab_field r ''hostile'' (ws_tick s) = Some (VBool False) \<or>
      lab_field r ''hostile'' (ws_tick s) = Some (VBool True) \<and>
        lab_field r ''threat_status'' (ws_tick s) = Some (VText ''slain''))"

lemma cs_push_fields [simp]:
  "cs_civilians (cs_push bs c) = cs_civilians c" "cs_complete (cs_push bs c) = cs_complete c"
  "cs_present (cs_push bs c) = cs_present c" "cs_unknown_threat (cs_push bs c) = cs_unknown_threat c"
  by (simp_all add: cs_push_def)

lemma count_civilian_fields:
  "cs_present (count_civilian m t r u c) = cs_present c"
  "cs_unknown_threat (count_civilian m t r u c) = cs_unknown_threat c"
  "cs_complete (count_civilian m t r u c) \<longleftrightarrow> cs_complete c \<and> length (cs_civilians c) < max_laboratory_civilians"
  "cs_civilians (count_civilian m t r u c) =
     (if length (cs_civilians c) < max_laboratory_civilians then cs_civilians c @ [u] else cs_civilians c)"
  by (auto simp: count_civilian_def Let_def split: option.splits val.splits bool.splits)

lemma census_unit_threat [simp]:
  "cs_present (census_unit s m r c) = cs_present c" "cs_unknown_threat (census_unit s m r c) = cs_unknown_threat c"
  by (auto simp: census_unit_def Let_def count_civilian_fields split: option.splits val.splits bool.splits)

lemma census_unit_roster:
  assumes "entity_kind_str (er_kind r) = ''unit''"
  shows "cs_complete (census_unit s m r c) \<longleftrightarrow>
      cs_complete c \<and> settled_unit s r \<and> (civilian_unit s r \<longrightarrow> length (cs_civilians c) < max_laboratory_civilians)"
    and "cs_civilians (census_unit s m r c) =
      (if civilian_unit s r \<and> length (cs_civilians c) < max_laboratory_civilians
       then cs_civilians c @ [the (record_identity r)] else cs_civilians c)"
  using assms
  by (auto simp: census_unit_def Let_def count_civilian_fields settled_unit_def civilian_unit_def
      split: option.splits val.splits bool.splits)

lemma census_creature_roster [simp]:
  "cs_complete (census_creature s r c) = cs_complete c" "cs_civilians (census_creature s r c) = cs_civilians c"
  by (auto simp: census_creature_def Let_def split: option.splits val.splits bool.splits)

lemma census_creature_threat:
  "\<not> cs_present (census_creature s r c) \<and> \<not> cs_unknown_threat (census_creature s r c) \<longleftrightarrow>
     \<not> cs_present c \<and> \<not> cs_unknown_threat c \<and> harmless_creature s r"
  by (auto simp: census_creature_def harmless_creature_def Let_def split: option.splits val.splits bool.splits)

definition domain_clear :: "world_snapshot \<Rightarrow> (entity_id \<times> entity_record) list \<Rightarrow> bool" where
  "domain_clear s es \<longleftrightarrow>
     (\<forall>e \<in> set es. entity_kind_str (er_kind (snd e)) = ''creature'' \<longrightarrow> harmless_creature s (snd e))"

definition domain_settled :: "world_snapshot \<Rightarrow> (entity_id \<times> entity_record) list \<Rightarrow> bool" where
  "domain_settled s es \<longleftrightarrow>
     (\<forall>e \<in> set es. entity_kind_str (er_kind (snd e)) = ''unit'' \<longrightarrow> settled_unit s (snd e))"

definition civilian_roster :: "world_snapshot \<Rightarrow> (entity_id \<times> entity_record) list \<Rightarrow> laboratory_entity_identity list" where
  "civilian_roster s es = map (the \<circ> record_identity) (filter (civilian_unit s) (map snd es))"

lemma civilian_roster_Cons:
  "civilian_roster s ((k, r) # es) =
     (if civilian_unit s r then the (record_identity r) # civilian_roster s es else civilian_roster s es)"
  by (simp add: civilian_roster_def)

lemma census_pass_Ok:
  "(\<exists>c'. census_pass s m es c = Ok c') \<longleftrightarrow> (\<forall>e \<in> set es. fst e = er_id (snd e))"
  by (induction s m es c rule: census_pass.induct) auto

lemma census_pass_threat:
  "census_pass s m es c = Ok c' \<Longrightarrow>
   \<not> cs_present c' \<and> \<not> cs_unknown_threat c' \<longleftrightarrow> \<not> cs_present c \<and> \<not> cs_unknown_threat c \<and> domain_clear s es"
proof (induction s m es c rule: census_pass.induct)
  case (2 s m key r es c)
  then show ?case
    using census_creature_threat [of s r c] by (auto simp: domain_clear_def split: if_splits)
qed (simp add: domain_clear_def)

lemma census_pass_roster:
  "census_pass s m es c = Ok c' \<Longrightarrow> length (cs_civilians c) \<le> max_laboratory_civilians \<Longrightarrow>
   (cs_complete c' \<longleftrightarrow> cs_complete c \<and> domain_settled s es \<and>
      length (cs_civilians c) + length (civilian_roster s es) \<le> max_laboratory_civilians) \<and>
   (cs_complete c' \<longrightarrow> cs_civilians c' = cs_civilians c @ civilian_roster s es)"
proof (induction s m es c rule: census_pass.induct)
  case (2 s m key r es c)
  show ?case
  proof (cases "entity_kind_str (er_kind r) = ''unit''")
    case True
    then have "census_pass s m es (census_unit s m r c) = Ok c'" using 2(2) by (simp split: if_splits)
    moreover have "length (cs_civilians (census_unit s m r c)) \<le> max_laboratory_civilians"
      using 2(3) by (auto simp: census_unit_roster [OF True])
    ultimately show ?thesis
      using 2(1) 2(2) True 2(3) census_unit_roster [OF True, of s m c]
      by (auto simp: domain_settled_def civilian_roster_Cons split: if_splits)
  next
    case False
    then have "\<not> civilian_unit s r" by (simp add: civilian_unit_def)
    with False show ?thesis
      using 2 by (auto simp: domain_settled_def civilian_roster_Cons split: if_splits)
  qed
qed (auto simp: domain_settled_def civilian_roster_def)

lemma roster_sorted:
  assumes "bt_sorted es" "\<forall>e \<in> set es. fst e = er_id (snd e)"
  shows "sorted_wrt (<) (civilian_roster s es)"
  using assms
proof (induction es)
  case (Cons e es)
  obtain k r where e: "e = (k, r)" by (cases e)
  have "lei_id (the (record_identity r)) < lei_id i" if "i \<in> set (civilian_roster s es)" "civilian_unit s r" for i
  proof -
    obtain k' r' where r': "(k', r') \<in> set es" "civilian_unit s r'" "i = the (record_identity r')"
      using \<open>i \<in> set (civilian_roster s es)\<close> by (auto simp: civilian_roster_def)
    have "k < k'" using Cons.prems(1) r'(1) by (auto simp: bt_sorted_def e)
    moreover have "k = er_id r" "k' = er_id r'" using Cons.prems(2) r'(1) by (auto simp: e)
    ultimately show ?thesis
      using r'(2,3) \<open>civilian_unit s r\<close> by (auto simp: civilian_unit_def record_identity_def split: if_splits)
  qed
  moreover have "bt_sorted es" using Cons.prems(1) by (simp add: bt_sorted_def e)
  ultimately show ?case
    using Cons by (auto simp: e civilian_roster_Cons less_laboratory_entity_identity_def)
qed (simp add: civilian_roster_def)

lemma sorted_lists_eq_iff:
  fixes xs ys :: "'a::linorder list"
  assumes "sorted_wrt (<) xs" "distinct ys"
  shows "xs = sort ys \<longleftrightarrow> set xs = set ys"
  using assms by (metis set_sort sorted_distinct_set_unique sorted_sort distinct_sort strict_sorted_iff)

lemma census_report_fields [simp]:
  "lc_threat (census_report s b c) = ThreatPresent \<longleftrightarrow> cs_present c"
  "lc_threat (census_report s b c) = ThreatUnknown \<longleftrightarrow> \<not> cs_present c \<and> cs_unknown_threat c"
  "lc_burrow (census_report s b c) = kind_identity s ''burrow'' b"
  "lc_complete_civilian_roster (census_report s b c) = cs_complete c"
  "lc_civilians (census_report s b c) = cs_civilians c"
  by (simp_all add: census_report_def Let_def)

lemma release_truth_of_census:
  assumes "validate_civilian_request burrow civilians = Ok ()"
    and "laboratory_civilian_census s (lei_id burrow) = Ok (census_report s (lei_id burrow) c)"
  shows "laboratory_civilian_release_safety_truth s burrow civilians = Ok PTrue \<longleftrightarrow>
    kind_identity s ''burrow'' (lei_id burrow) = Some burrow \<and>
    (\<not> cs_present c \<and> \<not> cs_unknown_threat c) \<and> cs_complete c \<and> cs_civilians c = sort civilians"
  by (auto simp: laboratory_civilian_release_safety_truth_def assms split: option.splits)

text \<open>
  C29: A release is declared safe exactly when it is. For a snapshot whose entity map is in key
  order the predicate answers true if and only if the request is well formed, the census covers the
  whole domain under matching keys, the burrow is the requested incarnation, every creature is known
  to be harmless or slain, every unit is known to be dead, civilian, or a member of an existing
  squad, and the living civilians are precisely the requested ones.
\<close>
theorem release_safe_iff:
  assumes "bt_sorted (wg_entities (ws_graph s))"
  shows "laboratory_civilian_release_safety_truth s burrow civilians = Ok PTrue \<longleftrightarrow>
    validate_civilian_request burrow civilians = Ok () \<and> ws_fortress_id s \<noteq> 0 \<and>
    length (wg_entities (ws_graph s)) \<le> max_laboratory_civilian_entities \<and>
    (\<forall>e \<in> set (wg_entities (ws_graph s)). fst e = er_id (snd e)) \<and>
    kind_identity s ''burrow'' (lei_id burrow) = Some burrow \<and>
    domain_clear s (wg_entities (ws_graph s)) \<and> domain_settled s (wg_entities (ws_graph s)) \<and>
    {i. \<exists>e \<in> set (wg_entities (ws_graph s)). civilian_unit s (snd e) \<and> record_identity (snd e) = Some i} = set civilians"
    (is "?lhs \<longleftrightarrow> ?rhs")
proof -
  let ?es = "wg_entities (ws_graph s)" and ?m = "''burrow.'' @ show_nat (unat (lei_id burrow))"
  have roster_set: "set (civilian_roster s ?es) =
      {i. \<exists>e \<in> set ?es. civilian_unit s (snd e) \<and> record_identity (snd e) = Some i}"
  proof -
    have "set (civilian_roster s ?es) = (\<lambda>e. the (record_identity (snd e))) ` {e \<in> set ?es. civilian_unit s (snd e)}"
      by (auto simp: civilian_roster_def)
    moreover have "\<exists>i. record_identity r = Some i" if "civilian_unit s r" for r
      using that by (simp add: civilian_unit_def)
    ultimately show ?thesis by (fastforce simp: image_iff)
  qed
  have valid: "lei_id burrow \<noteq> 0 \<and> distinct civilians \<and> length civilians \<le> max_laboratory_civilians"
    if "validate_civilian_request burrow civilians = Ok ()"
    using that by (auto simp: validate_civilian_request_def distinct_map split: if_splits)
  show ?thesis
  proof (cases "validate_civilian_request burrow civilians = Ok () \<and> ws_fortress_id s \<noteq> 0 \<and>
      length ?es \<le> max_laboratory_civilian_entities \<and> (\<forall>e \<in> set ?es. fst e = er_id (snd e))")
    case True
    then obtain c where c: "census_pass s ?m ?es (census_start s (lei_id burrow)) = Ok c"
      using census_pass_Ok [of s ?m ?es "census_start s (lei_id burrow)"] by blast
    have start: "cs_civilians (census_start s b) = []" "cs_complete (census_start s b)"
      "\<not> cs_present (census_start s b)" "\<not> cs_unknown_threat (census_start s b)" for b
      by (simp_all add: census_start_def)
    note threat = census_pass_threat [OF c, unfolded start, simplified]
    have complete: "cs_complete c \<longleftrightarrow> domain_settled s ?es \<and> length (civilian_roster s ?es) \<le> max_laboratory_civilians"
      and names: "cs_complete c \<Longrightarrow> cs_civilians c = civilian_roster s ?es"
      using census_pass_roster [OF c] by (simp_all add: start)
    have same: "civilian_roster s ?es = sort civilians \<longleftrightarrow> set (civilian_roster s ?es) = set civilians"
      using roster_sorted [OF assms] True valid by (intro sorted_lists_eq_iff) auto
    have len: "length (civilian_roster s ?es) \<le> max_laboratory_civilians" if "civilian_roster s ?es = sort civilians"
      using that True valid by simp
    have census: "laboratory_civilian_census s (lei_id burrow) = Ok (census_report s (lei_id burrow) c)"
      using True valid c by (simp add: laboratory_civilian_census_def)
    have "?lhs \<longleftrightarrow> kind_identity s ''burrow'' (lei_id burrow) = Some burrow \<and>
        (\<not> cs_present c \<and> \<not> cs_unknown_threat c) \<and> cs_complete c \<and> cs_civilians c = sort civilians"
      using True by (simp add: release_truth_of_census [OF _ census])
    also have "\<dots> \<longleftrightarrow> kind_identity s ''burrow'' (lei_id burrow) = Some burrow \<and> domain_clear s ?es \<and>
        domain_settled s ?es \<and> civilian_roster s ?es = sort civilians"
      unfolding threat using complete names len by (cases "cs_complete c") (auto simp: start)
    also have "\<dots> \<longleftrightarrow> ?rhs"
      unfolding same roster_set using True by simp
    finally show ?thesis .
  next
    case False
    then have "\<not> ?lhs"
      using census_pass_Ok [of s ?m ?es "census_start s (lei_id burrow)"]
      by (auto simp: laboratory_civilian_release_safety_truth_def laboratory_civilian_census_def split: if_splits)
    with False show ?thesis by blast
  qed
qed

text \<open>The census never claims both protection and release; each is the negation of the other.\<close>

lemma census_released_protected:
  "laboratory_civilian_census s b = Ok census \<Longrightarrow> lc_released census = truth_not (lc_protected census)"
  by (auto simp: laboratory_civilian_census_def census_report_def Let_def split: if_splits)

lemma census_complete_protects:
  "laboratory_civilian_census s b = Ok census \<Longrightarrow> lc_protection_complete census = PTrue \<Longrightarrow> lc_protected census = PTrue"
  by (auto simp: laboratory_civilian_census_def census_report_def Let_def split: if_splits)

definition sample_lab_fact :: "val \<Rightarrow> fact" where
  "sample_lab_fact v = fact_known v 50 (Derived lab_scenario) digest_zero"

definition sample_lab_unit :: entity_record where
  "sample_lab_unit =
     \<lparr>er_id = 5, er_generation = 1, er_revision = 1, er_kind = EkUnit, er_label = ''Urist'',
      er_fields = [(''alive'', sample_lab_fact (VBool True))]\<rparr>"

definition sample_lab_burrow :: entity_record where
  "sample_lab_burrow =
     \<lparr>er_id = 9, er_generation = 2, er_revision = 1, er_kind = EkBurrow, er_label = ''Refuge'', er_fields = []\<rparr>"

definition sample_lab_creature :: entity_record where
  "sample_lab_creature =
     \<lparr>er_id = 11, er_generation = 1, er_revision = 1, er_kind = EkCreature, er_label = ''Goblin'',
      er_fields = [(''hostile'', sample_lab_fact (VBool True)), (''threat_status'', sample_lab_fact (VText ''slain''))]\<rparr>"

definition sample_lab_world :: world_snapshot where
  "sample_lab_world = world_snapshot_new 7 100 (ObservationCursor 1 1) True
     (empty_graph\<lparr>wg_entities := [(5, sample_lab_unit), (9, sample_lab_burrow), (11, sample_lab_creature)]\<rparr>)"

lemmas sample_lab_defs = sample_lab_world_def sample_lab_unit_def sample_lab_burrow_def sample_lab_creature_def
  sample_lab_fact_def empty_graph_def

lemma sample_lab_fields:
  "lab_field sample_lab_unit ''alive'' 100 = Some (VBool True)"
  "map_of (er_fields sample_lab_unit) ''squad'' = None"
  "lab_field sample_lab_creature ''hostile'' 100 = Some (VBool True)"
  "lab_field sample_lab_creature ''threat_status'' 100 = Some (VText ''slain'')"
  by (simp_all add: lab_field_def laboratory_fact_value_def known_value_def fact_known_def sample_lab_defs)

theorem release_safe_iff_witness:
  "laboratory_civilian_release_safety_truth sample_lab_world
     (LaboratoryEntityIdentity 9 2) [LaboratoryEntityIdentity 5 1] = Ok PTrue"
proof -
  have es: "wg_entities (ws_graph sample_lab_world) = [(5, sample_lab_unit), (9, sample_lab_burrow), (11, sample_lab_creature)]"
    and tick: "ws_tick sample_lab_world = 100" and fortress: "ws_fortress_id sample_lab_world = 7"
    by (simp_all add: sample_lab_world_def)
  have kinds: "entity_kind_str (er_kind sample_lab_unit) = ''unit''" "entity_kind_str (er_kind sample_lab_burrow) = ''burrow''"
    "entity_kind_str (er_kind sample_lab_creature) = ''creature''"
    "record_identity sample_lab_unit = Some (LaboratoryEntityIdentity 5 1)"
    "record_identity sample_lab_burrow = Some (LaboratoryEntityIdentity 9 2)"
    "record_identity sample_lab_creature = Some (LaboratoryEntityIdentity 11 1)"
    "er_id sample_lab_unit = 5" "er_id sample_lab_burrow = 9" "er_id sample_lab_creature = 11"
    by (simp_all add: sample_lab_unit_def sample_lab_burrow_def sample_lab_creature_def record_identity_def)
  have civ: "civilian_unit sample_lab_world sample_lab_unit" "\<not> civilian_unit sample_lab_world sample_lab_burrow"
    "\<not> civilian_unit sample_lab_world sample_lab_creature"
    by (simp_all add: civilian_unit_def kinds tick sample_lab_fields)
  have sorted: "bt_sorted (wg_entities (ws_graph sample_lab_world))" by (simp add: es bt_sorted_def)
  show ?thesis
    unfolding release_safe_iff [OF sorted] es
    by (auto simp: kinds tick fortress civ sample_lab_fields validate_civilian_request_def max_laboratory_civilians_def
        max_laboratory_civilian_entities_def kind_identity_def es domain_clear_def domain_settled_def
        harmless_creature_def settled_unit_def)
qed

end
