(* ===== verification/Predicates.thy ===== *)
theory Predicates
  imports Lab_Routes Lab_Civilian "HOL-Library.Multiset"
begin

text \<open>
  \<^verbatim>\<open>crates/dfmcp-world/src/query.rs\<close>, the predicate language: its canonical bytes and normal form, and its
  three-valued evaluation over one snapshot. The locale \<open>predicate_evaluator\<close> collects what an
  evaluator owes the Boolean connectives and the order of request lists; normalization preserves the
  answers of every such evaluator.
\<close>

subsection \<open>The language\<close>

datatype compare_op = CmpEq | CmpNe | CmpLt | CmpLe | CmpGt | CmpGe

datatype predicate =
    PrTrue
  | PrFalse
  | EntityExists entity_id
  | EntityKindIs entity_id entity_kind
  | FieldCompare entity_id string compare_op val
  | EdgeExists edge_id "edge_kind option"
  | Paused bool
  | RegionTerrain map_cuboid u32
  | PrAll "predicate list"
  | PrAny "predicate list"
  | PrNot predicate
  | LaboratoryRoomAccess map_cuboid map_coord "map_coord list"
  | EntityQuantity entity_kind string val "string option" compare_op u64
  | LaboratoryRoomAccessPairedStairs map_cuboid map_coord "map_coord list"
  | LaboratoryCivilianReleaseSafety laboratory_entity_identity "laboratory_entity_identity list"
  | EntityQuantityIncrease (qi_kind: entity_kind) (qi_filter_field: string) (qi_filter_value: val)
      (qi_quantity_field: "string option") (qi_baseline: u64) (qi_increase: u64)
      (qi_baseline_anchor: state_anchor) (qi_baseline_source_digest: digest32)
      (qi_source_generation: u64) (qi_baseline_source_counters: "u64 \<times> u64 \<times> u64")

text \<open>The sums saturate at \<open>usize::MAX\<close> in the code; a tree of that size does not fit in memory.\<close>

fun pred_depth :: "predicate \<Rightarrow> nat" and preds_depth :: "predicate list \<Rightarrow> nat \<Rightarrow> nat" where
  "pred_depth (PrAll children) = preds_depth children 0 + 1"
| "pred_depth (PrAny children) = preds_depth children 0 + 1"
| "pred_depth (PrNot inner) = pred_depth inner + 1"
| "pred_depth _ = 1"
| "preds_depth [] deepest = deepest"
| "preds_depth (p # ps) deepest = preds_depth ps (max deepest (pred_depth p))"

fun pred_complexity :: "predicate \<Rightarrow> nat" and preds_complexity :: "predicate list \<Rightarrow> nat \<Rightarrow> nat" where
  "pred_complexity (PrAll children) = preds_complexity children 1"
| "pred_complexity (PrAny children) = preds_complexity children 1"
| "pred_complexity (PrNot inner) = 1 + pred_complexity inner"
| "pred_complexity _ = 1"
| "preds_complexity [] complexity = complexity"
| "preds_complexity (p # ps) complexity = preds_complexity ps (complexity + pred_complexity p)"

lemma preds_complexity_sum: "preds_complexity ps n = n + sum_list (map pred_complexity ps)"
  by (induction ps arbitrary: n) auto

lemma pred_complexity_variadic [simp]:
  "pred_complexity (PrAll ps) = Suc (sum_list (map pred_complexity ps))"
  "pred_complexity (PrAny ps) = Suc (sum_list (map pred_complexity ps))"
  by (simp_all add: preds_complexity_sum)

declare pred_complexity.simps(1,2) [simp del]

lemma pred_complexity_pos [simp]: "0 < pred_complexity p"
  by (cases p) simp_all

text \<open>A work list is popped at its end, so the children of a node come back in reverse.\<close>

function scan_work :: "nat \<Rightarrow> predicate list \<Rightarrow> u64 \<Rightarrow> u64" where
  "scan_work entities [] work = work"
| "scan_work entities (p # pending) work =
     (case p of
        PrAll children \<Rightarrow> scan_work entities (rev children @ pending) work
      | PrAny children \<Rightarrow> scan_work entities (rev children @ pending) work
      | PrNot child \<Rightarrow> scan_work entities (child # pending) work
      | LaboratoryRoomAccess area _ targets \<Rightarrow>
          scan_work entities pending (saturating_add work (access_work_bound area (length targets) entities))
      | LaboratoryRoomAccessPairedStairs area _ targets \<Rightarrow>
          scan_work entities pending (saturating_add work (access_work_bound area (length targets) entities))
      | EntityQuantity _ _ _ _ _ _ \<Rightarrow>
          scan_work entities pending (saturating_add work (saturating_mul (word_of_nat entities) 3))
      | EntityQuantityIncrease _ _ _ _ _ _ _ _ _ _ \<Rightarrow>
          scan_work entities pending (saturating_add work (saturating_mul (word_of_nat entities) 3))
      | LaboratoryCivilianReleaseSafety _ _ \<Rightarrow>
          scan_work entities pending (saturating_add work (civilian_work_bound entities))
      | _ \<Rightarrow> scan_work entities pending work)"
  by pat_completeness auto
termination
  by (relation "measure (\<lambda>(_, ps, _). sum_list (map pred_complexity ps))") (auto simp: rev_map [symmetric])

definition additional_scan_work :: "predicate \<Rightarrow> nat \<Rightarrow> u64" where
  "additional_scan_work p entities = scan_work entities [p] 0"

definition max_predicate_quantity_work :: u64 where
  "max_predicate_quantity_work = 4000000"

function quantity_work :: "nat \<Rightarrow> predicate list \<Rightarrow> u64 \<Rightarrow> unit res" where
  "quantity_work entities [] work = Ok ()"
| "quantity_work entities (p # pending) work =
     (case p of
        PrAll children \<Rightarrow> quantity_work entities (rev children @ pending) work
      | PrAny children \<Rightarrow> quantity_work entities (rev children @ pending) work
      | PrNot child \<Rightarrow> quantity_work entities (child # pending) work
      | EntityQuantity _ _ _ _ _ _ \<Rightarrow>
          (let work = saturating_add work (saturating_mul (word_of_nat entities) 3)
           in if work > max_predicate_quantity_work then fail BudgetExceeded
              else quantity_work entities pending work)
      | EntityQuantityIncrease _ _ _ _ _ _ _ _ _ _ \<Rightarrow>
          (let work = saturating_add work (saturating_mul (word_of_nat entities) 3)
           in if work > max_predicate_quantity_work then fail BudgetExceeded
              else quantity_work entities pending work)
      | _ \<Rightarrow> quantity_work entities pending work)"
  by pat_completeness auto
termination
  by (relation "measure (\<lambda>(_, ps, _). sum_list (map pred_complexity ps))") (auto simp: rev_map [symmetric])

definition validate_quantity_work :: "predicate \<Rightarrow> nat \<Rightarrow> unit res" where
  "validate_quantity_work p entities = quantity_work entities [p] 0"

subsection \<open>Canonical bytes\<close>

primrec compare_op_code :: "compare_op \<Rightarrow> u8" where
  "compare_op_code CmpEq = 0"
| "compare_op_code CmpNe = 1"
| "compare_op_code CmpLt = 2"
| "compare_op_code CmpLe = 3"
| "compare_op_code CmpGt = 4"
| "compare_op_code CmpGe = 5"

definition put_access :: "map_cuboid \<Rightarrow> map_coord \<Rightarrow> map_coord list \<Rightarrow> u8 list" where
  "put_access area entry targets =
     enc_coord (cmin area) @ enc_coord (cmax area) @ enc_coord entry @
     put_u64 (word_of_nat (length targets)) @ concat (map enc_coord targets)"

definition put_identity :: "laboratory_entity_identity \<Rightarrow> u8 list" where
  "put_identity i = put_u64 (lei_id i) @ put_u32 (lei_generation i)"

definition put_selector :: "entity_kind \<Rightarrow> string \<Rightarrow> val \<Rightarrow> string option \<Rightarrow> u8 list" where
  "put_selector kind filter_field filter_value quantity_field =
     put_str (entity_kind_str kind) @ put_str filter_field @ enc_value filter_value @
     (case quantity_field of Some field \<Rightarrow> 1 # put_str field | None \<Rightarrow> [0])"

fun enc_predicate :: "predicate \<Rightarrow> u8 list" and enc_predicates :: "predicate list \<Rightarrow> u8 list" where
  "enc_predicate PrTrue = [0]"
| "enc_predicate PrFalse = [1]"
| "enc_predicate (EntityExists e) = 2 # put_u64 e"
| "enc_predicate (EntityKindIs e kind) = 3 # put_u64 e @ put_str (entity_kind_str kind)"
| "enc_predicate (FieldCompare e field op v) =
     4 # put_u64 e @ put_str field @ [compare_op_code op] @ enc_value v"
| "enc_predicate (EdgeExists e kind) =
     5 # put_u128 e @ (case kind of Some k \<Rightarrow> 1 # put_str (edge_kind_str k) | None \<Rightarrow> [0])"
| "enc_predicate (Paused b) = 6 # put_bool b"
| "enc_predicate (PrAll ps) = 7 # put_u64 (word_of_nat (length ps)) @ enc_predicates ps"
| "enc_predicate (PrAny ps) = 8 # put_u64 (word_of_nat (length ps)) @ enc_predicates ps"
| "enc_predicate (PrNot p) = 9 # enc_predicate p"
| "enc_predicate (RegionTerrain area code) = 10 # enc_coord (cmin area) @ enc_coord (cmax area) @ put_u32 code"
| "enc_predicate (LaboratoryRoomAccess area entry targets) = 11 # put_access area entry targets"
| "enc_predicate (EntityQuantity kind field v quantity op n) =
     12 # put_selector kind field v quantity @ [compare_op_code op] @ put_u64 n"
| "enc_predicate (LaboratoryRoomAccessPairedStairs area entry targets) = 13 # put_access area entry targets"
| "enc_predicate (LaboratoryCivilianReleaseSafety burrow civilians) =
     14 # put_identity burrow @ put_u64 (word_of_nat (length civilians)) @ concat (map put_identity civilians)"
| "enc_predicate (EntityQuantityIncrease kind field v quantity baseline increase anchor digest generation counters) =
     15 # put_selector kind field v quantity @ put_u64 baseline @ put_u64 increase @ put_anchor anchor @
     digest @ put_u64 generation @
     (case counters of (a, b, c) \<Rightarrow> put_u64 a @ put_u64 b @ put_u64 c)"
| "enc_predicates [] = []"
| "enc_predicates (p # ps) = enc_predicate p @ enc_predicates ps"

subsection \<open>Normal form\<close>

text \<open>The sorts compare coordinates level by level, and sub-predicates by their bytes.\<close>

definition coord_key :: "map_coord \<Rightarrow> int list" where
  "coord_key c = [mz c, my c, mx c]"

definition finish_variadic :: "bool \<Rightarrow> predicate list \<Rightarrow> predicate" where
  "finish_variadic all ps =
     (let normalized = remdups_adj (sort_key enc_predicate ps) in
      case normalized of
        [] \<Rightarrow> if all then PrTrue else PrFalse
      | [p] \<Rightarrow> p
      | _ \<Rightarrow> if all then PrAll normalized else PrAny normalized)"

fun normalized :: "predicate \<Rightarrow> predicate"
  and normalize_variadic :: "bool \<Rightarrow> predicate list \<Rightarrow> predicate list \<Rightarrow> predicate" where
  "normalized (PrAll ps) = normalize_variadic True ps []"
| "normalized (PrAny ps) = normalize_variadic False ps []"
| "normalized (PrNot p) =
     (case normalized p of
        PrTrue \<Rightarrow> PrFalse
      | PrFalse \<Rightarrow> PrTrue
      | PrNot inner \<Rightarrow> inner
      | q \<Rightarrow> PrNot q)"
| "normalized (LaboratoryRoomAccess area entry targets) =
     LaboratoryRoomAccess area entry (sort_key coord_key targets)"
| "normalized (LaboratoryRoomAccessPairedStairs area entry targets) =
     LaboratoryRoomAccessPairedStairs area entry (sort_key coord_key targets)"
| "normalized (LaboratoryCivilianReleaseSafety burrow civilians) =
     LaboratoryCivilianReleaseSafety burrow (sort civilians)"
| "normalized p = p"
| "normalize_variadic all [] acc = finish_variadic all acc"
| "normalize_variadic all (p # ps) acc =
     (case normalized p of
        PrFalse \<Rightarrow> if all then PrFalse else normalize_variadic all ps acc
      | PrTrue \<Rightarrow> if all then normalize_variadic all ps acc else PrTrue
      | PrAll children \<Rightarrow> normalize_variadic all ps (if all then acc @ children else acc @ [PrAll children])
      | PrAny children \<Rightarrow> normalize_variadic all ps (if all then acc @ [PrAny children] else acc @ children)
      | q \<Rightarrow> normalize_variadic all ps (acc @ [q]))"

definition pred_canonical_bytes :: "predicate \<Rightarrow> u8 list" where
  "pred_canonical_bytes p = enc_predicate (normalized p)"

subsection \<open>Evaluation over a snapshot\<close>

datatype ordering = Less | Equal | Greater

definition cmp :: "'a::linorder \<Rightarrow> 'a \<Rightarrow> ordering" where
  "cmp a b = (if a < b then Less else if a = b then Equal else Greater)"

definition then_cmp :: "ordering \<Rightarrow> ordering \<Rightarrow> ordering" where
  "then_cmp o1 o2 = (if o1 = Equal then o2 else o1)"

definition value_ordering :: "val \<Rightarrow> val \<Rightarrow> ordering option" where
  "value_ordering left right =
     (case left of
        VI64 a \<Rightarrow> (case right of VI64 b \<Rightarrow> Some (cmp a b) | _ \<Rightarrow> None)
      | VU64 a \<Rightarrow> (case right of VU64 b \<Rightarrow> Some (cmp a b) | _ \<Rightarrow> None)
      | VFixed a sa \<Rightarrow> (case right of VFixed b sb \<Rightarrow> if sa = sb then Some (cmp a b) else None | _ \<Rightarrow> None)
      | VText a \<Rightarrow> (case right of VText b \<Rightarrow> Some (cmp a b) | _ \<Rightarrow> None)
      | VBool a \<Rightarrow> (case right of VBool b \<Rightarrow> Some (cmp a b) | _ \<Rightarrow> None)
      | VEntity a \<Rightarrow> (case right of VEntity b \<Rightarrow> Some (cmp a b) | _ \<Rightarrow> None)
      | VCoord a \<Rightarrow>
          (case right of
             VCoord b \<Rightarrow>
               Some (then_cmp (cmp (mx a) (mx b)) (then_cmp (cmp (my a) (my b)) (cmp (mz a) (mz b))))
           | _ \<Rightarrow> None)
      | _ \<Rightarrow> None)"

definition truth_map_or :: "'a option \<Rightarrow> ('a \<Rightarrow> predicate_truth) \<Rightarrow> predicate_truth" where
  "truth_map_or x f = (case x of None \<Rightarrow> PUnknown | Some v \<Rightarrow> f v)"

definition compare_values :: "val \<Rightarrow> compare_op \<Rightarrow> val \<Rightarrow> predicate_truth" where
  "compare_values left op right =
     (case op of
        CmpEq \<Rightarrow> truth_from_bool (left = right)
      | CmpNe \<Rightarrow> truth_from_bool (left \<noteq> right)
      | CmpLt \<Rightarrow> truth_map_or (value_ordering left right) (\<lambda>o'. truth_from_bool (o' = Less))
      | CmpLe \<Rightarrow> truth_map_or (value_ordering left right) (\<lambda>o'. truth_from_bool (o' \<noteq> Greater))
      | CmpGt \<Rightarrow> truth_map_or (value_ordering left right) (\<lambda>o'. truth_from_bool (o' = Greater))
      | CmpGe \<Rightarrow> truth_map_or (value_ordering left right) (\<lambda>o'. truth_from_bool (o' \<noteq> Less)))"

fun quantity_scan ::
    "(fact \<Rightarrow> val option) \<Rightarrow> entity_kind \<Rightarrow> string \<Rightarrow> val \<Rightarrow> string option \<Rightarrow> entity_record list \<Rightarrow> u64 \<Rightarrow> u64 option"
where
  "quantity_scan fact_value' kind filter_field filter_value quantity_field [] subtotal = Some subtotal"
| "quantity_scan fact_value' kind filter_field filter_value quantity_field (r # rs) subtotal =
     (if entity_kind_str (er_kind r) \<noteq> entity_kind_str kind
      then quantity_scan fact_value' kind filter_field filter_value quantity_field rs subtotal
      else if er_id r = 0 then None
      else
        (case Option.bind (map_of (er_fields r) filter_field) fact_value' of
           None \<Rightarrow> None
         | Some selector \<Rightarrow>
             if selector \<noteq> filter_value
             then quantity_scan fact_value' kind filter_field filter_value quantity_field rs subtotal
             else
               (case (case quantity_field of
                        None \<Rightarrow> Some 1
                      | Some field \<Rightarrow>
                          (case Option.bind (map_of (er_fields r) field) fact_value' of
                             Some (VU64 quantity) \<Rightarrow> Some quantity
                           | _ \<Rightarrow> None)) of
                  None \<Rightarrow> None
                | Some quantity \<Rightarrow>
                    (case checked_add subtotal quantity of
                       None \<Rightarrow> None
                     | Some subtotal \<Rightarrow>
                         quantity_scan fact_value' kind filter_field filter_value quantity_field rs subtotal))))"

definition entity_quantity_total ::
    "world_snapshot \<Rightarrow> entity_kind \<Rightarrow> string \<Rightarrow> val \<Rightarrow> string option \<Rightarrow> (fact \<Rightarrow> val option) \<Rightarrow> u64 option" where
  "entity_quantity_total s kind filter_field filter_value quantity_field fact_value' =
     quantity_scan fact_value' kind filter_field filter_value quantity_field (map snd (wg_entities (ws_graph s))) 0"

definition entity_quantity_truth :: "world_snapshot \<Rightarrow> predicate \<Rightarrow> (fact \<Rightarrow> val option) \<Rightarrow> predicate_truth" where
  "entity_quantity_truth s p fact_value' =
     (case p of
        EntityQuantity kind field v quantity op n \<Rightarrow>
          truth_map_or (entity_quantity_total s kind field v quantity fact_value')
            (\<lambda>subtotal. compare_values (VU64 subtotal) op (VU64 n))
      | EntityQuantityIncrease kind field v quantity baseline increase anchor _ _ _ \<Rightarrow>
          (let current = snapshot_anchor s in
           if sa_fortress_id current \<noteq> sa_fortress_id anchor
              \<or> cur_epoch (sa_cursor current) \<noteq> cur_epoch (sa_cursor anchor)
              \<or> cur_sequence (sa_cursor current) < cur_sequence (sa_cursor anchor)
              \<or> sa_tick current < sa_tick anchor
              \<or> (sa_cursor current = sa_cursor anchor \<and> current \<noteq> anchor)
           then PUnknown
           else
             (case checked_add baseline increase of
                None \<Rightarrow> PUnknown
              | Some target \<Rightarrow>
                  truth_map_or (entity_quantity_total s kind field v quantity fact_value')
                    (\<lambda>subtotal. compare_values (VU64 subtotal) CmpGe (VU64 target))))
      | _ \<Rightarrow> PUnknown)"

definition target_entity :: "entity_id \<Rightarrow> entity_id option \<Rightarrow> entity_id" where
  "target_entity e candidate = (if e = 0 then (case candidate of None \<Rightarrow> 0 | Some c \<Rightarrow> c) else e)"

definition truth_or_unknown :: "predicate_truth res \<Rightarrow> predicate_truth" where
  "truth_or_unknown r = (case r of Ok t \<Rightarrow> t | Err _ \<Rightarrow> PUnknown)"

fun evaluate_truth :: "world_snapshot \<Rightarrow> entity_id option \<Rightarrow> predicate \<Rightarrow> predicate_truth"
  and evaluate_all :: "world_snapshot \<Rightarrow> entity_id option \<Rightarrow> predicate list \<Rightarrow> predicate_truth \<Rightarrow> predicate_truth"
  and evaluate_any :: "world_snapshot \<Rightarrow> entity_id option \<Rightarrow> predicate list \<Rightarrow> predicate_truth \<Rightarrow> predicate_truth"
where
  "evaluate_truth s c PrTrue = PTrue"
| "evaluate_truth s c PrFalse = PFalse"
| "evaluate_truth s c (EntityExists e) =
     truth_from_bool (bt_contains (target_entity e c) (wg_entities (ws_graph s)))"
| "evaluate_truth s c (EntityKindIs e kind) =
     truth_from_bool (case map_of (wg_entities (ws_graph s)) (target_entity e c) of
       None \<Rightarrow> False | Some r \<Rightarrow> er_kind r = kind)"
| "evaluate_truth s c (FieldCompare e field op v) =
     truth_map_or
       (Option.bind (Option.bind (map_of (wg_entities (ws_graph s)) (target_entity e c))
          (\<lambda>r. map_of (er_fields r) field)) known_value)
       (\<lambda>known. compare_values known op v)"
| "evaluate_truth s c (EdgeExists e kind) =
     truth_from_bool (case map_of (wg_edges (ws_graph s)) e of
       None \<Rightarrow> False
     | Some ed \<Rightarrow> (case kind of Some expected \<Rightarrow> ed_kind ed = expected | None \<Rightarrow> True))"
| "evaluate_truth s c (Paused expected) = truth_from_bool (ws_paused s = expected)"
| "evaluate_truth s c (RegionTerrain area code) =
     (case region_terrain_truth s area code of
        Matches \<Rightarrow> PTrue | Differs \<Rightarrow> PFalse | TruthUnknown \<Rightarrow> PUnknown)"
| "evaluate_truth s c (LaboratoryRoomAccess area entry targets) =
     truth_or_unknown (laboratory_room_access_truth s area entry targets)"
| "evaluate_truth s c (LaboratoryRoomAccessPairedStairs area entry targets) =
     truth_or_unknown (laboratory_room_access_paired_stairs_truth s area entry targets)"
| "evaluate_truth s c (LaboratoryCivilianReleaseSafety burrow civilians) =
     truth_or_unknown (laboratory_civilian_release_safety_truth s burrow civilians)"
| "evaluate_truth s c (EntityQuantity kind field v quantity op n) =
     entity_quantity_truth s (EntityQuantity kind field v quantity op n) known_value"
| "evaluate_truth s c (EntityQuantityIncrease kind field v quantity b i a d g cs) =
     entity_quantity_truth s (EntityQuantityIncrease kind field v quantity b i a d g cs) known_value"
| "evaluate_truth s c (PrAll ps) = evaluate_all s c ps PTrue"
| "evaluate_truth s c (PrAny ps) = evaluate_any s c ps PFalse"
| "evaluate_truth s c (PrNot p) = truth_not (evaluate_truth s c p)"
| "evaluate_all s c [] result = result"
| "evaluate_all s c (p # ps) result =
     (case evaluate_truth s c p of
        PFalse \<Rightarrow> PFalse
      | PUnknown \<Rightarrow> evaluate_all s c ps PUnknown
      | PTrue \<Rightarrow> evaluate_all s c ps result)"
| "evaluate_any s c [] result = result"
| "evaluate_any s c (p # ps) result =
     (case evaluate_truth s c p of
        PTrue \<Rightarrow> PTrue
      | PUnknown \<Rightarrow> evaluate_any s c ps PUnknown
      | PFalse \<Rightarrow> evaluate_any s c ps result)"

subsection \<open>What every evaluator owes\<close>

definition kleene_all :: "predicate_truth set \<Rightarrow> predicate_truth" where
  "kleene_all T = (if PFalse \<in> T then PFalse else if PUnknown \<in> T then PUnknown else PTrue)"

definition kleene_any :: "predicate_truth set \<Rightarrow> predicate_truth" where
  "kleene_any T = (if PTrue \<in> T then PTrue else if PUnknown \<in> T then PUnknown else PFalse)"

lemma kleene_simps [simp]:
  "kleene_all {} = PTrue" "kleene_any {} = PFalse" "kleene_all {t} = t" "kleene_any {t} = t"
  "kleene_all (insert PTrue T) = kleene_all T" "kleene_any (insert PFalse T) = kleene_any T"
  "kleene_all (insert PFalse T) = PFalse" "kleene_any (insert PTrue T) = PTrue"
  by (cases t; simp add: kleene_all_def kleene_any_def)+

lemma kleene_all_union: "kleene_all (insert (kleene_all A) B) = kleene_all (A \<union> B)"
  by (auto simp: kleene_all_def)

lemma kleene_any_union: "kleene_any (insert (kleene_any A) B) = kleene_any (A \<union> B)"
  by (auto simp: kleene_any_def)

definition kleene :: "bool \<Rightarrow> predicate_truth set \<Rightarrow> predicate_truth" where
  "kleene all T = (if all then kleene_all T else kleene_any T)"

lemma evaluate_all_kleene:
  "t \<noteq> PFalse \<Longrightarrow> evaluate_all s c ps t = kleene_all (insert t (evaluate_truth s c ` set ps))"
proof (induction ps arbitrary: t)
  case Nil
  then show ?case by (cases t) auto
next
  case (Cons p ps)
  then show ?case
    by (cases "evaluate_truth s c p"; cases t) (auto simp: kleene_all_def)
qed

lemma evaluate_any_kleene:
  "t \<noteq> PTrue \<Longrightarrow> evaluate_any s c ps t = kleene_any (insert t (evaluate_truth s c ` set ps))"
proof (induction ps arbitrary: t)
  case Nil
  then show ?case by (cases t) auto
next
  case (Cons p ps)
  then show ?case
    by (cases "evaluate_truth s c p"; cases t) (auto simp: kleene_any_def)
qed

locale predicate_evaluator =
  fixes eval :: "predicate \<Rightarrow> predicate_truth"
  assumes eval_true: "eval PrTrue = PTrue"
    and eval_false: "eval PrFalse = PFalse"
    and eval_not: "eval (PrNot p) = truth_not (eval p)"
    and eval_all: "eval (PrAll ps) = kleene_all (eval ` set ps)"
    and eval_any: "eval (PrAny ps) = kleene_any (eval ` set ps)"
    and eval_access: "mset ts = mset ts' \<Longrightarrow> eval (LaboratoryRoomAccess a e ts) = eval (LaboratoryRoomAccess a e ts')"
    and eval_paired: "mset ts = mset ts' \<Longrightarrow>
      eval (LaboratoryRoomAccessPairedStairs a e ts) = eval (LaboratoryRoomAccessPairedStairs a e ts')"
    and eval_release: "mset is = mset js \<Longrightarrow>
      eval (LaboratoryCivilianReleaseSafety b is) = eval (LaboratoryCivilianReleaseSafety b js)"
begin

lemma eval_finish: "eval (finish_variadic all ps) = kleene all (eval ` set ps)"
proof -
  define n where "n = remdups_adj (sort_key enc_predicate ps)"
  have ps: "set ps = set n" by (simp add: n_def)
  show ?thesis
    unfolding finish_variadic_def Let_def n_def [symmetric] ps
    by (simp add: kleene_def eval_true eval_false eval_all eval_any split: list.splits)
qed

lemma eval_normalize_step:
  assumes "eval (normalized p) = eval p"
    and "\<And>acc. eval (normalize_variadic all ps acc) = kleene all (eval ` set (acc @ ps))"
  shows "eval (normalize_variadic all (p # ps) acc) = kleene all (eval ` set (acc @ p # ps))"
proof -
  have p: "eval p = eval (normalized p)" by (simp add: assms)
  have flat: "kleene_all (insert (kleene_all A) B) = kleene_all (B \<union> A)"
    "kleene_any (insert (kleene_any A) B) = kleene_any (B \<union> A)" for A B
    by (simp_all add: kleene_all_union kleene_any_union Un_commute)
  show ?thesis
    using assms(2) p
    by (cases all; cases "normalized p")
      (simp_all add: kleene_def eval_true eval_false eval_all eval_any flat image_Un Un_ac)
qed

lemma eval_normalize_variadic:
  "\<forall>p \<in> set ps. eval (normalized p) = eval p \<Longrightarrow>
   eval (normalize_variadic all ps acc) = kleene all (eval ` set (acc @ ps))"
proof (induction ps arbitrary: acc)
  case Nil
  then show ?case by (simp add: eval_finish)
next
  case (Cons p ps)
  then show ?case by (intro eval_normalize_step) auto
qed

lemma eval_normalized: "eval (normalized p) = eval p"
proof (induction p)
  case (PrNot p)
  then have "eval p = eval (normalized p)" by simp
  then show ?case by (cases "normalized p") (simp_all add: eval_not eval_true eval_false)
next
  case (LaboratoryRoomAccess area entry targets)
  show ?case using eval_access [of "sort_key coord_key targets" targets] by simp
next
  case (LaboratoryRoomAccessPairedStairs area entry targets)
  show ?case using eval_paired [of "sort_key coord_key targets" targets] by simp
next
  case (LaboratoryCivilianReleaseSafety burrow civilians)
  show ?case using eval_release [of "sort civilians" civilians] by simp
qed (simp_all add: eval_normalize_variadic kleene_def eval_all eval_any)

end

lemma access_truth_mset:
  assumes "mset ts = mset ts'"
  shows "laboratory_room_access_truth s a e ts = laboratory_room_access_truth s a e ts'"
proof -
  have same: "set ts = set ts'" "length ts = length ts'" "distinct ts = distinct ts'" "ts = [] \<longleftrightarrow> ts' = []"
    using assms mset_eq_setD mset_eq_length mset_eq_imp_distinct_iff by (blast, blast, blast, force)
  then have request: "validate_access_request a e ts = validate_access_request a e ts'"
    unfolding validate_access_request_def list_ex_iff by (simp only:)
  have free: "room_free fs a ts = room_free fs a ts'" for fs
    by (intro ext) (simp add: room_free_def same)
  show ?thesis
  proof (cases "\<exists>tiles fs. validate_access_request a e ts' = Ok tiles \<and> laboratory_building_footprints s = Ok fs")
    case True
    then show ?thesis
      using request by (auto simp: room_access_exact free same)
  next
    case False
    then show ?thesis
      by (cases "validate_access_request a e ts'"; cases "laboratory_building_footprints s")
        (auto simp: laboratory_room_access_truth_def request)
  qed
qed

lemma paired_truth_mset:
  assumes "mset ts = mset ts'"
  shows "laboratory_room_access_paired_stairs_truth s a e ts = laboratory_room_access_paired_stairs_truth s a e ts'"
proof -
  have same: "set ts = set ts'" "length ts = length ts'" "distinct ts = distinct ts'" "ts = [] \<longleftrightarrow> ts' = []"
    using assms mset_eq_setD mset_eq_length mset_eq_imp_distinct_iff by (blast, blast, blast, force)
  then have request: "validate_paired_stairs_request a e ts = validate_paired_stairs_request a e ts'"
    unfolding validate_paired_stairs_request_def list_ex_iff by (simp only:)
  have free: "room_free fs a ts = room_free fs a ts'" for fs
    by (intro ext) (simp add: room_free_def same)
  show ?thesis
  proof (cases "\<exists>tiles fs. validate_paired_stairs_request a e ts' = Ok tiles \<and> laboratory_building_footprints s = Ok fs")
    case True
    then show ?thesis
      using request by (auto simp: paired_access_exact free same)
  next
    case False
    then show ?thesis
      by (cases "validate_paired_stairs_request a e ts'"; cases "laboratory_building_footprints s")
        (auto simp: laboratory_room_access_paired_stairs_truth_def request)
  qed
qed

lemma release_truth_mset:
  assumes "mset is = mset js"
  shows "laboratory_civilian_release_safety_truth s b is = laboratory_civilian_release_safety_truth s b js"
proof -
  have "length is = length js" "is = [] \<longleftrightarrow> js = []" "set is = set js" "sort is = sort js"
    using assms mset_eq_setD mset_eq_length properties_for_sort by (blast, force, blast, metis mset_sort sorted_sort)
  moreover have "distinct (map lei_id is) = distinct (map lei_id js)"
    using assms by (intro mset_eq_imp_distinct_iff) simp
  ultimately show ?thesis
    unfolding laboratory_civilian_release_safety_truth_def validate_civilian_request_def list_ex_iff by (simp only:)
qed

interpretation snapshot_truth: predicate_evaluator "evaluate_truth s c" for s c
proof
  fix ts ts' :: "map_coord list" and a e
  assume "mset ts = mset ts'"
  note perm = access_truth_mset [OF this] paired_truth_mset [OF this]
  show "evaluate_truth s c (LaboratoryRoomAccess a e ts) = evaluate_truth s c (LaboratoryRoomAccess a e ts')"
    by (simp add: perm(1) [of s a e])
  show "evaluate_truth s c (LaboratoryRoomAccessPairedStairs a e ts) =
      evaluate_truth s c (LaboratoryRoomAccessPairedStairs a e ts')"
    by (simp add: perm(2) [of s a e])
next
  fix "is" js :: "laboratory_entity_identity list" and b
  assume "mset is = mset js"
  then show "evaluate_truth s c (LaboratoryCivilianReleaseSafety b is) =
      evaluate_truth s c (LaboratoryCivilianReleaseSafety b js)"
    by (simp add: release_truth_mset [of "is" js s b])
qed (simp_all add: evaluate_all_kleene evaluate_any_kleene)

text \<open>
  C30: Normalization preserves meaning. The normal form of a predicate, with constants folded,
  nested conjunctions and disjunctions flattened, operands sorted by their bytes and deduplicated,
  double negations removed and request lists sorted, has the truth value of the predicate in every
  snapshot and for every candidate.
\<close>
theorem normalization_preserves_truth: "evaluate_truth s c (normalized p) = evaluate_truth s c p"
  by (rule snapshot_truth.eval_normalized)

subsection \<open>Normal forms\<close>

definition operand :: "bool \<Rightarrow> predicate \<Rightarrow> bool" where
  "operand all p \<longleftrightarrow>
     p \<noteq> PrTrue \<and> p \<noteq> PrFalse \<and> (\<forall>ps. p \<noteq> (if all then PrAll ps else PrAny ps))"

definition operands_ordered :: "predicate list \<Rightarrow> bool" where
  "operands_ordered ps \<longleftrightarrow> 2 \<le> length ps \<and> sorted (map enc_predicate ps) \<and> remdups_adj ps = ps"

fun normal_form :: "predicate \<Rightarrow> bool" where
  "normal_form (PrAll ps) \<longleftrightarrow> operands_ordered ps \<and> (\<forall>p \<in> set ps. operand True p) \<and> (\<forall>p \<in> set ps. normal_form p)"
| "normal_form (PrAny ps) \<longleftrightarrow> operands_ordered ps \<and> (\<forall>p \<in> set ps. operand False p) \<and> (\<forall>p \<in> set ps. normal_form p)"
| "normal_form (PrNot p) \<longleftrightarrow> p \<noteq> PrTrue \<and> p \<noteq> PrFalse \<and> (\<forall>q. p \<noteq> PrNot q) \<and> normal_form p"
| "normal_form (LaboratoryRoomAccess area entry targets) \<longleftrightarrow> sorted (map coord_key targets)"
| "normal_form (LaboratoryRoomAccessPairedStairs area entry targets) \<longleftrightarrow> sorted (map coord_key targets)"
| "normal_form (LaboratoryCivilianReleaseSafety burrow civilians) \<longleftrightarrow> sorted civilians"
| "normal_form p \<longleftrightarrow> True"

lemma sorted_map_remdups_adj: "sorted (map f xs) \<Longrightarrow> sorted (map f (remdups_adj xs))"
  by (induction xs rule: remdups_adj.induct) auto

lemma remdups_adj_twice: "remdups_adj (remdups_adj xs) = remdups_adj xs"
  using distinct_adj_altdef distinct_adj_remdups_adj by blast

lemma finish_normal:
  assumes "\<forall>p \<in> set ps. operand all p \<and> normal_form p"
  shows "normal_form (finish_variadic all ps)"
proof -
  define n where "n = remdups_adj (sort_key enc_predicate ps)"
  have n: "\<forall>p \<in> set n. operand all p \<and> normal_form p" "sorted (map enc_predicate n)" "remdups_adj n = n"
    using assms by (simp_all add: n_def sorted_map_remdups_adj remdups_adj_twice)
  show ?thesis
  proof (cases "2 \<le> length n")
    case True
    then have "finish_variadic all ps = (if all then PrAll n else PrAny n)"
      by (auto simp: finish_variadic_def Let_def n_def [symmetric] split: list.splits)
    then show ?thesis using n True by (auto simp: operands_ordered_def)
  next
    case False
    then have "n = [] \<or> (\<exists>p. n = [p])" by (cases n rule: remdups_adj.cases) auto
    then show ?thesis using n by (auto simp: finish_variadic_def Let_def n_def [symmetric])
  qed
qed

definition absorbed :: "bool \<Rightarrow> predicate \<Rightarrow> predicate list" where
  "absorbed all q =
     (case q of
        PrTrue \<Rightarrow> [] | PrFalse \<Rightarrow> []
      | PrAll children \<Rightarrow> if all then children else [q]
      | PrAny children \<Rightarrow> if all then [q] else children
      | _ \<Rightarrow> [q])"

lemma normalize_step:
  "normalize_variadic all (p # ps) acc =
     (if normalized p = (if all then PrFalse else PrTrue) then normalized p
      else normalize_variadic all ps (acc @ absorbed all (normalized p)))"
  by (cases all; cases "normalized p") (simp_all add: absorbed_def)

lemma absorbed_operands: "normal_form q \<Longrightarrow> \<forall>x \<in> set (absorbed all q). operand all x \<and> normal_form x"
  by (cases all; cases q) (simp_all add: absorbed_def operand_def)

lemma absorbed_operand: "operand all p \<Longrightarrow> absorbed all p = [p]"
  by (cases all; cases p) (simp_all add: absorbed_def operand_def)

lemma normalize_variadic_normal:
  "\<forall>p \<in> set ps. normal_form (normalized p) \<Longrightarrow> \<forall>p \<in> set acc. operand all p \<and> normal_form p \<Longrightarrow>
   normal_form (normalize_variadic all ps acc)"
proof (induction ps arbitrary: acc)
  case Nil
  then show ?case by (simp add: finish_normal)
next
  case (Cons p ps)
  then have "\<forall>x \<in> set (acc @ absorbed all (normalized p)). operand all x \<and> normal_form x"
    using absorbed_operands [of "normalized p" all] by auto
  with Cons show ?case unfolding normalize_step by simp
qed

lemma normalized_normal: "normal_form (normalized p)"
proof (induction p)
  case (PrNot p)
  then show ?case by (cases "normalized p") simp_all
next
  case (LaboratoryCivilianReleaseSafety burrow civilians)
  then show ?case by simp
qed (simp_all add: normalize_variadic_normal)

lemma normalize_variadic_operands:
  "\<forall>p \<in> set ps. normalized p = p \<and> operand all p \<Longrightarrow> normalize_variadic all ps acc = finish_variadic all (acc @ ps)"
proof (induction ps arbitrary: acc)
  case (Cons p ps)
  then have "normalized p = p" "operand all p" by simp_all
  then have "normalize_variadic all (p # ps) acc = normalize_variadic all ps (acc @ [p])"
    unfolding normalize_step by (simp add: absorbed_operand) (simp add: operand_def)
  then show ?case using Cons by simp
qed simp

lemma finish_ordered:
  "operands_ordered ps \<Longrightarrow> finish_variadic all ps = (if all then PrAll ps else PrAny ps)"
  by (auto simp: finish_variadic_def Let_def operands_ordered_def sort_key_id_if_sorted split: list.splits)

lemma normal_normalized: "normal_form p \<Longrightarrow> normalized p = p"
proof (induction p)
  case (PrNot p)
  then show ?case by (cases p) simp_all
qed (simp_all add: normalize_variadic_operands finish_ordered sort_key_id_if_sorted)

text \<open>
  Normal forms are stable. A predicate is its own normal form exactly when it is one of the
  canonical trees: every conjunction and disjunction has at least two distinct neighbouring
  operands in byte order, none of them a constant or of the same connective, no negation is applied
  to a constant or a negation, and request lists are sorted. In particular normalizing twice changes
  nothing.
\<close>
theorem normalized_iff_normal_form:
  "(normalized p = p \<longleftrightarrow> normal_form p) \<and> normalized (normalized p) = normalized p"
  using normalized_normal [of p] normal_normalized normal_normalized [OF normalized_normal] by (metis (lifting))

end
