(* ===== verification/Predicate_Shape.thy ===== *)
theory Predicate_Shape
  imports Predicates
begin

text \<open>
  \<^verbatim>\<open>crates/dfmcp-world/src/query.rs\<close>, the bounds of predicates and of the values in them. Both
  validators walk an explicit work list and keep running totals; they accept exactly the trees
  whose recursive measures (nodes, depth, bytes, tiles, work) are within the limits, so a tree that
  passes can be evaluated, normalized and encoded recursively.
\<close>

definition max_query_predicate_depth :: nat where
  "max_query_predicate_depth = 64"

definition max_query_predicate_nodes :: nat where
  "max_query_predicate_nodes = 4096"

definition max_query_field_bytes :: nat where
  "max_query_field_bytes = 256"

definition max_query_kind_bytes :: nat where
  "max_query_kind_bytes = 128"

definition max_query_value_depth :: nat where
  "max_query_value_depth = 64"

definition max_query_value_nodes :: nat where
  "max_query_value_nodes = 4096"

definition max_query_value_bytes :: nat where
  "max_query_value_bytes = 65536"

definition max_predicate_region_tiles :: u64 where
  "max_predicate_region_tiles = 262144"

subsection \<open>Values\<close>

fun value_nodes :: "val \<Rightarrow> nat" where
  "value_nodes (VList vs) = Suc (sum_list (map value_nodes vs))"
| "value_nodes (VObject es) = Suc (sum_list (map (\<lambda>e. value_nodes (snd e)) es))"
| "value_nodes _ = 1"

definition add_query_value_bytes :: "nat \<Rightarrow> nat \<Rightarrow> nat res" where
  "add_query_value_bytes subtotal additional =
     (if subtotal + additional > max_query_value_bytes then fail BudgetExceeded else Ok (subtotal + additional))"

fun add_key_bytes :: "nat \<Rightarrow> (string \<times> val) list \<Rightarrow> nat res" where
  "add_key_bytes bytes [] = Ok bytes"
| "add_key_bytes bytes ((key, _) # es) =
     and_then (add_query_value_bytes bytes (length key)) (\<lambda>bytes. add_key_bytes bytes es)"

function value_loop :: "(val \<times> nat) list \<Rightarrow> nat \<Rightarrow> nat \<Rightarrow> unit res" where
  "value_loop [] nodes bytes = Ok ()"
| "value_loop ((v, depth) # pending) nodes bytes =
     (if depth > max_query_value_depth \<or> Suc nodes > max_query_value_nodes then fail BudgetExceeded
      else
        (case v of
           VText t \<Rightarrow>
             and_then (add_query_value_bytes bytes (length t)) (\<lambda>bytes. value_loop pending (Suc nodes) bytes)
         | VBytes bs \<Rightarrow>
             and_then (add_query_value_bytes bytes (length bs)) (\<lambda>bytes. value_loop pending (Suc nodes) bytes)
         | VList vs \<Rightarrow>
             if length vs > max_query_value_nodes - Suc nodes then fail BudgetExceeded
             else value_loop (rev (map (\<lambda>v. (v, Suc depth)) vs) @ pending) (Suc nodes) bytes
         | VObject es \<Rightarrow>
             if length es > max_query_value_nodes - Suc nodes then fail BudgetExceeded
             else and_then (add_key_bytes bytes es) (\<lambda>bytes.
               value_loop (rev (map (\<lambda>e. (snd e, Suc depth)) es) @ pending) (Suc nodes) bytes)
         | _ \<Rightarrow> value_loop pending (Suc nodes) bytes))"
  by pat_completeness auto
termination
  by (relation "measure (\<lambda>(ps, _). sum_list (map (\<lambda>p. value_nodes (fst p)) ps))")
    (auto simp: rev_map [symmetric] comp_def intro: value_nodes.elims)

definition validate_query_value :: "val \<Rightarrow> unit res" where
  "validate_query_value root = value_loop [(root, 1)] 0 0"

fun value_depth :: "val \<Rightarrow> nat" where
  "value_depth (VList vs) = Suc (foldr max (map value_depth vs) 0)"
| "value_depth (VObject es) = Suc (foldr max (map (\<lambda>e. value_depth (snd e)) es) 0)"
| "value_depth _ = 1"

fun value_bytes :: "val \<Rightarrow> nat" where
  "value_bytes (VText t) = length t"
| "value_bytes (VBytes bs) = length bs"
| "value_bytes (VList vs) = sum_list (map value_bytes vs)"
| "value_bytes (VObject es) = sum_list (map (\<lambda>e. length (fst e) + value_bytes (snd e)) es)"
| "value_bytes _ = 0"

lemma deep_iff: "d + Suc (foldr max xs 0) \<le> n \<longleftrightarrow> d < n \<and> (\<forall>x \<in> set xs. Suc d + x \<le> (n :: nat))"
  by (induction xs) (auto simp: max_def)

lemma length_le_sum_list: "\<forall>x \<in> set xs. Suc 0 \<le> f x \<Longrightarrow> length xs \<le> (\<Sum>x\<leftarrow>xs. f x :: nat)"
  by (induction xs) (auto simp: add_mono)

lemma value_nodes_pos: "Suc 0 \<le> value_nodes v" "Suc 0 \<le> value_depth v"
  by (cases v; simp)+

lemma add_key_bytes_sum:
  "bytes \<le> max_query_value_bytes \<Longrightarrow>
   add_key_bytes bytes es =
     (let b = bytes + (\<Sum>e\<leftarrow>es. length (fst e))
      in if b > max_query_value_bytes then fail BudgetExceeded else Ok b)"
proof (induction bytes es rule: add_key_bytes.induct)
  case (2 bytes key v es)
  then show ?case
    by (cases "bytes + length key \<le> max_query_value_bytes") (auto simp: add_query_value_bytes_def Let_def)
qed auto

definition values_fit :: "(val \<times> nat) list \<Rightarrow> nat \<Rightarrow> nat \<Rightarrow> bool" where
  "values_fit pending nodes bytes \<longleftrightarrow>
     (\<forall>p \<in> set pending. snd p + value_depth (fst p) \<le> Suc max_query_value_depth) \<and>
     nodes + (\<Sum>p\<leftarrow>pending. value_nodes (fst p)) \<le> max_query_value_nodes \<and>
     bytes + (\<Sum>p\<leftarrow>pending. value_bytes (fst p)) \<le> max_query_value_bytes"

lemma sum_list_rev_map: "(\<Sum>x\<leftarrow>rev xs. f x) = (\<Sum>x\<leftarrow>xs. f x :: nat)"
  by (simp add: rev_map [symmetric])

lemma values_fit_step:
  "values_fit ((VText t, d) # ps) n b \<longleftrightarrow>
     d \<le> max_query_value_depth \<and> values_fit ps (Suc n) (b + length t)"
  "values_fit ((VBytes bs, d) # ps) n b \<longleftrightarrow>
     d \<le> max_query_value_depth \<and> values_fit ps (Suc n) (b + length bs)"
  "values_fit ((VList vs, d) # ps) n b \<longleftrightarrow>
     d \<le> max_query_value_depth \<and> values_fit (rev (map (\<lambda>v. (v, Suc d)) vs) @ ps) (Suc n) b"
  "values_fit ((VObject es, d) # ps) n b \<longleftrightarrow>
     d \<le> max_query_value_depth \<and>
     values_fit (rev (map (\<lambda>e. (snd e, Suc d)) es) @ ps) (Suc n) (b + (\<Sum>e\<leftarrow>es. length (fst e)))"
  by (auto simp: values_fit_def ball_Un deep_iff sum_list_rev_map comp_def sum_list_addf rev_map [symmetric] simp del: add_Suc add_Suc_right)

lemma values_fit_bounds:
  "values_fit ((v, d) # ps) n b \<Longrightarrow> d \<le> max_query_value_depth \<and> Suc n \<le> max_query_value_nodes \<and> b \<le> max_query_value_bytes"
  using value_nodes_pos [of v] by (auto simp: values_fit_def)

lemma values_fit_leaf:
  "value_nodes v = 1 \<Longrightarrow> value_depth v = 1 \<Longrightarrow> value_bytes v = 0 \<Longrightarrow>
   values_fit ((v, d) # ps) n b \<longleftrightarrow> d \<le> max_query_value_depth \<and> values_fit ps (Suc n) b"
  by (auto simp: values_fit_def)

lemma values_fit_children:
  "values_fit ((VText t, d) # ps) n b \<Longrightarrow> b + length t \<le> max_query_value_bytes"
  "values_fit ((VBytes bs, d) # ps) n b \<Longrightarrow> b + length bs \<le> max_query_value_bytes"
  "values_fit ((VList vs, d) # ps) n b \<Longrightarrow> length vs \<le> max_query_value_nodes - Suc n"
  "values_fit ((VObject es, d) # ps) n b \<Longrightarrow>
     length es \<le> max_query_value_nodes - Suc n \<and> b + (\<Sum>e\<leftarrow>es. length (fst e)) \<le> max_query_value_bytes"
  using length_le_sum_list [of vs value_nodes] length_le_sum_list [of es "\<lambda>e. value_nodes (snd e)"]
  by (auto simp: values_fit_def sum_list_addf value_nodes_pos)

lemma value_loop_Ok:
  "nodes \<le> max_query_value_nodes \<Longrightarrow> bytes \<le> max_query_value_bytes \<Longrightarrow>
   value_loop pending nodes bytes = Ok () \<longleftrightarrow> values_fit pending nodes bytes"
proof (induction pending nodes bytes rule: value_loop.induct)
  case (1 nodes bytes)
  then show ?case by (simp add: values_fit_def)
next
  case (2 v depth pending nodes bytes)
  show ?case
  proof (cases "depth > max_query_value_depth \<or> Suc nodes > max_query_value_nodes")
    case True
    then have "\<not> values_fit ((v, depth) # pending) nodes bytes" using values_fit_bounds by fastforce
    with True show ?thesis by simp
  next
    case False
    note go = this
    show ?thesis
    proof (cases v)
      case (VText t)
      then show ?thesis
        using go 2(6) [OF go VText, of "bytes + length t"] values_fit_children(1) [of t depth pending nodes bytes]
        by (auto simp: add_query_value_bytes_def values_fit_step(1))
    next
      case (VBytes bs)
      then show ?thesis
        using go 2(9) [OF go VBytes, of "bytes + length bs"] values_fit_children(2) [of bs depth pending nodes bytes]
        by (auto simp: add_query_value_bytes_def values_fit_step(2))
    next
      case (VList vs)
      then show ?thesis
        using go 2(10) [OF go VList] 2(13) values_fit_children(3) [of vs depth pending nodes bytes]
        by (auto simp: values_fit_step(3))
    next
      case (VObject es)
      then show ?thesis
        using go 2(11) [OF go VObject, of "bytes + (\<Sum>e\<leftarrow>es. length (fst e))"] 2(13)
          values_fit_children(4) [of es depth pending nodes bytes]
        by (auto simp: values_fit_step(4) add_key_bytes_sum Let_def)
    qed (use go 2 in \<open>simp_all add: values_fit_leaf\<close>)
  qed
qed

lemma validate_query_value_Ok:
  "validate_query_value v = Ok () \<longleftrightarrow>
     value_depth v \<le> max_query_value_depth \<and> value_nodes v \<le> max_query_value_nodes \<and>
     value_bytes v \<le> max_query_value_bytes"
  unfolding validate_query_value_def by (subst value_loop_Ok) (auto simp: values_fit_def)

subsection \<open>Predicates\<close>

text \<open>Control characters of a UTF-8 text: the one-byte ones, and U+0080 to U+009F as two bytes.\<close>

fun c1_control :: "nat list \<Rightarrow> bool" where
  "c1_control (a # b # rest) \<longleftrightarrow> a = 0xC2 \<and> 0x80 \<le> b \<and> b < 0xA0 \<or> c1_control (b # rest)"
| "c1_control _ \<longleftrightarrow> False"

definition has_control :: "string \<Rightarrow> bool" where
  "has_control t \<longleftrightarrow>
     (let codes = map of_char t in list_ex (\<lambda>b. b < 0x20 \<or> b = 0x7F) codes \<or> c1_control codes)"

fun validate_quantity_names :: "(string \<times> nat) list \<Rightarrow> unit res" where
  "validate_quantity_names [] = Ok ()"
| "validate_quantity_names ((name, bound) # names) =
     (if length name > bound then fail BudgetExceeded
      else if name = [] \<or> has_control name then fail InvalidRequest
      else validate_quantity_names names)"

definition validate_entity_quantity_fields ::
    "entity_kind \<Rightarrow> string \<Rightarrow> val \<Rightarrow> string option \<Rightarrow> unit res" where
  "validate_entity_quantity_fields kind filter_field filter_value quantity_field =
     and_then
       (validate_quantity_names
         ([(entity_kind_str kind, max_query_kind_bytes), (filter_field, max_query_field_bytes)] @
          (case quantity_field of None \<Rightarrow> [] | Some field \<Rightarrow> [(field, max_query_field_bytes)])))
       (\<lambda>_. validate_query_value filter_value)"

definition validate_entity_quantity_scan :: "nat \<Rightarrow> unit res" where
  "validate_entity_quantity_scan entities =
     (if saturating_mul (word_of_nat entities) 3 > max_predicate_quantity_work then fail BudgetExceeded else Ok ())"

record shape_work =
  sw_region_tiles :: u64
  sw_access_work :: u64
  sw_civilian_work :: u64

definition add_access_work :: "map_cuboid \<Rightarrow> map_coord list \<Rightarrow> shape_work \<Rightarrow> shape_work res" where
  "add_access_work area targets w =
     (let work = saturating_add (sw_access_work w)
        (access_work_bound area (length targets) max_laboratory_access_entities)
      in if work > max_predicate_laboratory_access_work then fail BudgetExceeded
         else Ok (w\<lparr>sw_access_work := work\<rparr>))"

definition shape_leaf :: "predicate \<Rightarrow> shape_work \<Rightarrow> shape_work res" where
  "shape_leaf p w =
     (case p of
        FieldCompare _ field _ v \<Rightarrow>
          if length field > max_query_field_bytes then fail BudgetExceeded
          else and_then (validate_query_value v) (\<lambda>_. Ok w)
      | EntityQuantity kind field v quantity _ _ \<Rightarrow>
          and_then (validate_entity_quantity_fields kind field v quantity) (\<lambda>_. Ok w)
      | EntityQuantityIncrease kind field v quantity baseline increase anchor digest generation _ \<Rightarrow>
          and_then (validate_entity_quantity_fields kind field v quantity) (\<lambda>_.
            if increase = 0 \<or> checked_add baseline increase = None \<or> sa_fortress_id anchor = 0
               \<or> sa_state_hash anchor = digest_zero \<or> digest = digest_zero \<or> generation = 0
            then fail InvalidRequest else Ok w)
      | RegionTerrain area _ \<Rightarrow>
          and_then (validate_region area) (\<lambda>tiles.
            let region_tiles = saturating_add (sw_region_tiles w) tiles
            in if region_tiles > max_predicate_region_tiles then fail BudgetExceeded
               else Ok (w\<lparr>sw_region_tiles := region_tiles\<rparr>))
      | LaboratoryRoomAccess area entry targets \<Rightarrow>
          and_then (validate_access_request area entry targets) (\<lambda>_. add_access_work area targets w)
      | LaboratoryRoomAccessPairedStairs area entry targets \<Rightarrow>
          and_then (validate_paired_stairs_request area entry targets) (\<lambda>_. add_access_work area targets w)
      | LaboratoryCivilianReleaseSafety burrow civilians \<Rightarrow>
          and_then (validate_civilian_request burrow civilians) (\<lambda>_.
            let work = saturating_add (sw_civilian_work w) (civilian_work_bound max_laboratory_civilian_entities)
            in if work > max_predicate_laboratory_civilian_work then fail BudgetExceeded
               else Ok (w\<lparr>sw_civilian_work := work\<rparr>))
      | _ \<Rightarrow> Ok w)"

function shape_loop :: "(predicate \<times> nat) list \<Rightarrow> nat \<Rightarrow> shape_work \<Rightarrow> unit res" where
  "shape_loop [] nodes w = Ok ()"
| "shape_loop ((p, depth) # pending) nodes w =
     (if depth > max_query_predicate_depth \<or> Suc nodes > max_query_predicate_nodes then fail BudgetExceeded
      else
        (case p of
           PrAll children \<Rightarrow>
             if length children > max_query_predicate_nodes - Suc nodes then fail BudgetExceeded
             else shape_loop (rev (map (\<lambda>c. (c, Suc depth)) children) @ pending) (Suc nodes) w
         | PrAny children \<Rightarrow>
             if length children > max_query_predicate_nodes - Suc nodes then fail BudgetExceeded
             else shape_loop (rev (map (\<lambda>c. (c, Suc depth)) children) @ pending) (Suc nodes) w
         | PrNot child \<Rightarrow> shape_loop ((child, Suc depth) # pending) (Suc nodes) w
         | _ \<Rightarrow> and_then (shape_leaf p w) (\<lambda>w. shape_loop pending (Suc nodes) w)))"
  by pat_completeness auto
termination
  by (relation "measure (\<lambda>(ps, _). sum_list (map (\<lambda>p. pred_complexity (fst p)) ps))")
    (auto simp: rev_map [symmetric] comp_def)

definition no_work :: shape_work where
  "no_work = \<lparr>sw_region_tiles = 0, sw_access_work = 0, sw_civilian_work = 0\<rparr>"

definition validate_predicate_shape :: "predicate \<Rightarrow> unit res" where
  "validate_predicate_shape root = shape_loop [(root, 1)] 0 no_work"

definition evaluate :: "world_snapshot \<Rightarrow> predicate \<Rightarrow> bool" where
  "evaluate s p \<longleftrightarrow>
     is_ok (validate_predicate_shape p) \<and>
     is_ok (validate_quantity_work p (length (wg_entities (ws_graph s)))) \<and>
     truth_is_true (evaluate_truth s None p)"

definition evaluate_truth_for :: "world_snapshot \<Rightarrow> entity_id \<Rightarrow> predicate \<Rightarrow> predicate_truth" where
  "evaluate_truth_for s candidate p =
     (if \<not> is_ok (validate_predicate_shape p) \<or>
         \<not> is_ok (validate_quantity_work p (length (wg_entities (ws_graph s))))
      then PUnknown else evaluate_truth s (Some candidate) p)"

definition evaluate_for :: "world_snapshot \<Rightarrow> entity_id \<Rightarrow> predicate \<Rightarrow> bool" where
  "evaluate_for s candidate p \<longleftrightarrow> truth_is_true (evaluate_truth_for s candidate p)"

subsection \<open>What the shape validator accepts\<close>

text \<open>The leaves of a tree in the order of the walk, and the load of one leaf on the three budgets.\<close>

fun leaves :: "predicate \<Rightarrow> predicate list" where
  "leaves (PrAll ps) = concat (map leaves (rev ps))"
| "leaves (PrAny ps) = concat (map leaves (rev ps))"
| "leaves (PrNot p) = leaves p"
| "leaves p = [p]"

definition leaf_load :: "predicate \<Rightarrow> shape_work" where
  "leaf_load l = (case shape_leaf l no_work of Ok w \<Rightarrow> w | Err _ \<Rightarrow> no_work)"

definition within_limits :: "nat \<Rightarrow> nat \<Rightarrow> nat \<Rightarrow> bool" where
  "within_limits tiles access civilian \<longleftrightarrow>
     tiles \<le> unat max_predicate_region_tiles \<and> access \<le> unat max_predicate_laboratory_access_work \<and>
     civilian \<le> unat max_predicate_laboratory_civilian_work"

definition loads_fit :: "shape_work \<Rightarrow> predicate list \<Rightarrow> bool" where
  "loads_fit w ls \<longleftrightarrow>
     (\<forall>l \<in> set ls. is_ok (shape_leaf l no_work)) \<and>
     within_limits
       (unat (sw_region_tiles w) + (\<Sum>l\<leftarrow>ls. unat (sw_region_tiles (leaf_load l))))
       (unat (sw_access_work w) + (\<Sum>l\<leftarrow>ls. unat (sw_access_work (leaf_load l))))
       (unat (sw_civilian_work w) + (\<Sum>l\<leftarrow>ls. unat (sw_civilian_work (leaf_load l))))"

lemma saturating_add_exceeds:
  fixes a b limit :: "'a::len word"
  assumes "unat limit < 2 ^ LENGTH('a) - 1"
  shows "saturating_add a b > limit \<longleftrightarrow> unat a + unat b > unat limit"
    and "unat a + unat b \<le> unat limit \<Longrightarrow> unat (saturating_add a b) = unat a + unat b"
  using assms by (auto simp: word_less_nat_alt unat_saturating_add)

lemma limits_small:
  "unat max_predicate_region_tiles < 2 ^ LENGTH(64) - 1"
  "unat max_predicate_laboratory_access_work < 2 ^ LENGTH(64) - 1"
  "unat max_predicate_laboratory_civilian_work < 2 ^ LENGTH(64) - 1"
  by (simp_all add: max_predicate_region_tiles_def max_predicate_laboratory_access_work_def
      max_predicate_laboratory_civilian_work_def max_laboratory_access_entities_def
      max_laboratory_civilian_entities_def max_laboratory_access_tiles_def max_laboratory_access_targets_def)

lemmas saturating_limits = limits_small [THEN saturating_add_exceeds(1)] limits_small [THEN saturating_add_exceeds(2)]

lemma loads_fit_bounds:
  "loads_fit w ls \<Longrightarrow>
     within_limits (unat (sw_region_tiles w)) (unat (sw_access_work w)) (unat (sw_civilian_work w))"
  by (auto simp: loads_fit_def within_limits_def)

text \<open>One leaf from a running total behaves as the leaf alone, plus the total.\<close>

lemma shape_leaf_sound:
  assumes "shape_leaf l w = Ok w'"
    and "within_limits (unat (sw_region_tiles w)) (unat (sw_access_work w)) (unat (sw_civilian_work w))"
  shows "is_ok (shape_leaf l no_work) \<and>
     unat (sw_region_tiles w') = unat (sw_region_tiles w) + unat (sw_region_tiles (leaf_load l)) \<and>
     unat (sw_access_work w') = unat (sw_access_work w) + unat (sw_access_work (leaf_load l)) \<and>
     unat (sw_civilian_work w') = unat (sw_civilian_work w) + unat (sw_civilian_work (leaf_load l)) \<and>
     within_limits (unat (sw_region_tiles w')) (unat (sw_access_work w')) (unat (sw_civilian_work w'))"
  using assms
  by (cases l)
    (auto simp: shape_leaf_def leaf_load_def no_work_def within_limits_def add_access_work_def Let_def
      saturating_limits not_less split: if_splits)

lemma shape_leaf_complete:
  assumes "is_ok (shape_leaf l no_work)"
    and "within_limits (unat (sw_region_tiles w) + unat (sw_region_tiles (leaf_load l)))
      (unat (sw_access_work w) + unat (sw_access_work (leaf_load l)))
      (unat (sw_civilian_work w) + unat (sw_civilian_work (leaf_load l)))"
  shows "\<exists>w'. shape_leaf l w = Ok w'"
  using assms
  by (cases l)
    (auto simp: shape_leaf_def leaf_load_def no_work_def within_limits_def add_access_work_def Let_def
      saturating_limits not_less is_ok_iff split: if_splits, blast)

lemma loads_fit_Cons:
  assumes "within_limits (unat (sw_region_tiles w)) (unat (sw_access_work w)) (unat (sw_civilian_work w))"
  shows "loads_fit w (l # ls) \<longleftrightarrow> (\<exists>w'. shape_leaf l w = Ok w' \<and> loads_fit w' ls)"
proof
  assume fit: "loads_fit w (l # ls)"
  then obtain w' where w': "shape_leaf l w = Ok w'"
    using shape_leaf_complete [of l w] by (auto simp: loads_fit_def within_limits_def)
  then show "\<exists>w'. shape_leaf l w = Ok w' \<and> loads_fit w' ls"
    using shape_leaf_sound [OF w' assms] fit by (auto simp: loads_fit_def add.assoc)
next
  assume "\<exists>w'. shape_leaf l w = Ok w' \<and> loads_fit w' ls"
  then obtain w' where w': "shape_leaf l w = Ok w'" "loads_fit w' ls" by blast
  then show "loads_fit w (l # ls)"
    using shape_leaf_sound [OF w'(1) assms] by (auto simp: loads_fit_def add.assoc)
qed

definition shapes_fit :: "(predicate \<times> nat) list \<Rightarrow> nat \<Rightarrow> shape_work \<Rightarrow> bool" where
  "shapes_fit pending nodes w \<longleftrightarrow>
     (\<forall>p \<in> set pending. snd p + pred_depth (fst p) \<le> Suc max_query_predicate_depth) \<and>
     nodes + (\<Sum>p\<leftarrow>pending. pred_complexity (fst p)) \<le> max_query_predicate_nodes \<and>
     loads_fit w (concat (map (\<lambda>p. leaves (fst p)) pending))"

lemma preds_depth_foldr: "preds_depth ps d = max d (foldr max (map pred_depth ps) 0)"
  by (induction ps arbitrary: d) (auto simp: max.assoc max.commute max.left_commute)

lemma deep_le: "d + foldr max xs 0 \<le> n \<longleftrightarrow> d \<le> n \<and> (\<forall>x \<in> set xs. d + x \<le> (n :: nat))"
  by (induction xs) (auto simp: max_def)

lemma pred_depth_pos: "Suc 0 \<le> pred_depth p"
  by (cases p) auto

lemma shapes_fit_step:
  "shapes_fit ((PrAll ps, d) # pending) n w \<longleftrightarrow>
     d \<le> max_query_predicate_depth \<and> shapes_fit (rev (map (\<lambda>c. (c, Suc d)) ps) @ pending) (Suc n) w"
  "shapes_fit ((PrAny ps, d) # pending) n w \<longleftrightarrow>
     d \<le> max_query_predicate_depth \<and> shapes_fit (rev (map (\<lambda>c. (c, Suc d)) ps) @ pending) (Suc n) w"
  "shapes_fit ((PrNot p, d) # pending) n w \<longleftrightarrow>
     d \<le> max_query_predicate_depth \<and> shapes_fit ((p, Suc d) # pending) (Suc n) w"
  using pred_depth_pos [of p]
  by (auto simp: shapes_fit_def ball_Un deep_le preds_depth_foldr sum_list_rev_map comp_def rev_map [symmetric])

lemma shapes_fit_bounds:
  "shapes_fit ((p, d) # pending) n w \<Longrightarrow> d \<le> max_query_predicate_depth \<and> Suc n \<le> max_query_predicate_nodes"
  using pred_depth_pos [of p] pred_complexity_pos [of p] by (auto simp: shapes_fit_def simp del: pred_complexity_pos)

lemma shapes_fit_children:
  "shapes_fit ((PrAll ps, d) # pending) n w \<Longrightarrow> length ps \<le> max_query_predicate_nodes - Suc n"
  "shapes_fit ((PrAny ps, d) # pending) n w \<Longrightarrow> length ps \<le> max_query_predicate_nodes - Suc n"
  using length_le_sum_list [of ps pred_complexity] by (auto simp: shapes_fit_def Suc_le_eq)

lemma shapes_fit_leaf:
  assumes "leaves p = [p]" "pred_depth p = 1" "pred_complexity p = 1"
    and "within_limits (unat (sw_region_tiles w)) (unat (sw_access_work w)) (unat (sw_civilian_work w))"
  shows "shapes_fit ((p, d) # pending) n w \<longleftrightarrow>
    d \<le> max_query_predicate_depth \<and> (\<exists>w'. shape_leaf p w = Ok w' \<and> shapes_fit pending (Suc n) w')"
  using assms(1-3) loads_fit_Cons [OF assms(4)] by (auto simp: shapes_fit_def)

lemma shape_loop_leaf:
  assumes go: "\<not> (depth > max_query_predicate_depth \<or> Suc nodes > max_query_predicate_nodes)"
    and w: "within_limits (unat (sw_region_tiles w)) (unat (sw_access_work w)) (unat (sw_civilian_work w))"
    and p: "leaves p = [p]" "pred_depth p = 1" "pred_complexity p = 1"
      "shape_loop ((p, depth) # pending) nodes w = and_then (shape_leaf p w) (\<lambda>w. shape_loop pending (Suc nodes) w)"
    and IH: "\<And>w'. shape_leaf p w = Ok w' \<Longrightarrow>
      within_limits (unat (sw_region_tiles w')) (unat (sw_access_work w')) (unat (sw_civilian_work w')) \<Longrightarrow>
      shape_loop pending (Suc nodes) w' = Ok () \<longleftrightarrow> shapes_fit pending (Suc nodes) w'"
  shows "shape_loop ((p, depth) # pending) nodes w = Ok () \<longleftrightarrow> shapes_fit ((p, depth) # pending) nodes w"
proof -
  have "shape_loop pending (Suc nodes) w' = Ok () \<longleftrightarrow> shapes_fit pending (Suc nodes) w'"
    if "shape_leaf p w = Ok w'" for w'
    using shape_leaf_sound [OF that w] that by (intro IH) blast+
  then show ?thesis using go unfolding p(4) shapes_fit_leaf [OF p(1-3) w] by auto
qed

lemma shape_loop_Ok:
  "nodes \<le> max_query_predicate_nodes \<Longrightarrow>
   within_limits (unat (sw_region_tiles w)) (unat (sw_access_work w)) (unat (sw_civilian_work w)) \<Longrightarrow>
   shape_loop pending nodes w = Ok () \<longleftrightarrow> shapes_fit pending nodes w"
proof (induction pending nodes w rule: shape_loop.induct)
  case (1 nodes w)
  then show ?case by (simp add: shapes_fit_def loads_fit_def)
next
  case (2 p depth pending nodes w)
  show ?case
  proof (cases "depth > max_query_predicate_depth \<or> Suc nodes > max_query_predicate_nodes")
    case True
    then have "\<not> shapes_fit ((p, depth) # pending) nodes w" using shapes_fit_bounds by fastforce
    with True show ?thesis by simp
  next
    case False
    note go = this
    note leaf = shape_loop_leaf [OF go 2(18)]
    show ?thesis
    proof (cases p)
      case (PrAll ps)
      then show ?thesis
        using go 2(9) [OF go PrAll] 2(18) shapes_fit_children(1) [of ps depth pending nodes w]
        by (auto simp: shapes_fit_step(1))
    next
      case (PrAny ps)
      then show ?thesis
        using go 2(10) [OF go PrAny] 2(18) shapes_fit_children(2) [of ps depth pending nodes w]
        by (auto simp: shapes_fit_step(2))
    next
      case (PrNot q)
      then show ?thesis
        using go 2(11) [OF go PrNot] 2(18) by (auto simp: shapes_fit_step(3))
    qed (rule leaf; use go 2 in simp)+
  qed
qed

lemma validate_shape_Ok:
  "validate_predicate_shape p = Ok () \<longleftrightarrow>
     pred_depth p \<le> max_query_predicate_depth \<and> pred_complexity p \<le> max_query_predicate_nodes \<and>
     (\<forall>l \<in> set (leaves p). is_ok (shape_leaf l no_work)) \<and>
     within_limits (\<Sum>l\<leftarrow>leaves p. unat (sw_region_tiles (leaf_load l)))
       (\<Sum>l\<leftarrow>leaves p. unat (sw_access_work (leaf_load l)))
       (\<Sum>l\<leftarrow>leaves p. unat (sw_civilian_work (leaf_load l)))"
  unfolding validate_predicate_shape_def
  by (subst shape_loop_Ok) (auto simp: shapes_fit_def loads_fit_def no_work_def within_limits_def)

text \<open>
  C31: The shape validator accepts exactly the bounded trees. A predicate passes if and only if its
  depth is at most 64 and it has at most 4096 nodes, each leaf is acceptable by itself, and the
  loads of all leaves together stay within the limits on terrain tiles, on access work and on
  census work. The running totals of the walk saturate and its work list visits the nodes in an
  order of its own; neither shows.
\<close>
theorem shape_accepted_iff:
  "validate_predicate_shape p = Ok () \<longleftrightarrow>
     pred_depth p \<le> max_query_predicate_depth \<and> pred_complexity p \<le> max_query_predicate_nodes \<and>
     (\<forall>l \<in> set (leaves p). is_ok (shape_leaf l no_work)) \<and>
     within_limits (\<Sum>l\<leftarrow>leaves p. unat (sw_region_tiles (leaf_load l)))
       (\<Sum>l\<leftarrow>leaves p. unat (sw_access_work (leaf_load l)))
       (\<Sum>l\<leftarrow>leaves p. unat (sw_civilian_work (leaf_load l)))"
  by (rule validate_shape_Ok)

theorem shape_accepted_iff_witness:
  "validate_predicate_shape (PrAny [PrNot (EntityExists 7), FieldCompare 7 ''stress'' CmpGt (VI64 20)]) = Ok ()"
proof -
  have leaf: "shape_leaf (EntityExists 7) no_work = Ok no_work"
    "shape_leaf (FieldCompare 7 ''stress'' CmpGt (VI64 20)) no_work = Ok no_work"
    by (simp_all add: shape_leaf_def max_query_field_bytes_def validate_query_value_Ok max_query_value_depth_def
        max_query_value_nodes_def)
  then have "leaf_load (EntityExists 7) = no_work" "leaf_load (FieldCompare 7 ''stress'' CmpGt (VI64 20)) = no_work"
    by (simp_all add: leaf_load_def)
  with leaf show ?thesis
    unfolding shape_accepted_iff
    by (simp add: no_work_def within_limits_def max_query_predicate_depth_def max_query_predicate_nodes_def)
qed

end
