(* ===== verification/World_Query.thy ===== *)
theory World_Query
  imports Predicate_Shape "HOL-Library.Product_Lexorder"
begin

text \<open>
  \<^verbatim>\<open>crates/dfmcp-world/src/query.rs\<close>, the queries: validation, cost estimate, selection, order, and one
  bounded page at a time. Following the continuation tokens enumerates exactly the sorted matches.
\<close>

definition max_query_kinds :: nat where
  "max_query_kinds = 64"

definition max_query_scan_entities :: nat where
  "max_query_scan_entities = 1000000"

definition max_query_access_scan_work :: u64 where
  "max_query_access_scan_work = 4000000"

record query_plan_cost =
  pc_scanned_entities :: nat
  pc_predicate_cost :: nat
  pc_total_cost :: nat

definition exceeds_budget :: "query_plan_cost \<Rightarrow> nat \<Rightarrow> nat \<Rightarrow> nat \<Rightarrow> bool" where
  "exceeds_budget c complexity_limit depth_limit entity_limit \<longleftrightarrow>
     pc_predicate_cost c > complexity_limit \<or> pc_scanned_entities c > entity_limit"

datatype query_order = EntityIdAscending | EntityIdDescending | RevisionDescending | LabelAscending

record world_query =
  wq_kinds :: "entity_kind list"
  wq_predicate :: "predicate option"
  wq_order :: query_order
  wq_limit :: u32
  wq_continuation :: "string option"

definition query_validate :: "world_query \<Rightarrow> u32 \<Rightarrow> unit res" where
  "query_validate q hard_limit =
     (if wq_limit q = 0 \<or> wq_limit q > hard_limit then fail InvalidRequest
      else if length (wq_kinds q) > max_query_kinds \<or>
              list_ex (\<lambda>k. length (entity_kind_str k) > max_query_kind_bytes) (wq_kinds q)
      then fail BudgetExceeded
      else if (case wq_continuation q of None \<Rightarrow> False | Some c \<Rightarrow> length c > max_continuation_token_bytes)
      then fail BudgetExceeded
      else (case wq_predicate q of None \<Rightarrow> Ok () | Some p \<Rightarrow> validate_predicate_shape p))"

definition kind_selected :: "world_query \<Rightarrow> entity_record \<Rightarrow> bool" where
  "kind_selected q r \<longleftrightarrow> wq_kinds q = [] \<or> er_kind r \<in> set (wq_kinds q)"

definition estimate_cost :: "world_query \<Rightarrow> world_snapshot \<Rightarrow> query_plan_cost" where
  "estimate_cost q s =
     (let scanned = length (filter (kind_selected q) (map snd (wg_entities (ws_graph s))));
          cost = (case wq_predicate q of None \<Rightarrow> 1 | Some p \<Rightarrow> pred_complexity p)
      in \<lparr>pc_scanned_entities = scanned, pc_predicate_cost = cost,
          pc_total_cost = max 1 (min (scanned * cost) (2 ^ 64 - 1))\<rparr>)"

record query_result =
  qr_entities :: "entity_record list"
  qr_matched :: u64
  qr_truncated :: bool
  qr_continuation :: "string option"

definition evaluate_for_candidate :: "world_snapshot \<Rightarrow> entity_id \<Rightarrow> predicate \<Rightarrow> bool" where
  "evaluate_for_candidate s candidate p \<longleftrightarrow> truth_is_true (evaluate_truth s (Some candidate) p)"

definition query_matches :: "world_snapshot \<Rightarrow> world_query \<Rightarrow> entity_record list" where
  "query_matches s q =
     filter (\<lambda>r. case wq_predicate q of Some p \<Rightarrow> evaluate_for_candidate s (er_id r) p | None \<Rightarrow> True)
       (filter (kind_selected q) (map snd (wg_entities (ws_graph s))))"

text \<open>Reversed orders sort by the negated key; the sorts are stable.\<close>

definition query_sorted :: "query_order \<Rightarrow> entity_record list \<Rightarrow> entity_record list" where
  "query_sorted order rs =
     (case order of
        EntityIdAscending \<Rightarrow> sort_key er_id rs
      | EntityIdDescending \<Rightarrow> sort_key (\<lambda>r. - int (unat (er_id r))) rs
      | RevisionDescending \<Rightarrow> sort_key (\<lambda>r. (- int (unat (er_revision r)), er_id r)) rs
      | LabelAscending \<Rightarrow> sort_key (\<lambda>r. (er_label r, er_id r)) rs)"

fun page_loop ::
    "nat \<Rightarrow> nat option \<Rightarrow> entity_record list \<Rightarrow> entity_record list \<Rightarrow> nat \<Rightarrow> (entity_record list \<times> bool) res" where
  "page_loop limit byte_limit [] selected current_bytes = Ok (selected, False)"
| "page_loop limit byte_limit (r # rs) selected current_bytes =
     (if length selected \<ge> limit then Ok (selected, True)
      else
        (let next_bytes = current_bytes + length (enc_entity r) in
         if next_bytes \<ge> 2 ^ 64 then fail BudgetExceeded
         else if (case byte_limit of None \<Rightarrow> False | Some m \<Rightarrow> next_bytes > m)
         then if selected = [] then fail BudgetExceeded else Ok (selected, True)
         else page_loop limit byte_limit rs (selected @ [r]) next_bytes))"

definition scan_within_budget :: "world_snapshot \<Rightarrow> world_query \<Rightarrow> bool" where
  "scan_within_budget s q \<longleftrightarrow>
     (case wq_predicate q of
        None \<Rightarrow> True
      | Some p \<Rightarrow>
          let entities = length (wg_entities (ws_graph s));
              access_work = additional_scan_work p entities;
              row_work = saturating_add
                (saturating_add (word_of_nat (max (length (wq_kinds q)) 1)) (word_of_nat (pred_complexity p)))
                access_work
          in \<not> (access_work > 0 \<and>
                saturating_mul (word_of_nat entities) row_work > max_query_access_scan_work))"

definition query_offset :: "world_snapshot \<Rightarrow> world_query \<Rightarrow> nat res" where
  "query_offset s q =
     (case wq_continuation q of
        None \<Rightarrow> Ok 0
      | Some cont \<Rightarrow>
          and_then (token_decode cont) (\<lambda>token.
            if ct_fortress_id token \<noteq> ws_fortress_id s \<or> ct_cursor token \<noteq> ws_cursor s then fail StaleAnchor
            else Ok (unat (ct_offset token))))"

definition execute_bounded_query ::
    "world_snapshot \<Rightarrow> world_query \<Rightarrow> u32 \<Rightarrow> nat option \<Rightarrow> query_result res" where
  "execute_bounded_query s q hard_limit byte_limit =
     and_then (query_validate q hard_limit) (\<lambda>_.
     if length (wg_entities (ws_graph s)) > max_query_scan_entities then fail BudgetExceeded
     else if \<not> scan_within_budget s q then fail BudgetExceeded
     else
       and_then (query_offset s q) (\<lambda>offset.
       let entities = query_sorted (wq_order q) (query_matches s q) in
       if wq_continuation q \<noteq> None \<and> offset \<ge> length entities then fail CursorGap
       else
         and_then (page_loop (unat (wq_limit q)) byte_limit (drop offset entities) [] 0) (\<lambda>(selected, stopped).
           let consumed = offset + length selected;
               truncated = (stopped \<or> consumed < length entities)
           in if \<not> truncated
              then Ok \<lparr>qr_entities = selected, qr_matched = word_of_nat (length entities),
                      qr_truncated = False, qr_continuation = None\<rparr>
              else if consumed \<ge> 2 ^ 32 then fail BudgetExceeded
              else Ok \<lparr>qr_entities = selected, qr_matched = word_of_nat (length entities), qr_truncated = True,
                      qr_continuation = Some (token_encode
                        \<lparr>ct_fortress_id = ws_fortress_id s, ct_cursor = ws_cursor s,
                         ct_offset = word_of_nat consumed\<rparr>)\<rparr>)))"

definition execute_query :: "world_snapshot \<Rightarrow> world_query \<Rightarrow> u32 \<Rightarrow> query_result res" where
  "execute_query s q hard_limit = execute_bounded_query s q hard_limit None"

subsection \<open>Pages\<close>

lemma page_loop_page:
  "page_loop limit bl rs sel b = Ok (sel', stopped) \<Longrightarrow>
   \<exists>k \<le> length rs. sel' = sel @ take k rs \<and> (stopped \<longleftrightarrow> k < length rs) \<and>
     (length sel \<le> limit \<longrightarrow> length sel' \<le> limit) \<and> (rs \<noteq> [] \<longrightarrow> 0 < limit \<longrightarrow> sel' \<noteq> [])"
proof (induction limit bl rs sel b rule: page_loop.induct)
  case (2 limit bl r rs sel b)
  let ?b = "b + length (enc_entity r)"
  let ?over = "case bl of None \<Rightarrow> False | Some m \<Rightarrow> ?b > m"
  show ?case
  proof (cases "length sel < limit \<and> ?b < 2 ^ 64 \<and> \<not> ?over")
    case True
    then have "page_loop limit bl (r # rs) sel b = page_loop limit bl rs (sel @ [r]) ?b" by (simp add: Let_def)
    then have rest: "page_loop limit bl rs (sel @ [r]) ?b = Ok (sel', stopped)" using 2(2) by simp
    have "\<not> limit \<le> length sel" "\<not> 2 ^ 64 \<le> ?b" "\<not> ?over" using True by auto
    then obtain k where "k \<le> length rs" "sel' = (sel @ [r]) @ take k rs" "stopped \<longleftrightarrow> k < length rs"
      "length (sel @ [r]) \<le> limit \<longrightarrow> length sel' \<le> limit"
      using 2(1) [OF _ refl _ _ rest] by blast
    then show ?thesis using True by (intro exI [of _ "Suc k"]) auto
  next
    case False
    then have "sel' = sel" "stopped" "limit = 0 \<or> sel \<noteq> []"
      using 2(2) unfolding page_loop.simps Let_def by (auto simp: not_less split: if_splits)
    then show ?thesis by (intro exI [of _ 0]) auto
  qed
qed auto

definition row_fits :: "nat option \<Rightarrow> entity_record \<Rightarrow> bool" where
  "row_fits bl r \<longleftrightarrow> (case bl of None \<Rightarrow> True | Some m \<Rightarrow> length (enc_entity r) \<le> m)"

lemma page_loop_total:
  "b + (\<Sum>r\<leftarrow>rs. length (enc_entity r)) < 2 ^ 64 \<Longrightarrow> \<forall>r \<in> set rs. row_fits bl r \<Longrightarrow> sel = [] \<longrightarrow> b = 0 \<Longrightarrow>
   \<exists>page. page_loop limit bl rs sel b = Ok page"
proof (induction limit bl rs sel b rule: page_loop.induct)
  case (2 limit bl r rs sel b)
  then show ?case
    by (auto simp: Let_def row_fits_def not_le split: option.splits)
qed auto

definition page_token :: "world_snapshot \<Rightarrow> nat \<Rightarrow> string" where
  "page_token s o' = token_encode
     \<lparr>ct_fortress_id = ws_fortress_id s, ct_cursor = ws_cursor s, ct_offset = word_of_nat o'\<rparr>"

text \<open>What the pages are taken from, and the conditions under which every page can be served.\<close>

definition sorted_matches :: "world_snapshot \<Rightarrow> world_query \<Rightarrow> entity_record list" where
  "sorted_matches s q = query_sorted (wq_order q) (query_matches s q)"

definition pageable :: "world_snapshot \<Rightarrow> world_query \<Rightarrow> u32 \<Rightarrow> nat option \<Rightarrow> bool" where
  "pageable s q hard_limit byte_limit \<longleftrightarrow>
     query_validate q hard_limit = Ok () \<and> wq_continuation q = None \<and> ws_fortress_id s \<noteq> 0 \<and>
     length (wg_entities (ws_graph s)) \<le> max_query_scan_entities \<and> scan_within_budget s q \<and>
     (\<Sum>r\<leftarrow>sorted_matches s q. length (enc_entity r)) < 2 ^ 64 \<and>
     (\<forall>r \<in> set (sorted_matches s q). row_fits byte_limit r)"

lemma length_query_sorted [simp]: "length (query_sorted order rs) = length rs"
  by (cases order) (simp_all add: query_sorted_def)

lemma length_sorted_matches: "length (sorted_matches s q) \<le> length (wg_entities (ws_graph s))"
  unfolding sorted_matches_def length_query_sorted query_matches_def
  by (rule order.trans [OF length_filter_le], rule order.trans [OF length_filter_le]) simp

lemma continuation_irrelevant:
  "query_validate q hl = Ok () \<Longrightarrow> length c \<le> max_continuation_token_bytes \<Longrightarrow>
   query_validate (q\<lparr>wq_continuation := Some c\<rparr>) hl = Ok ()"
  "scan_within_budget s (q\<lparr>wq_continuation := c'\<rparr>) = scan_within_budget s q"
  "sorted_matches s (q\<lparr>wq_continuation := c'\<rparr>) = sorted_matches s q"
  by (cases "wq_predicate q"; auto simp: query_validate_def scan_within_budget_def sorted_matches_def query_matches_def
      kind_selected_def [abs_def] Let_def split: if_splits)+

definition at_offset :: "world_snapshot \<Rightarrow> world_query \<Rightarrow> string option \<Rightarrow> nat \<Rightarrow> bool" where
  "at_offset s q c n \<longleftrightarrow>
     c = None \<and> n = 0 \<or> c = Some (page_token s n) \<and> n < length (sorted_matches s q)"

lemma page_execution:
  assumes "pageable s q hl bl" "at_offset s q c n"
  shows "\<exists>k r. execute_bounded_query s (q\<lparr>wq_continuation := c\<rparr>) hl bl = Ok r \<and>
    qr_entities r = take k (drop n (sorted_matches s q)) \<and> qr_matched r = word_of_nat (length (sorted_matches s q)) \<and>
    k \<le> unat (wq_limit q) \<and>
    (n + k = length (sorted_matches s q) \<and> qr_continuation r = None \<or>
     n + k < length (sorted_matches s q) \<and> 0 < k \<and> qr_continuation r = Some (page_token s (n + k)))"
proof -
  let ?all = "sorted_matches s q" and ?q = "q\<lparr>wq_continuation := c\<rparr>"
  have size: "length ?all < 2 ^ 32"
    using length_sorted_matches [of s q] assms(1) by (simp add: pageable_def max_query_scan_entities_def)
  have n: "n \<le> length ?all" using assms(2) by (auto simp: at_offset_def)
  have valid: "query_validate ?q hl = Ok ()"
  proof (cases c)
    case None
    then have "?q = q" using assms(1) by (cases q) (simp add: pageable_def)
    then show ?thesis using assms(1) by (simp add: pageable_def)
  next
    case (Some t)
    then have "length t \<le> max_continuation_token_bytes"
      using assms(2) token_length by (auto simp: at_offset_def page_token_def)
    then show ?thesis using assms(1) Some by (simp add: pageable_def continuation_irrelevant(1))
  qed
  have offset: "query_offset s ?q = Ok n"
    using assms size
    by (auto simp: at_offset_def query_offset_def page_token_def continuation_token_roundtrip pageable_def
        unsigned_of_nat take_bit_nat_eq_self)
  have positive: "0 < unat (wq_limit q)"
    using assms(1) by (auto simp: pageable_def query_validate_def unat_gt_0 split: if_splits)
  have "(\<Sum>r\<leftarrow>drop n ?all. length (enc_entity r)) \<le> (\<Sum>r\<leftarrow>?all. length (enc_entity r))"
    by (subst append_take_drop_id [of n, symmetric], subst map_append, subst sum_list_append) simp
  moreover have "\<forall>r \<in> set (drop n ?all). row_fits bl r"
    using assms(1) by (auto simp: pageable_def dest: in_set_dropD)
  ultimately obtain sel stopped where page: "page_loop (unat (wq_limit q)) bl (drop n ?all) [] 0 = Ok (sel, stopped)"
    using page_loop_total [of 0 "drop n ?all" bl "[]" "unat (wq_limit q)"] assms(1) by (auto simp: pageable_def)
  then obtain k where k: "k \<le> length (drop n ?all)" "sel = take k (drop n ?all)" "stopped \<longleftrightarrow> k < length (drop n ?all)"
      "length sel \<le> unat (wq_limit q)" "drop n ?all \<noteq> [] \<longrightarrow> sel \<noteq> []"
    using page_loop_page [OF page] positive by auto
  have budget: "length (wg_entities (ws_graph s)) \<le> max_query_scan_entities" "scan_within_budget s ?q"
    using assms(1) by (simp_all add: pageable_def continuation_irrelevant(2))
  have all: "query_sorted (wq_order q) (query_matches s ?q) = ?all"
    using continuation_irrelevant(3) [of s c q] by (simp add: sorted_matches_def)
  have open_page: "\<not> (c \<noteq> None \<and> length ?all \<le> n)" using assms(2) by (auto simp: at_offset_def)
  have count: "length sel = k" "stopped \<longleftrightarrow> n + k < length ?all" "n + k \<le> length ?all" "n + k < 2 ^ 32"
    using k n size by auto
  have "execute_bounded_query s ?q hl bl = Ok
      \<lparr>qr_entities = sel, qr_matched = word_of_nat (length ?all), qr_truncated = (n + k < length ?all),
       qr_continuation = (if n + k < length ?all then Some (page_token s (n + k)) else None)\<rparr>"
    using budget open_page count
    by (auto simp: execute_bounded_query_def valid offset all page Let_def page_token_def)
  moreover have "0 < k" if "n + k < length ?all" using k that by auto
  ultimately show ?thesis using k count by (intro exI [of _ k]) auto
qed

text \<open>Following the continuations of a query from one token on.\<close>

inductive page_walk ::
    "world_snapshot \<Rightarrow> world_query \<Rightarrow> u32 \<Rightarrow> nat option \<Rightarrow> string option \<Rightarrow> entity_record list \<Rightarrow> bool"
  for s q hl bl where
  last_page: "execute_bounded_query s (q\<lparr>wq_continuation := c\<rparr>) hl bl = Ok r \<Longrightarrow> qr_continuation r = None \<Longrightarrow>
    page_walk s q hl bl c (qr_entities r)"
| more_pages: "execute_bounded_query s (q\<lparr>wq_continuation := c\<rparr>) hl bl = Ok r \<Longrightarrow> qr_continuation r = Some t \<Longrightarrow>
    page_walk s q hl bl (Some t) rest \<Longrightarrow> page_walk s q hl bl c (qr_entities r @ rest)"

lemma page_split: "take k (drop n xs) @ drop (n + k) xs = drop n xs"
  by (metis add.commute append_take_drop_id drop_drop)

lemma page_walk_exists:
  assumes "pageable s q hl bl"
  shows "at_offset s q c n \<Longrightarrow> \<exists>es. page_walk s q hl bl c es"
proof (induction "length (sorted_matches s q) - n" arbitrary: n c rule: less_induct)
  case less
  obtain k r where r: "execute_bounded_query s (q\<lparr>wq_continuation := c\<rparr>) hl bl = Ok r"
    and k: "n + k = length (sorted_matches s q) \<and> qr_continuation r = None \<or>
      n + k < length (sorted_matches s q) \<and> 0 < k \<and> qr_continuation r = Some (page_token s (n + k))"
    using page_execution [OF assms less.prems] by blast
  from k show ?case
  proof
    assume "n + k = length (sorted_matches s q) \<and> qr_continuation r = None"
    then show ?case using last_page [OF r] by blast
  next
    assume more: "n + k < length (sorted_matches s q) \<and> 0 < k \<and> qr_continuation r = Some (page_token s (n + k))"
    then have "\<exists>es. page_walk s q hl bl (Some (page_token s (n + k))) es"
      by (intro less.hyps [of "n + k"]) (auto simp: at_offset_def)
    then show ?case using more more_pages [OF r] by blast
  qed
qed

lemma page_walk_matches:
  assumes "pageable s q hl bl" and walk: "page_walk s q hl bl c es"
  shows "at_offset s q c n \<Longrightarrow> es = drop n (sorted_matches s q)"
  using walk
proof (induction arbitrary: n rule: page_walk.induct)
  case (last_page c r)
  then show ?case using page_execution [OF assms(1) last_page.prems] by auto
next
  case (more_pages c r t rest)
  obtain k where k: "qr_entities r = take k (drop n (sorted_matches s q))" "n + k < length (sorted_matches s q)"
      "t = page_token s (n + k)"
    using page_execution [OF assms(1) more_pages.prems] more_pages.hyps by auto
  then have "rest = drop (n + k) (sorted_matches s q)" by (intro more_pages.IH) (simp add: at_offset_def)
  then show ?case using k page_split by simp
qed

text \<open>
  C32: Paging enumerates the matches. For a valid query over a snapshot within the scan bounds,
  whose rows each fit the byte limit, the first page and the continuations it leads to can all be
  served, and however the byte limit cuts them the pages put together are the matching entities in
  the requested order, each exactly once.
\<close>
theorem paging_enumerates_matches:
  assumes "pageable s q hard_limit byte_limit"
  shows "(\<exists>es. page_walk s q hard_limit byte_limit None es) \<and>
    (\<forall>es. page_walk s q hard_limit byte_limit None es \<longrightarrow> es = sorted_matches s q)"
  using page_walk_exists [OF assms, of None 0] page_walk_matches [OF assms, of None _ 0] by (auto simp: at_offset_def)

definition sample_query :: world_query where
  "sample_query =
     \<lparr>wq_kinds = [EkUnit, EkBurrow], wq_predicate = None, wq_order = EntityIdDescending, wq_limit = 1, wq_continuation = None\<rparr>"

theorem paging_enumerates_matches_witness:
  "\<exists>es. page_walk sample_lab_world sample_query 10 (Some 500) None es \<and> es = [sample_lab_burrow, sample_lab_unit]"
proof -
  have es: "wg_entities (ws_graph sample_lab_world) = [(5, sample_lab_unit), (9, sample_lab_burrow), (11, sample_lab_creature)]"
    and fortress: "ws_fortress_id sample_lab_world = 7"
    by (simp_all add: sample_lab_world_def)
  have matches: "sorted_matches sample_lab_world sample_query = [sample_lab_burrow, sample_lab_unit]"
    by (simp add: sorted_matches_def query_matches_def sample_query_def es kind_selected_def query_sorted_def
        sample_lab_unit_def sample_lab_burrow_def sample_lab_creature_def)
  have size: "length (enc_entity sample_lab_unit) \<le> 500" "length (enc_entity sample_lab_burrow) \<le> 500"
    by code_simp+
  have "pageable sample_lab_world sample_query 10 (Some 500)"
    unfolding pageable_def matches
    using size
    by (simp add: es fortress query_validate_def sample_query_def max_query_kinds_def
        max_query_kind_bytes_def max_query_scan_entities_def scan_within_budget_def row_fits_def)
  from paging_enumerates_matches [OF this] show ?thesis by (auto simp: matches)
qed

end
