(* ===== verification/Evidence.thy ===== *)
theory Evidence
  imports Predicate_Shape
begin

text \<open>
  \<^verbatim>\<open>crates/dfmcp-world/src/evidence.rs\<close>: predicate evaluation under a policy that says which sources and
  which parts of the world the observer may rely on. An answer under evidence is never contradicted
  by the snapshot, and granting more never overturns an answer.
\<close>

definition max_evidence_sources :: nat where
  "max_evidence_sources = 256"

definition max_evidence_kinds :: nat where
  "max_evidence_kinds = 64"

definition max_evidence_source_bytes :: nat where
  "max_evidence_source_bytes = 256"

definition max_evidence_kind_bytes :: nat where
  "max_evidence_kind_bytes = 128"

definition max_evidence_terrain_regions :: nat where
  "max_evidence_terrain_regions = 64"

definition max_evidence_terrain_tiles :: u64 where
  "max_evidence_terrain_tiles = 262144"

datatype evidence_coverage = CoverageUnknown | CoverageObserved | CoverageComplete

definition observes_members :: "evidence_coverage \<Rightarrow> bool" where
  "observes_members c \<longleftrightarrow> c = CoverageObserved \<or> c = CoverageComplete"

definition proves_absence :: "evidence_coverage \<Rightarrow> bool" where
  "proves_absence c \<longleftrightarrow> c = CoverageComplete"

datatype evidence_source =
    SourceObserved string digest32
  | SourceCertifiedDerived string digest32

definition validate_name :: "string \<Rightarrow> nat \<Rightarrow> unit res" where
  "validate_name v maximum =
     (if v = [] \<or> length v > maximum \<or> has_control v then fail InvalidRequest else Ok ())"

fun source_validate :: "evidence_source \<Rightarrow> unit res" where
  "source_validate (SourceObserved name source_digest) =
     and_then (validate_name name max_evidence_source_bytes) (\<lambda>_.
       if source_digest = digest_zero then fail InvalidRequest else Ok ())"
| "source_validate (SourceCertifiedDerived name source_digest) =
     and_then (validate_name name max_evidence_source_bytes) (\<lambda>_.
       if source_digest = digest_zero then fail InvalidRequest else Ok ())"

definition source_admits :: "evidence_source \<Rightarrow> fact \<Rightarrow> bool" where
  "source_admits src f \<longleftrightarrow>
     (case src of
        SourceObserved field source_digest \<Rightarrow>
          (case fact_source f of
             DfhackField actual \<Rightarrow> field = actual \<and> source_digest = fact_source_digest f
           | _ \<Rightarrow> False)
      | SourceCertifiedDerived derivation source_digest \<Rightarrow>
          (case fact_source f of
             Derived actual \<Rightarrow> derivation = actual \<and> source_digest = fact_source_digest f
           | _ \<Rightarrow> False))"

record evidence_policy =
  ep_anchor :: "state_anchor option"
  ep_sources :: "evidence_source list"
  ep_all_entities :: evidence_coverage
  ep_entity_kinds :: "(entity_kind \<times> evidence_coverage) list"
  ep_all_edges :: evidence_coverage
  ep_edge_kinds :: "(edge_kind \<times> evidence_coverage) list"
  ep_paused :: bool
  ep_terrain_regions :: "map_cuboid list"

definition policy_at :: "state_anchor \<Rightarrow> evidence_policy" where
  "policy_at anchor =
     \<lparr>ep_anchor = Some anchor, ep_sources = [], ep_all_entities = CoverageUnknown, ep_entity_kinds = [],
      ep_all_edges = CoverageUnknown, ep_edge_kinds = [], ep_paused = False, ep_terrain_regions = []\<rparr>"

fun validate_all :: "('a \<Rightarrow> unit res) \<Rightarrow> 'a list \<Rightarrow> unit res" where
  "validate_all check [] = Ok ()"
| "validate_all check (x # xs) = and_then (check x) (\<lambda>_. validate_all check xs)"

fun validate_kind_names :: "string list \<Rightarrow> string set \<Rightarrow> unit res" where
  "validate_kind_names [] seen = Ok ()"
| "validate_kind_names (name # names) seen =
     and_then (validate_name name max_evidence_kind_bytes) (\<lambda>_.
       if name \<in> seen then fail InvalidRequest else validate_kind_names names (insert name seen))"

fun validate_terrain_regions :: "map_cuboid list \<Rightarrow> u64 \<Rightarrow> unit res" where
  "validate_terrain_regions [] terrain_tiles = Ok ()"
| "validate_terrain_regions (area # areas) terrain_tiles =
     and_then (validate_region area) (\<lambda>tiles.
     and_then (ok_or (checked_add terrain_tiles tiles) (dfmcp_error BudgetExceeded)) (\<lambda>terrain_tiles.
       if terrain_tiles > max_evidence_terrain_tiles then fail BudgetExceeded
       else validate_terrain_regions areas terrain_tiles))"

definition policy_validate :: "evidence_policy \<Rightarrow> unit res" where
  "policy_validate policy =
     (if length (ep_sources policy) > max_evidence_sources
         \<or> length (ep_entity_kinds policy) > max_evidence_kinds
         \<or> length (ep_edge_kinds policy) > max_evidence_kinds
         \<or> length (ep_terrain_regions policy) > max_evidence_terrain_regions
      then fail BudgetExceeded
      else
        and_then (validate_all source_validate (ep_sources policy)) (\<lambda>_.
        and_then (validate_kind_names (map (entity_kind_str \<circ> fst) (ep_entity_kinds policy)) {}) (\<lambda>_.
        and_then (validate_kind_names (map (edge_kind_str \<circ> fst) (ep_edge_kinds policy)) {}) (\<lambda>_.
          validate_terrain_regions (ep_terrain_regions policy) 0))))"

record predicate_evidence =
  pe_snapshot :: world_snapshot
  pe_policy :: evidence_policy
  pe_laboratory :: bool

definition keys_match :: "world_graph \<Rightarrow> bool" where
  "keys_match g \<longleftrightarrow>
     \<not> (list_ex (\<lambda>e. fst e \<noteq> er_id (snd e)) (wg_entities g)
        \<or> list_ex (\<lambda>e. fst e \<noteq> ed_id (snd e)) (wg_edges g)
        \<or> list_ex (\<lambda>e. fst e \<noteq> mc_coord (snd e)) (wg_chunks g)
        \<or> list_ex (\<lambda>e. fst e \<noteq> ev_id (snd e)) (wg_events g))"

definition evidence_scoped :: "world_snapshot \<Rightarrow> evidence_policy \<Rightarrow> predicate_evidence res" where
  "evidence_scoped s policy =
     and_then (policy_validate policy) (\<lambda>_.
       if ep_anchor policy \<noteq> Some (snapshot_anchor s) then fail StaleAnchor
       else if \<not> keys_match (ws_graph s) then fail InternalInvariantViolation
       else if \<not> hash_is_valid s then fail ChecksumMismatch
       else Ok \<lparr>pe_snapshot = s, pe_policy = policy, pe_laboratory = False\<rparr>)"

definition evidence_untrusted :: "world_snapshot \<Rightarrow> predicate_evidence res" where
  "evidence_untrusted s = evidence_scoped s (policy_at (snapshot_anchor s))"

definition evidence_laboratory :: "world_snapshot \<Rightarrow> predicate_evidence res" where
  "evidence_laboratory s =
     and_then
       (evidence_scoped s ((policy_at (snapshot_anchor s))
         \<lparr>ep_all_entities := CoverageComplete, ep_all_edges := CoverageComplete, ep_paused := True\<rparr>))
       (\<lambda>e. Ok (e\<lparr>pe_laboratory := True\<rparr>))"

definition entity_kind_coverage :: "predicate_evidence \<Rightarrow> entity_kind \<Rightarrow> evidence_coverage" where
  "entity_kind_coverage ev kind =
     (case find (\<lambda>c. entity_kind_str (fst c) = entity_kind_str kind) (ep_entity_kinds (pe_policy ev)) of
        None \<Rightarrow> CoverageUnknown | Some c \<Rightarrow> snd c)"

definition edge_kind_coverage :: "predicate_evidence \<Rightarrow> edge_kind \<Rightarrow> evidence_coverage" where
  "edge_kind_coverage ev kind =
     (case find (\<lambda>c. edge_kind_str (fst c) = edge_kind_str kind) (ep_edge_kinds (pe_policy ev)) of
        None \<Rightarrow> CoverageUnknown | Some c \<Rightarrow> snd c)"

definition entity_observed :: "predicate_evidence \<Rightarrow> entity_id \<Rightarrow> bool" where
  "entity_observed ev i \<longleftrightarrow>
     i \<noteq> 0 \<and>
     (case map_of (wg_entities (ws_graph (pe_snapshot ev))) i of
        None \<Rightarrow> False
      | Some r \<Rightarrow>
          observes_members (ep_all_entities (pe_policy ev)) \<or> observes_members (entity_kind_coverage ev (er_kind r)))"

definition entity_absence_complete :: "predicate_evidence \<Rightarrow> entity_kind option \<Rightarrow> bool" where
  "entity_absence_complete ev kind \<longleftrightarrow>
     proves_absence (ep_all_entities (pe_policy ev)) \<or>
     (case kind of None \<Rightarrow> False | Some k \<Rightarrow> proves_absence (entity_kind_coverage ev k))"

definition edge_absence_complete :: "predicate_evidence \<Rightarrow> edge_kind option \<Rightarrow> bool" where
  "edge_absence_complete ev kind \<longleftrightarrow>
     proves_absence (ep_all_edges (pe_policy ev)) \<or>
     (case kind of None \<Rightarrow> False | Some k \<Rightarrow> proves_absence (edge_kind_coverage ev k))"

definition evidence_fact_value :: "predicate_evidence \<Rightarrow> fact \<Rightarrow> val option" where
  "evidence_fact_value ev f =
     (if pe_laboratory ev then laboratory_fact_value f (ws_tick (pe_snapshot ev))
      else if fact_observed_at f > ws_tick (pe_snapshot ev) \<or>
              \<not> list_ex (\<lambda>src. source_admits src f) (ep_sources (pe_policy ev))
      then None else known_value f)"

definition terrain_observed :: "predicate_evidence \<Rightarrow> map_coord \<Rightarrow> bool" where
  "terrain_observed ev coord \<longleftrightarrow>
     pe_laboratory ev \<or> list_ex (\<lambda>area. cuboid_contains area coord) (ep_terrain_regions (pe_policy ev))"

fun evidence_region_scan :: "predicate_evidence \<Rightarrow> u32 \<Rightarrow> map_coord list \<Rightarrow> bool \<Rightarrow> predicate_truth" where
  "evidence_region_scan ev expected [] unknown = (if unknown then PUnknown else PTrue)"
| "evidence_region_scan ev expected (coord # coords) unknown =
     (case (if terrain_observed ev coord then tile_code_at (pe_snapshot ev) coord else None) of
        Some code \<Rightarrow> if code = expected then evidence_region_scan ev expected coords unknown else PFalse
      | None \<Rightarrow> evidence_region_scan ev expected coords True)"

fun evaluate_validated :: "predicate_evidence \<Rightarrow> predicate \<Rightarrow> predicate_truth"
  and validated_all :: "predicate_evidence \<Rightarrow> predicate list \<Rightarrow> predicate_truth \<Rightarrow> predicate_truth"
  and validated_any :: "predicate_evidence \<Rightarrow> predicate list \<Rightarrow> predicate_truth \<Rightarrow> predicate_truth"
where
  "evaluate_validated ev PrTrue = PTrue"
| "evaluate_validated ev PrFalse = PFalse"
| "evaluate_validated ev (EntityExists i) =
     (if i = 0 then PUnknown
      else if bt_contains i (wg_entities (ws_graph (pe_snapshot ev)))
      then if entity_observed ev i then PTrue else PUnknown
      else if entity_absence_complete ev None then PFalse else PUnknown)"
| "evaluate_validated ev (EntityKindIs i kind) =
     (if i = 0 then PUnknown
      else
        (case map_of (wg_entities (ws_graph (pe_snapshot ev))) i of
           Some r \<Rightarrow>
             if \<not> entity_observed ev i then PUnknown
             else if entity_kind_str (er_kind r) = entity_kind_str kind then PTrue else PFalse
         | None \<Rightarrow> if entity_absence_complete ev (Some kind) then PFalse else PUnknown))"
| "evaluate_validated ev (FieldCompare i field op v) =
     (if \<not> entity_observed ev i then PUnknown
      else truth_map_or
        (Option.bind (Option.bind (map_of (wg_entities (ws_graph (pe_snapshot ev))) i)
           (\<lambda>r. map_of (er_fields r) field)) (evidence_fact_value ev))
        (\<lambda>known. compare_values known op v))"
| "evaluate_validated ev (EntityQuantity kind field v quantity op n) =
     (if \<not> entity_absence_complete ev (Some kind) then PUnknown
      else entity_quantity_truth (pe_snapshot ev) (EntityQuantity kind field v quantity op n) (evidence_fact_value ev))"
| "evaluate_validated ev (EntityQuantityIncrease kind field v quantity b i a d g cs) =
     (if \<not> entity_absence_complete ev (Some kind) then PUnknown
      else entity_quantity_truth (pe_snapshot ev)
        (EntityQuantityIncrease kind field v quantity b i a d g cs) (evidence_fact_value ev))"
| "evaluate_validated ev (EdgeExists e kind) =
     (if e = 0 then PUnknown
      else
        (case map_of (wg_edges (ws_graph (pe_snapshot ev))) e of
           Some ed \<Rightarrow>
             if \<not> (observes_members (ep_all_edges (pe_policy ev)) \<or>
                    observes_members (edge_kind_coverage ev (ed_kind ed)))
                \<or> \<not> entity_observed ev (ed_from ed) \<or> \<not> entity_observed ev (ed_to ed)
             then PUnknown
             else if (case kind of None \<Rightarrow> True | Some k \<Rightarrow> edge_kind_str k = edge_kind_str (ed_kind ed))
             then PTrue else PFalse
         | None \<Rightarrow> if edge_absence_complete ev kind then PFalse else PUnknown))"
| "evaluate_validated ev (Paused expected) =
     (if \<not> ep_paused (pe_policy ev) then PUnknown
      else if ws_paused (pe_snapshot ev) = expected then PTrue else PFalse)"
| "evaluate_validated ev (RegionTerrain area code) = evidence_region_scan ev code (region_tiles area) False"
| "evaluate_validated ev (LaboratoryRoomAccess area entry targets) =
     (if \<not> pe_laboratory ev then PUnknown
      else truth_or_unknown (laboratory_room_access_truth (pe_snapshot ev) area entry targets))"
| "evaluate_validated ev (LaboratoryRoomAccessPairedStairs area entry targets) =
     (if \<not> pe_laboratory ev then PUnknown
      else truth_or_unknown (laboratory_room_access_paired_stairs_truth (pe_snapshot ev) area entry targets))"
| "evaluate_validated ev (LaboratoryCivilianReleaseSafety burrow civilians) =
     (if \<not> pe_laboratory ev then PUnknown
      else truth_or_unknown (laboratory_civilian_release_safety_truth (pe_snapshot ev) burrow civilians))"
| "evaluate_validated ev (PrAll ps) = validated_all ev ps PTrue"
| "evaluate_validated ev (PrAny ps) = validated_any ev ps PFalse"
| "evaluate_validated ev (PrNot p) = truth_not (evaluate_validated ev p)"
| "validated_all ev [] result = result"
| "validated_all ev (p # ps) result =
     (case evaluate_validated ev p of
        PFalse \<Rightarrow> PFalse
      | PUnknown \<Rightarrow> validated_all ev ps PUnknown
      | PTrue \<Rightarrow> validated_all ev ps result)"
| "validated_any ev [] result = result"
| "validated_any ev (p # ps) result =
     (case evaluate_validated ev p of
        PTrue \<Rightarrow> PTrue
      | PUnknown \<Rightarrow> validated_any ev ps PUnknown
      | PFalse \<Rightarrow> validated_any ev ps result)"

definition evidence_evaluate :: "predicate_evidence \<Rightarrow> predicate \<Rightarrow> predicate_truth res" where
  "evidence_evaluate ev p =
     and_then (validate_predicate_shape p) (\<lambda>_.
     and_then (validate_quantity_work p (length (wg_entities (ws_graph (pe_snapshot ev))))) (\<lambda>_.
       Ok (evaluate_validated ev p)))"

definition evidence_establishes :: "predicate_evidence \<Rightarrow> predicate \<Rightarrow> bool res" where
  "evidence_establishes ev p = and_then (evidence_evaluate ev p) (\<lambda>t. Ok (t = PTrue))"

definition evidence_quantity_total ::
    "predicate_evidence \<Rightarrow> entity_kind \<Rightarrow> string \<Rightarrow> val \<Rightarrow> string option \<Rightarrow> u64 option res" where
  "evidence_quantity_total ev kind filter_field filter_value quantity_field =
     and_then (validate_entity_quantity_fields kind filter_field filter_value quantity_field) (\<lambda>_.
     and_then (validate_entity_quantity_scan (length (wg_entities (ws_graph (pe_snapshot ev))))) (\<lambda>_.
       if \<not> entity_absence_complete ev (Some kind) then Ok None
       else Ok (entity_quantity_total (pe_snapshot ev) kind filter_field filter_value quantity_field
         (evidence_fact_value ev))))"

subsection \<open>Refinement of answers\<close>

text \<open>An answer is refined when an unknown may become known, and nothing else changes.\<close>

definition truth_le :: "predicate_truth \<Rightarrow> predicate_truth \<Rightarrow> bool" where
  "truth_le t t' \<longleftrightarrow> t = PUnknown \<or> t = t'"

lemma truth_le_simps [simp]: "truth_le t t" "truth_le PUnknown t" "truth_le PTrue t \<longleftrightarrow> t = PTrue" "truth_le PFalse t \<longleftrightarrow> t = PFalse"
  by (auto simp: truth_le_def)

lemma truth_le_not: "truth_le t t' \<Longrightarrow> truth_le (truth_not t) (truth_not t')"
  by (auto simp: truth_le_def)

lemma kleene_mono:
  assumes "\<forall>p \<in> S. truth_le (f p) (g p)"
  shows "truth_le (kleene_all (f ` S)) (kleene_all (g ` S))" "truth_le (kleene_any (f ` S)) (kleene_any (g ` S))"
proof -
  have up: "PFalse \<in> f ` S \<Longrightarrow> PFalse \<in> g ` S" "PTrue \<in> f ` S \<Longrightarrow> PTrue \<in> g ` S"
    and down: "PFalse \<in> g ` S \<Longrightarrow> PFalse \<in> f ` S \<or> PUnknown \<in> f ` S" "PTrue \<in> g ` S \<Longrightarrow> PTrue \<in> f ` S \<or> PUnknown \<in> f ` S"
      "PUnknown \<in> g ` S \<Longrightarrow> PUnknown \<in> f ` S"
    using assms by (force simp: truth_le_def)+
  show "truth_le (kleene_all (f ` S)) (kleene_all (g ` S))" "truth_le (kleene_any (f ` S)) (kleene_any (g ` S))"
    using up down by (auto simp: kleene_all_def kleene_any_def)
qed

definition is_leaf :: "predicate \<Rightarrow> bool" where
  "is_leaf p \<longleftrightarrow> (case p of PrAll _ \<Rightarrow> False | PrAny _ \<Rightarrow> False | PrNot _ \<Rightarrow> False | _ \<Rightarrow> True)"

locale evaluator_refinement = coarse: predicate_evaluator eval + fine: predicate_evaluator eval'
  for eval eval' :: "predicate \<Rightarrow> predicate_truth" +
  fixes comparable :: "predicate \<Rightarrow> bool"
  assumes leaf_refined: "is_leaf l \<Longrightarrow> comparable l \<Longrightarrow> truth_le (eval l) (eval' l)"
begin

lemma refined: "\<forall>l \<in> set (leaves p). comparable l \<Longrightarrow> truth_le (eval p) (eval' p)"
proof (induction p)
  case (PrAll ps)
  then show ?case by (simp add: coarse.eval_all fine.eval_all kleene_mono)
next
  case (PrAny ps)
  then show ?case by (simp add: coarse.eval_any fine.eval_any kleene_mono)
next
  case (PrNot p)
  then show ?case by (simp add: coarse.eval_not fine.eval_not truth_le_not)
qed (simp_all add: leaf_refined is_leaf_def)

end

lemma validated_all_kleene:
  "t \<noteq> PFalse \<Longrightarrow> validated_all ev ps t = kleene_all (insert t (evaluate_validated ev ` set ps))"
proof (induction ps arbitrary: t)
  case Nil
  then show ?case by (cases t) auto
next
  case (Cons p ps)
  then show ?case by (cases "evaluate_validated ev p"; cases t) (auto simp: kleene_all_def)
qed

lemma validated_any_kleene:
  "t \<noteq> PTrue \<Longrightarrow> validated_any ev ps t = kleene_any (insert t (evaluate_validated ev ` set ps))"
proof (induction ps arbitrary: t)
  case Nil
  then show ?case by (cases t) auto
next
  case (Cons p ps)
  then show ?case by (cases "evaluate_validated ev p"; cases t) (auto simp: kleene_any_def)
qed

interpretation evidence_truth: predicate_evaluator "evaluate_validated ev" for ev
proof
  fix ts ts' :: "map_coord list" and a e
  assume "mset ts = mset ts'"
  note perm = access_truth_mset [OF this] paired_truth_mset [OF this]
  show "evaluate_validated ev (LaboratoryRoomAccess a e ts) = evaluate_validated ev (LaboratoryRoomAccess a e ts')"
    by (simp add: perm(1) [of "pe_snapshot ev" a e])
  show "evaluate_validated ev (LaboratoryRoomAccessPairedStairs a e ts) =
      evaluate_validated ev (LaboratoryRoomAccessPairedStairs a e ts')"
    by (simp add: perm(2) [of "pe_snapshot ev" a e])
next
  fix "is" js :: "laboratory_entity_identity list" and b
  assume "mset is = mset js"
  then show "evaluate_validated ev (LaboratoryCivilianReleaseSafety b is) =
      evaluate_validated ev (LaboratoryCivilianReleaseSafety b js)"
    by (simp add: release_truth_mset [of "is" js "pe_snapshot ev" b])
qed (simp_all add: validated_all_kleene validated_any_kleene)

text \<open>What one row contributes to a total: nothing when it is not selected, unknown when an input is.\<close>

definition row_quantity ::
    "(fact \<Rightarrow> val option) \<Rightarrow> entity_kind \<Rightarrow> string \<Rightarrow> val \<Rightarrow> string option \<Rightarrow> entity_record \<Rightarrow> u64 option" where
  "row_quantity fv kind filter_field filter_value quantity_field r =
     (if entity_kind_str (er_kind r) \<noteq> entity_kind_str kind then Some 0
      else if er_id r = 0 then None
      else Option.bind (Option.bind (map_of (er_fields r) filter_field) fv) (\<lambda>selector.
        if selector \<noteq> filter_value then Some 0
        else
          (case quantity_field of
             None \<Rightarrow> Some 1
           | Some field \<Rightarrow> Option.bind (Option.bind (map_of (er_fields r) field) fv)
               (\<lambda>v. case v of VU64 n \<Rightarrow> Some n | _ \<Rightarrow> None))))"

lemma quantity_scan_row:
  "quantity_scan fv kind ff v q (r # rs) t =
     Option.bind (row_quantity fv kind ff v q r) (\<lambda>n.
       Option.bind (checked_add t n) (\<lambda>t. quantity_scan fv kind ff v q rs t))"
proof -
  have zero: "checked_add t 0 = Some t" using unsigned_less [of t] by (simp add: checked_add_def)
  show ?thesis
    by (cases "Option.bind (map_of (er_fields r) ff) fv"; cases q)
      (auto simp: row_quantity_def zero Option.bind_def split: option.splits val.splits)
qed

definition values_le :: "(fact \<Rightarrow> val option) \<Rightarrow> (fact \<Rightarrow> val option) \<Rightarrow> bool" where
  "values_le fv fv' \<longleftrightarrow> (\<forall>f v. fv f = Some v \<longrightarrow> fv' f = Some v)"

lemma values_le_bind: "values_le fv fv' \<Longrightarrow> Option.bind x fv = Some y \<Longrightarrow> Option.bind x fv' = Some y"
  by (cases x) (auto simp: values_le_def)

lemma row_quantity_refined:
  assumes "values_le fv fv'" and row: "row_quantity fv kind ff v q r = Some n"
  shows "row_quantity fv' kind ff v q r = Some n"
proof (cases "entity_kind_str (er_kind r) \<noteq> entity_kind_str kind")
  case True
  with row show ?thesis by (simp add: row_quantity_def)
next
  case False
  with row obtain sel where sel: "Option.bind (map_of (er_fields r) ff) fv = Some sel"
    by (cases "Option.bind (map_of (er_fields r) ff) fv") (auto simp: row_quantity_def split: if_splits)
  note sel' = values_le_bind [OF assms(1) sel]
  show ?thesis
  proof (cases q)
    case None
    with False row show ?thesis by (simp add: row_quantity_def sel sel' split: if_splits)
  next
    case (Some field)
    show ?thesis
    proof (cases "Option.bind (map_of (er_fields r) field) fv")
      case None
      with False row Some show ?thesis by (simp add: row_quantity_def sel sel' split: if_splits)
    next
      case (Some y)
      with False row \<open>q = Some field\<close> show ?thesis
        by (simp add: row_quantity_def sel sel' values_le_bind [OF assms(1) Some] split: if_splits)
    qed
  qed
qed

lemma quantity_scan_refined:
  assumes "values_le fv fv'"
  shows "quantity_scan fv kind ff v q rs t = Some n \<Longrightarrow> quantity_scan fv' kind ff v q rs t = Some n"
proof (induction rs arbitrary: t)
  case (Cons r rs)
  then show ?case
    using row_quantity_refined [OF assms] unfolding quantity_scan_row bind_eq_Some_conv by blast
qed simp

lemma quantity_truth_refined:
  assumes "values_le fv fv'"
  shows "truth_le (entity_quantity_truth s p fv) (entity_quantity_truth s p fv')"
proof -
  have "truth_le (truth_map_or (entity_quantity_total s k f v q fv) h) (truth_map_or (entity_quantity_total s k f v q fv') h)"
    for k f v q h
    using quantity_scan_refined [OF assms, of k f v q "map snd (wg_entities (ws_graph s))" 0]
    by (cases "entity_quantity_total s k f v q fv") (auto simp: entity_quantity_total_def truth_map_or_def)
  then show ?thesis
    by (cases p) (auto simp: entity_quantity_truth_def Let_def split: option.splits)
qed

subsection \<open>Evidence and the snapshot\<close>

text \<open>
  Kinds compare by their canonical names under evidence, and as values in a plain snapshot. The two
  agree when no custom kind carries a reserved name, as in every decoded snapshot.
\<close>

definition canonical_entity_kind :: "entity_kind \<Rightarrow> bool" where
  "canonical_entity_kind k \<longleftrightarrow> entity_kind_from_name (entity_kind_str k) = k"

definition canonical_edge_kind :: "edge_kind \<Rightarrow> bool" where
  "canonical_edge_kind k \<longleftrightarrow> edge_kind_from_name (edge_kind_str k) = k"

definition canonical_world :: "world_snapshot \<Rightarrow> bool" where
  "canonical_world s \<longleftrightarrow>
     (\<forall>e \<in> set (wg_entities (ws_graph s)). canonical_entity_kind (er_kind (snd e))) \<and>
     (\<forall>e \<in> set (wg_edges (ws_graph s)). canonical_edge_kind (ed_kind (snd e)))"

definition canonical_leaf :: "predicate \<Rightarrow> bool" where
  "canonical_leaf l \<longleftrightarrow>
     (case l of
        EntityKindIs _ k \<Rightarrow> canonical_entity_kind k
      | EdgeExists _ (Some k) \<Rightarrow> canonical_edge_kind k
      | _ \<Rightarrow> True)"

lemma canonical_kinds_eq:
  "canonical_entity_kind k \<Longrightarrow> canonical_entity_kind k' \<Longrightarrow> entity_kind_str k = entity_kind_str k' \<longleftrightarrow> k = k'"
  "canonical_edge_kind e \<Longrightarrow> canonical_edge_kind e' \<Longrightarrow> edge_kind_str e = edge_kind_str e' \<longleftrightarrow> e = e'"
  unfolding canonical_entity_kind_def canonical_edge_kind_def by metis+

lemma evidence_scan_iff:
  "evidence_region_scan ev c coords u = PFalse \<longleftrightarrow>
     (\<exists>p \<in> set coords. terrain_observed ev p \<and> tile_code_at (pe_snapshot ev) p \<notin> {None, Some c})"
  "evidence_region_scan ev c coords u = PTrue \<longleftrightarrow>
     \<not> u \<and> (\<forall>p \<in> set coords. terrain_observed ev p \<and> tile_code_at (pe_snapshot ev) p = Some c)"
  by (induction coords arbitrary: u) (auto split: option.splits)

lemma snapshot_scan_iff:
  "region_scan s c coords u = Differs \<longleftrightarrow> (\<exists>p \<in> set coords. tile_code_at s p \<notin> {None, Some c})"
  "region_scan s c coords u = Matches \<longleftrightarrow> \<not> u \<and> (\<forall>p \<in> set coords. tile_code_at s p = Some c)"
  by (induction coords arbitrary: u) (auto split: option.splits)

lemma region_refined:
  assumes "is_ok (validate_region area)"
  shows "truth_le (evidence_region_scan ev c (region_tiles area) False)
    (evaluate_truth (pe_snapshot ev) candidate (RegionTerrain area c))"
proof (cases "evidence_region_scan ev c (region_tiles area) False")
  case PTrue
  then have "region_terrain_truth (pe_snapshot ev) area c = Matches"
    using assms by (auto simp: evidence_scan_iff region_terrain_truth_def snapshot_scan_iff)
  then show ?thesis using PTrue by simp
next
  case PFalse
  then have "region_terrain_truth (pe_snapshot ev) area c = Differs"
    using assms by (auto simp: evidence_scan_iff region_terrain_truth_def snapshot_scan_iff)
  then show ?thesis using PFalse by simp
qed simp

lemma evidence_values_known: "values_le (evidence_fact_value ev) known_value"
  by (auto simp: values_le_def evidence_fact_value_def laboratory_fact_value_def split: if_splits)

lemma truth_map_refined:
  "values_le fv fv' \<Longrightarrow> truth_le (truth_map_or (Option.bind x fv) h) (truth_map_or (Option.bind x fv') h)"
  using values_le_bind [of fv fv' x] by (cases "Option.bind x fv") (auto simp: truth_map_or_def)

lemma target_none [simp]: "target_entity i None = i"
  by (simp add: target_entity_def)

lemma entity_observed_lookup:
  "entity_observed ev i \<Longrightarrow> i \<noteq> 0 \<and> (\<exists>r. map_of (wg_entities (ws_graph (pe_snapshot ev))) i = Some r)"
  by (auto simp: entity_observed_def split: option.splits)

lemma snapshot_refines_leaf:
  assumes "is_leaf l"
    and "canonical_world (pe_snapshot ev) \<and> canonical_leaf l \<and> is_ok (shape_leaf l no_work)"
  shows "truth_le (evaluate_validated ev l) (evaluate_truth (pe_snapshot ev) None l)"
proof (cases l)
  case (EntityExists i)
  then show ?thesis by (auto simp: bt_contains_def truth_from_bool_def)
next
  case (EntityKindIs i k)
  have "canonical_entity_kind (er_kind r)" if "map_of (wg_entities (ws_graph (pe_snapshot ev))) i = Some r" for r
    using assms(2) map_of_SomeD [OF that] by (auto simp: canonical_world_def)
  then show ?thesis
    using EntityKindIs assms(2)
    by (auto simp: canonical_leaf_def canonical_kinds_eq truth_from_bool_def split: option.splits)
next
  case (FieldCompare i field op v)
  then show ?thesis by (simp add: truth_map_refined evidence_values_known del: Option.bind_assoc)
next
  case (EdgeExists e kind)
  have "canonical_edge_kind (ed_kind r)" if "map_of (wg_edges (ws_graph (pe_snapshot ev))) e = Some r" for r
    using assms(2) map_of_SomeD [OF that] by (auto simp: canonical_world_def)
  then show ?thesis
    using EdgeExists assms(2)
    by (cases kind) (auto simp: canonical_leaf_def canonical_kinds_eq truth_from_bool_def split: option.splits)
next
  case (RegionTerrain area c)
  then have "is_ok (validate_region area)" using assms(2) by (auto simp: shape_leaf_def is_ok_iff)
  then show ?thesis unfolding RegionTerrain evaluate_validated.simps by (rule region_refined)
next
  case (Paused x7)
  then show ?thesis by (auto simp: truth_from_bool_def)
qed (use assms in \<open>simp_all add: quantity_truth_refined evidence_values_known is_leaf_def\<close>)

interpretation evidence_snapshot: evaluator_refinement "evaluate_validated ev" "evaluate_truth (pe_snapshot ev) None"
  "\<lambda>l. canonical_world (pe_snapshot ev) \<and> canonical_leaf l \<and> is_ok (shape_leaf l no_work)" for ev
  by unfold_locales (rule snapshot_refines_leaf)

text \<open>
  C33: Evidence never contradicts the snapshot. When an evaluation under evidence answers true or
  false, the evaluation over the whole snapshot gives the same answer, whatever sources, kinds and
  regions the policy grants; only unknowns can differ. The worlds and predicates are those without
  custom kinds that carry a reserved name.
\<close>
theorem evidence_sound_for_snapshot:
  assumes "evidence_evaluate ev p = Ok t" "t \<noteq> PUnknown"
    and "canonical_world (pe_snapshot ev)" "\<forall>l \<in> set (leaves p). canonical_leaf l"
  shows "evaluate_truth (pe_snapshot ev) None p = t"
proof -
  have shape: "validate_predicate_shape p = Ok ()" and t: "t = evaluate_validated ev p"
    using assms(1) by (auto simp: evidence_evaluate_def)
  then have "truth_le t (evaluate_truth (pe_snapshot ev) None p)"
    unfolding t using assms(3,4) by (intro evidence_snapshot.refined) (auto simp: validate_shape_Ok)
  then show ?thesis using assms(2) by (auto simp: truth_le_def)
qed

subsection \<open>More evidence\<close>

definition coverage_le :: "evidence_coverage \<Rightarrow> evidence_coverage \<Rightarrow> bool" where
  "coverage_le c c' \<longleftrightarrow> c = CoverageUnknown \<or> c = c' \<or> c' = CoverageComplete"

lemma coverage_le_grants:
  "coverage_le c c' \<Longrightarrow> observes_members c \<Longrightarrow> observes_members c'"
  "coverage_le c c' \<Longrightarrow> proves_absence c \<Longrightarrow> proves_absence c'"
  by (auto simp: coverage_le_def observes_members_def proves_absence_def)

definition evidence_le :: "predicate_evidence \<Rightarrow> predicate_evidence \<Rightarrow> bool" where
  "evidence_le ev ev' \<longleftrightarrow>
     pe_snapshot ev = pe_snapshot ev' \<and> pe_laboratory ev = pe_laboratory ev' \<and>
     set (ep_sources (pe_policy ev)) \<subseteq> set (ep_sources (pe_policy ev')) \<and>
     coverage_le (ep_all_entities (pe_policy ev)) (ep_all_entities (pe_policy ev')) \<and>
     (\<forall>k. coverage_le (entity_kind_coverage ev k) (entity_kind_coverage ev' k)) \<and>
     coverage_le (ep_all_edges (pe_policy ev)) (ep_all_edges (pe_policy ev')) \<and>
     (\<forall>k. coverage_le (edge_kind_coverage ev k) (edge_kind_coverage ev' k)) \<and>
     (ep_paused (pe_policy ev) \<longrightarrow> ep_paused (pe_policy ev')) \<and>
     set (ep_terrain_regions (pe_policy ev)) \<subseteq> set (ep_terrain_regions (pe_policy ev'))"

lemma evidence_le_observes:
  assumes "evidence_le ev ev'"
  shows "entity_observed ev i \<Longrightarrow> entity_observed ev' i"
    and "entity_absence_complete ev k \<Longrightarrow> entity_absence_complete ev' k"
    and "edge_absence_complete ev ek \<Longrightarrow> edge_absence_complete ev' ek"
    and "observes_members (edge_kind_coverage ev ed) \<Longrightarrow> observes_members (edge_kind_coverage ev' ed)"
    and "observes_members (ep_all_edges (pe_policy ev)) \<Longrightarrow> observes_members (ep_all_edges (pe_policy ev'))"
    and "terrain_observed ev p \<Longrightarrow> terrain_observed ev' p"
proof -
  have le: "coverage_le (ep_all_entities (pe_policy ev)) (ep_all_entities (pe_policy ev'))"
    "\<And>k. coverage_le (entity_kind_coverage ev k) (entity_kind_coverage ev' k)"
    "coverage_le (ep_all_edges (pe_policy ev)) (ep_all_edges (pe_policy ev'))"
    "\<And>k. coverage_le (edge_kind_coverage ev k) (edge_kind_coverage ev' k)"
    and same: "pe_snapshot ev' = pe_snapshot ev" "pe_laboratory ev' = pe_laboratory ev"
    and regions: "set (ep_terrain_regions (pe_policy ev)) \<subseteq> set (ep_terrain_regions (pe_policy ev'))"
    using assms by (simp_all add: evidence_le_def)
  note observes = le [THEN coverage_le_grants(1)] and absence = le [THEN coverage_le_grants(2)]
  show "entity_observed ev i \<Longrightarrow> entity_observed ev' i"
    using observes(1,2) by (auto simp: entity_observed_def same split: option.splits)
  show "entity_absence_complete ev k \<Longrightarrow> entity_absence_complete ev' k"
    using absence(1,2) by (auto simp: entity_absence_complete_def split: option.splits)
  show "edge_absence_complete ev ek \<Longrightarrow> edge_absence_complete ev' ek"
    using absence(3,4) by (auto simp: edge_absence_complete_def split: option.splits)
  show "observes_members (edge_kind_coverage ev ed) \<Longrightarrow> observes_members (edge_kind_coverage ev' ed)"
    by (rule observes(4))
  show "observes_members (ep_all_edges (pe_policy ev)) \<Longrightarrow> observes_members (ep_all_edges (pe_policy ev'))"
    by (rule observes(3))
  show "terrain_observed ev p \<Longrightarrow> terrain_observed ev' p"
    using regions by (auto simp: terrain_observed_def same list_ex_iff)
qed

lemma evidence_le_values: "evidence_le ev ev' \<Longrightarrow> values_le (evidence_fact_value ev) (evidence_fact_value ev')"
  by (auto simp: evidence_le_def values_le_def evidence_fact_value_def list_ex_iff split: if_splits)

lemma evidence_scan_refined:
  assumes "evidence_le ev ev'"
  shows "truth_le (evidence_region_scan ev c ps u) (evidence_region_scan ev' c ps u)"
proof -
  have same: "pe_snapshot ev = pe_snapshot ev'" using assms by (simp add: evidence_le_def)
  have "evidence_region_scan ev c ps u = PTrue \<Longrightarrow> evidence_region_scan ev' c ps u = PTrue"
    "evidence_region_scan ev c ps u = PFalse \<Longrightarrow> evidence_region_scan ev' c ps u = PFalse"
    unfolding evidence_scan_iff same using evidence_le_observes(6) [OF assms] by blast+
  then show ?thesis by (cases "evidence_region_scan ev c ps u") simp_all
qed

lemma evidence_refines_leaf:
  assumes "is_leaf l" "evidence_le ev ev'"
  shows "truth_le (evaluate_validated ev l) (evaluate_validated ev' l)"
proof -
  have same: "pe_snapshot ev' = pe_snapshot ev" "pe_laboratory ev' = pe_laboratory ev"
    "ep_paused (pe_policy ev) \<longrightarrow> ep_paused (pe_policy ev')"
    using assms(2) by (simp_all add: evidence_le_def)
  note grants = evidence_le_observes [OF assms(2)] and vals = evidence_le_values [OF assms(2)]
  show ?thesis
  proof (cases l)
    case (FieldCompare i field op v)
    then show ?thesis
      using grants(1) [of i] by (simp add: same truth_map_refined vals del: Option.bind_assoc)
  next
    case (EntityQuantity x1 x2 x3 x4 x5 x6)
    then show ?thesis using grants(2) [of "Some x1"] by (simp add: same quantity_truth_refined vals)
  next
    case (EntityQuantityIncrease x1 x2 x3 x4 x5 x6 x7 x8 x9 x10)
    then show ?thesis using grants(2) [of "Some x1"] by (simp add: same quantity_truth_refined vals)
  next
    case (EdgeExists e kind)
    then show ?thesis using grants(1,3,4,5) by (auto simp: same split: option.splits)
  next
    case (RegionTerrain area c)
    then show ?thesis by (simp add: evidence_scan_refined assms(2))
  qed (use assms(1) grants(1,2) same in \<open>auto simp: is_leaf_def split: option.splits\<close>)
qed

interpretation evidence_growth: evaluator_refinement "evaluate_validated ev" "evaluate_validated ev'" "\<lambda>_. evidence_le ev ev'"
  for ev ev'
  by unfold_locales (rule evidence_refines_leaf)

text \<open>
  Granting more never overturns an answer. If one evidence scope over a snapshot answers a
  predicate with true or false, every scope over the same snapshot with at least its sources, kind
  coverage, pause and terrain grants gives the same answer.
\<close>
theorem evidence_growth_keeps_answers:
  assumes "evidence_evaluate ev p = Ok t" "t \<noteq> PUnknown" "evidence_le ev ev'"
  shows "evidence_evaluate ev' p = Ok t"
proof -
  have "truth_le (evaluate_validated ev p) (evaluate_validated ev' p)"
    using assms(3) by (intro evidence_growth.refined) simp
  moreover have "pe_snapshot ev' = pe_snapshot ev" using assms(3) by (simp add: evidence_le_def)
  ultimately show ?thesis
    using assms(1,2) by (auto simp: evidence_evaluate_def truth_le_def)
qed

subsection \<open>Concrete evidence\<close>

definition sample_evidence :: predicate_evidence where
  "sample_evidence =
     \<lparr>pe_snapshot = sample_lab_world,
      pe_policy = (policy_at (snapshot_anchor sample_lab_world))\<lparr>ep_entity_kinds := [(EkUnit, CoverageObserved)]\<rparr>,
      pe_laboratory = True\<rparr>"

definition sample_grown_evidence :: predicate_evidence where
  "sample_grown_evidence =
     sample_evidence\<lparr>pe_policy := (pe_policy sample_evidence)\<lparr>ep_all_entities := CoverageComplete\<rparr>\<rparr>"

definition sample_alive :: predicate where
  "sample_alive = FieldCompare 5 ''alive'' CmpEq (VBool True)"

lemma sample_evidence_answer: "evidence_evaluate sample_evidence sample_alive = Ok PTrue"
proof -
  have "shape_leaf sample_alive no_work = Ok no_work"
    by (simp add: sample_alive_def shape_leaf_def max_query_field_bytes_def validate_query_value_Ok
        max_query_value_depth_def max_query_value_nodes_def)
  then have "validate_predicate_shape sample_alive = Ok ()"
    unfolding validate_shape_Ok
    by (simp add: sample_alive_def leaf_load_def no_work_def within_limits_def max_query_predicate_depth_def
        max_query_predicate_nodes_def)
  moreover have "evaluate_validated sample_evidence sample_alive = PTrue"
    by (simp add: sample_alive_def sample_evidence_def entity_observed_def sample_lab_defs world_snapshot_new_def refresh_hash_def
        entity_kind_coverage_def observes_members_def evidence_fact_value_def laboratory_fact_value_def fact_known_def
        known_value_def truth_map_or_def compare_values_def policy_at_def)
  ultimately show ?thesis
    by (simp add: evidence_evaluate_def validate_quantity_work_def sample_alive_def)
qed

theorem evidence_sound_for_snapshot_witness: "evaluate_truth sample_lab_world None sample_alive = PTrue"
proof -
  have snapshot: "pe_snapshot sample_evidence = sample_lab_world" by (simp add: sample_evidence_def)
  have "canonical_world (pe_snapshot sample_evidence)"
    by (simp add: snapshot canonical_world_def canonical_entity_kind_def sample_lab_defs world_snapshot_new_def
        refresh_hash_def entity_kind_from_name_def entity_kind_names_def)
  moreover have "\<forall>l \<in> set (leaves sample_alive). canonical_leaf l"
    by (simp add: sample_alive_def canonical_leaf_def)
  ultimately show ?thesis
    using evidence_sound_for_snapshot [OF sample_evidence_answer] snapshot by simp
qed

theorem evidence_growth_keeps_answers_witness: "evidence_evaluate sample_grown_evidence sample_alive = Ok PTrue"
proof -
  have "evidence_le sample_evidence sample_grown_evidence"
    by (simp add: evidence_le_def sample_grown_evidence_def coverage_le_def entity_kind_coverage_def edge_kind_coverage_def)
  then show ?thesis using evidence_growth_keeps_answers [OF sample_evidence_answer] by simp
qed

text \<open>
  Without the condition on kind names the plain evaluation tells apart two snapshots with the same
  canonical bytes: a unit, and an entity whose custom kind is spelled \<^verbatim>\<open>unit\<close>.
\<close>

definition aliased_world :: "entity_kind \<Rightarrow> world_snapshot" where
  "aliased_world kind = world_snapshot_new 7 100 (ObservationCursor 1 1) True
     (empty_graph\<lparr>wg_entities := [(5, sample_lab_unit\<lparr>er_kind := kind\<rparr>)]\<rparr>)"

lemma kind_alias_splits_equal_worlds:
  "snapshot_canonical_bytes (aliased_world EkUnit) = snapshot_canonical_bytes (aliased_world (EkOther ''unit'')) \<and>
   evaluate_truth (aliased_world EkUnit) None (EntityKindIs 5 EkUnit) = PTrue \<and>
   evaluate_truth (aliased_world (EkOther ''unit'')) None (EntityKindIs 5 EkUnit) = PFalse"
  by (simp add: aliased_world_def world_snapshot_new_def refresh_hash_def snapshot_canonical_bytes_def enc_graph_def
      enc_entity_def empty_graph_def put_list_def truth_from_bool_def)

end
