(* ===== verification/Obligations.thy ===== *)
theory Obligations
  imports Evidence "HOL-Library.Sublist"
begin

text \<open>
  \<^verbatim>\<open>crates/dfmcp-intent/src/obligation.rs\<close> with its modules \<^verbatim>\<open>drain\<close> and \<^verbatim>\<open>recovery\<close>: obligations that wait for
  a predicate to hold over a window of samples before a deadline, their cancellation by a counted
  drain, and their recovery after a restart. All theorems are about every run of the runtime.
\<close>

type_synonym action_id = u128

subsection \<open>Data\<close>

record obligation_spec =
  os_terminal :: predicate
  os_failure :: "predicate option"
  os_deadline_tick :: game_tick
  os_poll_interval_ticks :: u64
  os_stable_for_observations :: u32

datatype evidence_kind =
    EvObservation | EvAdapterReceipt | EvPostcondition | EvCheckpoint | EvReplay | EvDiagnostic | EvHumanConfirmation

record evidence_item =
  ei_id :: u128
  ei_kind :: evidence_kind
  ei_subject :: "entity_id option"
  ei_anchor :: state_anchor
  ei_digest :: digest32
  ei_summary :: string

record drain_certificate =
  dc_action_id :: action_id
  dc_drain_started_tick :: game_tick
  dc_current_tick :: game_tick
  dc_steps_compensated :: nat
  dc_steps_remaining :: nat
  dc_is_quiescent :: bool

datatype obligation_status =
    Pending
  | Active u64 u32
  | Fulfilled game_tick "evidence_item list"
  | Failed game_tick string
  | Draining game_tick
  | Cancelled game_tick

record bounded_obligation =
  bo_action_id :: action_id
  bo_spec :: obligation_spec
  bo_status :: obligation_status
  bo_registered_tick :: game_tick
  bo_last_evaluated_tick :: "game_tick option"

record obligation_runtime =
  or_obligations :: "(action_id, bounded_obligation) btree_map"
  or_observation_anchors :: "(action_id, state_anchor) btree_map"
  or_drain_progress :: "(action_id, drain_certificate) btree_map"

definition max_tracked_obligations :: nat where
  "max_tracked_obligations = 65536"

definition runtime_new :: obligation_runtime where
  "runtime_new = \<lparr>or_obligations = [], or_observation_anchors = [], or_drain_progress = []\<rparr>"

fun is_active :: "obligation_status \<Rightarrow> bool" where
  "is_active (Active _ _) \<longleftrightarrow> True"
| "is_active _ \<longleftrightarrow> False"

subsection \<open>Registration\<close>

definition trivial_predicate :: "predicate \<Rightarrow> bool" where
  "trivial_predicate p \<longleftrightarrow> p = PrTrue \<or> p = PrFalse"

definition prepare_spec :: "obligation_spec \<Rightarrow> obligation_spec res" where
  "prepare_spec spec =
     and_then (validate_predicate_shape (os_terminal spec)) (\<lambda>_.
     let spec = spec\<lparr>os_terminal := normalized (os_terminal spec)\<rparr> in
     if trivial_predicate (os_terminal spec) then fail InvalidRequest
     else
       (case os_failure spec of
          None \<Rightarrow> Ok spec
        | Some failure \<Rightarrow>
            and_then (validate_predicate_shape failure) (\<lambda>_.
              let failure = normalized failure in
              if trivial_predicate failure then fail InvalidRequest
              else if failure = os_terminal spec then fail InvalidRequest
              else Ok (spec\<lparr>os_failure := Some failure\<rparr>))))"

definition register_obligation ::
    "action_id \<Rightarrow> obligation_spec \<Rightarrow> game_tick \<Rightarrow> obligation_runtime \<Rightarrow> obligation_runtime \<times> unit res" where
  "register_obligation action_id spec current_tick rt =
     (if action_id = 0 then (rt, fail InvalidRequest)
      else
        (case prepare_spec spec of
           Err e \<Rightarrow> (rt, Err e)
         | Ok spec \<Rightarrow>
             if os_deadline_tick spec \<le> current_tick \<or> os_poll_interval_ticks spec = 0
                \<or> os_stable_for_observations spec = 0
             then (rt, fail InvalidRequest)
             else if bt_contains action_id (or_obligations rt) then (rt, fail Conflict)
             else if length (or_obligations rt) \<ge> max_tracked_obligations then (rt, fail BudgetExceeded)
             else
               (rt\<lparr>or_obligations := bt_insert action_id
                  \<lparr>bo_action_id = action_id, bo_spec = spec, bo_status = Active 0 0,
                   bo_registered_tick = current_tick, bo_last_evaluated_tick = None\<rparr> (or_obligations rt)\<rparr>,
                Ok ())))"

definition register_obligation_at ::
    "action_id \<Rightarrow> obligation_spec \<Rightarrow> world_snapshot \<Rightarrow> obligation_runtime \<Rightarrow> obligation_runtime \<times> unit res" where
  "register_obligation_at action_id spec s rt =
     (if \<not> hash_is_valid s then (rt, fail ChecksumMismatch)
      else
        (case register_obligation action_id spec (ws_tick s) rt of
           (rt, Err e) \<Rightarrow> (rt, Err e)
         | (rt, Ok _) \<Rightarrow>
             (rt\<lparr>or_observation_anchors :=
                bt_insert action_id (snapshot_anchor s) (or_observation_anchors rt)\<rparr>, Ok ())))"

definition observation_interrupted :: "action_id \<Rightarrow> obligation_runtime \<Rightarrow> obligation_runtime \<times> unit res" where
  "observation_interrupted action_id rt =
     (case map_of (or_obligations rt) action_id of
        None \<Rightarrow> (rt, fail InvalidRequest)
      | Some ob \<Rightarrow>
          (case bo_status ob of
             Active elapsed _ \<Rightarrow>
               (rt\<lparr>or_obligations :=
                  bt_insert action_id (ob\<lparr>bo_status := Active elapsed 0\<rparr>) (or_obligations rt)\<rparr>, Ok ())
           | _ \<Rightarrow> (rt, Ok ())))"

definition last_observation_anchor :: "action_id \<Rightarrow> obligation_runtime \<Rightarrow> state_anchor option" where
  "last_observation_anchor action_id rt = map_of (or_observation_anchors rt) action_id"

subsection \<open>Observation\<close>

definition anchor_regresses :: "state_anchor \<Rightarrow> state_anchor \<Rightarrow> bool" where
  "anchor_regresses incoming previous \<longleftrightarrow>
     sa_fortress_id incoming \<noteq> sa_fortress_id previous
     \<or> cur_epoch (sa_cursor incoming) \<noteq> cur_epoch (sa_cursor previous)
     \<or> cur_sequence (sa_cursor incoming) < cur_sequence (sa_cursor previous)
     \<or> sa_tick incoming < sa_tick previous
     \<or> (sa_cursor incoming = sa_cursor previous \<and> incoming \<noteq> previous)"

definition judge :: "predicate_evidence \<Rightarrow> obligation_spec \<Rightarrow> (predicate_truth \<times> bool) res" where
  "judge ev spec =
     and_then (case os_failure spec of None \<Rightarrow> Ok PFalse | Some p \<Rightarrow> evidence_evaluate ev p) (\<lambda>failure.
     and_then (evidence_establishes ev (os_terminal spec)) (\<lambda>established.
       Ok (failure, established \<and> failure = PFalse)))"

definition check_obligation ::
    "predicate_evidence \<Rightarrow> obligation_runtime \<Rightarrow> bounded_obligation \<Rightarrow> (predicate_truth \<times> bool) res" where
  "check_obligation ev rt ob =
     (let tick = ws_tick (pe_snapshot ev); incoming = snapshot_anchor (pe_snapshot ev) in
      if tick < bo_registered_tick ob
         \<or> (case bo_last_evaluated_tick ob of None \<Rightarrow> False | Some last_tick \<Rightarrow> tick < last_tick)
      then fail StaleAnchor
      else if (case map_of (or_observation_anchors rt) (bo_action_id ob) of
                 None \<Rightarrow> False | Some previous \<Rightarrow> anchor_regresses incoming previous)
      then fail StaleAnchor
      else judge ev (bo_spec ob))"

fun check_batch ::
    "predicate_evidence \<Rightarrow> obligation_runtime \<Rightarrow> (action_id \<times> bounded_obligation) list \<Rightarrow>
     (action_id, predicate_truth \<times> bool) btree_map \<Rightarrow> (action_id, predicate_truth \<times> bool) btree_map res" where
  "check_batch ev rt [] predicates = Ok predicates"
| "check_batch ev rt ((_, ob) # obs) predicates =
     (if \<not> is_active (bo_status ob) then check_batch ev rt obs predicates
      else and_then (check_obligation ev rt ob) (\<lambda>judged.
        check_batch ev rt obs (bt_insert (bo_action_id ob) judged predicates)))"

definition sample_due :: "game_tick \<Rightarrow> bounded_obligation \<Rightarrow> bool" where
  "sample_due tick ob \<longleftrightarrow>
     bo_last_evaluated_tick ob \<noteq> Some tick \<and>
     (saturating_sub tick (case bo_last_evaluated_tick ob of None \<Rightarrow> bo_registered_tick ob | Some t \<Rightarrow> t)
        \<ge> os_poll_interval_ticks (bo_spec ob)
      \<or> tick = os_deadline_tick (bo_spec ob))"

definition advance ::
    "world_snapshot \<Rightarrow> predicate_truth \<times> bool \<Rightarrow> u32 \<Rightarrow> bounded_obligation \<Rightarrow> bounded_obligation" where
  "advance s judged previous_stable ob =
     (let tick = ws_tick s; failure = fst judged; satisfied = snd judged;
          deadline = os_deadline_tick (bo_spec ob)
      in if failure = PTrue
         then ob\<lparr>bo_status := Failed tick ''obligation failure predicate triggered''\<rparr>
         else if tick > deadline
         then ob\<lparr>bo_status := Failed tick (''obligation deadline tick '' @ show_nat (unat deadline) @ '' was missed'')\<rparr>
         else
           (let due = sample_due tick ob;
                next_stable = (if \<not> satisfied then 0
                  else if due then saturating_add previous_stable 1 else previous_stable);
                ob = (if due then ob\<lparr>bo_last_evaluated_tick := Some tick\<rparr> else ob)
            in ob\<lparr>bo_status :=
                 (if due \<and> satisfied \<and> next_stable \<ge> os_stable_for_observations (bo_spec ob)
                  then Fulfilled tick
                    [\<lparr>ei_id = bo_action_id ob, ei_kind = EvPostcondition, ei_subject = None,
                      ei_anchor = snapshot_anchor s, ei_digest = ws_state_hash s,
                      ei_summary = ''obligation terminal predicate stability window satisfied''\<rparr>]
                  else if tick \<ge> deadline
                  then Failed tick (''obligation deadline tick '' @ show_nat (unat deadline) @
                    '' reached without fulfilling terminal predicate stability'')
                  else Active (saturating_sub tick (bo_registered_tick ob)) next_stable)\<rparr>))"

definition advance_entry ::
    "world_snapshot \<Rightarrow> (action_id, predicate_truth \<times> bool) btree_map \<Rightarrow> bounded_obligation \<Rightarrow> bounded_obligation" where
  "advance_entry s predicates ob =
     (case bo_status ob of
        Active _ previous_stable \<Rightarrow>
          advance s (case map_of predicates (bo_action_id ob) of None \<Rightarrow> (PUnknown, False) | Some v \<Rightarrow> v)
            previous_stable ob
      | _ \<Rightarrow> ob)"

definition step_tick_with_evidence :: "predicate_evidence \<Rightarrow> obligation_runtime \<Rightarrow> obligation_runtime \<times> unit res" where
  "step_tick_with_evidence ev rt =
     (let s = pe_snapshot ev in
      if \<not> hash_is_valid s then (rt, fail ChecksumMismatch)
      else
        (case check_batch ev rt (or_obligations rt) [] of
           Err e \<Rightarrow> (rt, Err e)
         | Ok predicates \<Rightarrow>
             (rt\<lparr>or_obligations := map (\<lambda>(k, ob). (k, advance_entry s predicates ob)) (or_obligations rt),
                 or_observation_anchors :=
                   fold (\<lambda>(_, ob) anchors.
                     if is_active (bo_status ob) then bt_insert (bo_action_id ob) (snapshot_anchor s) anchors
                     else anchors) (or_obligations rt) (or_observation_anchors rt)\<rparr>,
              Ok ())))"

definition step_tick :: "world_snapshot \<Rightarrow> obligation_runtime \<Rightarrow> obligation_runtime \<times> unit res" where
  "step_tick s rt =
     (case evidence_untrusted s of Err e \<Rightarrow> (rt, Err e) | Ok ev \<Rightarrow> step_tick_with_evidence ev rt)"

definition step_tick_laboratory :: "world_snapshot \<Rightarrow> obligation_runtime \<Rightarrow> obligation_runtime \<times> unit res" where
  "step_tick_laboratory s rt =
     (case evidence_laboratory s of Err e \<Rightarrow> (rt, Err e) | Ok ev \<Rightarrow> step_tick_with_evidence ev rt)"

definition get_status :: "action_id \<Rightarrow> obligation_runtime \<Rightarrow> obligation_status option" where
  "get_status action_id rt = map_option bo_status (map_of (or_obligations rt) action_id)"

definition obligation_count :: "obligation_runtime \<Rightarrow> nat" where
  "obligation_count rt = length (or_obligations rt)"

subsection \<open>Cancellation\<close>

definition max_drain_steps :: nat where
  "max_drain_steps = 65536"

definition total_steps :: "drain_certificate \<Rightarrow> nat res" where
  "total_steps c =
     (let n = dc_steps_compensated c + dc_steps_remaining c
      in if n \<le> max_drain_steps then Ok n else fail CancellationIncomplete)"

definition request_cancel_with_steps ::
    "action_id \<Rightarrow> game_tick \<Rightarrow> nat \<Rightarrow> obligation_runtime \<Rightarrow> obligation_runtime \<times> unit res" where
  "request_cancel_with_steps action_id current_tick steps_to_compensate rt =
     (if steps_to_compensate > max_drain_steps then (rt, fail BudgetExceeded)
      else
        (case map_of (or_obligations rt) action_id of
           None \<Rightarrow> (rt, fail InvalidRequest)
         | Some ob \<Rightarrow>
             if current_tick < bo_registered_tick ob
                \<or> (case bo_last_evaluated_tick ob of None \<Rightarrow> False | Some t \<Rightarrow> current_tick < t)
                \<or> (case map_of (or_observation_anchors rt) action_id of
                     None \<Rightarrow> False | Some anchor \<Rightarrow> current_tick < sa_tick anchor)
             then (rt, fail StaleAnchor)
             else
               (case (case map_of (or_drain_progress rt) action_id of
                        None \<Rightarrow> Ok ()
                      | Some previous \<Rightarrow>
                          and_then (total_steps previous) (\<lambda>n.
                            if n \<noteq> steps_to_compensate then fail Conflict
                            else if current_tick < dc_current_tick previous then fail StaleAnchor
                            else Ok ())) of
                  Err e \<Rightarrow> (rt, Err e)
                | Ok _ \<Rightarrow>
                    (case bo_status ob of
                       Active _ _ \<Rightarrow>
                         (rt\<lparr>or_drain_progress := bt_insert action_id
                               \<lparr>dc_action_id = action_id, dc_drain_started_tick = current_tick,
                                dc_current_tick = current_tick, dc_steps_compensated = 0,
                                dc_steps_remaining = steps_to_compensate, dc_is_quiescent = False\<rparr>
                               (or_drain_progress rt),
                             or_obligations := bt_insert action_id (ob\<lparr>bo_status := Draining current_tick\<rparr>)
                               (or_obligations rt)\<rparr>, Ok ())
                     | Draining _ \<Rightarrow> (rt, Ok ())
                     | Cancelled _ \<Rightarrow> (rt, Ok ())
                     | Fulfilled _ _ \<Rightarrow> (rt, fail InvalidRequest)
                     | Failed _ _ \<Rightarrow> (rt, fail InvalidRequest)
                     | Pending \<Rightarrow> (rt, fail Conflict)))))"

definition request_cancel :: "action_id \<Rightarrow> game_tick \<Rightarrow> obligation_runtime \<Rightarrow> obligation_runtime \<times> unit res" where
  "request_cancel action_id current_tick rt =
     (case (case map_of (or_drain_progress rt) action_id of None \<Rightarrow> Ok 0 | Some progress \<Rightarrow> total_steps progress) of
        Err e \<Rightarrow> (rt, Err e)
      | Ok steps \<Rightarrow> request_cancel_with_steps action_id current_tick steps rt)"

text \<open>
  The two totals of a certificate and its predecessor are computed inside the condition of the
  refusal, after the tests on ticks; an error of either is the refusal itself.
\<close>

definition progress_accepted :: "game_tick \<Rightarrow> drain_certificate \<Rightarrow> drain_certificate \<Rightarrow> bool" where
  "progress_accepted drain_started_tick previous c \<longleftrightarrow>
     dc_drain_started_tick c = drain_started_tick \<and> drain_started_tick \<le> dc_current_tick c \<and>
     dc_current_tick previous \<le> dc_current_tick c \<and>
     is_ok (total_steps c) \<and> is_ok (total_steps previous) \<and> total_steps c = total_steps previous \<and>
     dc_steps_compensated previous \<le> dc_steps_compensated c \<and> dc_steps_remaining c \<le> dc_steps_remaining previous \<and>
     (dc_is_quiescent c \<longrightarrow> dc_steps_remaining c = 0) \<and> (dc_is_quiescent previous \<longrightarrow> dc_is_quiescent c)"

definition record_drain_progress :: "drain_certificate \<Rightarrow> obligation_runtime \<Rightarrow> obligation_runtime \<times> unit res" where
  "record_drain_progress c rt =
     (case map_of (or_obligations rt) (dc_action_id c) of
        None \<Rightarrow> (rt, fail InvalidRequest)
      | Some ob \<Rightarrow>
          (case map_of (or_drain_progress rt) (dc_action_id c) of
             None \<Rightarrow> (rt, fail Conflict)
           | Some previous \<Rightarrow>
               (case bo_status ob of
                  Draining drain_started_tick \<Rightarrow>
                    if \<not> progress_accepted drain_started_tick previous c then (rt, fail CancellationIncomplete)
                    else (rt\<lparr>or_drain_progress := bt_insert (dc_action_id c) c (or_drain_progress rt)\<rparr>, Ok ())
                | Cancelled _ \<Rightarrow> if previous = c then (rt, Ok ()) else (rt, fail Conflict)
                | _ \<Rightarrow> (rt, fail Conflict))))"

definition get_drain_progress :: "action_id \<Rightarrow> obligation_runtime \<Rightarrow> drain_certificate option" where
  "get_drain_progress action_id rt = map_of (or_drain_progress rt) action_id"

definition finalize_cancel ::
    "action_id \<Rightarrow> game_tick \<Rightarrow> drain_certificate \<Rightarrow> obligation_runtime \<Rightarrow> obligation_runtime \<times> unit res" where
  "finalize_cancel action_id current_tick c rt =
     (case map_of (or_obligations rt) action_id of
        None \<Rightarrow> (rt, fail InvalidRequest)
      | Some ob \<Rightarrow>
          (let identity_matches =
             (dc_action_id c = action_id \<and> dc_current_tick c = current_tick \<and>
              map_of (or_drain_progress rt) action_id = Some c)
           in case bo_status ob of
                Draining drain_started_tick \<Rightarrow>
                  if identity_matches \<and> dc_drain_started_tick c = drain_started_tick \<and>
                     current_tick \<ge> drain_started_tick \<and> dc_is_quiescent c \<and> dc_steps_remaining c = 0
                  then (rt\<lparr>or_obligations :=
                          bt_insert action_id (ob\<lparr>bo_status := Cancelled current_tick\<rparr>) (or_obligations rt)\<rparr>, Ok ())
                  else (rt, fail CancellationIncomplete)
              | Cancelled cancelled_at_tick \<Rightarrow>
                  if identity_matches \<and> current_tick = cancelled_at_tick then (rt, Ok ())
                  else (rt, fail CancellationIncomplete)
              | _ \<Rightarrow> (rt, fail Conflict)))"

subsection \<open>Recovery\<close>

record recovered_obligation =
  ro_runtime :: obligation_runtime
  ro_action_id :: action_id
  ro_recovery_anchor :: state_anchor

definition recover_with_evidence ::
    "action_id \<Rightarrow> obligation_spec \<Rightarrow> game_tick \<Rightarrow> predicate_evidence \<Rightarrow> recovered_obligation res" where
  "recover_with_evidence action_id spec registered_tick ev =
     (let frontier = pe_snapshot ev in
      if \<not> hash_is_valid frontier then fail ChecksumMismatch
      else if ws_tick frontier < registered_tick then fail StaleAnchor
      else
        (case register_obligation action_id spec registered_tick runtime_new of
           (_, Err e) \<Rightarrow> Err e
         | (rt, Ok _) \<Rightarrow>
             let rt = rt\<lparr>or_observation_anchors :=
                   bt_insert action_id (snapshot_anchor frontier) (or_observation_anchors rt)\<rparr>;
                 rt = (case map_of (or_obligations rt) action_id of
                         None \<Rightarrow> rt
                       | Some ob \<Rightarrow>
                           rt\<lparr>or_obligations := bt_insert action_id
                             (ob\<lparr>bo_last_evaluated_tick := Some (ws_tick frontier),
                                bo_status := Active (saturating_sub (ws_tick frontier) registered_tick) 0\<rparr>)
                             (or_obligations rt)\<rparr>)
             in (case step_tick_with_evidence ev rt of
                   (_, Err e) \<Rightarrow> Err e
                 | (rt, Ok _) \<Rightarrow>
                     Ok \<lparr>ro_runtime = rt, ro_action_id = action_id, ro_recovery_anchor = snapshot_anchor frontier\<rparr>)))"

definition recover_new :: "action_id \<Rightarrow> obligation_spec \<Rightarrow> game_tick \<Rightarrow> world_snapshot \<Rightarrow> recovered_obligation res" where
  "recover_new action_id spec registered_tick frontier =
     and_then (evidence_untrusted frontier) (\<lambda>ev. recover_with_evidence action_id spec registered_tick ev)"

definition recover_new_laboratory ::
    "action_id \<Rightarrow> obligation_spec \<Rightarrow> game_tick \<Rightarrow> world_snapshot \<Rightarrow> recovered_obligation res" where
  "recover_new_laboratory action_id spec registered_tick frontier =
     and_then (evidence_laboratory frontier) (\<lambda>ev. recover_with_evidence action_id spec registered_tick ev)"

definition recovered_observe ::
    "predicate_evidence \<Rightarrow> recovered_obligation \<Rightarrow> recovered_obligation \<times> unit res" where
  "recovered_observe ev r =
     (case step_tick_with_evidence ev (ro_runtime r) of (rt, res) \<Rightarrow> (r\<lparr>ro_runtime := rt\<rparr>, res))"

definition recovered_observe_untrusted ::
    "world_snapshot \<Rightarrow> recovered_obligation \<Rightarrow> recovered_obligation \<times> unit res" where
  "recovered_observe_untrusted s r =
     (case step_tick s (ro_runtime r) of (rt, res) \<Rightarrow> (r\<lparr>ro_runtime := rt\<rparr>, res))"

definition recovered_observe_laboratory ::
    "world_snapshot \<Rightarrow> recovered_obligation \<Rightarrow> recovered_obligation \<times> unit res" where
  "recovered_observe_laboratory s r =
     (case step_tick_laboratory s (ro_runtime r) of (rt, res) \<Rightarrow> (r\<lparr>ro_runtime := rt\<rparr>, res))"

definition recovered_interrupted :: "recovered_obligation \<Rightarrow> recovered_obligation \<times> unit res" where
  "recovered_interrupted r =
     (case observation_interrupted (ro_action_id r) (ro_runtime r) of (rt, res) \<Rightarrow> (r\<lparr>ro_runtime := rt\<rparr>, res))"

definition recovered_status :: "recovered_obligation \<Rightarrow> obligation_status option" where
  "recovered_status r = get_status (ro_action_id r) (ro_runtime r)"

definition recovered_last_anchor :: "recovered_obligation \<Rightarrow> state_anchor option" where
  "recovered_last_anchor r = last_observation_anchor (ro_action_id r) (ro_runtime r)"

definition frontier_regresses :: "state_anchor \<Rightarrow> state_anchor \<Rightarrow> bool" where
  "frontier_regresses incoming previous \<longleftrightarrow>
     sa_fortress_id incoming \<noteq> sa_fortress_id previous
     \<or> sa_tick incoming < sa_tick previous
     \<or> cur_epoch (sa_cursor incoming) < cur_epoch (sa_cursor previous)
     \<or> (cur_epoch (sa_cursor incoming) = cur_epoch (sa_cursor previous) \<and>
        (cur_sequence (sa_cursor incoming) < cur_sequence (sa_cursor previous)
         \<or> sa_cursor incoming = sa_cursor previous \<and> incoming \<noteq> previous))"

definition after_restart_with_evidence :: "predicate_evidence \<Rightarrow> recovered_obligation \<Rightarrow> recovered_obligation res" where
  "after_restart_with_evidence ev r =
     (let frontier = pe_snapshot ev in
      if \<not> hash_is_valid frontier then fail ChecksumMismatch
      else if (case last_observation_anchor (ro_action_id r) (ro_runtime r) of
                 None \<Rightarrow> False | Some previous \<Rightarrow> frontier_regresses (snapshot_anchor frontier) previous)
      then fail StaleAnchor
      else
        (case map_of (or_obligations (ro_runtime r)) (ro_action_id r) of
           None \<Rightarrow> fail InternalInvariantViolation
         | Some ob \<Rightarrow>
             if \<not> is_active (bo_status ob) then Ok r
             else if ws_fortress_id frontier \<noteq> sa_fortress_id (ro_recovery_anchor r) then fail StaleAnchor
             else recover_with_evidence (ro_action_id r) (bo_spec ob) (bo_registered_tick ob) ev))"

definition after_restart :: "world_snapshot \<Rightarrow> recovered_obligation \<Rightarrow> recovered_obligation res" where
  "after_restart frontier r = and_then (evidence_untrusted frontier) (\<lambda>ev. after_restart_with_evidence ev r)"

definition after_restart_laboratory :: "world_snapshot \<Rightarrow> recovered_obligation \<Rightarrow> recovered_obligation res" where
  "after_restart_laboratory frontier r = and_then (evidence_laboratory frontier) (\<lambda>ev. after_restart_with_evidence ev r)"

subsection \<open>Runs\<close>

text \<open>
  The calls a host makes, with the log of those that succeeded, newest first. The log is no part of
  the program: it is what the theorems below say a run must have contained.
\<close>

datatype runtime_op =
    RtRegister action_id obligation_spec game_tick
  | RtRegisterAt action_id obligation_spec world_snapshot
  | RtInterrupted action_id
  | RtObserve predicate_evidence
  | RtCancelSteps action_id game_tick nat
  | RtCancel action_id game_tick
  | RtProgress drain_certificate
  | RtFinalize action_id game_tick drain_certificate

fun runtime_apply :: "runtime_op \<Rightarrow> obligation_runtime \<Rightarrow> obligation_runtime \<times> unit res" where
  "runtime_apply (RtRegister a spec tick) = register_obligation a spec tick"
| "runtime_apply (RtRegisterAt a spec s) = register_obligation_at a spec s"
| "runtime_apply (RtInterrupted a) = observation_interrupted a"
| "runtime_apply (RtObserve ev) = step_tick_with_evidence ev"
| "runtime_apply (RtCancelSteps a tick n) = request_cancel_with_steps a tick n"
| "runtime_apply (RtCancel a tick) = request_cancel a tick"
| "runtime_apply (RtProgress c) = record_drain_progress c"
| "runtime_apply (RtFinalize a tick c) = finalize_cancel a tick c"

type_synonym obligation_run = "obligation_runtime \<times> runtime_op list"

definition run_init :: "obligation_run \<Rightarrow> bool" where
  "run_init r \<longleftrightarrow> r = (runtime_new, [])"

inductive run_step :: "obligation_run \<Rightarrow> obligation_run \<Rightarrow> bool" where
  accepted: "runtime_apply op rt = (rt', Ok ()) \<Longrightarrow> run_step (rt, log) (rt', op # log)"
| refused: "runtime_apply op rt = (rt', Err e) \<Longrightarrow> run_step (rt, log) (rt', log)"

inductive_cases run_stepE: "run_step r r'"

definition observations :: "runtime_op list \<Rightarrow> predicate_evidence list" where
  "observations log = concat (map (\<lambda>op. case op of RtObserve ev \<Rightarrow> [ev] | _ \<Rightarrow> []) log)"

lemma observations_simps [simp]:
  "observations [] = []"
  "observations (op # log) = (case op of RtObserve ev \<Rightarrow> [ev] | _ \<Rightarrow> []) @ observations log"
  by (simp_all add: observations_def)

abbreviation observed_tick :: "predicate_evidence \<Rightarrow> game_tick" where
  "observed_tick ev \<equiv> ws_tick (pe_snapshot ev)"

text \<open>An operation that does not break the streak of the obligation \<open>a\<close>.\<close>

definition keeps_streak :: "action_id \<Rightarrow> obligation_spec \<Rightarrow> runtime_op \<Rightarrow> bool" where
  "keeps_streak a spec op =
     (case op of
        RtObserve ev \<Rightarrow> judge ev spec = Ok (PFalse, True)
      | RtInterrupted b \<Rightarrow> b \<noteq> a
      | RtRegister b _ _ \<Rightarrow> b \<noteq> a
      | RtRegisterAt b _ _ \<Rightarrow> b \<noteq> a
      | _ \<Rightarrow> True)"

text \<open>Samples, newest first, at least an interval apart and the first an interval after \<open>start\<close>.\<close>

fun spaced :: "u64 \<Rightarrow> game_tick \<Rightarrow> predicate_evidence list \<Rightarrow> bool" where
  "spaced interval start [] \<longleftrightarrow> True"
| "spaced interval start (ev # evs) \<longleftrightarrow>
     unat (case evs of [] \<Rightarrow> start | prior # _ \<Rightarrow> observed_tick prior) + unat interval \<le> unat (observed_tick ev)
     \<and> spaced interval start evs"

text \<open>The streak of \<open>n\<close> samples an active obligation has: they lie in an unbroken stretch of the log.\<close>

definition streak :: "runtime_op list \<Rightarrow> action_id \<Rightarrow> bounded_obligation \<Rightarrow> predicate_evidence list \<Rightarrow> bool" where
  "streak recent a ob samples \<longleftrightarrow>
     (\<forall>op \<in> set recent. keeps_streak a (bo_spec ob) op) \<and> subseq samples (observations recent) \<and>
     spaced (os_poll_interval_ticks (bo_spec ob)) (bo_registered_tick ob) samples"

definition streak_inv :: "runtime_op list \<Rightarrow> action_id \<Rightarrow> bounded_obligation \<Rightarrow> u32 \<Rightarrow> bool" where
  "streak_inv log a ob n \<longleftrightarrow>
     (\<exists>recent older samples. log = recent @ older \<and> streak recent a ob samples \<and> unat n \<le> length samples \<and>
        (case samples of [] \<Rightarrow> True | ev # _ \<Rightarrow> bo_last_evaluated_tick ob = Some (observed_tick ev)))"

definition fulfilled_inv :: "runtime_op list \<Rightarrow> action_id \<Rightarrow> bounded_obligation \<Rightarrow> game_tick \<Rightarrow> bool" where
  "fulfilled_inv log a ob t \<longleftrightarrow>
     (\<exists>later ev recent older samples.
        log = later @ RtObserve ev # recent @ older \<and> streak recent a ob samples \<and>
        judge ev (bo_spec ob) = Ok (PFalse, True) \<and> observed_tick ev = t \<and> t \<le> os_deadline_tick (bo_spec ob) \<and>
        unat (os_stable_for_observations (bo_spec ob)) \<le> Suc (length samples) \<and>
        (spaced (os_poll_interval_ticks (bo_spec ob)) (bo_registered_tick ob) (ev # samples)
         \<or> t = os_deadline_tick (bo_spec ob)))"

text \<open>The cancellation request that opened a drain asked for \<open>n\<close> steps.\<close>

definition opens_drain :: "action_id \<Rightarrow> game_tick \<Rightarrow> nat \<Rightarrow> runtime_op \<Rightarrow> bool" where
  "opens_drain a s n op \<longleftrightarrow> op = RtCancelSteps a s n \<or> op = RtCancel a s \<and> n = 0"

definition drain_inv :: "runtime_op list \<Rightarrow> action_id \<Rightarrow> game_tick \<Rightarrow> drain_certificate \<Rightarrow> bool" where
  "drain_inv log a s c \<longleftrightarrow>
     dc_action_id c = a \<and> dc_drain_started_tick c = s \<and> s \<le> dc_current_tick c \<and>
     (dc_is_quiescent c \<longrightarrow> dc_steps_remaining c = 0) \<and>
     (\<exists>n op. op \<in> set log \<and> opens_drain a s n op \<and> dc_steps_compensated c + dc_steps_remaining c = n
        \<and> n \<le> max_drain_steps)"

definition status_inv ::
    "runtime_op list \<Rightarrow> action_id \<Rightarrow> bounded_obligation \<Rightarrow> drain_certificate option \<Rightarrow> bool" where
  "status_inv log a ob drain =
     (case bo_status ob of
        Pending \<Rightarrow> False
      | Active _ n \<Rightarrow> drain = None \<and> streak_inv log a ob n
      | Fulfilled t _ \<Rightarrow> drain = None \<and> fulfilled_inv log a ob t
      | Failed _ _ \<Rightarrow> drain = None
      | Draining s \<Rightarrow> (\<exists>c. drain = Some c \<and> drain_inv log a s c)
      | Cancelled t \<Rightarrow> (\<exists>c s. drain = Some c \<and> drain_inv log a s c \<and> dc_is_quiescent c \<and> dc_current_tick c = t))"

definition registrable :: "bounded_obligation \<Rightarrow> bool" where
  "registrable ob \<longleftrightarrow>
     (\<exists>given. prepare_spec given = Ok (bo_spec ob)) \<and> bo_action_id ob \<noteq> 0 \<and>
     bo_registered_tick ob < os_deadline_tick (bo_spec ob) \<and> os_poll_interval_ticks (bo_spec ob) \<noteq> 0 \<and>
     os_stable_for_observations (bo_spec ob) \<noteq> 0"

definition entry_inv ::
    "runtime_op list \<Rightarrow> action_id \<Rightarrow> bounded_obligation \<Rightarrow> drain_certificate option \<Rightarrow> bool" where
  "entry_inv log a ob drain \<longleftrightarrow>
     bo_action_id ob = a \<and> registrable ob \<and>
     (\<forall>t. bo_last_evaluated_tick ob = Some t \<longrightarrow> bo_registered_tick ob \<le> t) \<and>
     status_inv log a ob drain"

definition run_inv :: "obligation_run \<Rightarrow> bool" where
  "run_inv r \<longleftrightarrow>
     (case r of (rt, log) \<Rightarrow>
        bt_sorted (or_obligations rt) \<and>
        (\<forall>a. case map_of (or_obligations rt) a of
           None \<Rightarrow> map_of (or_drain_progress rt) a = None
         | Some ob \<Rightarrow> entry_inv log a ob (map_of (or_drain_progress rt) a)))"

subsection \<open>One observation\<close>

lemma check_batch_keeps:
  "check_batch ev rt obs acc = Ok judgements \<Longrightarrow> \<forall>(k, ob) \<in> set obs. bo_action_id ob = k \<Longrightarrow>
   a \<notin> fst ` set obs \<Longrightarrow> map_of judgements a = map_of acc a"
proof (induction obs arbitrary: acc)
  case (Cons entry obs)
  obtain k ob where entry: "entry = (k, ob)" by (cases entry)
  with Cons.prems have ka: "bo_action_id ob = k" "a \<noteq> k" by auto
  show ?case
  proof (cases "is_active (bo_status ob)")
    case True
    with Cons.prems(1) obtain j where "check_batch ev rt obs (bt_insert k j acc) = Ok judgements"
      by (auto simp: entry ka)
    from Cons.IH [OF this] show ?thesis using Cons.prems(2,3) ka by (auto simp: map_of_bt_insert)
  qed (use Cons entry in auto)
qed simp

lemma check_batch_judges:
  "check_batch ev rt obs acc = Ok judgements \<Longrightarrow> \<forall>(k, ob) \<in> set obs. bo_action_id ob = k \<Longrightarrow>
   distinct (map fst obs) \<Longrightarrow> (a, ob) \<in> set obs \<Longrightarrow> is_active (bo_status ob) \<Longrightarrow>
   \<exists>j. check_obligation ev rt ob = Ok j \<and> map_of judgements a = Some j"
proof (induction obs arbitrary: acc)
  case (Cons entry obs)
  obtain k ob' where entry: "entry = (k, ob')" by (cases entry)
  show ?case
  proof (cases "(a, ob) = entry")
    case True
    then obtain j where j: "check_obligation ev rt ob = Ok j" "check_batch ev rt obs (bt_insert a j acc) = Ok judgements"
      using Cons.prems by (auto simp: entry)
    moreover have "map_of judgements a = map_of (bt_insert a j acc) a"
      using Cons.prems True by (intro check_batch_keeps [OF j(2)]) (auto simp: entry)
    ultimately show ?thesis by (simp add: map_of_bt_insert)
  next
    case False
    then show ?thesis
      using Cons.prems Cons.IH by (cases "is_active (bo_status ob')") (auto simp: entry)
  qed
qed simp

lemma map_of_anchor_updates:
  "\<forall>(k, ob) \<in> set obs. bo_action_id ob = k \<Longrightarrow> distinct (map fst obs) \<Longrightarrow>
   map_of (fold (\<lambda>(_, ob) anchors. if is_active (bo_status ob) then bt_insert (bo_action_id ob) v anchors else anchors)
      obs anchors) a =
   (case map_of obs a of
      Some ob \<Rightarrow> if is_active (bo_status ob) then Some v else map_of anchors a
    | None \<Rightarrow> map_of anchors a)"
proof (induction obs arbitrary: anchors)
  case (Cons entry obs)
  obtain k ob where entry: "entry = (k, ob)" by (cases entry)
  with Cons.prems have k: "bo_action_id ob = k" "map_of obs k = None"
    by (auto simp: map_of_eq_None_iff)
  have IH: "map_of (fold (\<lambda>(_, ob) anchors. if is_active (bo_status ob) then bt_insert (bo_action_id ob) v anchors else anchors)
      obs anchors') a = (case map_of obs a of Some ob \<Rightarrow> if is_active (bo_status ob) then Some v else map_of anchors' a
    | None \<Rightarrow> map_of anchors' a)" for anchors'
    using Cons by auto
  show ?case
    unfolding fold_simps entry IH prod.case using k
    by (cases "a = k") (simp_all add: map_of_bt_insert split: option.split)
qed simp

definition keyed :: "obligation_runtime \<Rightarrow> bool" where
  "keyed rt \<longleftrightarrow> bt_sorted (or_obligations rt) \<and> (\<forall>(k, ob) \<in> set (or_obligations rt). bo_action_id ob = k)"

lemma run_inv_keyed: "run_inv (rt, log) \<Longrightarrow> keyed rt"
  by (force simp: run_inv_def keyed_def entry_inv_def bt_entry_iff split: option.splits)

text \<open>What an accepted observation does to one obligation and to its anchor.\<close>

lemma observe_entry:
  assumes "step_tick_with_evidence ev rt = (rt', Ok ())" "keyed rt"
  shows "map_of (or_obligations rt') a = None \<longleftrightarrow> map_of (or_obligations rt) a = None"
    and "map_of (or_obligations rt) a = Some ob \<Longrightarrow> bo_status ob = Active e n \<Longrightarrow>
      \<exists>j. check_obligation ev rt ob = Ok j \<and> map_of (or_obligations rt') a = Some (advance (pe_snapshot ev) j n ob)"
    and "map_of (or_obligations rt) a = Some ob \<Longrightarrow> \<not> is_active (bo_status ob) \<Longrightarrow>
      map_of (or_obligations rt') a = Some ob \<and> map_of (or_observation_anchors rt') a = map_of (or_observation_anchors rt) a"
    and "or_drain_progress rt' = or_drain_progress rt"
    and "bt_sorted (or_obligations rt')"
proof -
  have keys: "\<forall>(k, ob) \<in> set (or_obligations rt). bo_action_id ob = k" "distinct (map fst (or_obligations rt))"
    using assms(2) by (auto simp: keyed_def bt_sorted_distinct)
  obtain judgements where batch: "check_batch ev rt (or_obligations rt) [] = Ok judgements"
    and rt': "or_obligations rt' = map (\<lambda>(k, ob). (k, advance_entry (pe_snapshot ev) judgements ob)) (or_obligations rt)"
      "or_drain_progress rt' = or_drain_progress rt"
      "or_observation_anchors rt' = fold (\<lambda>(_, ob) anchors. if is_active (bo_status ob)
         then bt_insert (bo_action_id ob) (snapshot_anchor (pe_snapshot ev)) anchors else anchors)
         (or_obligations rt) (or_observation_anchors rt)"
    using assms(1) by (auto simp: step_tick_with_evidence_def Let_def split: if_splits result.splits)
  note lookup = map_of_map_snd [of "advance_entry (pe_snapshot ev) judgements" "or_obligations rt" a]
  show "map_of (or_obligations rt') a = None \<longleftrightarrow> map_of (or_obligations rt) a = None"
    unfolding rt' lookup by simp
  show "or_drain_progress rt' = or_drain_progress rt" by (fact rt')
  show "bt_sorted (or_obligations rt')" using assms(2) by (simp add: rt' bt_sorted_map_snd keyed_def)
  show "\<exists>j. check_obligation ev rt ob = Ok j \<and> map_of (or_obligations rt') a = Some (advance (pe_snapshot ev) j n ob)"
    if ob: "map_of (or_obligations rt) a = Some ob" "bo_status ob = Active e n"
  proof -
    have "(a, ob) \<in> set (or_obligations rt)" using ob(1) by (rule map_of_SomeD)
    moreover from this keys have "bo_action_id ob = a" by auto
    ultimately obtain j where "check_obligation ev rt ob = Ok j" "map_of judgements (bo_action_id ob) = Some j"
      using check_batch_judges [OF batch keys] ob(2) by force
    then show ?thesis unfolding rt' lookup using ob by (auto simp: advance_entry_def)
  qed
  show "map_of (or_obligations rt') a = Some ob \<and> map_of (or_observation_anchors rt') a = map_of (or_observation_anchors rt) a"
    if ob: "map_of (or_obligations rt) a = Some ob" "\<not> is_active (bo_status ob)"
  proof
    show "map_of (or_obligations rt') a = Some ob"
      unfolding rt' lookup using ob by (cases "bo_status ob") (auto simp: advance_entry_def)
    show "map_of (or_observation_anchors rt') a = map_of (or_observation_anchors rt) a"
      unfolding rt' map_of_anchor_updates [OF keys] using ob by simp
  qed
qed

subsection \<open>The invariant of a run\<close>

lemma refused_unchanged: "runtime_apply op rt = (rt', Err e) \<Longrightarrow> rt' = rt"
proof (cases op)
  case (RtRegisterAt a spec s)
  then show "runtime_apply op rt = (rt', Err e) \<Longrightarrow> rt' = rt"
    by (auto simp: register_obligation_at_def register_obligation_def split: if_splits result.splits prod.splits)
qed (auto simp: register_obligation_def observation_interrupted_def step_tick_with_evidence_def Let_def
    request_cancel_def request_cancel_with_steps_def record_drain_progress_def finalize_cancel_def
    split: if_splits result.splits option.splits obligation_status.splits)

lemma streak_inv_zero: "streak_inv log a ob 0"
  proof -
  have "log = [] @ log" "streak [] a ob []" by (simp_all add: streak_def)
  then show ?thesis unfolding streak_inv_def by fastforce
qed

lemma streak_inv_log:
  "streak_inv log a ob n \<Longrightarrow> keeps_streak a (bo_spec ob) op \<Longrightarrow> streak_inv (op # log) a ob n"
proof -
  assume "streak_inv log a ob n" "keeps_streak a (bo_spec ob) op"
  then obtain recent older samples where "log = recent @ older" "streak recent a ob samples" "unat n \<le> length samples"
      "case samples of [] \<Rightarrow> True | ev # _ \<Rightarrow> bo_last_evaluated_tick ob = Some (observed_tick ev)"
    and op: "keeps_streak a (bo_spec ob) op"
    by (auto simp: streak_inv_def)
  moreover from this have "streak (op # recent) a ob samples"
    by (auto simp: streak_def split: runtime_op.splits)
  ultimately show ?thesis
    unfolding streak_inv_def by (intro exI [of _ "op # recent"] exI [of _ older] exI [of _ samples]) simp
qed

lemma fulfilled_inv_log: "fulfilled_inv log a ob t \<Longrightarrow> fulfilled_inv (op # log) a ob t"
  unfolding fulfilled_inv_def by (metis append_Cons)

lemma drain_inv_log: "drain_inv log a s c \<Longrightarrow> drain_inv (op # log) a s c"
  by (auto simp: drain_inv_def)

lemma fulfilled_inv_cong:
  "bo_spec ob' = bo_spec ob \<Longrightarrow> bo_registered_tick ob' = bo_registered_tick ob \<Longrightarrow>
   fulfilled_inv log a ob' t = fulfilled_inv log a ob t"
  by (simp only: fulfilled_inv_def streak_def)

lemma streak_inv_cong:
  "bo_spec ob' = bo_spec ob \<Longrightarrow> bo_registered_tick ob' = bo_registered_tick ob \<Longrightarrow>
   bo_last_evaluated_tick ob' = bo_last_evaluated_tick ob \<Longrightarrow> streak_inv log a ob' n = streak_inv log a ob n"
  by (simp only: streak_inv_def streak_def)

lemma status_inv_log:
  assumes "status_inv log a ob drain" "is_active (bo_status ob) \<Longrightarrow> keeps_streak a (bo_spec ob) op"
  shows "status_inv (op # log) a ob drain"
  using assms
  by (auto simp: status_inv_def split: obligation_status.splits
      intro: streak_inv_log fulfilled_inv_log drain_inv_log)

text \<open>Registration is refused for an obligation that is there already.\<close>

lemma registered_effect:
  assumes "runtime_apply op rt = (rt', Ok ())"
    and "op = RtRegister a spec tick \<or> op = RtRegisterAt a spec s \<and> tick = ws_tick s"
  obtains spec' where "prepare_spec spec = Ok spec'" "a \<noteq> 0" "tick < os_deadline_tick spec'"
    "os_poll_interval_ticks spec' \<noteq> 0" "os_stable_for_observations spec' \<noteq> 0"
    "map_of (or_obligations rt) a = None" "or_drain_progress rt' = or_drain_progress rt"
    "or_obligations rt' = bt_insert a \<lparr>bo_action_id = a, bo_spec = spec', bo_status = Active 0 0,
       bo_registered_tick = tick, bo_last_evaluated_tick = None\<rparr> (or_obligations rt)"
  using assms
  by (auto simp: register_obligation_at_def register_obligation_def bt_contains_iff not_le
      split: if_splits result.splits prod.splits)

lemma sample_due_gap:
  assumes "sample_due tick ob" "tick \<noteq> os_deadline_tick (bo_spec ob)" "os_poll_interval_ticks (bo_spec ob) \<noteq> 0"
  shows "unat (case bo_last_evaluated_tick ob of None \<Rightarrow> bo_registered_tick ob | Some t \<Rightarrow> t)
    + unat (os_poll_interval_ticks (bo_spec ob)) \<le> unat tick"
  using assms
  by (auto simp: sample_due_def saturating_sub_def word_le_nat_alt unat_sub word_less_nat_alt
      unat_eq_zero [symmetric] split: if_splits simp del: unat_eq_zero)

lemma sample_extends_streak:
  assumes "entry_inv log a ob drain" "streak recent a ob samples" "sample_due (observed_tick ev) ob"
    and "case samples of [] \<Rightarrow> True | s # _ \<Rightarrow> bo_last_evaluated_tick ob = Some (observed_tick s)"
  shows "spaced (os_poll_interval_ticks (bo_spec ob)) (bo_registered_tick ob) (ev # samples)
    \<or> observed_tick ev = os_deadline_tick (bo_spec ob)"
proof (rule disjCI)
  assume tick: "observed_tick ev \<noteq> os_deadline_tick (bo_spec ob)"
  have "os_poll_interval_ticks (bo_spec ob) \<noteq> 0" using assms(1) by (simp add: entry_inv_def registrable_def)
  note gap = sample_due_gap [OF assms(3) tick this]
  have last_tick: "\<forall>t. bo_last_evaluated_tick ob = Some t \<longrightarrow> bo_registered_tick ob \<le> t"
    using assms(1) by (simp add: entry_inv_def)
  have "unat (case samples of [] \<Rightarrow> bo_registered_tick ob | prior # _ \<Rightarrow> observed_tick prior)
    \<le> unat (case bo_last_evaluated_tick ob of None \<Rightarrow> bo_registered_tick ob | Some t \<Rightarrow> t)"
    using assms(4) last_tick by (auto simp: word_le_nat_alt split: list.splits option.splits)
  with gap assms(2) show "spaced (os_poll_interval_ticks (bo_spec ob)) (bo_registered_tick ob) (ev # samples)"
    by (simp add: streak_def)
qed

lemma advance_fields [simp]:
  "bo_action_id (advance s j n ob) = bo_action_id ob"
  "bo_spec (advance s j n ob) = bo_spec ob"
  "bo_registered_tick (advance s j n ob) = bo_registered_tick ob"
  by (simp_all add: advance_def Let_def)

lemma registrable_advance [simp]: "registrable (advance s j n ob) = registrable ob"
  by (simp add: registrable_def)

lemma judged_satisfied: "check_obligation ev rt ob = Ok (f, True) \<Longrightarrow> judge ev (bo_spec ob) = Ok (PFalse, True) \<and> f = PFalse"
  by (auto simp: check_obligation_def judge_def Let_def split: if_splits option.splits)

lemma satisfied_sample:
  assumes inv: "entry_inv log a ob drain" and active: "bo_status ob = Active e n"
    and judged: "judge ev (bo_spec ob) = Ok (PFalse, True)"
    and tick: "observed_tick ev \<le> os_deadline_tick (bo_spec ob)" and due: "sample_due (observed_tick ev) ob"
    and ob': "ob' = advance (pe_snapshot ev) (PFalse, True) n ob"
  shows "status_inv (RtObserve ev # log) a ob' drain"
proof -
  have drain: "drain = None" and st: "streak_inv log a ob n"
    using inv active by (simp_all add: entry_inv_def status_inv_def)
  then obtain recent older samples where streak: "log = recent @ older" "streak recent a ob samples"
      "unat n \<le> length samples" "case samples of [] \<Rightarrow> True | s # _ \<Rightarrow> bo_last_evaluated_tick ob = Some (observed_tick s)"
    by (auto simp: streak_inv_def)
  note spaced = sample_extends_streak [OF inv streak(2) due streak(4)]
  have count: "unat (saturating_add n 1) \<le> Suc (length samples)"
    using streak(3) by (simp add: unat_saturating_add)
  have fields: "bo_spec ob' = bo_spec ob" "bo_registered_tick ob' = bo_registered_tick ob"
      "bo_last_evaluated_tick ob' = Some (observed_tick ev)"
    using due leD [OF tick] by (simp_all add: ob' advance_def Let_def)
  consider (fulfilled) "saturating_add n 1 \<ge> os_stable_for_observations (bo_spec ob)"
    | (missed) "saturating_add n 1 < os_stable_for_observations (bo_spec ob)" "observed_tick ev = os_deadline_tick (bo_spec ob)"
    | (waiting) "saturating_add n 1 < os_stable_for_observations (bo_spec ob)" "observed_tick ev < os_deadline_tick (bo_spec ob)"
    using tick by fastforce
  then show ?thesis
  proof cases
    case fulfilled
    then have "unat (os_stable_for_observations (bo_spec ob)) \<le> Suc (length samples)"
      using count by (simp add: word_le_nat_alt)
    with streak(1,2) judged tick spaced have "fulfilled_inv (RtObserve ev # log) a ob (observed_tick ev)"
      unfolding fulfilled_inv_def by (metis append_Nil)
    moreover obtain evs where "bo_status ob' = Fulfilled (observed_tick ev) evs"
      using fulfilled due leD [OF tick] by (simp add: ob' advance_def Let_def)
    ultimately show ?thesis by (simp add: status_inv_def drain fulfilled_inv_cong [OF fields(1,2)])
  next
    case missed
    then show ?thesis using due leD [OF tick] leD by (auto simp: status_inv_def drain ob' advance_def Let_def)
  next
    case waiting
    have "streak (RtObserve ev # recent) a ob' (ev # samples)"
      using streak(2) judged spaced waiting(2) by (auto simp: streak_def keeps_streak_def fields)
    then have "streak_inv (RtObserve ev # log) a ob' (saturating_add n 1)"
      unfolding streak_inv_def using count streak(1) fields(3)
      by (intro exI [of _ "RtObserve ev # recent"] exI [of _ older] exI [of _ "ev # samples"]) simp
    moreover have "bo_status ob' = Active (saturating_sub (observed_tick ev) (bo_registered_tick ob)) (saturating_add n 1)"
      using waiting [THEN not_le [THEN iffD2]] due leD [OF tick] by (simp add: ob' advance_def Let_def)
    ultimately show ?thesis by (simp add: status_inv_def drain)
  qed
qed

lemma advance_inv:
  assumes inv: "entry_inv log a ob drain" and active: "bo_status ob = Active e n"
    and check: "check_obligation ev rt ob = Ok j"
  shows "entry_inv (RtObserve ev # log) a (advance (pe_snapshot ev) j n ob) drain"
proof -
  let ?tick = "observed_tick ev" and ?ob = "advance (pe_snapshot ev) j n ob"
  have drain: "drain = None" and st: "streak_inv log a ob n"
    using inv active by (simp_all add: entry_inv_def status_inv_def)
  have reg: "bo_registered_tick ob \<le> ?tick"
    using check by (auto simp: check_obligation_def Let_def split: if_splits)
  obtain f sat where j: "j = (f, sat)" by (cases j)
  have "status_inv (RtObserve ev # log) a ?ob drain"
  proof (cases "f = PTrue \<or> ?tick > os_deadline_tick (bo_spec ob)")
    case True
    then show ?thesis by (auto simp: j status_inv_def advance_def Let_def drain)
  next
    case False
    then have tick: "?tick \<le> os_deadline_tick (bo_spec ob)" "f \<noteq> PTrue" "\<not> ?tick > os_deadline_tick (bo_spec ob)" by auto
    show ?thesis
    proof (cases sat)
      case True
      then have judged: "judge ev (bo_spec ob) = Ok (PFalse, True)" and f: "f = PFalse"
        using judged_satisfied [of ev rt ob f] check j by auto
      show ?thesis
      proof (cases "sample_due ?tick ob")
        case True
        from satisfied_sample [OF inv active judged tick(1) this refl] \<open>sat\<close> show ?thesis by (simp add: j f)
      next
        case off_cadence: False
        then have last_tick: "bo_last_evaluated_tick ?ob = bo_last_evaluated_tick ob"
          using tick by (simp add: j advance_def Let_def)
        have "keeps_streak a (bo_spec ob) (RtObserve ev)" using judged by (simp add: keeps_streak_def)
        then have "streak_inv (RtObserve ev # log) a ?ob n"
          using streak_inv_log [OF st] streak_inv_cong [OF _ _ last_tick] by simp
        then show ?thesis using off_cadence tick \<open>sat\<close> by (auto simp: status_inv_def j advance_def Let_def drain)
      qed
    next
      case False
      then show ?thesis
        using tick by (auto simp: status_inv_def j advance_def Let_def drain streak_inv_zero)
    qed
  qed
  moreover have "\<forall>t. bo_last_evaluated_tick ?ob = Some t \<longrightarrow> bo_registered_tick ob \<le> t"
    using inv reg by (auto simp: entry_inv_def advance_def Let_def)
  ultimately show ?thesis using inv by (simp add: entry_inv_def)
qed

lemma entry_inv_log:
  "entry_inv log a ob drain \<Longrightarrow> (is_active (bo_status ob) \<Longrightarrow> keeps_streak a (bo_spec ob) op) \<Longrightarrow>
   entry_inv (op # log) a ob drain"
  by (auto simp: entry_inv_def intro: status_inv_log)

lemma run_inv_lookup:
  "run_inv (rt, log) \<Longrightarrow> map_of (or_obligations rt) a = Some ob \<Longrightarrow>
   entry_inv log a ob (map_of (or_drain_progress rt) a)"
  "run_inv (rt, log) \<Longrightarrow> map_of (or_obligations rt) a = None \<Longrightarrow> map_of (or_drain_progress rt) a = None"
  "run_inv (rt, log) \<Longrightarrow> bt_sorted (or_obligations rt)"
  by (auto simp: run_inv_def split: option.splits dest: spec [of _ a])

lemma run_inv_update:
  assumes "run_inv (rt, log)" "bt_sorted (or_obligations rt')"
    and "\<And>a. a \<noteq> b \<Longrightarrow> map_of (or_obligations rt') a = map_of (or_obligations rt) a"
    and "\<And>a. a \<noteq> b \<Longrightarrow> map_of (or_drain_progress rt') a = map_of (or_drain_progress rt) a"
    and "\<And>a spec. a \<noteq> b \<Longrightarrow> keeps_streak a spec op"
    and "map_of (or_obligations rt') b = Some ob" "entry_inv (op # log) b ob (map_of (or_drain_progress rt') b)"
  shows "run_inv (rt', op # log)"
proof -
  have "case map_of (or_obligations rt') a of
      None \<Rightarrow> map_of (or_drain_progress rt') a = None
    | Some ob \<Rightarrow> entry_inv (op # log) a ob (map_of (or_drain_progress rt') a)" for a
    using assms run_inv_lookup(1,2) [OF assms(1), of a] by (cases "a = b") (auto split: option.split intro: entry_inv_log)
  then show ?thesis using assms(2) by (simp add: run_inv_def)
qed

lemma run_inv_same:
  assumes "run_inv (rt, log)" "\<And>a spec. keeps_streak a spec op"
  shows "run_inv (rt, op # log)"
  using assms run_inv_lookup [OF assms(1)] unfolding run_inv_def prod.case
  by (auto split: option.split intro: entry_inv_log)

lemma registered_inv:
  assumes "run_inv (rt, log)" "runtime_apply op rt = (rt', Ok ())"
    and op: "op = RtRegister b spec tick \<or> op = RtRegisterAt b spec s \<and> tick = ws_tick s"
  shows "run_inv (rt', op # log)"
  using assms(2) op
proof (rule registered_effect)
  fix spec'
  assume fresh: "map_of (or_obligations rt) b = None" and drain: "or_drain_progress rt' = or_drain_progress rt"
    and spec': "prepare_spec spec = Ok spec'" "b \<noteq> 0" "tick < os_deadline_tick spec'" "os_poll_interval_ticks spec' \<noteq> 0"
      "os_stable_for_observations spec' \<noteq> 0"
    and rt': "or_obligations rt' = bt_insert b \<lparr>bo_action_id = b, bo_spec = spec', bo_status = Active 0 0,
       bo_registered_tick = tick, bo_last_evaluated_tick = None\<rparr> (or_obligations rt)"
  show ?thesis
    using op spec' run_inv_lookup(2) [OF assms(1) fresh] run_inv_lookup(3) [OF assms(1)]
    by (intro run_inv_update [OF assms(1), where b = b])
      (auto simp: rt' drain bt_sorted_insert map_of_bt_insert keeps_streak_def entry_inv_def registrable_def
        status_inv_def streak_inv_zero)
qed

lemma interrupted_inv:
  assumes "run_inv (rt, log)" "observation_interrupted b rt = (rt', Ok ())"
  shows "run_inv (rt', RtInterrupted b # log)"
proof -
  obtain ob where ob: "map_of (or_obligations rt) b = Some ob"
    using assms(2) by (auto simp: observation_interrupted_def split: option.splits)
  note inv = run_inv_lookup(1) [OF assms(1) ob]
  show ?thesis
  proof (cases "is_active (bo_status ob)")
    case True
    then obtain e n where active: "bo_status ob = Active e n" by (cases "bo_status ob") auto
    then have rt': "rt' = rt\<lparr>or_obligations := bt_insert b (ob\<lparr>bo_status := Active e 0\<rparr>) (or_obligations rt)\<rparr>"
      using assms(2) ob by (simp add: observation_interrupted_def)
    show ?thesis
      using inv active run_inv_lookup(3) [OF assms(1)]
      by (intro run_inv_update [OF assms(1), where b = b])
        (auto simp: rt' bt_sorted_insert map_of_bt_insert keeps_streak_def entry_inv_def registrable_def
          status_inv_def streak_inv_zero)
  next
    case False
    then have "rt' = rt" using assms(2) ob
      by (auto simp: observation_interrupted_def split: obligation_status.splits)
    then show ?thesis
      using ob False run_inv_lookup(3) [OF assms(1)]
      by (intro run_inv_update [OF assms(1), where b = b])
        (auto simp: keeps_streak_def intro: entry_inv_log [OF inv])
  qed
qed

lemma observed_inv:
  assumes "run_inv (rt, log)" "step_tick_with_evidence ev rt = (rt', Ok ())"
  shows "run_inv (rt', RtObserve ev # log)"
proof -
  note entry = observe_entry [OF assms(2) run_inv_keyed [OF assms(1)]]
  have "entry_inv (RtObserve ev # log) a ob' (map_of (or_drain_progress rt') a)"
    if ob': "map_of (or_obligations rt') a = Some ob'" for a ob'
  proof -
    obtain ob where ob: "map_of (or_obligations rt) a = Some ob" using entry(1) [of a] ob' by auto
    note inv = run_inv_lookup(1) [OF assms(1) ob]
    show ?thesis
    proof (cases "is_active (bo_status ob)")
      case True
      then obtain e n where active: "bo_status ob = Active e n" by (cases "bo_status ob") auto
      from entry(2) [OF ob active] ob' show ?thesis
        by (auto simp: entry(4) intro: advance_inv [OF inv active])
    next
      case False
      from entry(3) [OF ob this] ob' False show ?thesis
        by (auto simp: entry(4) intro: entry_inv_log [OF inv])
    qed
  qed
  then show ?thesis
    using entry(1,4,5) run_inv_lookup(2) [OF assms(1)] by (auto simp: run_inv_def split: option.split)
qed

lemma cancel_effect:
  assumes "request_cancel_with_steps b tick n rt = (rt', Ok ())"
  obtains (unchanged) "rt' = rt"
  | (drain) ob e m where "map_of (or_obligations rt) b = Some ob" "bo_status ob = Active e m" "n \<le> max_drain_steps"
      "or_obligations rt' = bt_insert b (ob\<lparr>bo_status := Draining tick\<rparr>) (or_obligations rt)"
      "or_drain_progress rt' = bt_insert b \<lparr>dc_action_id = b, dc_drain_started_tick = tick, dc_current_tick = tick,
         dc_steps_compensated = 0, dc_steps_remaining = n, dc_is_quiescent = False\<rparr> (or_drain_progress rt)"
      "or_observation_anchors rt' = or_observation_anchors rt"
  using assms
  by (auto simp: request_cancel_with_steps_def not_less
      split: if_splits option.splits result.splits obligation_status.splits)

lemma cancelled_inv:
  assumes "run_inv (rt, log)" "request_cancel_with_steps b tick n rt = (rt', Ok ())"
    and op: "op = RtCancelSteps b tick n \<or> op = RtCancel b tick \<and> (map_of (or_drain_progress rt) b = None \<longrightarrow> n = 0)"
  shows "run_inv (rt', op # log)"
  using assms(2)
proof (cases rule: cancel_effect)
  case unchanged
  then show ?thesis using assms(1) op by (auto simp: keeps_streak_def intro: run_inv_same)
next
  case (drain ob e m)
  have inv: "entry_inv log b ob (map_of (or_drain_progress rt) b)"
    using run_inv_lookup(1) [OF assms(1) drain(1)] .
  then have "map_of (or_drain_progress rt) b = None" using drain(2) by (simp add: entry_inv_def status_inv_def)
  then have "opens_drain b tick n op" using op by (auto simp: opens_drain_def)
  then have opened: "drain_inv (op # log) b tick \<lparr>dc_action_id = b, dc_drain_started_tick = tick, dc_current_tick = tick,
         dc_steps_compensated = 0, dc_steps_remaining = n, dc_is_quiescent = False\<rparr>"
    using drain(3) by (auto simp: drain_inv_def)
  show ?thesis
    using op inv opened run_inv_lookup(3) [OF assms(1)]
    by (intro run_inv_update [OF assms(1), where b = b])
      (auto simp: drain(4,5) bt_sorted_insert map_of_bt_insert keeps_streak_def entry_inv_def registrable_def status_inv_def)
qed

lemma request_cancel_effect:
  assumes "request_cancel b tick rt = (rt', Ok ())"
  obtains n where "request_cancel_with_steps b tick n rt = (rt', Ok ())"
    "map_of (or_drain_progress rt) b = None \<longrightarrow> n = 0"
  using assms by (auto simp: request_cancel_def split: option.splits result.splits)

lemma progress_inv:
  assumes "run_inv (rt, log)" "record_drain_progress c rt = (rt', Ok ())"
  shows "run_inv (rt', RtProgress c # log)"
proof (cases "rt' = rt")
  case True
  then show ?thesis using assms(1) by (auto simp: keeps_streak_def intro: run_inv_same)
next
  case False
  let ?b = "dc_action_id c"
  obtain ob previous s where ob: "map_of (or_obligations rt) ?b = Some ob" "bo_status ob = Draining s"
    and previous: "map_of (or_drain_progress rt) ?b = Some previous" "progress_accepted s previous c"
    and rt': "rt' = rt\<lparr>or_drain_progress := bt_insert ?b c (or_drain_progress rt)\<rparr>"
    using assms(2) False by (auto simp: record_drain_progress_def split: if_splits option.splits obligation_status.splits)
  have inv: "entry_inv log ?b ob (Some previous)" using run_inv_lookup(1) [OF assms(1) ob(1)] previous(1) by simp
  then have "drain_inv log ?b s previous" using ob(2) by (simp add: entry_inv_def status_inv_def)
  then have "drain_inv (RtProgress c # log) ?b s c"
    using previous(2)
    by (auto simp: drain_inv_def progress_accepted_def total_steps_def Let_def split: if_splits)
  then show ?thesis
    using inv ob run_inv_lookup(3) [OF assms(1)]
    by (intro run_inv_update [OF assms(1), where b = ?b])
      (auto simp: rt' map_of_bt_insert keeps_streak_def entry_inv_def status_inv_def)
qed

lemma finalized_inv:
  assumes "run_inv (rt, log)" "finalize_cancel b tick c rt = (rt', Ok ())"
  shows "run_inv (rt', RtFinalize b tick c # log)"
proof (cases "rt' = rt")
  case True
  then show ?thesis using assms(1) by (auto simp: keeps_streak_def intro: run_inv_same)
next
  case False
  obtain ob s where ob: "map_of (or_obligations rt) b = Some ob" "bo_status ob = Draining s"
    and c: "map_of (or_drain_progress rt) b = Some c" "dc_current_tick c = tick" "dc_is_quiescent c"
    and rt': "rt' = rt\<lparr>or_obligations := bt_insert b (ob\<lparr>bo_status := Cancelled tick\<rparr>) (or_obligations rt)\<rparr>"
    using assms(2) False
    by (auto simp: finalize_cancel_def Let_def split: if_splits option.splits obligation_status.splits)
  have inv: "entry_inv log b ob (Some c)" using run_inv_lookup(1) [OF assms(1) ob(1)] c(1) by simp
  then have "drain_inv (RtFinalize b tick c # log) b s c"
    using ob(2) by (simp add: entry_inv_def status_inv_def drain_inv_log)
  then have "\<exists>s. drain_inv (RtFinalize b tick c # log) b s c" ..
  then show ?thesis
    using inv c run_inv_lookup(3) [OF assms(1)]
    by (intro run_inv_update [OF assms(1), where b = b])
      (auto simp: rt' bt_sorted_insert map_of_bt_insert keeps_streak_def entry_inv_def registrable_def status_inv_def)
qed

lemma runtime_apply_inv:
  assumes "run_inv (rt, log)" "runtime_apply op rt = (rt', Ok ())"
  shows "run_inv (rt', op # log)"
  using assms
  by (cases op)
    (auto intro: registered_inv interrupted_inv observed_inv cancelled_inv progress_inv finalized_inv elim: request_cancel_effect)

lemma run_init_inv: "run_init r \<Longrightarrow> run_inv r"
  by (simp add: run_init_def run_inv_def runtime_new_def)

interpretation obligation: invariant_system run_init run_step run_inv
proof
  show "run_inv r'" if "run_inv r" "run_step r r'" for r r'
    using that(2,1) by (cases rule: run_step.cases) (auto intro: runtime_apply_inv dest: refused_unchanged)
qed (rule run_init_inv)

subsection \<open>What the runtime promises\<close>

text \<open>
  C3: An obligation is only fulfilled by a full stability window. In every run, when an obligation is
  fulfilled at tick \<open>t\<close> then the run contains an accepted observation at \<open>t\<close>, not after the
  deadline, that establishes the terminal predicate and refutes the failure predicate; before it
  lies a stretch of the run without interruption, after the registration, in which every accepted
  observation did the same, and with the fulfilling one that stretch holds at least as many samples
  as the stability bound, each at least a polling interval after the one before (the first after the
  registration, the last one possibly early when it is at the deadline).
\<close>

theorem fulfilled_needs_stability:
  assumes "reach run_init run_step (rt, log)"
    and "map_of (or_obligations rt) a = Some ob" "bo_status ob = Fulfilled t evs"
  shows "\<exists>later ev recent older samples.
    log = later @ RtObserve ev # recent @ older \<and> observed_tick ev = t \<and> t \<le> os_deadline_tick (bo_spec ob) \<and>
    judge ev (bo_spec ob) = Ok (PFalse, True) \<and> (\<forall>op \<in> set recent. keeps_streak a (bo_spec ob) op) \<and>
    subseq samples (observations recent) \<and>
    unat (os_stable_for_observations (bo_spec ob)) \<le> Suc (length samples) \<and>
    spaced (os_poll_interval_ticks (bo_spec ob)) (bo_registered_tick ob) samples \<and>
    (spaced (os_poll_interval_ticks (bo_spec ob)) (bo_registered_tick ob) (ev # samples)
     \<or> t = os_deadline_tick (bo_spec ob))"
proof -
  have "entry_inv log a ob (map_of (or_drain_progress rt) a)"
    using obligation.reach_inv [OF assms(1)] assms(2) by (rule run_inv_lookup)
  then have "fulfilled_inv log a ob t" using assms(3) by (simp add: entry_inv_def status_inv_def)
  then show ?thesis unfolding fulfilled_inv_def streak_def by (elim exE conjE) (intro exI conjI)
qed

text \<open>
  C35: Cancellation is final only after the whole drain. In every run a cancelled obligation has a
  recorded certificate that is quiescent, was current at the cancellation tick and has no step left;
  its compensated steps are exactly those that the request which opened the drain asked for, and
  the drain did not end before it began.
\<close>

theorem cancelled_only_when_drained:
  assumes "reach run_init run_step (rt, log)"
    and "map_of (or_obligations rt) a = Some ob" "bo_status ob = Cancelled t"
  shows "\<exists>c n op. get_drain_progress a rt = Some c \<and> op \<in> set log \<and> opens_drain a (dc_drain_started_tick c) n op \<and>
    dc_is_quiescent c \<and> dc_steps_remaining c = 0 \<and> dc_steps_compensated c = n \<and> n \<le> max_drain_steps \<and>
    dc_current_tick c = t \<and> dc_drain_started_tick c \<le> t"
proof -
  have "entry_inv log a ob (map_of (or_drain_progress rt) a)"
    using obligation.reach_inv [OF assms(1)] assms(2) by (rule run_inv_lookup)
  then show ?thesis using assms(3) by (auto simp: entry_inv_def status_inv_def drain_inv_def get_drain_progress_def)
qed

text \<open>The settled obligations, and all that the runtime keeps of one.\<close>

fun settled :: "obligation_status \<Rightarrow> bool" where
  "settled (Fulfilled _ _) \<longleftrightarrow> True"
| "settled (Failed _ _) \<longleftrightarrow> True"
| "settled (Cancelled _) \<longleftrightarrow> True"
| "settled _ \<longleftrightarrow> False"

definition tracked :: "action_id \<Rightarrow> obligation_runtime \<Rightarrow>
    bounded_obligation option \<times> state_anchor option \<times> drain_certificate option" where
  "tracked a rt =
     (map_of (or_obligations rt) a, map_of (or_observation_anchors rt) a, map_of (or_drain_progress rt) a)"

lemma settled_not_active: "settled st \<Longrightarrow> \<not> is_active st"
  by (cases st) auto

lemma tracked_apply:
  assumes "run_inv (rt, log)" "map_of (or_obligations rt) a = Some ob" "settled (bo_status ob)"
    and "runtime_apply op rt = (rt', Ok ())"
  shows "tracked a rt' = tracked a rt"
proof (cases op)
  case (RtObserve ev)
  then have "step_tick_with_evidence ev rt = (rt', Ok ())" using assms(4) by simp
  note entry = observe_entry [OF this run_inv_keyed [OF assms(1)]]
  show ?thesis
    using entry(3) [OF assms(2) settled_not_active [OF assms(3)]] entry(4) assms(2) by (simp add: tracked_def)
next
  case (RtRegister b spec tick)
  then show ?thesis using assms
    by (auto simp: register_obligation_def tracked_def bt_contains_iff map_of_bt_insert split: if_splits result.splits)
next
  case (RtRegisterAt b spec s)
  then show ?thesis using assms
    by (auto simp: register_obligation_at_def register_obligation_def tracked_def bt_contains_iff map_of_bt_insert
        split: if_splits result.splits prod.splits)
next
  case (RtInterrupted b)
  then show ?thesis using assms
    by (auto simp: observation_interrupted_def tracked_def map_of_bt_insert split: option.splits obligation_status.splits)
next
  case (RtCancelSteps b tick n)
  then have "request_cancel_with_steps b tick n rt = (rt', Ok ())" using assms(4) by simp
  then show ?thesis
    using assms(2,3) by (cases rule: cancel_effect) (auto simp: tracked_def map_of_bt_insert)
next
  case (RtCancel b tick)
  then obtain n where "request_cancel_with_steps b tick n rt = (rt', Ok ())"
    using assms(4) by (auto elim: request_cancel_effect)
  then show ?thesis
    using assms(2,3) by (cases rule: cancel_effect) (auto simp: tracked_def map_of_bt_insert)
next
  case (RtProgress c)
  then show ?thesis using assms
    by (auto simp: record_drain_progress_def tracked_def map_of_bt_insert split: if_splits option.splits obligation_status.splits)
next
  case (RtFinalize b tick c)
  then show ?thesis using assms
    by (auto simp: finalize_cancel_def Let_def tracked_def map_of_bt_insert
        split: if_splits option.splits obligation_status.splits)
qed

lemma tracked_steps:
  assumes "run_step\<^sup>*\<^sup>* r r'" "run_inv r" "map_of (or_obligations (fst r)) a = Some ob" "settled (bo_status ob)"
  shows "tracked a (fst r') = tracked a (fst r)"
  using assms(1)
proof (induction rule: rtranclp_induct)
  case (step r1 r2)
  have inv: "run_inv r1" using obligation.steps_inv [OF assms(2) step.hyps(1)] .
  have ob: "map_of (or_obligations (fst r1)) a = Some ob"
    using step.IH assms(3) by (simp add: tracked_def)
  from step.hyps(2) have "tracked a (fst r2) = tracked a (fst r1)"
    using inv ob assms(4) by (cases rule: run_step.cases) (auto intro: tracked_apply dest: refused_unchanged)
  with step.IH show ?case by simp
qed simp

text \<open>
  C34: Outcomes are never rewritten. Once an obligation is fulfilled, failed or cancelled, no further
  call of any kind changes its record, its last observation anchor or its drain certificate.
\<close>

theorem settled_obligations_immutable:
  assumes "reach run_init run_step (rt, log)" "run_step\<^sup>*\<^sup>* (rt, log) (rt', log')"
    and "map_of (or_obligations rt) a = Some ob" "settled (bo_status ob)"
  shows "tracked a rt' = tracked a rt"
  using tracked_steps [OF assms(2) obligation.reach_inv [OF assms(1)]] assms(3,4) by simp

text \<open>
  C36: Every deadline settles. An accepted observation at or after the deadline of an obligation
  leaves it no longer waiting: an active one is fulfilled or failed at that very tick.
\<close>

theorem deadline_settles:
  assumes "reach run_init run_step (rt, log)" "step_tick_with_evidence ev rt = (rt', Ok ())"
    and "map_of (or_obligations rt) a = Some ob" "bo_status ob = Active e n"
    and "os_deadline_tick (bo_spec ob) \<le> observed_tick ev"
  shows "\<exists>ob'. map_of (or_obligations rt') a = Some ob' \<and> bo_spec ob' = bo_spec ob \<and>
    ((\<exists>evs. bo_status ob' = Fulfilled (observed_tick ev) evs \<and> observed_tick ev = os_deadline_tick (bo_spec ob))
     \<or> (\<exists>why. bo_status ob' = Failed (observed_tick ev) why))"
proof -
  have "keyed rt" using obligation.reach_inv [OF assms(1)] by (rule run_inv_keyed)
  from observe_entry(2) [OF assms(2) this assms(3,4)] obtain j
    where j: "map_of (or_obligations rt') a = Some (advance (pe_snapshot ev) j n ob)" by auto
  show ?thesis using assms(5) by (intro exI [of _ "advance (pe_snapshot ev) j n ob"]) (auto simp: j advance_def Let_def)
qed

subsection \<open>Recovery keeps the contract\<close>

lemma prepare_spec_stored:
  assumes "prepare_spec given = Ok spec" "prepare_spec spec = Ok spec'"
  shows "spec' = spec"
proof -
  have "normal_form (os_terminal spec)" "\<And>p. os_failure spec = Some p \<Longrightarrow> normal_form p"
    using assms(1) by (auto simp: prepare_spec_def Let_def normalized_normal split: if_splits option.splits)
  then show ?thesis
    using assms(2) by (auto simp: prepare_spec_def Let_def normal_normalized split: if_splits option.splits)
qed

definition contract :: "recovered_obligation \<Rightarrow> (obligation_spec \<times> game_tick) option" where
  "contract r =
     map_option (\<lambda>ob. (bo_spec ob, bo_registered_tick ob)) (map_of (or_obligations (ro_runtime r)) (ro_action_id r))"

inductive recovered_step :: "recovered_obligation \<Rightarrow> recovered_obligation \<Rightarrow> bool" where
  observed: "recovered_observe ev r = (r', res) \<Longrightarrow> recovered_step r r'"
| interrupted: "recovered_interrupted r = (r', res) \<Longrightarrow> recovered_step r r'"
| restarted: "after_restart_with_evidence ev r = Ok r' \<Longrightarrow> recovered_step r r'"

inductive_cases recovered_stepE: "recovered_step r r'"

lemma keyed_iff:
  "keyed rt \<longleftrightarrow> bt_sorted (or_obligations rt) \<and> (\<forall>k ob. map_of (or_obligations rt) k = Some ob \<longrightarrow> bo_action_id ob = k)"
proof -
  have "(\<forall>(k, ob) \<in> set m. bo_action_id ob = k) \<longleftrightarrow> (\<forall>k ob. (k, ob) \<in> set m \<longrightarrow> bo_action_id ob = k)"
    for m :: "(action_id \<times> bounded_obligation) list"
    by auto
  then show ?thesis by (simp add: keyed_def bt_entry_iff cong: conj_cong)
qed

lemma advance_entry_fields [simp]:
  "bo_action_id (advance_entry s judgements ob) = bo_action_id ob"
  "bo_spec (advance_entry s judgements ob) = bo_spec ob"
  "bo_registered_tick (advance_entry s judgements ob) = bo_registered_tick ob"
  by (simp_all add: advance_entry_def split: obligation_status.split)

lemma observed_keyed:
  assumes "step_tick_with_evidence ev rt = (rt', Ok ())" "keyed rt"
  shows "keyed rt'"
  using assms
  by (fastforce simp: step_tick_with_evidence_def Let_def keyed_def bt_sorted_map_snd split: if_splits result.splits)

text \<open>The obligation a recovery leaves: registered as before, and with an empty window.\<close>

lemma recovered_entry:
  assumes "recover_with_evidence a given reg ev = Ok r"
  obtains spec ob where "prepare_spec given = Ok spec" "ro_action_id r = a" "keyed (ro_runtime r)"
    "map_of (or_obligations (ro_runtime r)) a = Some ob" "bo_spec ob = spec" "bo_registered_tick ob = reg"
    "(\<exists>e. bo_status ob = Active e 0) \<and> observed_tick ev < os_deadline_tick spec
     \<or> (\<exists>why. bo_status ob = Failed (observed_tick ev) why)"
proof -
  from assms obtain rt where reg: "register_obligation a given reg runtime_new = (rt, Ok ())"
    by (auto simp: recover_with_evidence_def Let_def split: if_splits prod.splits result.splits)
  then obtain spec where spec: "prepare_spec given = Ok spec"
    and rt: "rt = runtime_new\<lparr>or_obligations := [(a, \<lparr>bo_action_id = a, bo_spec = spec, bo_status = Active 0 0,
      bo_registered_tick = reg, bo_last_evaluated_tick = None\<rparr>)]\<rparr>"
    by (auto simp: register_obligation_def runtime_new_def split: if_splits result.splits)
  let ?e = "saturating_sub (observed_tick ev) reg"
  let ?ob = "\<lparr>bo_action_id = a, bo_spec = spec, bo_status = Active ?e 0,
      bo_registered_tick = reg, bo_last_evaluated_tick = Some (observed_tick ev)\<rparr>"
  let ?rt = "runtime_new\<lparr>or_observation_anchors := [(a, snapshot_anchor (pe_snapshot ev))], or_obligations := [(a, ?ob)]\<rparr>"
  from assms reg obtain rt' where step: "step_tick_with_evidence ev ?rt = (rt', Ok ())"
    and r: "r = \<lparr>ro_runtime = rt', ro_action_id = a, ro_recovery_anchor = snapshot_anchor (pe_snapshot ev)\<rparr>"
    by (auto simp: recover_with_evidence_def Let_def rt runtime_new_def split: if_splits prod.splits result.splits)
  have keyed: "keyed ?rt" by (simp add: keyed_def)
  note entry = observe_entry [OF step keyed]
  obtain j where j: "map_of (or_obligations rt') a = Some (advance (pe_snapshot ev) j 0 ?ob)"
    using entry(2) [of a ?ob ?e 0] by auto
  show ?thesis
    using spec j observed_keyed [OF step keyed] by (intro that [of spec "advance (pe_snapshot ev) j 0 ?ob"])
      (auto simp: r advance_def Let_def sample_due_def not_le)
qed

lemma contract_step:
  assumes "recovered_step r r'" "keyed (ro_runtime r)" "contract r = Some (spec, reg)" "prepare_spec given = Ok spec"
  shows "keyed (ro_runtime r') \<and> contract r' = Some (spec, reg) \<and> ro_action_id r' = ro_action_id r"
  using assms(1)
proof cases
  case (observed ev res)
  then obtain rt where rt: "step_tick_with_evidence ev (ro_runtime r) = (rt, res)" "r' = r\<lparr>ro_runtime := rt\<rparr>"
    by (auto simp: recovered_observe_def split: prod.splits)
  show ?thesis
  proof (cases res)
    case (Ok u)
    have "contract (r\<lparr>ro_runtime := rt\<rparr>) = Some (spec, reg)"
      using rt(1) assms(3)
      by (auto simp: Ok step_tick_with_evidence_def Let_def contract_def map_of_map_snd split: if_splits result.splits)
    then show ?thesis using observed_keyed [OF _ assms(2)] rt Ok by simp
  next
    case (Err e)
    then have "rt = ro_runtime r" using refused_unchanged [of "RtObserve ev"] rt(1) by simp
    then show ?thesis using assms by (simp add: rt)
  qed
next
  case (interrupted res)
  then show ?thesis using assms
    by (auto simp: recovered_interrupted_def observation_interrupted_def keyed_iff contract_def
        bt_sorted_insert map_of_bt_insert split: option.splits obligation_status.splits if_splits)
next
  case (restarted ev)
  obtain ob where ob: "map_of (or_obligations (ro_runtime r)) (ro_action_id r) = Some ob" "bo_spec ob = spec"
      "bo_registered_tick ob = reg"
    using assms(3) by (auto simp: contract_def)
  show ?thesis
  proof (cases "is_active (bo_status ob)")
    case True
    then have "recover_with_evidence (ro_action_id r) spec reg ev = Ok r'"
      using restarted ob by (auto simp: after_restart_with_evidence_def Let_def split: if_splits option.splits)
    then show ?thesis
      by (rule recovered_entry) (auto simp: contract_def dest: prepare_spec_stored [OF assms(4)])
  next
    case False
    then have "r' = r" using restarted ob
      by (auto simp: after_restart_with_evidence_def Let_def split: if_splits option.splits)
    then show ?thesis using assms by simp
  qed
qed

text \<open>
  No restart extends an obligation. Through any sequence of observations, interruptions and
  restarts after a recovery the obligation keeps its specification (the normal form of the recorded
  one, deadline, polling interval and stability bound included) and its registration tick.
\<close>

theorem restarts_keep_contract:
  assumes "recover_with_evidence a given reg ev = Ok r" "recovered_step\<^sup>*\<^sup>* r r'"
  shows "\<exists>spec. prepare_spec given = Ok spec \<and> contract r' = Some (spec, reg) \<and> ro_action_id r' = a \<and>
    os_deadline_tick spec = os_deadline_tick given"
proof -
  from assms(1) obtain spec ob where r: "prepare_spec given = Ok spec" "ro_action_id r = a" "keyed (ro_runtime r)"
      "map_of (or_obligations (ro_runtime r)) a = Some ob" "bo_spec ob = spec" "bo_registered_tick ob = reg"
    by (rule recovered_entry)
  from assms(2) have "keyed (ro_runtime r') \<and> contract r' = Some (spec, reg) \<and> ro_action_id r' = a"
  proof (induction rule: rtranclp_induct)
    case base
    then show ?case using r by (simp add: contract_def)
  next
    case (step r1 r2)
    then show ?case using contract_step [of r1 r2 spec reg given] r(1) by simp
  qed
  moreover have "os_deadline_tick spec = os_deadline_tick given"
    using r(1) by (auto simp: prepare_spec_def Let_def split: if_splits option.splits)
  ultimately show ?thesis using r(1) by blast
qed

text \<open>
  A recovery never fulfils an obligation by itself and brings no old sample with it: after it
  the obligation waits with an empty window before its deadline, or has failed.
\<close>

theorem recovery_empties_window:
  assumes "recover_with_evidence a given reg ev = Ok r"
  shows "(\<exists>e. recovered_status r = Some (Active e 0)) \<and> observed_tick ev < os_deadline_tick given
    \<or> (\<exists>why. recovered_status r = Some (Failed (observed_tick ev) why))"
proof -
  from assms obtain spec ob where r: "prepare_spec given = Ok spec" "ro_action_id r = a"
      "map_of (or_obligations (ro_runtime r)) a = Some ob"
      "(\<exists>e. bo_status ob = Active e 0) \<and> observed_tick ev < os_deadline_tick spec
       \<or> (\<exists>why. bo_status ob = Failed (observed_tick ev) why)"
    by (rule recovered_entry)
  moreover have "os_deadline_tick spec = os_deadline_tick given"
    using r(1) by (auto simp: prepare_spec_def Let_def split: if_splits option.splits)
  ultimately show ?thesis by (auto simp: recovered_status_def get_status_def)
qed

subsection \<open>Concrete runs\<close>

definition sample_spec :: "game_tick \<Rightarrow> u32 \<Rightarrow> obligation_spec" where
  "sample_spec deadline k =
     \<lparr>os_terminal = sample_alive, os_failure = None, os_deadline_tick = deadline, os_poll_interval_ticks = 10,
      os_stable_for_observations = k\<rparr>"

definition sample_entry :: "game_tick \<Rightarrow> u32 \<Rightarrow> obligation_status \<Rightarrow> game_tick option \<Rightarrow> bounded_obligation" where
  "sample_entry deadline k status sampled =
     \<lparr>bo_action_id = 3, bo_spec = sample_spec deadline k, bo_status = status, bo_registered_tick = 50,
      bo_last_evaluated_tick = sampled\<rparr>"

lemma sample_shape: "validate_predicate_shape sample_alive = Ok ()"
  using sample_evidence_answer by (simp add: evidence_evaluate_def)

lemma sample_prepared: "prepare_spec (sample_spec d k) = Ok (sample_spec d k)"
  by (simp add: prepare_spec_def sample_spec_def sample_shape) (simp add: sample_alive_def trivial_predicate_def)

lemma sample_judged: "judge sample_evidence (sample_spec d k) = Ok (PFalse, True)"
  by (simp add: judge_def sample_spec_def evidence_establishes_def sample_evidence_answer)

lemma sample_snapshot [simp]:
  "pe_snapshot sample_evidence = sample_lab_world" "ws_tick sample_lab_world = 100" "hash_is_valid sample_lab_world"
  by (simp_all add: sample_evidence_def sample_lab_world_def)

lemma sample_registered:
  "d > 50 \<Longrightarrow> k \<noteq> 0 \<Longrightarrow> runtime_apply (RtRegister 3 (sample_spec d k) 50) runtime_new =
     (runtime_new\<lparr>or_obligations := [(3, sample_entry d k (Active 0 0) None)]\<rparr>, Ok ())"
  using sample_prepared [of d k]
  by (auto simp: register_obligation_def runtime_new_def sample_entry_def bt_contains_def
      max_tracked_obligations_def sample_spec_def [of d k])

lemma sample_observed:
  "step_tick_with_evidence sample_evidence (runtime_new\<lparr>or_obligations := [(3, sample_entry d k (Active 0 0) None)]\<rparr>) =
     (runtime_new\<lparr>or_obligations := [(3, advance sample_lab_world (PFalse, True) 0 (sample_entry d k (Active 0 0) None))],
        or_observation_anchors := [(3, snapshot_anchor sample_lab_world)]\<rparr>, Ok ())"
  by (simp add: step_tick_with_evidence_def runtime_new_def check_obligation_def sample_entry_def sample_judged
      advance_entry_def)

lemma sample_observed_reach:
  assumes "d > 50" "k \<noteq> 0"
  shows "reach run_init run_step (runtime_new\<lparr>or_obligations := [(3, sample_entry d k (Active 0 0) None)]\<rparr>,
      [RtRegister 3 (sample_spec d k) 50])"
    and "reach run_init run_step
      (fst (step_tick_with_evidence sample_evidence (runtime_new\<lparr>or_obligations := [(3, sample_entry d k (Active 0 0) None)]\<rparr>)),
       [RtObserve sample_evidence, RtRegister 3 (sample_spec d k) 50])"
proof -
  have "reach run_init run_step (runtime_new, [])" by (rule reach_init) (simp add: run_init_def)
  then show first: "reach run_init run_step (runtime_new\<lparr>or_obligations := [(3, sample_entry d k (Active 0 0) None)]\<rparr>,
      [RtRegister 3 (sample_spec d k) 50])"
    using run_step.accepted [OF sample_registered [OF assms]] by (rule reach_step)
  show "reach run_init run_step
      (fst (step_tick_with_evidence sample_evidence (runtime_new\<lparr>or_obligations := [(3, sample_entry d k (Active 0 0) None)]\<rparr>)),
       [RtObserve sample_evidence, RtRegister 3 (sample_spec d k) 50])"
    using first by (rule reach_step) (rule run_step.accepted, simp add: sample_observed)
qed

theorem fulfilled_needs_stability_witness:
  "\<exists>later ev recent older samples.
    [RtObserve sample_evidence, RtRegister 3 (sample_spec 200 1) 50] = later @ RtObserve ev # recent @ older \<and>
    observed_tick ev = 100 \<and> judge ev (sample_spec 200 1) = Ok (PFalse, True) \<and>
    spaced 10 50 (ev # samples)"
proof -
  let ?ob = "advance sample_lab_world (PFalse, True) 0 (sample_entry 200 1 (Active 0 0) None)"
  have fields: "bo_spec ?ob = sample_spec 200 1" "bo_registered_tick ?ob = 50"
    by (simp_all add: sample_entry_def)
  obtain evs where status: "bo_status ?ob = Fulfilled 100 evs"
    by (simp add: advance_def Let_def sample_entry_def sample_spec_def sample_due_def saturating_sub_def saturating_add_def
        checked_add_def)
  have "100 \<noteq> os_deadline_tick (sample_spec 200 1)" by (simp add: sample_spec_def)
  with fulfilled_needs_stability [OF sample_observed_reach(2) [of 200 1], of 3 ?ob 100 evs] status
  show ?thesis unfolding fields by (auto simp: sample_observed sample_spec_def)
qed

theorem deadline_settles_witness:
  "\<exists>ob'. map_of (or_obligations (fst (step_tick_with_evidence sample_evidence
       (runtime_new\<lparr>or_obligations := [(3, sample_entry 100 2 (Active 0 0) None)]\<rparr>)))) 3 = Some ob' \<and>
     ((\<exists>evs. bo_status ob' = Fulfilled 100 evs) \<or> (\<exists>why. bo_status ob' = Failed 100 why))"
proof -
  let ?rt = "runtime_new\<lparr>or_obligations := [(3, sample_entry 100 2 (Active 0 0) None)]\<rparr>"
  have "step_tick_with_evidence sample_evidence ?rt = (fst (step_tick_with_evidence sample_evidence ?rt), Ok ())"
    by (simp add: sample_observed)
  from deadline_settles [OF sample_observed_reach(1) this, of 3 "sample_entry 100 2 (Active 0 0) None" 0 0]
  show ?thesis by (simp add: sample_entry_def sample_spec_def) blast
qed

definition sample_drain :: drain_certificate where
  "sample_drain = \<lparr>dc_action_id = 3, dc_drain_started_tick = 60, dc_current_tick = 70, dc_steps_compensated = 2,
     dc_steps_remaining = 0, dc_is_quiescent = True\<rparr>"

definition sample_cancellation :: "runtime_op list" where
  "sample_cancellation = [RtRegister 3 (sample_spec 200 1) 50, RtCancelSteps 3 60 2, RtProgress sample_drain,
     RtFinalize 3 70 sample_drain]"

definition sample_cancelled :: obligation_runtime where
  "sample_cancelled = runtime_new\<lparr>or_obligations := [(3, sample_entry 200 1 (Cancelled 70) None)],
     or_drain_progress := [(3, sample_drain)]\<rparr>"

fun run_all :: "runtime_op list \<Rightarrow> obligation_runtime \<Rightarrow> obligation_runtime option" where
  "run_all [] rt = Some rt"
| "run_all (op # ops) rt = (case runtime_apply op rt of (rt', Ok _) \<Rightarrow> run_all ops rt' | (_, Err _) \<Rightarrow> None)"

lemma run_all_reach:
  "run_all ops rt = Some rt' \<Longrightarrow> reach run_init run_step (rt, log) \<Longrightarrow>
   reach run_init run_step (rt', rev ops @ log)"
proof (induction ops arbitrary: rt log)
  case (Cons op ops)
  then obtain rt1 where rt1: "runtime_apply op rt = (rt1, Ok ())" "run_all ops rt1 = Some rt'"
    by (auto split: prod.splits result.splits)
  from Cons.IH [OF rt1(2) reach_step [OF Cons.prems(2) run_step.accepted [OF rt1(1)]]] show ?case by simp
qed simp

lemma sample_cancellation_run: "run_all sample_cancellation runtime_new = Some sample_cancelled"
proof -
  have "runtime_apply (RtRegister 3 (sample_spec 200 1) 50) runtime_new =
     (runtime_new\<lparr>or_obligations := [(3, sample_entry 200 1 (Active 0 0) None)]\<rparr>, Ok ())"
    by (rule sample_registered) simp_all
  then show ?thesis
    by (simp add: sample_cancellation_def sample_cancelled_def runtime_new_def sample_entry_def sample_drain_def
        request_cancel_with_steps_def max_drain_steps_def record_drain_progress_def progress_accepted_def
        total_steps_def finalize_cancel_def)
qed

lemma sample_cancelled_reach: "reach run_init run_step (sample_cancelled, rev sample_cancellation)"
  using run_all_reach [OF sample_cancellation_run, of "[]"] by (simp add: reach_init run_init_def)

theorem cancelled_only_when_drained_witness:
  "\<exists>c n op. get_drain_progress 3 sample_cancelled = Some c \<and> op \<in> set sample_cancellation \<and>
     opens_drain 3 (dc_drain_started_tick c) n op \<and> dc_is_quiescent c \<and> dc_steps_compensated c = n"
  using cancelled_only_when_drained [OF sample_cancelled_reach, of 3 "sample_entry 200 1 (Cancelled 70) None" 70]
  by (auto simp: sample_cancelled_def sample_entry_def)

theorem settled_obligations_immutable_witness:
  "tracked 3 (fst (observation_interrupted 3 sample_cancelled)) = tracked 3 sample_cancelled"
proof -
  let ?rt = "fst (observation_interrupted 3 sample_cancelled)"
  have "runtime_apply (RtInterrupted 3) sample_cancelled = (?rt, Ok ())"
    by (simp add: observation_interrupted_def sample_cancelled_def sample_entry_def)
  then have "run_step\<^sup>*\<^sup>* (sample_cancelled, rev sample_cancellation) (?rt, RtInterrupted 3 # rev sample_cancellation)"
    by (intro r_into_rtranclp run_step.accepted)
  from settled_obligations_immutable [OF sample_cancelled_reach this, of 3 "sample_entry 200 1 (Cancelled 70) None"]
  show ?thesis by (simp add: sample_cancelled_def sample_entry_def)
qed

lemma sample_recovery:
  obtains r where "recover_with_evidence 3 (sample_spec 200 1) 50 sample_evidence = Ok r"
proof -
  have reg: "register_obligation 3 (sample_spec 200 1) 50 runtime_new =
     (runtime_new\<lparr>or_obligations := [(3, sample_entry 200 1 (Active 0 0) None)]\<rparr>, Ok ())"
    using sample_registered [of 200 1] by simp
  have "\<exists>r. recover_with_evidence 3 (sample_spec 200 1) 50 sample_evidence = Ok r"
    by (simp add: recover_with_evidence_def reg [unfolded runtime_new_def] Let_def runtime_new_def sample_entry_def step_tick_with_evidence_def
        check_obligation_def sample_judged anchor_regresses_def split: prod.split)
  then show ?thesis using that by blast
qed

theorem restarts_keep_contract_witness:
  "\<exists>r r'. recover_with_evidence 3 (sample_spec 200 1) 50 sample_evidence = Ok r \<and> recovered_step r r' \<and>
     contract r' = Some (sample_spec 200 1, 50)"
proof -
  obtain r where r: "recover_with_evidence 3 (sample_spec 200 1) 50 sample_evidence = Ok r" by (rule sample_recovery)
  let ?r = "fst (recovered_interrupted r)"
  have step: "recovered_step r ?r" by (rule recovered_step.interrupted [of _ _ "snd (recovered_interrupted r)"]) simp
  then have "contract ?r = Some (sample_spec 200 1, 50)"
    using restarts_keep_contract [OF r r_into_rtranclp [of recovered_step, OF step]] by (simp add: sample_prepared)
  with r step show ?thesis by blast
qed

theorem recovery_empties_window_witness:
  "\<exists>r. recover_with_evidence 3 (sample_spec 200 1) 50 sample_evidence = Ok r \<and>
     ((\<exists>e. recovered_status r = Some (Active e 0)) \<or> (\<exists>why. recovered_status r = Some (Failed 100 why)))"
proof -
  obtain r where r: "recover_with_evidence 3 (sample_spec 200 1) 50 sample_evidence = Ok r" by (rule sample_recovery)
  then show ?thesis using recovery_empties_window [OF r] by auto
qed

end
