(* ===== verification/Workforce.thy ===== *)
theory Workforce
  imports Merkle "HOL-Library.Product_Lexorder"
begin

text \<open>
  \<^verbatim>\<open>crates/dfmcp-world/src/workforce_allocation.rs\<close>: the allocation of workers to demands by successive
  shortest augmenting paths with vector costs, and the verifier of the certificate (potentials and
  a cut) that every allocation carries. The verifier alone decides what is returned, so its
  soundness makes the allocator optimal: most workers first, then least cost, lexicographically.
\<close>

subsection \<open>Costs\<close>

text \<open>A cost has four components, compared lexicographically; as mathematical vectors they are an ordered group.\<close>

datatype cost = Cost int int int int

instantiation cost :: linordered_ab_group_add
begin

definition zero_cost :: cost where "0 = Cost 0 0 0 0"

fun plus_cost :: "cost \<Rightarrow> cost \<Rightarrow> cost" where
  "Cost a b c d + Cost a' b' c' d' = Cost (a + a') (b + b') (c + c') (d + d')"

fun minus_cost :: "cost \<Rightarrow> cost \<Rightarrow> cost" where
  "Cost a b c d - Cost a' b' c' d' = Cost (a - a') (b - b') (c - c') (d - d')"

fun uminus_cost :: "cost \<Rightarrow> cost" where
  "- Cost a b c d = Cost (- a) (- b) (- c) (- d)"

fun less_eq_cost :: "cost \<Rightarrow> cost \<Rightarrow> bool" where
  "Cost a b c d \<le> Cost a' b' c' d' \<longleftrightarrow>
     a < a' \<or> a = a' \<and> (b < b' \<or> b = b' \<and> (c < c' \<or> c = c' \<and> d \<le> d'))"

fun less_cost :: "cost \<Rightarrow> cost \<Rightarrow> bool" where
  "Cost a b c d < Cost a' b' c' d' \<longleftrightarrow>
     a < a' \<or> a = a' \<and> (b < b' \<or> b = b' \<and> (c < c' \<or> c = c' \<and> d < d'))"

instance
proof
  fix x y z :: cost
  show "x + y + z = x + (y + z)" by (cases x, cases y, cases z) simp
  show "x + y = y + x" by (cases x, cases y) simp
  show "0 + x = x" by (cases x) (simp add: zero_cost_def)
  show "- x + x = 0" by (cases x) (simp add: zero_cost_def)
  show "x - y = x + - y" by (cases x, cases y) simp
  show "x < y \<longleftrightarrow> x \<le> y \<and> \<not> y \<le> x" by (cases x, cases y) auto
  show "x \<le> x" by (cases x) simp
  show "x \<le> z" if "x \<le> y" "y \<le> z" using that by (cases x, cases y, cases z) auto
  show "x = y" if "x \<le> y" "y \<le> x" using that by (cases x, cases y) auto
  show "z + x \<le> z + y" if "x \<le> y" using that by (cases x, cases y, cases z) auto
  show "x \<le> y \<or> y \<le> x" by (cases x, cases y) auto
qed

end

datatype alloc_error = InvalidInput | BudgetExhausted | ArithmeticOverflow | InvalidCertificate

type_synonym 'a ares = "('a, alloc_error) result"

fun cost_in_range :: "cost \<Rightarrow> bool" where
  "cost_in_range (Cost a b c d) \<longleftrightarrow> i64_range a \<and> i64_range b \<and> i64_range c \<and> i64_range d"

definition cost_add :: "cost \<Rightarrow> cost \<Rightarrow> cost ares" where
  "cost_add x y = (if cost_in_range (x + y) then Ok (x + y) else Err ArithmeticOverflow)"

definition cost_sub :: "cost \<Rightarrow> cost \<Rightarrow> cost ares" where
  "cost_sub x y = (if cost_in_range (x - y) then Ok (x - y) else Err ArithmeticOverflow)"

subsection \<open>Inputs and outputs\<close>

record demand =
  dm_key :: string
  dm_workers :: u32
  dm_priority :: u16

record candidate =
  cd_worker_id :: u64
  cd_demand_index :: nat
  cd_effective :: int
  cd_nominal :: int
  cd_steps :: u32

text \<open>An assignment is the pair of its demand index and its worker, ordered as the pair is.\<close>

type_synonym assignment = "nat \<times> u64"

record shortage =
  sh_demand_indices :: "nat list"
  sh_required_workers :: u32
  sh_eligible_workers :: u32
  sh_deficit :: u32

record alloc_witness =
  aw_potentials :: "cost list"
  aw_source_side :: "bool list"

record allocation =
  al_assignments :: "assignment list"
  al_allocated_by_demand :: "u32 list"
  al_requested_workers :: u32
  al_assigned_workers :: u32
  al_cut_capacity :: u32
  al_cost :: cost
  al_shortage :: "shortage option"
  al_witness :: alloc_witness
  al_work_units :: u64

definition max_workers :: nat where "max_workers = 4096"
definition max_demands :: nat where "max_demands = 16"
definition max_slots :: u32 where "max_slots = 128"
definition max_priority :: u16 where "max_priority = 1000"
definition max_work_limit :: u64 where "max_work_limit = 10000000"

record alloc_work =
  wk_used :: u64
  wk_maximum :: u64

definition work_new :: "u64 \<Rightarrow> alloc_work ares" where
  "work_new maximum =
     (if maximum = 0 \<or> maximum > max_work_limit then Err BudgetExhausted
      else Ok \<lparr>wk_used = 0, wk_maximum = maximum\<rparr>)"

definition charge :: "u64 \<Rightarrow> alloc_work \<Rightarrow> alloc_work ares" where
  "charge n w =
     (case checked_add (wk_used w) n of
        None \<Rightarrow> Err ArithmeticOverflow
      | Some used \<Rightarrow> if used > wk_maximum w then Err BudgetExhausted else Ok (w\<lparr>wk_used := used\<rparr>))"

record flow_model =
  fm_workers :: "u64 list"
  fm_requested :: u32
  fm_sink :: nat

definition worker_node :: "flow_model \<Rightarrow> nat \<Rightarrow> u64 \<Rightarrow> nat ares" where
  "worker_node m demands worker =
     (case binary_search (fm_workers m) worker 0 (length (fm_workers m)) of
        Some i \<Rightarrow> Ok (1 + demands + i)
      | None \<Rightarrow> Err InvalidCertificate)"

subsection \<open>Validation\<close>

definition key_char :: "char \<Rightarrow> bool" where
  "key_char b \<longleftrightarrow>
     CHR ''0'' \<le> b \<and> b \<le> CHR ''9'' \<or> CHR ''A'' \<le> b \<and> b \<le> CHR ''Z'' \<or> CHR ''a'' \<le> b \<and> b \<le> CHR ''z''
     \<or> b \<in> set ''._-''"

fun validate_demands :: "demand option \<Rightarrow> demand list \<Rightarrow> u32 \<Rightarrow> alloc_work \<Rightarrow> (u32 \<times> alloc_work) ares" where
  "validate_demands prior [] requested w = Ok (requested, w)"
| "validate_demands prior (d # ds) requested w =
     and_then (charge 1 w) (\<lambda>w.
       if dm_key d = [] \<or> length (dm_key d) > 64 \<or> dm_workers d = 0 \<or> dm_workers d > max_slots
          \<or> dm_priority d > max_priority \<or> \<not> list_all key_char (dm_key d)
          \<or> (case prior of None \<Rightarrow> False | Some p \<Rightarrow> dm_key p \<ge> dm_key d)
       then Err InvalidInput
       else and_then (ok_or (checked_add requested (dm_workers d)) ArithmeticOverflow) (\<lambda>requested.
         validate_demands (Some d) ds requested w))"

definition candidate_key :: "candidate \<Rightarrow> assignment" where
  "candidate_key c = (cd_demand_index c, cd_worker_id c)"

fun validate_candidates ::
    "nat \<Rightarrow> candidate option \<Rightarrow> candidate list \<Rightarrow> (u64, unit) btree_map \<Rightarrow> alloc_work \<Rightarrow>
     ((u64, unit) btree_map \<times> alloc_work) ares" where
  "validate_candidates n prior [] workers w = Ok (workers, w)"
| "validate_candidates n prior (c # cs) workers w =
     and_then (charge 1 w) (\<lambda>w.
       if cd_worker_id c = 0 \<or> cd_demand_index c \<ge> n \<or> cd_effective c < 0
          \<or> (case prior of None \<Rightarrow> False | Some p \<Rightarrow> candidate_key p \<ge> candidate_key c)
       then Err InvalidInput
       else
         let workers = bt_insert (cd_worker_id c) () workers in
         if length workers > max_workers then Err BudgetExhausted
         else validate_candidates n (Some c) cs workers w)"

definition validate_allocation ::
    "demand list \<Rightarrow> candidate list \<Rightarrow> alloc_work \<Rightarrow> (flow_model \<times> alloc_work) ares" where
  "validate_allocation demands candidates w =
     (if demands = [] \<or> length demands > max_demands \<or> length candidates > max_demands * max_workers
      then Err BudgetExhausted
      else and_then (validate_demands None demands 0 w) (\<lambda>(requested, w).
        if requested > max_slots then Err BudgetExhausted
        else and_then (validate_candidates (length demands) None candidates [] w) (\<lambda>(workers, w).
          Ok (\<lparr>fm_workers = map fst workers, fm_requested = requested,
               fm_sink = 1 + length demands + length workers\<rparr>, w))))"

definition candidate_cost :: "demand list \<Rightarrow> candidate \<Rightarrow> cost" where
  "candidate_cost demands c =
     Cost (- int (unat (dm_priority (demands ! cd_demand_index c)))) (- cd_effective c) (- cd_nominal c)
       (int (unat (cd_steps c)))"

subsection \<open>The residual network\<close>

record arc =
  ar_to :: nat
  ar_reverse :: nat
  ar_remaining :: u32
  ar_cost :: cost

type_synonym flow_graph = "arc list list"

definition add_arc :: "flow_graph \<Rightarrow> nat \<Rightarrow> nat \<Rightarrow> u32 \<Rightarrow> cost \<Rightarrow> (nat \<times> flow_graph) ares" where
  "add_arc g from_node to_node capacity c =
     (let index = length (g ! from_node); reverse = length (g ! to_node)
      in and_then (cost_sub 0 c) (\<lambda>negative.
        let g = g[from_node := g ! from_node @
              [\<lparr>ar_to = to_node, ar_reverse = reverse, ar_remaining = capacity, ar_cost = c\<rparr>]];
            g = g[to_node := g ! to_node @
              [\<lparr>ar_to = from_node, ar_reverse = index, ar_remaining = 0, ar_cost = negative\<rparr>]]
        in Ok (index, g)))"

fun deficient_demands ::
    "nat \<Rightarrow> demand list \<Rightarrow> bool list \<Rightarrow> nat list \<Rightarrow> u32 \<Rightarrow> alloc_work \<Rightarrow> (nat list \<times> u32 \<times> alloc_work) ares" where
  "deficient_demands d [] source_side indices required w = Ok (indices, required, w)"
| "deficient_demands d (demand # demands) source_side indices required w =
     and_then (charge 1 w) (\<lambda>w.
       if source_side ! (1 + d)
       then deficient_demands (Suc d) demands source_side (indices @ [d]) (required + dm_workers demand) w
       else deficient_demands (Suc d) demands source_side indices required w)"

fun neighbor_workers ::
    "candidate list \<Rightarrow> bool list \<Rightarrow> (u64, unit) btree_map \<Rightarrow> alloc_work \<Rightarrow> ((u64, unit) btree_map \<times> alloc_work) ares" where
  "neighbor_workers [] source_side neighbors w = Ok (neighbors, w)"
| "neighbor_workers (c # cs) source_side neighbors w =
     and_then (charge 1 w) (\<lambda>w.
       neighbor_workers cs source_side
         (if source_side ! (1 + cd_demand_index c) then bt_insert (cd_worker_id c) () neighbors else neighbors) w)"

definition deficiency ::
    "demand list \<Rightarrow> candidate list \<Rightarrow> flow_model \<Rightarrow> bool list \<Rightarrow> u32 \<Rightarrow> alloc_work \<Rightarrow>
     (shortage option \<times> alloc_work) ares" where
  "deficiency demands candidates m source_side assigned w =
     (if assigned = fm_requested m then Ok (None, w)
      else
        and_then (deficient_demands 0 demands source_side [] 0 w) (\<lambda>(indices, required, w).
        and_then (neighbor_workers candidates source_side [] w) (\<lambda>(neighbors, w).
        and_then (if length neighbors < 2 ^ 32 then Ok (of_nat (length neighbors)) else Err ArithmeticOverflow) (\<lambda>eligible.
        and_then (ok_or (checked_sub required eligible) InvalidCertificate) (\<lambda>deficit.
          if deficit = 0 \<or> deficit \<noteq> fm_requested m - assigned then Err InvalidCertificate
          else Ok (Some \<lparr>sh_demand_indices = indices, sh_required_workers = required,
                         sh_eligible_workers = eligible, sh_deficit = deficit\<rparr>, w))))))"

subsection \<open>The solver\<close>

fun link_demands :: "nat \<Rightarrow> demand list \<Rightarrow> flow_graph \<Rightarrow> alloc_work \<Rightarrow> (flow_graph \<times> alloc_work) ares" where
  "link_demands d [] g w = Ok (g, w)"
| "link_demands d (demand # demands) g w =
     and_then (charge 1 w) (\<lambda>w.
     and_then (add_arc g 0 (1 + d) (dm_workers demand) 0) (\<lambda>(_, g).
       link_demands (Suc d) demands g w))"

fun link_candidates ::
    "demand list \<Rightarrow> flow_model \<Rightarrow> candidate list \<Rightarrow> nat list \<Rightarrow> flow_graph \<Rightarrow> cost list \<Rightarrow> alloc_work \<Rightarrow>
     (nat list \<times> flow_graph \<times> cost list \<times> alloc_work) ares" where
  "link_candidates demands m [] links g potentials w = Ok (links, g, potentials, w)"
| "link_candidates demands m (c # cs) links g potentials w =
     and_then (charge 1 w) (\<lambda>w.
     and_then (worker_node m (length demands) (cd_worker_id c)) (\<lambda>worker.
     let v = candidate_cost demands c in
     and_then (add_arc g (1 + cd_demand_index c) worker (fm_requested m) v) (\<lambda>(link, g).
       link_candidates demands m cs (links @ [link]) g
         (potentials[worker := min (potentials ! worker) v]) w)))"

fun link_workers ::
    "nat list \<Rightarrow> nat \<Rightarrow> flow_graph \<Rightarrow> cost list \<Rightarrow> alloc_work \<Rightarrow> (flow_graph \<times> cost list \<times> alloc_work) ares" where
  "link_workers [] sink g potentials w = Ok (g, potentials, w)"
| "link_workers (node # nodes) sink g potentials w =
     and_then (charge 1 w) (\<lambda>w.
     and_then (add_arc g node sink 1 0) (\<lambda>(_, g).
       link_workers nodes sink g (potentials[sink := min (potentials ! sink) (potentials ! node)]) w))"

record search_state =
  ss_distance :: "cost option list"
  ss_parent :: "(nat \<times> nat) option list"
  ss_frontier :: "(cost \<times> nat, unit) btree_map"

fun relax ::
    "cost list \<Rightarrow> nat \<Rightarrow> cost \<Rightarrow> nat \<Rightarrow> arc list \<Rightarrow> search_state \<Rightarrow> alloc_work \<Rightarrow> (search_state \<times> alloc_work) ares" where
  "relax potentials from_node label index [] st w = Ok (st, w)"
| "relax potentials from_node label index (e # es) st w =
     and_then (charge 1 w) (\<lambda>w.
       if ar_remaining e = 0 then relax potentials from_node label (Suc index) es st w
       else
         and_then (cost_add (ar_cost e) (potentials ! from_node)) (\<lambda>x.
         and_then (cost_sub x (potentials ! ar_to e)) (\<lambda>reduced.
         if reduced < 0 then Err InvalidCertificate
         else
           and_then (cost_add label reduced) (\<lambda>next.
             relax potentials from_node label (Suc index) es
               (if (case ss_distance st ! ar_to e of None \<Rightarrow> True | Some prior \<Rightarrow> next < prior)
                then
                  let frontier =
                        (case ss_distance st ! ar_to e of
                           None \<Rightarrow> ss_frontier st
                         | Some prior \<Rightarrow> bt_remove (prior, ar_to e) (ss_frontier st))
                  in \<lparr>ss_distance = (ss_distance st)[ar_to e := Some next],
                      ss_parent = (ss_parent st)[ar_to e := Some (from_node, index)],
                      ss_frontier = bt_insert (next, ar_to e) () frontier\<rparr>
                else st) w))))"

definition budget_left :: "alloc_work \<Rightarrow> nat" where
  "budget_left w = unat (wk_maximum w) - unat (wk_used w)"

lemma charge_Ok:
  "charge n w = Ok w' \<longleftrightarrow>
     unat (wk_used w) + unat n \<le> unat (wk_maximum w) \<and> w' = w\<lparr>wk_used := wk_used w + n\<rparr>"
proof -
  have "unat (wk_maximum w) < 2 ^ 64" using unat_less_u64 by simp
  then show ?thesis
    by (auto simp: charge_def checked_add_def word_less_nat_alt unat_word_ariths not_less split: if_splits)
qed

lemma charge_less: "charge n w = Ok w' \<Longrightarrow> n \<noteq> 0 \<Longrightarrow> budget_left w' < budget_left w"
proof -
  assume charged: "charge n w = Ok w'" and "n \<noteq> 0"
  then have "0 < unat n" by (simp add: unat_gt_0)
  moreover have "unat (wk_used w + n) = unat (wk_used w) + unat n"
  proof -
    have "unat (wk_maximum w) < 2 ^ 64" using unat_less_u64 by simp
    then show ?thesis using charged by (auto simp: charge_Ok unat_word_ariths)
  qed
  ultimately show ?thesis using charged by (auto simp: charge_Ok budget_left_def)
qed

lemma relax_budget:
  "relax potentials from_node label index es st w = Ok (st', w') \<Longrightarrow> budget_left w' \<le> budget_left w"
proof (induction es arbitrary: index st w)
  case (Cons e es)
  then obtain w1 where w1: "charge 1 w = Ok w1" by auto
  have "budget_left w' \<le> budget_left w1"
    using Cons w1 by (auto split: if_splits)
  with charge_less [OF w1] show ?case by simp
qed simp

function search ::
    "flow_graph \<Rightarrow> cost list \<Rightarrow> search_state \<Rightarrow> alloc_work \<Rightarrow> (search_state \<times> alloc_work) ares" where
  "search g potentials st w =
     (case ss_frontier st of
        [] \<Rightarrow> Ok (st, w)
      | ((label, from_node), _) # frontier \<Rightarrow>
          and_then (charge 1 w) (\<lambda>w1.
          and_then (relax potentials from_node label 0 (g ! from_node) (st\<lparr>ss_frontier := frontier\<rparr>) w1) (\<lambda>p.
            search g potentials (fst p) (snd p))))"
  by pat_completeness auto
termination
proof (relation "measure (\<lambda>(g, potentials, st, w). budget_left w)", goal_cases)
  case (2 g potentials st w x xs p y a b w1 q)
  then have "budget_left w1 < budget_left w" by (auto intro: charge_less)
  moreover have "budget_left (snd q) \<le> budget_left w1" using 2 by (cases q) (auto intro: relax_budget)
  ultimately show ?case by (simp add: case_prod_unfold)
qed simp

declare search.simps [simp del]

fun raise_potentials :: "cost option list \<Rightarrow> cost \<Rightarrow> cost list \<Rightarrow> alloc_work \<Rightarrow> (cost list \<times> alloc_work) ares" where
  "raise_potentials (d # ds) maximum (p # ps) w =
     and_then (charge 1 w) (\<lambda>w.
     and_then (cost_add p (case d of None \<Rightarrow> maximum | Some v \<Rightarrow> v)) (\<lambda>p.
     and_then (raise_potentials ds maximum ps w) (\<lambda>(ps, w). Ok (p # ps, w))))"
| "raise_potentials _ maximum ps w = Ok ([], w)"

function push_path ::
    "flow_graph \<Rightarrow> (nat \<times> nat) option list \<Rightarrow> nat \<Rightarrow> nat \<Rightarrow> alloc_work \<Rightarrow> (flow_graph \<times> alloc_work) ares" where
  "push_path g parent node len w =
     (if node = 0 then Ok (g, w)
      else
        and_then (charge 1 w) (\<lambda>w1.
        if Suc len \<ge> length g then Err InvalidCertificate
        else
          and_then (ok_or (parent ! node) InvalidCertificate) (\<lambda>(from_node, index).
          let e = g ! from_node ! index in
          and_then (ok_or (checked_sub (ar_remaining e) 1) InvalidCertificate) (\<lambda>remaining.
          let g = g[from_node := (g ! from_node)[index := e\<lparr>ar_remaining := remaining\<rparr>]];
              back = g ! node ! ar_reverse e
          in
          and_then (ok_or (checked_add (ar_remaining back) 1) ArithmeticOverflow) (\<lambda>restored.
            push_path (g[node := (g ! node)[ar_reverse e := back\<lparr>ar_remaining := restored\<rparr>]]) parent from_node (Suc len) w1)))))"
  by pat_completeness auto
termination
  by (relation "measure (\<lambda>(g, parent, node, len, w). budget_left w)") (auto intro: charge_less)

declare push_path.simps [simp del]

lemma charge_le: "charge n w = Ok w' \<Longrightarrow> budget_left w' \<le> budget_left w"
  using charge_less [of n w w'] by (cases "n = 0") (auto simp: charge_Ok)

lemma search_budget: "search g potentials st w = Ok (st', w') \<Longrightarrow> budget_left w' \<le> budget_left w"
proof (induction g potentials st w rule: search.induct)
  case (1 g potentials st w)
  show ?case
  proof (cases "ss_frontier st")
    case Nil
    then show ?thesis using 1(2) by (simp add: search.simps [of g potentials st w])
  next
    case (Cons x frontier)
    obtain label from_node u where x: "x = ((label, from_node), u)" by (metis surj_pair)
    obtain w1 p where step: "charge 1 w = Ok w1"
        "relax potentials from_node label 0 (g ! from_node) (st\<lparr>ss_frontier := frontier\<rparr>) w1 = Ok p"
        "search g potentials (fst p) (snd p) = Ok (st', w')"
      using 1(2) by (auto simp: search.simps [of g potentials st w] Cons x)
    have "budget_left w' \<le> budget_left (snd p)"
      using 1(1) [OF Cons x [symmetric] refl step] .
    also have "\<dots> \<le> budget_left w1" using step(2) by (cases p) (auto intro: relax_budget)
    also have "\<dots> \<le> budget_left w" using step(1) by (rule charge_le)
    finally show ?thesis .
  qed
qed

lemma raise_budget: "raise_potentials ds m ps w = Ok (ps', w') \<Longrightarrow> budget_left w' \<le> budget_left w"
proof (induction ds m ps w arbitrary: ps' rule: raise_potentials.induct)
  case (1 d ds maximum p ps w)
  then obtain w1 v where "charge 1 w = Ok w1" "budget_left w' \<le> budget_left w1" by fastforce
  then show ?case using charge_le by (metis order.trans)
qed auto

lemma push_budget: "push_path g parent node len w = Ok (g', w') \<Longrightarrow> budget_left w' \<le> budget_left w"
proof (induction g parent node len w rule: push_path.induct)
  case (1 g parent node len w)
  then show ?case
    by (subst (asm) (2) push_path.simps) (fastforce simp: Let_def split: if_splits dest: charge_le intro: order.trans)
qed

definition search_start :: "nat \<Rightarrow> search_state" where
  "search_start n =
     \<lparr>ss_distance = (replicate n None)[0 := Some 0], ss_parent = replicate n None, ss_frontier = [((0, 0), ())]\<rparr>"

lemma search_start_budget:
  assumes "search g potentials (search_start n) w = Ok p"
  shows "budget_left (snd p) < budget_left w"
proof -
  obtain w1 q where step: "charge 1 w = Ok w1" "search g potentials (fst q) (snd q) = Ok p"
      "relax potentials 0 0 0 (g ! 0) (search_start n\<lparr>ss_frontier := []\<rparr>) w1 = Ok q"
    using assms unfolding search.simps [of g potentials "search_start n"]
    by (auto simp: search_start_def)
  have "budget_left (snd p) \<le> budget_left (snd q)"
    using step(2) by (cases p) (auto intro: search_budget)
  also have "\<dots> \<le> budget_left w1" using step(3) by (cases q) (auto intro: relax_budget)
  also have "\<dots> < budget_left w" using step(1) by (rule charge_less) simp
  finally show ?thesis .
qed

definition furthest :: "cost option list \<Rightarrow> cost ares" where
  "furthest distance =
     (case List.map_filter (\<lambda>d. d) distance of [] \<Rightarrow> Err InvalidCertificate | d # ds \<Rightarrow> Ok (fold max ds d))"

text \<open>The augmenting loop returns the reachable side of the last search.\<close>

function augment_loop ::
    "flow_model \<Rightarrow> flow_graph \<Rightarrow> cost list \<Rightarrow> u32 \<Rightarrow> alloc_work \<Rightarrow>
     (flow_graph \<times> cost list \<times> u32 \<times> bool list \<times> alloc_work) ares" where
  "augment_loop m g potentials assigned w =
     and_then (charge (of_nat (length g)) w) (\<lambda>w1.
     and_then (search g potentials (search_start (length g)) w1) (\<lambda>p.
     if ss_distance (fst p) ! fm_sink m = None
     then Ok (g, potentials, assigned, map (\<lambda>d. d \<noteq> None) (ss_distance (fst p)), snd p)
     else
       and_then (furthest (ss_distance (fst p))) (\<lambda>maximum.
       and_then (raise_potentials (ss_distance (fst p)) maximum potentials (snd p)) (\<lambda>q.
       and_then (push_path g (ss_parent (fst p)) (fm_sink m) 0 (snd q)) (\<lambda>r.
         if assigned + 1 > fm_requested m then Err InvalidCertificate
         else augment_loop m (fst r) (fst q) (assigned + 1) (snd r))))))"
  by pat_completeness auto
termination
proof (relation "measure (\<lambda>(m, g, potentials, assigned, w). budget_left w)", goal_cases)
  case (2 m g potentials assigned w w1 p maximum q r)
  have "budget_left (snd r) \<le> budget_left (snd q)" using 2(6) by (cases r) (auto intro: push_budget)
  also have "\<dots> \<le> budget_left (snd p)" using 2(5) by (cases q) (auto intro: raise_budget)
  also have "\<dots> < budget_left w1" using 2(2) by (rule search_start_budget)
  also have "\<dots> \<le> budget_left w" using 2(1) by (rule charge_le)
  finally show ?case by simp
qed simp

declare augment_loop.simps [simp del]

fun read_flows ::
    "demand list \<Rightarrow> flow_model \<Rightarrow> flow_graph \<Rightarrow> (candidate \<times> nat) list \<Rightarrow> assignment list \<Rightarrow> u32 list \<Rightarrow> cost \<Rightarrow>
     alloc_work \<Rightarrow> (assignment list \<times> u32 list \<times> cost \<times> alloc_work) ares" where
  "read_flows demands m g [] assignments allocated spent w = Ok (assignments, allocated, spent, w)"
| "read_flows demands m g ((c, index) # cs) assignments allocated spent w =
     and_then (charge 1 w) (\<lambda>w.
     and_then (ok_or (checked_sub (fm_requested m) (ar_remaining (g ! (1 + cd_demand_index c) ! index))) InvalidCertificate) (\<lambda>flow.
       if flow > 1 then Err InvalidCertificate
       else if flow = 1 then
         and_then (cost_add spent (candidate_cost demands c)) (\<lambda>spent.
           read_flows demands m g cs (assignments @ [candidate_key c])
             (allocated[cd_demand_index c := allocated ! cd_demand_index c + 1]) spent w)
       else read_flows demands m g cs assignments allocated spent w))"

subsection \<open>The verifier\<close>

fun check_assignments ::
    "demand list \<Rightarrow> candidate list \<Rightarrow> assignment option \<Rightarrow> assignment list \<Rightarrow> u32 list \<Rightarrow> u64 list \<Rightarrow> cost \<Rightarrow> alloc_work \<Rightarrow>
     (u32 list \<times> u64 list \<times> cost \<times> alloc_work) ares" where
  "check_assignments demands candidates prior [] counts workers spent w = Ok (counts, workers, spent, w)"
| "check_assignments demands candidates prior (a # as) counts workers spent w =
     and_then (charge 1 w) (\<lambda>w.
       if fst a \<ge> length demands \<or> (case prior of None \<Rightarrow> False | Some p \<Rightarrow> p \<ge> a) \<or> snd a \<in> set workers
       then Err InvalidCertificate
       else
         and_then (ok_or (binary_search (map candidate_key candidates) a 0 (length candidates)) InvalidCertificate) (\<lambda>index.
         and_then (cost_add spent (candidate_cost demands (candidates ! index))) (\<lambda>spent.
           check_assignments demands candidates (Some a) as (counts[fst a := counts ! fst a + 1]) (snd a # workers) spent w)))"

text \<open>
  One arc of the network under the certificate: within its capacity, no residual capacity across
  the cut in either direction, and no residual direction of negative reduced cost.
\<close>

definition check_arc ::
    "alloc_witness \<Rightarrow> nat \<Rightarrow> nat \<Rightarrow> u32 \<Rightarrow> u32 \<Rightarrow> cost \<Rightarrow> u32 \<times> alloc_work \<Rightarrow> (u32 \<times> alloc_work) ares" where
  "check_arc wit from_node to_node capacity flow v st =
     (case st of (crossing, w) \<Rightarrow>
       let side = (\<lambda>n. aw_source_side wit ! n); potential = (\<lambda>n. aw_potentials wit ! n) in
       and_then (charge 1 w) (\<lambda>w.
       if flow > capacity then Err InvalidCertificate
       else
         and_then (if side from_node \<and> \<not> side to_node then ok_or (checked_add crossing capacity) ArithmeticOverflow else Ok crossing) (\<lambda>crossing.
         and_then (if flow < capacity
                   then and_then (cost_add v (potential from_node)) (\<lambda>x.
                        and_then (cost_sub x (potential to_node)) (\<lambda>y.
                          Ok (y < 0 \<or> side from_node \<and> \<not> side to_node)))
                   else Ok False) (\<lambda>bad.
         if bad then Err InvalidCertificate
         else
           and_then (if flow > 0
                     then and_then (cost_sub 0 v) (\<lambda>x.
                          and_then (cost_add x (potential to_node)) (\<lambda>y.
                          and_then (cost_sub y (potential from_node)) (\<lambda>z.
                            Ok (z < 0 \<or> side to_node \<and> \<not> side from_node))))
                     else Ok False) (\<lambda>bad.
           if bad then Err InvalidCertificate else Ok (crossing, w))))))"

fun check_demand_arcs :: "alloc_witness \<Rightarrow> nat \<Rightarrow> demand list \<Rightarrow> u32 list \<Rightarrow> u32 \<times> alloc_work \<Rightarrow> (u32 \<times> alloc_work) ares" where
  "check_demand_arcs wit d [] counts st = Ok st"
| "check_demand_arcs wit d (demand # demands) counts st =
     and_then (check_arc wit 0 (1 + d) (dm_workers demand) (counts ! d) 0 st)
       (check_demand_arcs wit (Suc d) demands counts)"

fun check_candidate_arcs ::
    "demand list \<Rightarrow> flow_model \<Rightarrow> alloc_witness \<Rightarrow> assignment list \<Rightarrow> candidate list \<Rightarrow> u32 \<times> alloc_work \<Rightarrow> (u32 \<times> alloc_work) ares" where
  "check_candidate_arcs demands m wit selected [] st = Ok st"
| "check_candidate_arcs demands m wit selected (c # cs) st =
     and_then (worker_node m (length demands) (cd_worker_id c)) (\<lambda>node.
     and_then (check_arc wit (1 + cd_demand_index c) node (fm_requested m)
         (if candidate_key c \<in> set selected then 1 else 0) (candidate_cost demands c) st)
       (check_candidate_arcs demands m wit selected cs))"

fun check_worker_arcs ::
    "nat \<Rightarrow> flow_model \<Rightarrow> alloc_witness \<Rightarrow> u64 list \<Rightarrow> nat \<Rightarrow> u64 list \<Rightarrow> u32 \<times> alloc_work \<Rightarrow> (u32 \<times> alloc_work) ares" where
  "check_worker_arcs n m wit busy i [] st = Ok st"
| "check_worker_arcs n m wit busy i (worker # workers) st =
     and_then (check_arc wit (1 + n + i) (fm_sink m) 1 (if worker \<in> set busy then 1 else 0) 0 st)
       (check_worker_arcs n m wit busy (Suc i) workers)"

definition verify_inner :: "demand list \<Rightarrow> candidate list \<Rightarrow> allocation \<Rightarrow> alloc_work \<Rightarrow> alloc_work ares" where
  "verify_inner demands candidates out w =
     and_then (validate_allocation demands candidates w) (\<lambda>(m, w).
     let wit = al_witness out in
     if length (al_assignments out) > unat (fm_requested m) \<or> al_requested_workers out \<noteq> fm_requested m
        \<or> unat (al_assigned_workers out) \<noteq> length (al_assignments out)
        \<or> al_cut_capacity out \<noteq> al_assigned_workers out
        \<or> length (al_allocated_by_demand out) \<noteq> length demands
        \<or> length (aw_potentials wit) \<noteq> fm_sink m + 1 \<or> length (aw_source_side wit) \<noteq> fm_sink m + 1
        \<or> \<not> aw_source_side wit ! 0 \<or> aw_source_side wit ! fm_sink m
     then Err InvalidCertificate
     else
       and_then (check_assignments demands candidates None (al_assignments out) (replicate (length demands) 0) [] 0 w)
         (\<lambda>(counts, busy, spent, w).
       if counts \<noteq> al_allocated_by_demand out \<or> spent \<noteq> al_cost out then Err InvalidCertificate
       else
         and_then (check_demand_arcs wit 0 demands counts (0, w)) (\<lambda>st.
         and_then (check_candidate_arcs demands m wit (al_assignments out) candidates st) (\<lambda>st.
         and_then (check_worker_arcs (length demands) m wit busy 0 (fm_workers m) st) (\<lambda>(crossing, w).
         if crossing \<noteq> al_cut_capacity out then Err InvalidCertificate
         else
           and_then (deficiency demands candidates m (aw_source_side wit) (al_assigned_workers out) w) (\<lambda>(short, w).
           if short \<noteq> al_shortage out then Err InvalidCertificate else Ok w))))))"

definition verify :: "demand list \<Rightarrow> candidate list \<Rightarrow> allocation \<Rightarrow> u64 \<Rightarrow> u64 ares" where
  "verify demands candidates out max_work =
     and_then (work_new max_work) (\<lambda>w. and_then (verify_inner demands candidates out w) (\<lambda>w. Ok (wk_used w)))"

definition allocate :: "demand list \<Rightarrow> candidate list \<Rightarrow> u64 \<Rightarrow> allocation ares" where
  "allocate demands candidates max_work =
     and_then (work_new max_work) (\<lambda>w.
     and_then (validate_allocation demands candidates w) (\<lambda>(m, w).
     let g = replicate (fm_sink m + 1) []; potentials = replicate (fm_sink m + 1) 0 in
     and_then (link_demands 0 demands g w) (\<lambda>(g, w).
     and_then (link_candidates demands m candidates [] g potentials w) (\<lambda>(links, g, potentials, w).
     and_then (link_workers (map (\<lambda>i. 1 + length demands + i) [0..<length (fm_workers m)]) (fm_sink m) g potentials w) (\<lambda>(g, potentials, w).
     and_then (augment_loop m g potentials 0 w) (\<lambda>(g, potentials, assigned, source_side, w).
     and_then (read_flows demands m g (zip candidates links) [] (replicate (length demands) 0) 0 w) (\<lambda>(assignments, allocated, spent, w).
     and_then (deficiency demands candidates m source_side assigned w) (\<lambda>(short, w).
     let out = \<lparr>al_assignments = assignments, al_allocated_by_demand = allocated, al_requested_workers = fm_requested m,
           al_assigned_workers = assigned, al_cut_capacity = assigned, al_cost = spent, al_shortage = short,
           al_witness = \<lparr>aw_potentials = potentials, aw_source_side = source_side\<rparr>, al_work_units = 0\<rparr>
     in
     and_then (verify_inner demands candidates out w) (\<lambda>w.
       Ok (out\<lparr>al_work_units := wk_used w\<rparr>))))))))))"

subsection \<open>Optimality of certified assignments\<close>

text \<open>Assignments that respect the demands: every worker at most once, every demand at most its slots.\<close>

definition feasible :: "demand list \<Rightarrow> candidate list \<Rightarrow> assignment set \<Rightarrow> bool" where
  "feasible demands candidates B \<longleftrightarrow>
     B \<subseteq> set (map candidate_key candidates) \<and> inj_on snd B \<and>
     (\<forall>d < length demands. card {a \<in> B. fst a = d} \<le> unat (dm_workers (demands ! d)))"

definition pair_cost :: "demand list \<Rightarrow> candidate list \<Rightarrow> assignment \<Rightarrow> cost" where
  "pair_cost demands candidates a =
     (case map_of (map (\<lambda>c. (candidate_key c, candidate_cost demands c)) candidates) a of Some v \<Rightarrow> v | None \<Rightarrow> 0)"

lemma sum_exchange:
  fixes f :: "'a \<Rightarrow> 'b::linordered_ab_group_add"
  assumes "finite A" "finite B" "\<And>x. x \<in> A - B \<Longrightarrow> f x \<le> 0" "\<And>x. x \<in> B - A \<Longrightarrow> 0 \<le> f x"
  shows "sum f A \<le> sum f B"
proof -
  have "sum f A = sum f (A \<inter> B) + sum f (A - B)"
    using assms(1) by (metis sum.Int_Diff)
  also have "\<dots> \<le> sum f (A \<inter> B)" using sum_nonpos [of "A - B" f] assms(3) by simp
  also have "\<dots> \<le> sum f (B \<inter> A) + sum f (B - A)" using sum_nonneg [of "B - A" f] assms(4) by (simp add: Int_commute)
  also have "\<dots> = sum f B" using assms(2) by (metis sum.Int_Diff)
  finally show ?thesis .
qed

lemma sum_const_card:
  fixes v :: "'b::linordered_ab_group_add"
  assumes "finite A" "finite B" "card B < card A \<Longrightarrow> v \<le> 0" "card A < card B \<Longrightarrow> 0 \<le> v"
  shows "(\<Sum>_\<in>A. v) \<le> (\<Sum>_\<in>B. v)"
proof -
  have "(\<Sum>_\<in>{0..<card A}. v) \<le> (\<Sum>_\<in>{0..<card B}. v)"
    by (rule sum_exchange) (use assms(3,4) in auto)
  then show ?thesis
    using ex_bij_betw_nat_finite [OF assms(1)] ex_bij_betw_nat_finite [OF assms(2)]
      sum.reindex_bij_betw [where g = "\<lambda>_. v"] by metis
qed

definition arc_ok :: "alloc_witness \<Rightarrow> nat \<Rightarrow> nat \<Rightarrow> nat \<Rightarrow> nat \<Rightarrow> cost \<Rightarrow> bool" where
  "arc_ok wit f t capacity flow v \<longleftrightarrow>
     flow \<le> capacity \<and>
     (flow < capacity \<longrightarrow> 0 \<le> v + aw_potentials wit ! f - aw_potentials wit ! t) \<and>
     (0 < flow \<longrightarrow> v + aw_potentials wit ! f - aw_potentials wit ! t \<le> 0)"

definition crosses :: "alloc_witness \<Rightarrow> nat \<Rightarrow> nat \<Rightarrow> bool" where
  "crosses wit f t \<longleftrightarrow> aw_source_side wit ! f \<and> \<not> aw_source_side wit ! t"

text \<open>Reduced costs certify the least cost among the assignments of the same size.\<close>

lemma certified_cost:
  fixes price :: "assignment \<Rightarrow> cost" and node :: "u64 \<Rightarrow> nat"
  assumes A: "finite A" "inj_on snd A" "\<forall>a \<in> A. fst a < n" and B: "finite B" "inj_on snd B" "\<forall>a \<in> B. fst a < n"
    and same: "card A = card B" and room: "\<forall>d < n. card {a \<in> B. fst a = d} \<le> room d"
    and demand_arcs: "\<forall>d < n. arc_ok wit 0 (1 + d) (room d) (card {a \<in> A. fst a = d}) 0"
    and pair_arcs: "\<forall>a \<in> A \<union> B. arc_ok wit (1 + fst a) (node (snd a)) requested (if a \<in> A then 1 else 0) (price a)"
    and worker_arcs: "\<forall>w \<in> snd ` (A \<union> B). arc_ok wit (node w) sink 1 (if w \<in> snd ` A then 1 else 0) 0"
    and "0 < requested"
  shows "sum price A \<le> sum price B"
proof -
  define p where "p = (\<lambda>i. aw_potentials wit ! i)"
  define lead where "lead = (\<lambda>d. p 0 - p (1 + d))"
  define middle where "middle = (\<lambda>a. price a + p (1 + fst a) - p (node (snd a)))"
  define tail where "tail = (\<lambda>w. p (node w) - p sink)"
  have path: "price a + (p 0 - p sink) = lead (fst a) + middle a + tail (snd a)" for a
    by (simp add: lead_def middle_def tail_def algebra_simps)
  have split: "sum price X + (\<Sum>_\<in>X. p 0 - p sink) =
      (\<Sum>d<n. \<Sum>_\<in>{a \<in> X. fst a = d}. lead d) + sum middle X + sum tail (snd ` X)"
    if X: "finite X" "inj_on snd X" "\<forall>a \<in> X. fst a < n" for X
  proof -
    have "(\<Sum>a\<in>X. lead (fst a)) = (\<Sum>d<n. \<Sum>a\<in>{a \<in> X. fst a = d}. lead (fst a))"
      using X by (subst sum.group) auto
    moreover have "sum tail (snd ` X) = (\<Sum>a\<in>X. tail (snd a))"
      using X(2) by (simp add: sum.reindex)
    moreover have "sum price X + (\<Sum>_\<in>X. p 0 - p sink) = (\<Sum>a\<in>X. lead (fst a) + middle a + tail (snd a))"
      by (simp only: sum.distrib [symmetric] path)
    ultimately show ?thesis by (simp add: sum.distrib)
  qed
  have "(\<Sum>_\<in>{a \<in> A. fst a = d}. lead d) \<le> (\<Sum>_\<in>{a \<in> B. fst a = d}. lead d)" if "d < n" for d
  proof (rule sum_const_card)
    note arc = demand_arcs [rule_format, OF that]
    show "lead d \<le> 0" if "card {a \<in> B. fst a = d} < card {a \<in> A. fst a = d}"
    proof -
      have "0 < card {a \<in> A. fst a = d}" using that by linarith
      then show ?thesis using arc by (simp add: arc_ok_def lead_def p_def)
    qed
    show "0 \<le> lead d" if more: "card {a \<in> A. fst a = d} < card {a \<in> B. fst a = d}"
    proof -
      have "card {a \<in> A. fst a = d} < room d" using more room [rule_format, OF \<open>d < n\<close>] by linarith
      then show ?thesis using arc by (simp add: arc_ok_def lead_def p_def)
    qed
  qed (use A B in auto)
  then have "(\<Sum>d<n. \<Sum>_\<in>{a \<in> A. fst a = d}. lead d) \<le> (\<Sum>d<n. \<Sum>_\<in>{a \<in> B. fst a = d}. lead d)"
    by (intro sum_mono) simp
  moreover have "sum middle A \<le> sum middle B"
    using A(1) B(1) pair_arcs assms(12) by (intro sum_exchange) (auto simp: arc_ok_def middle_def p_def)
  moreover have "sum tail (snd ` A) \<le> sum tail (snd ` B)"
  proof (rule sum_exchange)
    show "tail w \<le> 0" if "w \<in> snd ` A - snd ` B" for w
      using worker_arcs [rule_format, of w] that by (simp add: image_Un arc_ok_def tail_def p_def)
    show "0 \<le> tail w" if "w \<in> snd ` B - snd ` A" for w
      using worker_arcs [rule_format, of w] that by (simp add: image_Un arc_ok_def tail_def p_def)
  qed (use A B in auto)
  ultimately have "sum price A + (\<Sum>_\<in>A. p 0 - p sink) \<le> sum price B + (\<Sum>_\<in>B. p 0 - p sink)"
    unfolding split [OF A] split [OF B] by (intro add_mono)
  moreover have "(\<Sum>_\<in>B. p 0 - p sink) \<le> (\<Sum>_\<in>A. p 0 - p sink)"
    using same A(1) B(1) by (intro sum_const_card) auto
  ultimately have "sum price A + (\<Sum>_\<in>A. p 0 - p sink) \<le> sum price B + (\<Sum>_\<in>A. p 0 - p sink)"
    by (rule order.trans [OF _ add_left_mono])
  then show ?thesis by (rule add_le_imp_le_right)
qed

lemma card_filter_sum: "finite K \<Longrightarrow> card {a \<in> K. P a} = (\<Sum>a\<in>K. if P a then 1 else 0)"
  by (simp add: sum.If_cases Int_def)

text \<open>A cut bounds the size of every assignment.\<close>

lemma certified_size:
  fixes node :: "u64 \<Rightarrow> nat"
  assumes "finite K" "B \<subseteq> K" "inj_on snd B" "\<forall>a \<in> B. fst a < n" "finite W" "snd ` B \<subseteq> W" "0 < requested"
    and room: "\<forall>d < n. card {a \<in> B. fst a = d} \<le> room d"
    and ends: "aw_source_side wit ! 0" "\<not> aw_source_side wit ! sink"
  shows "card B \<le> (\<Sum>d<n. if crosses wit 0 (1 + d) then room d else 0) +
    (\<Sum>a\<in>K. if crosses wit (1 + fst a) (node (snd a)) then requested else 0) +
    (\<Sum>w\<in>W. if crosses wit (node w) sink then 1 else 0)"
proof -
  let ?lead = "{a \<in> B. crosses wit 0 (1 + fst a)}" and ?tail = "{a \<in> B. crosses wit (node (snd a)) sink}"
  let ?middle = "{a \<in> B. crosses wit (1 + fst a) (node (snd a))}"
  have fin: "finite B" using assms(1,2) by (rule rev_finite_subset)
  have "B \<subseteq> ?lead \<union> ?middle \<union> ?tail" using ends by (auto simp: crosses_def)
  then have "card B \<le> card (?lead \<union> ?middle \<union> ?tail)" using fin by (intro card_mono) auto
  also have "\<dots> \<le> card ?lead + card ?middle + card ?tail"
    using card_Un_le [of "?lead \<union> ?middle" ?tail] card_Un_le [of ?lead ?middle] by linarith
  finally have parts: "card B \<le> card ?lead + card ?middle + card ?tail" .
  have union: "?lead = (\<Union>d<n. if crosses wit 0 (1 + d) then {a \<in> B. fst a = d} else {})"
    using assms(4) by (auto split: if_splits)
  have "card ?lead \<le> (\<Sum>d<n. card (if crosses wit 0 (1 + d) then {a \<in> B. fst a = d} else {}))"
    unfolding union by (rule card_UN_le) simp
  also have "\<dots> \<le> (\<Sum>d<n. if crosses wit 0 (1 + d) then room d else 0)"
    using room by (intro sum_mono) simp
  finally have lead: "card ?lead \<le> (\<Sum>d<n. if crosses wit 0 (1 + d) then room d else 0)" .
  have "card ?middle \<le> card {a \<in> K. crosses wit (1 + fst a) (node (snd a))}"
    using assms(1,2) by (intro card_mono) auto
  also have "\<dots> = (\<Sum>a\<in>K. if crosses wit (1 + fst a) (node (snd a)) then 1 else 0)"
    using assms(1) by (rule card_filter_sum)
  also have "\<dots> \<le> (\<Sum>a\<in>K. if crosses wit (1 + fst a) (node (snd a)) then requested else 0)"
    using assms(7) by (intro sum_mono) simp
  finally have middle: "card ?middle \<le> (\<Sum>a\<in>K. if crosses wit (1 + fst a) (node (snd a)) then requested else 0)" .
  have "card ?tail = card (snd ` ?tail)"
    using assms(3) by (simp add: card_image inj_on_subset [of snd B])
  also have "\<dots> \<le> card {w \<in> W. crosses wit (node w) sink}"
    using assms(5,6) by (intro card_mono) auto
  also have "\<dots> = (\<Sum>w\<in>W. if crosses wit (node w) sink then 1 else 0)"
    using assms(5) by (rule card_filter_sum)
  finally show ?thesis using parts lead middle by linarith
qed

subsection \<open>Soundness of the verifier\<close>

lemma cost_add_Ok: "cost_add x y = Ok z \<Longrightarrow> z = x + y"
  by (auto simp: cost_add_def split: if_splits)

lemma cost_sub_Ok: "cost_sub x y = Ok z \<Longrightarrow> z = x - y"
  by (auto simp: cost_sub_def split: if_splits)

lemma check_arc_Ok:
  assumes "check_arc wit f t capacity flow v (crossing, w) = Ok (crossing', w')"
  shows "arc_ok wit f t (unat capacity) (unat flow) v \<and>
    unat crossing' = unat crossing + (if crosses wit f t then unat capacity else 0)"
proof -
  let ?p = "\<lambda>i. aw_potentials wit ! i"
  have le: "\<not> capacity < flow"
    and sum: "unat crossing' = unat crossing + (if crosses wit f t then unat capacity else 0)"
    using assms
    by (auto simp: check_arc_def Let_def crosses_def checked_add_Some_iff split: if_splits)
  have forward: "0 \<le> v + ?p f - ?p t" if "flow < capacity"
    using assms that by (auto simp: check_arc_def Let_def dest!: cost_add_Ok cost_sub_Ok split: if_splits)
  have backward: "v + ?p f - ?p t \<le> 0" if "0 < flow"
  proof -
    have "\<not> 0 - v + ?p t - ?p f < 0"
      using assms that by (auto simp: check_arc_def Let_def dest!: cost_add_Ok cost_sub_Ok split: if_splits)
    then have "0 \<le> - (v + ?p f - ?p t)" by (simp add: algebra_simps)
    then show ?thesis by simp
  qed
  show ?thesis
    using le sum forward backward by (auto simp: arc_ok_def word_less_nat_alt unat_gt_0)
qed

lemma check_demand_arcs_Ok:
  "check_demand_arcs wit d ds counts (x, w) = Ok (x', w') \<Longrightarrow>
   (\<forall>i < length ds. arc_ok wit 0 (1 + (d + i)) (unat (dm_workers (ds ! i))) (unat (counts ! (d + i))) 0) \<and>
   unat x' = unat x + (\<Sum>i<length ds. if crosses wit 0 (1 + (d + i)) then unat (dm_workers (ds ! i)) else 0)"
proof (induction ds arbitrary: d x w)
  case (Cons demand ds)
  then obtain x1 w1 where step: "check_arc wit 0 (1 + d) (dm_workers demand) (counts ! d) 0 (x, w) = Ok (x1, w1)"
      "check_demand_arcs wit (Suc d) ds counts (x1, w1) = Ok (x', w')"
    by auto
  note arc = check_arc_Ok [OF step(1)] and rest = Cons.IH [OF step(2)]
  have "arc_ok wit 0 (1 + (d + i)) (unat (dm_workers ((demand # ds) ! i))) (unat (counts ! (d + i))) 0"
    if "i < length (demand # ds)" for i
    using that arc rest by (cases i) auto
  moreover have "(\<Sum>i<length (demand # ds). if crosses wit 0 (1 + (d + i)) then unat (dm_workers ((demand # ds) ! i)) else 0) =
      (if crosses wit 0 (1 + d) then unat (dm_workers demand) else 0) +
      (\<Sum>i<length ds. if crosses wit 0 (1 + (Suc d + i)) then unat (dm_workers (ds ! i)) else 0)"
    by (simp add: sum.lessThan_Suc_shift del: sum.lessThan_Suc cong: if_cong)
  ultimately show ?case using arc rest by simp
qed simp

definition node_of :: "flow_model \<Rightarrow> nat \<Rightarrow> u64 \<Rightarrow> nat" where
  "node_of m n worker = (case worker_node m n worker of Ok k \<Rightarrow> k | Err _ \<Rightarrow> 0)"

lemma check_candidate_arcs_Ok:
  "check_candidate_arcs demands m wit selected cs (x, w) = Ok (x', w') \<Longrightarrow>
   (\<forall>c \<in> set cs. arc_ok wit (1 + cd_demand_index c) (node_of m (length demands) (cd_worker_id c)) (unat (fm_requested m))
      (if candidate_key c \<in> set selected then 1 else 0) (candidate_cost demands c)) \<and>
   unat x' = unat x + (\<Sum>c\<leftarrow>cs. if crosses wit (1 + cd_demand_index c) (node_of m (length demands) (cd_worker_id c))
      then unat (fm_requested m) else 0)"
proof (induction cs arbitrary: x w)
  case (Cons c cs)
  then obtain k x1 w1 where step: "worker_node m (length demands) (cd_worker_id c) = Ok k"
      "check_arc wit (1 + cd_demand_index c) k (fm_requested m) (if candidate_key c \<in> set selected then 1 else 0)
         (candidate_cost demands c) (x, w) = Ok (x1, w1)"
      "check_candidate_arcs demands m wit selected cs (x1, w1) = Ok (x', w')"
    by auto
  have "node_of m (length demands) (cd_worker_id c) = k" using step(1) by (simp add: node_of_def)
  moreover note check_arc_Ok [OF step(2)] Cons.IH [OF step(3)]
  ultimately show ?case by (cases "candidate_key c \<in> set selected") auto
qed simp

lemma check_worker_arcs_Ok:
  "check_worker_arcs n m wit busy i ws (x, w) = Ok (x', w') \<Longrightarrow>
   (\<forall>j < length ws. arc_ok wit (1 + n + (i + j)) (fm_sink m) 1 (if ws ! j \<in> set busy then 1 else 0) 0) \<and>
   unat x' = unat x + (\<Sum>j<length ws. if crosses wit (1 + n + (i + j)) (fm_sink m) then 1 else 0)"
proof (induction ws arbitrary: i x w)
  case (Cons worker ws)
  then obtain x1 w1 where step:
      "check_arc wit (1 + n + i) (fm_sink m) 1 (if worker \<in> set busy then 1 else 0) 0 (x, w) = Ok (x1, w1)"
      "check_worker_arcs n m wit busy (Suc i) ws (x1, w1) = Ok (x', w')"
    by auto
  have arc: "arc_ok wit (1 + n + i) (fm_sink m) 1 (if worker \<in> set busy then 1 else 0) 0 \<and>
      unat x1 = unat x + (if crosses wit (1 + n + i) (fm_sink m) then 1 else 0)"
    using check_arc_Ok [OF step(1)] by (cases "worker \<in> set busy") auto
  note rest = Cons.IH [OF step(2)]
  have "arc_ok wit (1 + n + (i + j)) (fm_sink m) 1 (if (worker # ws) ! j \<in> set busy then 1 else 0) 0"
    if "j < length (worker # ws)" for j
    using that arc rest by (cases j) auto
  moreover have "(\<Sum>j<length (worker # ws). if crosses wit (1 + n + (i + j)) (fm_sink m) then 1 else 0) =
      (if crosses wit (1 + n + i) (fm_sink m) then 1 else 0) +
      (\<Sum>j<length ws. if crosses wit (1 + n + (Suc i + j)) (fm_sink m) then 1 else (0::nat))"
    by (simp add: sum.lessThan_Suc_shift del: sum.lessThan_Suc)
  ultimately show ?case using arc rest by simp
qed simp

lemma pair_cost_key:
  "distinct (map candidate_key candidates) \<Longrightarrow> c \<in> set candidates \<Longrightarrow>
   pair_cost demands candidates (candidate_key c) = candidate_cost demands c"
  unfolding pair_cost_def
  by (subst map_of_is_SomeI [of _ _ "candidate_cost demands c"]) (auto simp: comp_def)

lemma check_assignments_Ok:
  "check_assignments demands candidates prior as counts workers spent w = Ok (counts', workers', spent', w') \<Longrightarrow>
   distinct (map candidate_key candidates) \<Longrightarrow> length counts = length demands \<Longrightarrow>
   set as \<subseteq> set (map candidate_key candidates) \<and> (\<forall>a \<in> set as. fst a < length demands) \<and>
   distinct (map snd as) \<and> set (map snd as) \<inter> set workers = {} \<and> set workers' = set workers \<union> snd ` set as \<and>
   spent' = spent + (\<Sum>a\<leftarrow>as. pair_cost demands candidates a) \<and>
   (\<forall>d < length demands. counts' ! d = counts ! d + of_nat (length (filter (\<lambda>a. fst a = d) as)))"
proof (induction as arbitrary: prior counts workers spent w)
  case (Cons a as)
  obtain w1 index spent1 where step: "fst a < length demands" "snd a \<notin> set workers"
      "binary_search (map candidate_key candidates) a 0 (length candidates) = Some index"
      "cost_add spent (candidate_cost demands (candidates ! index)) = Ok spent1"
      "check_assignments demands candidates (Some a) as (counts[fst a := counts ! fst a + 1]) (snd a # workers) spent1 w1 =
         Ok (counts', workers', spent', w')"
    using Cons.prems(1) by (auto split: if_splits)
  have index: "index < length candidates" "candidate_key (candidates ! index) = a"
    using binary_search_Some [OF step(3)] by auto
  then have member: "candidates ! index \<in> set candidates" by simp
  with index(2) have key: "a \<in> set (map candidate_key candidates)" by force
  have spent1: "spent1 = spent + pair_cost demands candidates a"
    using cost_add_Ok [OF step(4)] pair_cost_key [OF Cons.prems(2) member, of demands] index(2) by simp
  have IH: "set as \<subseteq> set (map candidate_key candidates) \<and> (\<forall>a \<in> set as. fst a < length demands) \<and>
   distinct (map snd as) \<and> set (map snd as) \<inter> set (snd a # workers) = {} \<and>
   set workers' = set (snd a # workers) \<union> snd ` set as \<and>
   spent' = spent1 + (\<Sum>a\<leftarrow>as. pair_cost demands candidates a) \<and>
   (\<forall>d < length demands. counts' ! d = counts[fst a := counts ! fst a + 1] ! d + of_nat (length (filter (\<lambda>a. fst a = d) as)))"
    using Cons.IH [OF step(5) Cons.prems(2)] Cons.prems(3) by simp
  moreover have "counts' ! d = counts ! d + of_nat (length (filter (\<lambda>a. fst a = d) (a # as)))" if "d < length demands" for d
    using IH that Cons.prems(3) step(1) by (cases "fst a = d") simp_all
  ultimately show ?case
    using step(1,2) key spent1 by (auto simp: add.assoc)
qed simp

lemma validate_demands_Ok:
  "validate_demands prior ds r w = Ok (r', w') \<Longrightarrow>
   unat r' = unat r + (\<Sum>d\<leftarrow>ds. unat (dm_workers d)) \<and> (\<forall>d \<in> set ds. dm_workers d \<noteq> 0)"
  by (induction ds arbitrary: prior r w) (fastforce simp: checked_add_Some_iff split: if_splits)+

lemma validate_candidates_Ok:
  "validate_candidates n prior cs ws w = Ok (ws', w') \<Longrightarrow> bt_sorted ws \<Longrightarrow>
   bt_sorted ws' \<and> fst ` set ws' = fst ` set ws \<union> cd_worker_id ` set cs \<and> (\<forall>c \<in> set cs. cd_demand_index c < n) \<and>
   sorted_wrt (<) (map candidate_key cs) \<and>
   (\<forall>p. prior = Some p \<longrightarrow> (\<forall>c \<in> set cs. candidate_key p < candidate_key c))"
proof (induction cs arbitrary: prior ws w)
  case (Cons c cs)
  then obtain w1 where step: "cd_demand_index c < n" "\<forall>p. prior = Some p \<longrightarrow> candidate_key p < candidate_key c"
      "validate_candidates n (Some c) cs (bt_insert (cd_worker_id c) () ws) w1 = Ok (ws', w')"
    by (auto simp: Let_def not_le split: if_splits option.splits)
  from Cons.IH [OF step(3)] Cons.prems(2) step(1,2) show ?case
    by (auto simp: bt_sorted_insert fst_set_bt_insert intro: order.strict_trans)
qed simp

definition optimal :: "demand list \<Rightarrow> candidate list \<Rightarrow> assignment list \<Rightarrow> cost \<Rightarrow> bool" where
  "optimal demands candidates as c \<longleftrightarrow>
     distinct as \<and> feasible demands candidates (set as) \<and> c = sum (pair_cost demands candidates) (set as) \<and>
     (\<forall>B. feasible demands candidates B \<longrightarrow> card B \<le> length as) \<and>
     (\<forall>B. feasible demands candidates B \<and> card B = length as \<longrightarrow> c \<le> sum (pair_cost demands candidates) B)"

lemma validate_allocation_Ok:
  assumes "validate_allocation demands candidates w = Ok (m, w')"
  shows "sorted_wrt (<) (map candidate_key candidates)" "\<forall>c \<in> set candidates. cd_demand_index c < length demands"
    "sorted_wrt (<) (fm_workers m)" "set (fm_workers m) = cd_worker_id ` set candidates"
    "fm_sink m = 1 + length demands + length (fm_workers m)"
    "0 < unat (fm_requested m)" "unat (fm_requested m) = (\<Sum>d\<leftarrow>demands. unat (dm_workers d))"
proof -
  obtain r w1 ws w2 where v: "demands \<noteq> []" "validate_demands None demands 0 w = Ok (r, w1)"
      "validate_candidates (length demands) None candidates [] w1 = Ok (ws, w2)"
      "m = \<lparr>fm_workers = map fst ws, fm_requested = r, fm_sink = 1 + length demands + length ws\<rparr>"
    using assms by (auto simp: validate_allocation_def split: if_splits)
  note demands = validate_demands_Ok [OF v(2)] and candidates = validate_candidates_Ok [OF v(3)]
  show "sorted_wrt (<) (map candidate_key candidates)" "\<forall>c \<in> set candidates. cd_demand_index c < length demands"
    "sorted_wrt (<) (fm_workers m)" "set (fm_workers m) = cd_worker_id ` set candidates"
    "fm_sink m = 1 + length demands + length (fm_workers m)"
    using candidates by (auto simp: v(4) bt_sorted_def)
  show sum: "unat (fm_requested m) = (\<Sum>d\<leftarrow>demands. unat (dm_workers d))" using demands by (simp add: v(4))
  obtain d ds where "demands = d # ds" using v(1) by (cases demands) auto
  then show "0 < unat (fm_requested m)" using demands sum by (simp add: unat_gt_0)
qed

lemma node_of_worker:
  assumes "sorted_wrt (<) (fm_workers m)" "j < length (fm_workers m)"
  shows "node_of m n (fm_workers m ! j) = 1 + n + j"
  using binary_search_sorted [OF assms(1), of "fm_workers m ! j" j] assms(2) by (simp add: node_of_def worker_node_def)

lemma sum_workers:
  assumes "sorted_wrt (<) (fm_workers m)"
  shows "(\<Sum>j<length (fm_workers m). f (1 + n + j)) = (\<Sum>w\<in>set (fm_workers m). f (node_of m n w))"
proof -
  have "(\<Sum>w\<in>set (fm_workers m). f (node_of m n w)) = (\<Sum>w\<leftarrow>fm_workers m. f (node_of m n w))"
    using assms by (simp add: sum.distinct_set_conv_list strict_sorted_iff)
  also have "\<dots> = (\<Sum>j<length (fm_workers m). f (node_of m n (fm_workers m ! j)))"
    by (simp add: sum_list_sum_nth atLeast0LessThan)
  also have "\<dots> = (\<Sum>j<length (fm_workers m). f (1 + n + j))"
    using node_of_worker [OF assms] by (intro sum.cong) simp_all
  finally show ?thesis ..
qed

lemma verify_inner_parts:
  assumes "verify_inner demands candidates out w = Ok w'"
  obtains m w1 counts busy w2 x3 w3 x4 w4 w5 w6 where
    "validate_allocation demands candidates w = Ok (m, w1)"
    "length (al_assignments out) \<le> unat (fm_requested m)" "unat (al_assigned_workers out) = length (al_assignments out)"
    "al_cut_capacity out = al_assigned_workers out"
    "aw_source_side (al_witness out) ! 0" "\<not> aw_source_side (al_witness out) ! fm_sink m"
    "check_assignments demands candidates None (al_assignments out) (replicate (length demands) 0) [] 0 w1 =
       Ok (counts, busy, al_cost out, w2)"
    "check_demand_arcs (al_witness out) 0 demands counts (0, w2) = Ok (x3, w3)"
    "check_candidate_arcs demands m (al_witness out) (al_assignments out) candidates (x3, w3) = Ok (x4, w4)"
    "check_worker_arcs (length demands) m (al_witness out) busy 0 (fm_workers m) (x4, w4) = Ok (al_cut_capacity out, w5)"
    "deficiency demands candidates m (aw_source_side (al_witness out)) (al_assigned_workers out) w5 = Ok (al_shortage out, w6)"
  using assms
  by (auto simp: verify_inner_def Let_def not_less split: if_splits)

lemma counted_assignments:
  assumes "distinct as" "length as < 2 ^ 32"
  shows "unat (of_nat (length (filter (\<lambda>a. fst a = d) as)) :: u32) = card {a \<in> set as. fst a = d}"
proof -
  have "length (filter (\<lambda>a. fst a = d) as) < 2 ^ 32" using length_filter_le assms(2) by (rule le_less_trans)
  moreover have "card {a \<in> set as. fst a = d} = length (filter (\<lambda>a. fst a = d) as)"
    using assms(1) distinct_card [of "filter (\<lambda>a. fst a = d) as"] by simp
  ultimately show ?thesis by (simp add: unat_of_nat)
qed

lemma verify_inner_sound:
  assumes "verify_inner demands candidates out w = Ok w'"
  shows "optimal demands candidates (al_assignments out) (al_cost out)"
  using assms
proof (rule verify_inner_parts)
  fix m w1 counts busy w2 x3 w3 x4 w4 w5 w6
  let ?as = "al_assignments out" and ?wit = "al_witness out" and ?n = "length demands"
  let ?K = "set (map candidate_key candidates)" and ?node = "node_of m (length demands)" and ?cost = "pair_cost demands candidates"
  let ?room = "\<lambda>d. unat (dm_workers (demands ! d))"
  assume m: "validate_allocation demands candidates w = Ok (m, w1)"
    and size: "length ?as \<le> unat (fm_requested m)" "unat (al_assigned_workers out) = length ?as"
      "al_cut_capacity out = al_assigned_workers out"
    and ends: "aw_source_side ?wit ! 0" "\<not> aw_source_side ?wit ! fm_sink m"
    and checks: "check_assignments demands candidates None ?as (replicate ?n 0) [] 0 w1 = Ok (counts, busy, al_cost out, w2)"
      "check_demand_arcs ?wit 0 demands counts (0, w2) = Ok (x3, w3)"
      "check_candidate_arcs demands m ?wit ?as candidates (x3, w3) = Ok (x4, w4)"
      "check_worker_arcs ?n m ?wit busy 0 (fm_workers m) (x4, w4) = Ok (al_cut_capacity out, w5)"
  note valid = validate_allocation_Ok [OF m]
  have keys: "distinct (map candidate_key candidates)" using valid(1) by (simp add: strict_sorted_iff)
  note taken = check_assignments_Ok [OF checks(1) keys]
  note demand_arcs = check_demand_arcs_Ok [OF checks(2)]
  note pair_arcs = check_candidate_arcs_Ok [OF checks(3)]
  note worker_arcs = check_worker_arcs_Ok [OF checks(4)]
  have as: "set ?as \<subseteq> ?K" "\<forall>a \<in> set ?as. fst a < ?n" "distinct (map snd ?as)" "set busy = snd ` set ?as"
      "al_cost out = (\<Sum>a\<leftarrow>?as. ?cost a)"
    using taken by auto
  have inj: "inj_on snd (set ?as)" and dist: "distinct ?as" using as(3) by (simp_all add: distinct_map)
  have "unat (fm_requested m) < 2 ^ LENGTH(32)" by (rule unsigned_less)
  then have "length ?as < 2 ^ 32" using size(1) by simp
  then have counts: "unat (counts ! d) = card {a \<in> set ?as. fst a = d}" if "d < ?n" for d
    using taken that counted_assignments [OF dist] by simp
  have lead: "\<forall>d < ?n. arc_ok ?wit 0 (1 + d) (?room d) (card {a \<in> set ?as. fst a = d}) 0"
    using demand_arcs counts by simp
  have feasible: "feasible demands candidates (set ?as)"
    using as(1) inj lead by (simp add: feasible_def arc_ok_def)
  have middle: "arc_ok ?wit (1 + fst a) (?node (snd a)) (unat (fm_requested m)) (if a \<in> set ?as then 1 else 0) (?cost a)"
    if "a \<in> ?K" for a
  proof -
    from that obtain c where c: "c \<in> set candidates" "a = candidate_key c" by auto
    then show ?thesis
      using pair_arcs pair_cost_key [OF keys c(1), of demands] by (auto simp: candidate_key_def)
  qed
  have tail: "arc_ok ?wit (?node v) (fm_sink m) 1 (if v \<in> snd ` set ?as then 1 else 0) 0" if "v \<in> set (fm_workers m)" for v
  proof -
    from that obtain j where "j < length (fm_workers m)" "v = fm_workers m ! j" by (auto simp: in_set_conv_nth)
    then show ?thesis using worker_arcs node_of_worker [OF valid(3)] as(4) by simp
  qed
  have workers: "snd ` B \<subseteq> set (fm_workers m)" "\<forall>a \<in> B. fst a < ?n" if "B \<subseteq> ?K" for B
    using that valid(2,4) by (auto simp: candidate_key_def)
  have sum_pairs: "(\<Sum>c\<leftarrow>candidates. if crosses ?wit (1 + cd_demand_index c) (?node (cd_worker_id c)) then unat (fm_requested m) else 0) =
      (\<Sum>a\<in>?K. if crosses ?wit (1 + fst a) (?node (snd a)) then unat (fm_requested m) else 0)"
    by (subst sum.distinct_set_conv_list [OF keys]) (simp add: comp_def candidate_key_def)
  have crossing: "length ?as = (\<Sum>d<?n. if crosses ?wit 0 (1 + d) then ?room d else 0) +
      (\<Sum>a\<in>?K. if crosses ?wit (1 + fst a) (?node (snd a)) then unat (fm_requested m) else 0) +
      (\<Sum>v\<in>set (fm_workers m). if crosses ?wit (?node v) (fm_sink m) then 1 else 0)"
    using demand_arcs pair_arcs worker_arcs size(2,3) sum_workers [OF valid(3), of "\<lambda>k. if crosses ?wit k (fm_sink m) then 1 else 0" ?n]
    unfolding sum_pairs by simp
  have largest: "card B \<le> length ?as" if "feasible demands candidates B" for B
    unfolding crossing using that workers valid(6) ends
    by (intro certified_size) (auto simp: feasible_def)
  have cheapest: "al_cost out \<le> sum ?cost B" if B: "feasible demands candidates B" "card B = length ?as" for B
  proof -
    have sub: "B \<subseteq> ?K" "inj_on snd B" "finite B" using B(1) by (auto simp: feasible_def intro: finite_subset)
    have same: "card (set ?as) = card B" using B(2) dist by (simp add: distinct_card)
    have room: "\<forall>d < ?n. card {a \<in> B. fst a = d} \<le> ?room d" using B(1) by (simp add: feasible_def)
    have pairs: "\<forall>a \<in> set ?as \<union> B. arc_ok ?wit (1 + fst a) (?node (snd a)) (unat (fm_requested m))
        (if a \<in> set ?as then 1 else 0) (?cost a)"
      using middle as(1) sub(1) by blast
    have sinks: "\<forall>v \<in> snd ` (set ?as \<union> B). arc_ok ?wit (?node v) (fm_sink m) 1 (if v \<in> snd ` set ?as then 1 else 0) 0"
      using tail workers(1) [OF as(1)] workers(1) [OF sub(1)] by blast
    have "sum ?cost (set ?as) \<le> sum ?cost B"
      by (rule certified_cost [OF finite_set inj as(2) sub(3,2) workers(2) [OF sub(1)] same room lead pairs sinks valid(6)])
    then show ?thesis using as(5) dist by (simp add: sum.distinct_set_conv_list)
  qed
  show ?thesis
    using dist feasible largest cheapest as(5) by (simp add: optimal_def sum.distinct_set_conv_list)
qed

subsection \<open>Shortages\<close>

lemma deficient_demands_Ok:
  "deficient_demands d ds side indices required w = Ok (indices', required', w') \<Longrightarrow>
   unat required + (\<Sum>e\<leftarrow>ds. unat (dm_workers e)) < 2 ^ 32 \<Longrightarrow>
   indices' = indices @ filter (\<lambda>i. side ! (1 + i)) [d..<d + length ds] \<and>
   unat required' = unat required + (\<Sum>i\<leftarrow>filter (\<lambda>i. side ! (1 + i)) [d..<d + length ds]. unat (dm_workers (ds ! (i - d))))"
proof (induction ds arbitrary: d indices required w)
  case (Cons demand ds)
  let ?sum = "\<lambda>d ds. \<Sum>i\<leftarrow>filter (\<lambda>i. side ! (1 + i)) [d..<d + length ds]. unat (dm_workers (ds ! (i - d)))"
  have range: "[d..<d + length (demand # ds)] = d # [Suc d..<Suc d + length ds]" by (subst upt_conv_Cons) (simp_all del: upt_Suc)
  have shift: "(\<Sum>i\<leftarrow>filter (\<lambda>i. side ! (1 + i)) [Suc d..<Suc d + length ds]. unat (dm_workers ((demand # ds) ! (i - d)))) = ?sum (Suc d) ds"
    by (intro arg_cong [where f = sum_list] map_cong refl) (auto simp: nth_Cons' Suc_diff_le)
  show ?case
  proof (cases "side ! (1 + d)")
    case True
    then obtain w1 where step:
        "deficient_demands (Suc d) ds side (indices @ [d]) (required + dm_workers demand) w1 = Ok (indices', required', w')"
      using Cons.prems(1) by auto
    have "unat (required + dm_workers demand) = unat required + unat (dm_workers demand)"
      using Cons.prems(2) by (simp add: unat_word_ariths)
    then show ?thesis
      using Cons.IH [OF step] Cons.prems(2) True shift unfolding range by simp
  next
    case False
    then obtain w1 where step: "deficient_demands (Suc d) ds side indices required w1 = Ok (indices', required', w')"
      using Cons.prems(1) by auto
    then show ?thesis
      using Cons.IH [OF step] Cons.prems(2) False shift unfolding range by simp
  qed
qed simp

lemma neighbor_workers_Ok:
  "neighbor_workers cs side ws w = Ok (ws', w') \<Longrightarrow> bt_sorted ws \<Longrightarrow>
   bt_sorted ws' \<and> fst ` set ws' = fst ` set ws \<union> cd_worker_id ` {c \<in> set cs. side ! (1 + cd_demand_index c)}"
proof (induction cs arbitrary: ws w)
  case (Cons c cs)
  then obtain w1 where step: "neighbor_workers cs side
      (if side ! (1 + cd_demand_index c) then bt_insert (cd_worker_id c) () ws else ws) w1 = Ok (ws', w')"
    by auto
  from Cons.IH [OF step] Cons.prems(2) show ?case
    by (auto simp: bt_sorted_insert fst_set_bt_insert)
qed simp

text \<open>
  A set of demands that together have fewer candidates than slots, with the gap.
\<close>

definition hall_violation :: "demand list \<Rightarrow> candidate list \<Rightarrow> nat list \<Rightarrow> nat \<Rightarrow> bool" where
  "hall_violation demands candidates indices deficit \<longleftrightarrow>
     distinct indices \<and> set indices \<subseteq> {..<length demands} \<and> 0 < deficit \<and>
     card {snd a |a. a \<in> set (map candidate_key candidates) \<and> fst a \<in> set indices} + deficit =
       (\<Sum>d\<in>set indices. unat (dm_workers (demands ! d)))"

lemma deficiency_Ok:
  assumes "deficiency demands candidates m side assigned w = Ok (short, w')"
    and "unat (fm_requested m) = (\<Sum>d\<leftarrow>demands. unat (dm_workers d))" "assigned \<le> fm_requested m"
    and "\<forall>c \<in> set candidates. cd_demand_index c < length demands"
  shows "case short of None \<Rightarrow> assigned = fm_requested m
    | Some sh \<Rightarrow> hall_violation demands candidates (sh_demand_indices sh) (unat (sh_deficit sh)) \<and>
        unat assigned + unat (sh_deficit sh) = unat (fm_requested m)"
proof (cases "assigned = fm_requested m")
  case True
  then show ?thesis using assms(1) by (auto simp: deficiency_def)
next
  case False
  then obtain indices required w1 ws w2 eligible deficit where d:
      "deficient_demands 0 demands side [] 0 w = Ok (indices, required, w1)"
      "neighbor_workers candidates side [] w1 = Ok (ws, w2)"
      "length ws < 2 ^ 32" "eligible = of_nat (length ws)"
      "checked_sub required eligible = Some deficit" "deficit \<noteq> 0" "deficit = fm_requested m - assigned"
      "short = Some \<lparr>sh_demand_indices = indices, sh_required_workers = required, sh_eligible_workers = eligible, sh_deficit = deficit\<rparr>"
    using assms(1) by (auto simp: deficiency_def split: if_splits)
  have "unat (fm_requested m) < 2 ^ LENGTH(32)" by (rule unsigned_less)
  then have "unat (0 :: u32) + (\<Sum>d\<leftarrow>demands. unat (dm_workers d)) < 2 ^ 32" using assms(2) by simp
  note demand = deficient_demands_Ok [OF d(1) this]
  have indices: "indices = filter (\<lambda>i. side ! (1 + i)) [0..<length demands]" using demand by simp
  note workers = neighbor_workers_Ok [OF d(2) bt_sorted_Nil]
  have "{snd a |a. a \<in> set (map candidate_key candidates) \<and> fst a \<in> set indices} = fst ` set ws"
    using workers assms(4) by (auto simp: indices candidate_key_def image_iff)
  moreover have "card (fst ` set ws) = length ws"
    using workers distinct_card [of "map fst ws"] by (simp add: bt_sorted_distinct)
  moreover have "unat eligible = length ws" using d(3,4) by (simp add: unat_of_nat)
  moreover have "eligible \<le> required" "unat deficit = unat required - unat eligible"
    using d(5) unat_checked_sub [OF d(5)] by (auto simp: checked_sub_def split: if_splits)
  moreover have "unat required = (\<Sum>d\<in>set indices. unat (dm_workers (demands ! d)))"
    using demand sum.distinct_set_conv_list [of indices "\<lambda>d. unat (dm_workers (demands ! d))"] by (simp add: indices)
  moreover have "unat (fm_requested m - assigned) = unat (fm_requested m) - unat assigned"
    using assms(3) by (simp add: unat_sub)
  moreover have "0 < unat deficit" using d(6) by (simp add: unat_gt_0)
  ultimately show ?thesis
    using d(7,8) assms(3) by (auto simp: hall_violation_def indices word_le_nat_alt unat_gt_0)
qed

subsection \<open>What the allocator promises\<close>

lemma allocate_verified:
  assumes "allocate demands candidates max_work = Ok out"
  obtains out' w w' where "verify_inner demands candidates out' w = Ok w'" "out = out'\<lparr>al_work_units := wk_used w'\<rparr>"
  using assms by (auto simp: allocate_def Let_def)

text \<open>
  C4: The allocator is optimal. What it returns is a set of candidate pairs that uses every worker at
  most once and no demand beyond its slots; no such set is larger, and among those of the same size
  none is cheaper, where the cost adds up priorities, effective and nominal skill and distance, in
  this order of importance, over the exact integers.
\<close>

theorem allocation_optimal:
  assumes "allocate demands candidates max_work = Ok out"
  shows "optimal demands candidates (al_assignments out) (al_cost out)"
proof -
  obtain out' w w' where "verify_inner demands candidates out' w = Ok w'" "out = out'\<lparr>al_work_units := wk_used w'\<rparr>"
    using assms by (rule allocate_verified)
  then show ?thesis using verify_inner_sound by simp
qed

text \<open>
  C37: The verifier is sound against any claimed allocation, wherever its assignments, potentials and
  cut come from: what it accepts is optimal.
\<close>

theorem verified_allocation_optimal:
  assumes "verify demands candidates out max_work = Ok used"
  shows "optimal demands candidates (al_assignments out) (al_cost out)"
  using assms verify_inner_sound by (auto simp: verify_def)

lemma filled_demands:
  assumes "feasible demands candidates (set as)" "distinct as" "\<forall>a \<in> set as. fst a < length demands"
    and "length as = (\<Sum>d\<leftarrow>demands. unat (dm_workers d))" "d < length demands"
  shows "card {a \<in> set as. fst a = d} = unat (dm_workers (demands ! d))"
proof -
  have "card (set as) = (\<Sum>d<length demands. card {a \<in> set as. fst a = d})"
    unfolding card_eq_sum using assms(3) by (intro sum.group [symmetric]) auto
  moreover have "(\<Sum>d\<leftarrow>demands. unat (dm_workers d)) = (\<Sum>d<length demands. unat (dm_workers (demands ! d)))"
    by (simp add: sum_list_sum_nth atLeast0LessThan)
  ultimately have "(\<Sum>d<length demands. card {a \<in> set as. fst a = d}) = (\<Sum>d<length demands. unat (dm_workers (demands ! d)))"
    using assms(2,4) by (simp add: distinct_card)
  moreover have "card {a \<in> set as. fst a = e} \<le> unat (dm_workers (demands ! e))" if "e \<in> {..<length demands}" for e
    using assms(1) that by (simp add: feasible_def)
  ultimately show ?thesis by (rule sum_mono_inv) (simp_all add: assms(5))
qed

text \<open>
  C38: Shortages are explained. Without a reported shortage every demand has all its workers. A
  reported one names demands that together have fewer candidates than slots, by exactly the reported
  deficit, and the deficit is all that is missing from the whole request.
\<close>

theorem allocation_explains_shortage:
  assumes "allocate demands candidates max_work = Ok out"
  shows "case al_shortage out of
      None \<Rightarrow> \<forall>d < length demands. card {a \<in> set (al_assignments out). fst a = d} = unat (dm_workers (demands ! d))
    | Some sh \<Rightarrow> hall_violation demands candidates (sh_demand_indices sh) (unat (sh_deficit sh)) \<and>
        length (al_assignments out) + unat (sh_deficit sh) = (\<Sum>d\<leftarrow>demands. unat (dm_workers d))"
proof -
  obtain out' w w' where out': "verify_inner demands candidates out' w = Ok w'" "out = out'\<lparr>al_work_units := wk_used w'\<rparr>"
    using assms by (rule allocate_verified)
  have best: "optimal demands candidates (al_assignments out) (al_cost out)"
    using verify_inner_sound [OF out'(1)] out'(2) by simp
  from out'(1) show ?thesis
  proof (rule verify_inner_parts)
    fix m w1 w5 w6
    assume m: "validate_allocation demands candidates w = Ok (m, w1)"
      and size: "length (al_assignments out') \<le> unat (fm_requested m)" "unat (al_assigned_workers out') = length (al_assignments out')"
      and short: "deficiency demands candidates m (aw_source_side (al_witness out')) (al_assigned_workers out') w5 = Ok (al_shortage out', w6)"
    note valid = validate_allocation_Ok [OF m]
    have "al_assigned_workers out' \<le> fm_requested m" using size by (simp add: word_le_nat_alt)
    note gap = deficiency_Ok [OF short valid(7) this valid(2)]
    have "\<forall>a \<in> set (al_assignments out). fst a < length demands"
    proof
      fix a assume "a \<in> set (al_assignments out)"
      moreover have "set (al_assignments out) \<subseteq> set (map candidate_key candidates)"
        using best by (simp add: optimal_def feasible_def)
      ultimately obtain c where "c \<in> set candidates" "a = candidate_key c" by auto
      then show "fst a < length demands" using valid(2) by (simp add: candidate_key_def)
    qed
    then show ?thesis
      using gap best size(2) valid(7) out'(2) filled_demands [of demands candidates "al_assignments out"]
      by (auto simp: optimal_def split: option.splits)
  qed
qed

subsection \<open>A concrete allocation\<close>

definition sample_demands :: "demand list" where
  "sample_demands = [\<lparr>dm_key = ''haul'', dm_workers = 2, dm_priority = 5\<rparr>]"

definition sample_candidates :: "candidate list" where
  "sample_candidates = [\<lparr>cd_worker_id = 7, cd_demand_index = 0, cd_effective = 3, cd_nominal = 1, cd_steps = 4\<rparr>]"

lemma and_then_weak_cong: "r = r' \<Longrightarrow> and_then r f = and_then r' f"
  by simp

lemmas solver_defs = work_new_def max_work_limit_def validate_allocation_def max_demands_def max_workers_def
  charge_def checked_add_def checked_sub_def max_slots_def max_priority_def key_char_def add_arc_def worker_node_def
  cost_add_def cost_sub_def zero_cost_def i64_range_def candidate_cost_def candidate_key_def search_start_def
  furthest_def map_filter_simps deficiency_def check_arc_def

lemma sample_allocated:
  "is_ok (allocate sample_demands sample_candidates 100)"
  by (simp add: allocate_def sample_demands_def sample_candidates_def solver_defs binary_search.simps Let_def
      search.simps push_path.simps augment_loop.simps verify_inner_def min_def max_def bt_remove_def
      del: and_then_Ok_iff cong: and_then_weak_cong)

theorem allocation_optimal_witness:
  "\<exists>out. allocate sample_demands sample_candidates 100 = Ok out \<and>
     optimal sample_demands sample_candidates (al_assignments out) (al_cost out)"
proof -
  obtain out where "allocate sample_demands sample_candidates 100 = Ok out"
    using sample_allocated by (auto simp: is_ok_iff)
  with allocation_optimal [OF this] show ?thesis by blast
qed

theorem allocation_explains_shortage_witness:
  "\<exists>out. allocate sample_demands sample_candidates 100 = Ok out \<and>
     (case al_shortage out of
        None \<Rightarrow> \<forall>d < length sample_demands. card {a \<in> set (al_assignments out). fst a = d} = unat (dm_workers (sample_demands ! d))
      | Some sh \<Rightarrow> hall_violation sample_demands sample_candidates (sh_demand_indices sh) (unat (sh_deficit sh)) \<and>
          length (al_assignments out) + unat (sh_deficit sh) = (\<Sum>d\<leftarrow>sample_demands. unat (dm_workers d)))"
proof -
  obtain out where "allocate sample_demands sample_candidates 100 = Ok out"
    using sample_allocated by (auto simp: is_ok_iff)
  with allocation_explains_shortage [OF this] show ?thesis by blast
qed

definition sample_certificate :: allocation where
  "sample_certificate =
     \<lparr>al_assignments = [(0, 7)], al_allocated_by_demand = [1], al_requested_workers = 2, al_assigned_workers = 1,
      al_cut_capacity = 1, al_cost = Cost (- 5) (- 3) (- 1) 4,
      al_shortage = Some \<lparr>sh_demand_indices = [0], sh_required_workers = 2, sh_eligible_workers = 1, sh_deficit = 1\<rparr>,
      al_witness = \<lparr>aw_potentials = [0, 0, Cost (- 5) (- 3) (- 1) 4, Cost (- 5) (- 3) (- 1) 4],
        aw_source_side = [True, True, True, False]\<rparr>,
      al_work_units = 0\<rparr>"

theorem verified_allocation_optimal_witness:
  "optimal sample_demands sample_candidates [(0, 7)] (Cost (- 5) (- 3) (- 1) 4)"
proof -
  have "is_ok (verify sample_demands sample_candidates sample_certificate 100)"
    by (simp add: verify_def sample_certificate_def sample_demands_def sample_candidates_def solver_defs binary_search.simps Let_def
        verify_inner_def del: and_then_Ok_iff cong: and_then_weak_cong)
  then obtain used where "verify sample_demands sample_candidates sample_certificate 100 = Ok used"
    by (auto simp: is_ok_iff)
  from verified_allocation_optimal [OF this] show ?thesis by (simp add: sample_certificate_def)
qed

end
