(* ===== verification/Map_Route.thy ===== *)
theory Map_Route
  imports Prelude
begin

text \<open>
  \<^verbatim>\<open>crates/dfmcp-world/src/map_region.rs\<close> and \<^verbatim>\<open>map_reachability.rs\<close>: routes over an observed window of the
  map. Both are breadth-first searches over array indices with a work budget; one stops at its goal
  and reads a path back, the other floods from many roots and keeps distances. They share one
  invariant, and both are shown to compute shortest routes between tiles.

  Coordinates and work units are natural numbers: a valid window ends below 32768, so the checked
  operations on 32-bit coordinates cannot overflow, and work units stay below the limit.
\<close>

subsection \<open>Windows\<close>

type_synonym tile_pos = "nat \<times> nat \<times> nat"

record map_window =
  mw_origin :: tile_pos
  mw_size :: tile_pos

datatype map_error = MapInvalidRegion | MapInvalidTile | MapOutsideRegion | MapBudgetExceeded

type_synonym 'a mres = "('a, map_error) result"

definition max_map_tiles :: nat where "max_map_tiles = 16384"
definition max_map_side :: nat where "max_map_side = 128"
definition max_route_work :: nat where "max_route_work = 1000000"

fun volume_loop :: "(nat \<times> nat) list \<Rightarrow> nat \<Rightarrow> nat mres" where
  "volume_loop [] volume = Ok volume"
| "volume_loop ((origin, extent) # axes) volume =
     (if extent = 0 \<or> extent > max_map_side \<or> origin + extent > 32768 then Err MapInvalidRegion
      else volume_loop axes (volume * extent))"

definition window_volume :: "map_window \<Rightarrow> nat mres" where
  "window_volume r =
     (case (mw_origin r, mw_size r) of ((ox, oy, oz), (sx, sy, sz)) \<Rightarrow>
        and_then (volume_loop [(ox, sx), (oy, sy), (oz, sz)] 1) (\<lambda>volume.
          if volume > max_map_tiles then Err MapBudgetExceeded else Ok volume))"

definition relative :: "nat \<Rightarrow> nat \<Rightarrow> nat \<Rightarrow> nat option" where
  "relative coordinate origin extent =
     (if coordinate < origin then None
      else if coordinate - origin \<ge> extent then None else Some (coordinate - origin))"

definition window_index :: "map_window \<Rightarrow> tile_pos \<Rightarrow> nat option" where
  "window_index r p =
     (if \<not> is_ok (window_volume r) then None
      else
        (case (p, mw_origin r, mw_size r) of ((x, y, z), (ox, oy, oz), (sx, sy, sz)) \<Rightarrow>
          (case relative x ox sx of None \<Rightarrow> None | Some rx \<Rightarrow>
          (case relative y oy sy of None \<Rightarrow> None | Some ry \<Rightarrow>
          (case relative z oz sz of None \<Rightarrow> None | Some rz \<Rightarrow> Some ((rz * sy + ry) * sx + rx))))))"

definition window_position :: "map_window \<Rightarrow> nat \<Rightarrow> tile_pos option" where
  "window_position r index =
     (case window_volume r of
        Err _ \<Rightarrow> None
      | Ok volume \<Rightarrow>
          if index \<ge> volume then None
          else
            (case (mw_origin r, mw_size r) of ((ox, oy, oz), (sx, sy, sz)) \<Rightarrow>
              Some (ox + index mod sx, oy + (index div sx) mod sy, oz + index div (sx * sy))))"

subsection \<open>Tiles\<close>

datatype tile_shape =
    ShOther | ShEmpty | ShWall | ShFloor | ShRamp | ShRampTop | ShStairUp | ShStairDown | ShStairUpDown

definition shape_from_tag :: "u8 \<Rightarrow> tile_shape mres" where
  "shape_from_tag tag =
     (if unat tag < 9
      then Ok ([ShOther, ShEmpty, ShWall, ShFloor, ShRamp, ShRampTop, ShStairUp, ShStairDown, ShStairUpDown] ! unat tag)
      else Err MapInvalidTile)"

definition shape_supported :: "tile_shape \<Rightarrow> bool" where
  "shape_supported s \<longleftrightarrow> s \<in> {ShFloor, ShStairUp, ShStairDown, ShStairUpDown}"

definition shape_up :: "tile_shape \<Rightarrow> bool" where
  "shape_up s \<longleftrightarrow> s \<in> {ShStairUp, ShStairUpDown}"

definition shape_down :: "tile_shape \<Rightarrow> bool" where
  "shape_down s \<longleftrightarrow> s \<in> {ShStairDown, ShStairUpDown}"

record map_tile =
  mt_native_tiletype :: u32
  mt_shape :: tile_shape
  mt_liquid_depth :: u8
  mt_magma :: bool
  mt_traffic :: u8
  mt_dig_designation :: u8
  mt_building_occupancy :: u8
  mt_unit_occupancy :: u8
  mt_walkable_region :: u32
  mt_temperature_1 :: u16
  mt_temperature_2 :: u16

definition map_tile_validate :: "map_tile \<Rightarrow> unit mres" where
  "map_tile_validate t =
     (if mt_native_tiletype t > 2147483647 \<or> mt_liquid_depth t > 7 \<or> mt_traffic t > 3 \<or> mt_dig_designation t > 7
         \<or> mt_building_occupancy t > 7 \<or> mt_unit_occupancy t > 3
      then Err MapInvalidTile else Ok ())"

definition tile_candidate :: "map_tile \<Rightarrow> bool" where
  "tile_candidate t \<longleftrightarrow>
     shape_supported (mt_shape t) \<and> mt_liquid_depth t = 0 \<and> mt_building_occupancy t = 0 \<and> mt_unit_occupancy t = 0
     \<and> mt_walkable_region t \<noteq> 0"

datatype map_cell = Unallocated | Hidden | Visible map_tile

record map_region =
  mp_region :: map_window
  mp_cells :: "map_cell list"

fun validate_cells :: "map_cell list \<Rightarrow> unit mres" where
  "validate_cells [] = Ok ()"
| "validate_cells (Visible t # cells) = and_then (map_tile_validate t) (\<lambda>_. validate_cells cells)"
| "validate_cells (_ # cells) = validate_cells cells"

definition map_validate :: "map_region \<Rightarrow> unit mres" where
  "map_validate m =
     and_then (window_volume (mp_region m)) (\<lambda>volume.
       if length (mp_cells m) \<noteq> volume then Err MapInvalidRegion else validate_cells (mp_cells m))"

definition map_candidate :: "map_region \<Rightarrow> nat \<Rightarrow> bool" where
  "map_candidate m index \<longleftrightarrow>
     index < length (mp_cells m) \<and> (case mp_cells m ! index of Visible t \<Rightarrow> tile_candidate t | _ \<Rightarrow> False)"

subsection \<open>Steps of a search\<close>

text \<open>The positions one step away in the order of the axes, down before up; the axis is 2 for a change of level.\<close>

definition stepped :: "tile_pos \<Rightarrow> (tile_pos \<times> nat \<times> bool) list" where
  "stepped p =
     (case p of (x, y, z) \<Rightarrow>
        (if x = 0 then [] else [((x - 1, y, z), 0, False)]) @ [((x + 1, y, z), 0, True)] @
        (if y = 0 then [] else [((x, y - 1, z), 1, False)]) @ [((x, y + 1, z), 1, True)] @
        (if z = 0 then [] else [((x, y, z - 1), 2, False)]) @ [((x, y, z + 1), 2, True)])"

definition route_neighbors :: "map_window \<Rightarrow> tile_pos \<Rightarrow> (nat \<times> nat \<times> bool) list" where
  "route_neighbors r p =
     sort_key fst (List.map_filter (\<lambda>(q, axis, increase).
       map_option (\<lambda>index. (index, axis, increase)) (window_index r q)) (stepped p))"

definition level_change_allowed :: "map_region \<Rightarrow> nat \<Rightarrow> nat \<Rightarrow> bool \<Rightarrow> bool" where
  "level_change_allowed m current target increase \<longleftrightarrow>
     (case (mp_cells m ! current, mp_cells m ! target) of
        (Visible a, Visible b) \<Rightarrow>
          if increase then shape_up (mt_shape a) \<and> shape_down (mt_shape b)
          else shape_down (mt_shape a) \<and> shape_up (mt_shape b)
      | _ \<Rightarrow> False)"

text \<open>The test that both searches make of a neighbour, apart from whether it was seen before.\<close>

definition enterable :: "map_region \<Rightarrow> nat \<Rightarrow> nat \<times> nat \<times> bool \<Rightarrow> bool" where
  "enterable m current n =
     (case n of (target, axis, increase) \<Rightarrow>
        map_candidate m target \<and> (axis = 2 \<longrightarrow> level_change_allowed m current target increase))"

definition touches_boundary :: "map_window \<Rightarrow> tile_pos \<Rightarrow> bool" where
  "touches_boundary r p \<longleftrightarrow>
     (case (p, mw_origin r, mw_size r) of ((x, y, z), (ox, oy, oz), (sx, sy, sz)) \<Rightarrow>
        x - ox = 0 \<or> x - ox + 1 = sx \<or> y - oy = 0 \<or> y - oy + 1 = sy \<or> z - oz = 0 \<or> z - oz + 1 = sz)"

subsection \<open>A route between two tiles\<close>

text \<open>Parents are \<^verbatim>\<open>usize::MAX\<close> where none is known; here that is \<^const>\<open>None\<close>.\<close>

record route =
  rt_path :: "tile_pos list"
  rt_visited_tiles :: nat
  rt_work_units :: nat
  rt_touched_region_boundary :: bool
  rt_endpoint_excluded :: bool

definition route_charge :: "nat \<Rightarrow> route \<Rightarrow> route mres" where
  "route_charge maximum r =
     (let r = r\<lparr>rt_work_units := rt_work_units r + 1\<rparr>
      in if rt_work_units r > maximum then Err MapBudgetExceeded else Ok r)"

fun visit_neighbors ::
    "map_region \<Rightarrow> nat \<Rightarrow> nat \<Rightarrow> (nat \<times> nat \<times> bool) list \<Rightarrow> nat option list \<Rightarrow> nat list \<Rightarrow> route \<Rightarrow>
     (nat option list \<times> nat list \<times> route) mres" where
  "visit_neighbors m maximum current [] parents queue r = Ok (parents, queue, r)"
| "visit_neighbors m maximum current (n # ns) parents queue r =
     and_then (route_charge maximum r) (\<lambda>r.
       if parents ! fst n \<noteq> None \<or> \<not> enterable m current n
       then visit_neighbors m maximum current ns parents queue r
       else visit_neighbors m maximum current ns (parents[fst n := Some current]) (queue @ [fst n]) r)"

fun read_back :: "map_window \<Rightarrow> nat option list \<Rightarrow> nat \<Rightarrow> nat \<Rightarrow> nat \<Rightarrow> tile_pos list \<Rightarrow> tile_pos list mres" where
  "read_back w parents source 0 node path = Err MapInvalidRegion"
| "read_back w parents source (Suc left) node path =
     and_then (ok_or (window_position w node) MapInvalidRegion) (\<lambda>p.
       if node = source then Ok (rev (path @ [p]))
       else
         (case parents ! node of
            None \<Rightarrow> Err MapInvalidRegion
          | Some up \<Rightarrow> read_back w parents source left up (path @ [p])))"

lemma route_charge_Ok:
  "route_charge maximum r = Ok r' \<longleftrightarrow> rt_work_units r < maximum \<and> r' = r\<lparr>rt_work_units := rt_work_units r + 1\<rparr>"
  by (auto simp: route_charge_def)

lemma visit_neighbors_work:
  "visit_neighbors m maximum current ns parents queue r = Ok (parents', queue', r') \<Longrightarrow>
   r' = r\<lparr>rt_work_units := rt_work_units r + length ns\<rparr> \<and> (ns \<noteq> [] \<longrightarrow> rt_work_units r' \<le> maximum)"
  by (induction ns arbitrary: parents queue r)
    (auto simp: route_charge_Ok split: if_splits, (fastforce simp: Suc_le_eq)+)

function route_loop ::
    "map_region \<Rightarrow> nat \<Rightarrow> nat \<Rightarrow> nat \<Rightarrow> nat option list \<Rightarrow> nat list \<Rightarrow> route \<Rightarrow> route mres" where
  "route_loop m maximum source target parents queue r =
     (case queue of
        [] \<Rightarrow> Ok r
      | current # queue \<Rightarrow>
          and_then (route_charge maximum r) (\<lambda>r1.
          let r2 = r1\<lparr>rt_visited_tiles := rt_visited_tiles r1 + 1\<rparr> in
          and_then (ok_or (window_position (mp_region m) current) MapInvalidRegion) (\<lambda>p.
          let r3 = (if touches_boundary (mp_region m) p then r2\<lparr>rt_touched_region_boundary := True\<rparr> else r2) in
          if current = target
          then
            and_then (read_back (mp_region m) parents source (length (mp_cells m)) target [])
              (\<lambda>path. Ok (r3\<lparr>rt_path := path\<rparr>))
          else
            and_then (visit_neighbors m maximum current (route_neighbors (mp_region m) p) parents queue r3) (\<lambda>s.
              route_loop m maximum source target (fst s) (fst (snd s)) (snd (snd s))))))"
  by pat_completeness auto
termination
  by (relation "measure (\<lambda>(m, maximum, source, target, parents, queue, r). maximum - rt_work_units r)")
    (auto simp: route_charge_Ok Let_def dest!: visit_neighbors_work split: if_splits)

declare route_loop.simps [simp del]

definition route_between :: "map_region \<Rightarrow> tile_pos \<Rightarrow> tile_pos \<Rightarrow> nat \<Rightarrow> route mres" where
  "route_between m start goal maximum =
     and_then (map_validate m) (\<lambda>_.
     if maximum = 0 \<or> maximum > max_route_work then Err MapBudgetExceeded
     else
       and_then (ok_or (window_index (mp_region m) start) MapOutsideRegion) (\<lambda>source.
       and_then (ok_or (window_index (mp_region m) goal) MapOutsideRegion) (\<lambda>target.
       let r = \<lparr>rt_path = [], rt_visited_tiles = 0, rt_work_units = 0, rt_touched_region_boundary = False,
                rt_endpoint_excluded = (\<not> map_candidate m source \<or> \<not> map_candidate m target)\<rparr>
       in if rt_endpoint_excluded r then Ok r
          else route_loop m maximum source target ((replicate (length (mp_cells m)) None)[source := Some source])
                 [source] r)))"

subsection \<open>Distances from many roots\<close>

record reachability =
  rc_region :: map_window
  rc_distance :: "nat option list"
  rc_parent :: "nat option list"
  rc_visited_tiles :: nat
  rc_work_units :: nat
  rc_touched_region_boundary :: bool

definition reach_charge :: "nat \<Rightarrow> nat \<Rightarrow> reachability \<Rightarrow> reachability mres" where
  "reach_charge amount maximum r =
     (let r = r\<lparr>rc_work_units := rc_work_units r + amount\<rparr>
      in if rc_work_units r > maximum then Err MapBudgetExceeded else Ok r)"

fun flood_neighbors ::
    "map_region \<Rightarrow> nat \<Rightarrow> nat \<Rightarrow> nat \<Rightarrow> (nat \<times> nat \<times> bool) list \<Rightarrow> nat list \<Rightarrow> reachability \<Rightarrow>
     (nat list \<times> reachability) mres" where
  "flood_neighbors m maximum current depth [] queue r = Ok (queue, r)"
| "flood_neighbors m maximum current depth (n # ns) queue r =
     and_then (reach_charge 1 maximum r) (\<lambda>r.
       if rc_distance r ! fst n \<noteq> None \<or> \<not> enterable m current n
       then flood_neighbors m maximum current depth ns queue r
       else flood_neighbors m maximum current depth ns (queue @ [fst n])
         (r\<lparr>rc_distance := (rc_distance r)[fst n := Some (depth + 1)],
            rc_parent := (rc_parent r)[fst n := Some current]\<rparr>))"

lemma reach_charge_Ok:
  "reach_charge amount maximum r = Ok r' \<longleftrightarrow>
     rc_work_units r + amount \<le> maximum \<and> r' = r\<lparr>rc_work_units := rc_work_units r + amount\<rparr>"
  by (auto simp: reach_charge_def)

lemma flood_neighbors_work:
  "flood_neighbors m maximum current depth ns queue r = Ok (queue', r') \<Longrightarrow>
   rc_work_units r' = rc_work_units r + length ns"
  by (induction ns arbitrary: queue r) (fastforce simp: reach_charge_Ok split: if_splits)+

function flood_loop :: "map_region \<Rightarrow> nat \<Rightarrow> nat list \<Rightarrow> reachability \<Rightarrow> reachability mres" where
  "flood_loop m maximum queue r =
     (case queue of
        [] \<Rightarrow> Ok r
      | current # queue \<Rightarrow>
          and_then (reach_charge 1 maximum r) (\<lambda>r1.
          let r2 = r1\<lparr>rc_visited_tiles := rc_visited_tiles r1 + 1\<rparr> in
          and_then (ok_or (window_position (mp_region m) current) MapInvalidRegion) (\<lambda>p.
          and_then (ok_or (rc_distance r2 ! current) MapInvalidRegion) (\<lambda>depth.
          let r3 = (if touches_boundary (mp_region m) p then r2\<lparr>rc_touched_region_boundary := True\<rparr> else r2) in
          and_then (flood_neighbors m maximum current depth (route_neighbors (mp_region m) p) queue r3) (\<lambda>s.
            flood_loop m maximum (fst s) (snd s))))))"
  by pat_completeness auto
termination
  by (relation "measure (\<lambda>(m, maximum, queue, r). maximum - rc_work_units r)")
    (auto simp: reach_charge_Ok Let_def dest!: flood_neighbors_work split: if_splits)

declare flood_loop.simps [simp del]

fun collect_roots :: "map_region \<Rightarrow> tile_pos list \<Rightarrow> (nat, unit) btree_map \<Rightarrow> (nat, unit) btree_map mres" where
  "collect_roots m [] sources = Ok sources"
| "collect_roots m (root # roots) sources =
     and_then (ok_or (window_index (mp_region m) root) MapOutsideRegion) (\<lambda>index.
       if \<not> map_candidate m index then Err MapInvalidTile
       else collect_roots m roots (bt_insert index () sources))"

definition reach_compute :: "map_region \<Rightarrow> tile_pos list \<Rightarrow> nat \<Rightarrow> reachability mres" where
  "reach_compute m roots maximum =
     and_then (map_validate m) (\<lambda>_.
     if roots = [] \<or> length roots > 128 \<or> maximum = 0 \<or> maximum > max_route_work then Err MapBudgetExceeded
     else
       and_then (collect_roots m roots []) (\<lambda>sources.
       and_then (reach_charge (length (mp_cells m)) maximum
           \<lparr>rc_region = mp_region m, rc_distance = replicate (length (mp_cells m)) None,
            rc_parent = replicate (length (mp_cells m)) None, rc_visited_tiles = 0, rc_work_units = 0,
            rc_touched_region_boundary = False\<rparr>) (\<lambda>r.
         flood_loop m maximum (map fst sources)
           (r\<lparr>rc_distance := fold (\<lambda>s ds. ds[s := Some 0]) (map fst sources) (rc_distance r),
              rc_parent := fold (\<lambda>s ps. ps[s := Some s]) (map fst sources) (rc_parent r)\<rparr>))))"

definition distance_to :: "reachability \<Rightarrow> tile_pos \<Rightarrow> nat option" where
  "distance_to r target =
     (case window_index (rc_region r) target of None \<Rightarrow> None | Some i \<Rightarrow> rc_distance r ! i)"

fun path_loop_to :: "reachability \<Rightarrow> nat \<Rightarrow> nat \<Rightarrow> tile_pos list \<Rightarrow> tile_pos list option mres" where
  "path_loop_to r 0 node path = Err MapInvalidRegion"
| "path_loop_to r (Suc left) node path =
     and_then (ok_or (window_position (rc_region r) node) MapInvalidRegion) (\<lambda>p.
       if rc_parent r ! node = Some node then Ok (Some (rev (path @ [p])))
       else
         (case rc_parent r ! node of
            None \<Rightarrow> Err MapInvalidRegion
          | Some up \<Rightarrow> path_loop_to r left up (path @ [p])))"

definition path_to :: "reachability \<Rightarrow> tile_pos \<Rightarrow> tile_pos list option mres" where
  "path_to r target =
     and_then (ok_or (window_index (rc_region r) target) MapOutsideRegion) (\<lambda>node.
       if rc_distance r ! node = None then Ok None else path_loop_to r (length (rc_parent r)) node [])"

subsection \<open>Positions and indices\<close>

lemma window_volume_Ok:
  assumes "window_volume w = Ok v" "mw_size w = (sx, sy, sz)"
  shows "0 < sx" "0 < sy" "0 < sz" "v = sx * sy * sz" "v \<le> max_map_tiles"
  using assms by (auto simp: window_volume_def split: prod.splits if_splits)

lemma mixed_radix:
  fixes a b x y z :: nat
  assumes "x < a" "y < b"
  shows "((z * b + y) * a + x) mod a = x" "((z * b + y) * a + x) div a mod b = y" "((z * b + y) * a + x) div (a * b) = z"
proof -
  show "((z * b + y) * a + x) mod a = x" using assms by simp
  have quot: "((z * b + y) * a + x) div a = z * b + y" using assms(1) by simp
  then show "((z * b + y) * a + x) div a mod b = y" using assms(2) by simp
  have "((z * b + y) * a + x) div (a * b) = (z * b + y) div b" by (simp add: div_mult2_eq quot)
  then show "((z * b + y) * a + x) div (a * b) = z" using assms(2) by simp
qed

lemma relative_Some: "relative c origin extent = Some d \<longleftrightarrow> c = origin + d \<and> d < extent"
  by (auto simp: relative_def)

text \<open>A position has an index exactly when the index has the position.\<close>

lemma index_iff_position: "window_index w p = Some i \<longleftrightarrow> window_position w i = Some p"
proof (cases "window_volume w")
  case (Err e)
  then show ?thesis by (simp add: window_index_def window_position_def)
next
  case (Ok v)
  obtain ox oy oz where o: "mw_origin w = (ox, oy, oz)" by (metis surj_pair)
  obtain sx sy sz where s: "mw_size w = (sx, sy, sz)" by (metis surj_pair)
  obtain x y z where p: "p = (x, y, z)" by (metis surj_pair)
  note vol = window_volume_Ok [OF Ok s]
  have "window_index w p = Some i \<longleftrightarrow>
      (\<exists>rx ry rz. x = ox + rx \<and> y = oy + ry \<and> z = oz + rz \<and> rx < sx \<and> ry < sy \<and> rz < sz \<and> i = (rz * sy + ry) * sx + rx)"
    by (auto simp: window_index_def Ok p o s relative_Some split: option.splits; metis relative_Some option.distinct(1) option.inject)
  also have "\<dots> \<longleftrightarrow> window_position w i = Some p"
  proof
    assume "\<exists>rx ry rz. x = ox + rx \<and> y = oy + ry \<and> z = oz + rz \<and> rx < sx \<and> ry < sy \<and> rz < sz \<and> i = (rz * sy + ry) * sx + rx"
    then obtain rx ry rz where r: "x = ox + rx" "y = oy + ry" "z = oz + rz" "rx < sx" "ry < sy" "rz < sz"
        "i = (rz * sy + ry) * sx + rx"
      by blast
    have "Suc (rz * sy + ry) \<le> sz * sy"
      using r(5) mult_le_mono1 [of "Suc rz" sz sy] r(6) by simp
    then have "(rz * sy + ry) * sx + sx \<le> sz * sy * sx"
      using mult_le_mono1 [of "Suc (rz * sy + ry)" "sz * sy" sx] by simp
    then have "i < v" using r(4,7) vol(4) by (simp add: mult.commute mult.left_commute)
    then show "window_position w i = Some p"
      using mixed_radix [OF r(4,5), of rz] r(1-3) by (simp add: window_position_def Ok o s p r(7))
  next
    assume pos: "window_position w i = Some p"
    then have i: "i < sx * sy * sz" "x = ox + i mod sx" "y = oy + i div sx mod sy" "z = oz + i div (sx * sy)"
      using vol(4) by (auto simp: window_position_def Ok o s p not_le split: if_splits)
    have "i div (sx * sy) < sz" using i(1) by (simp add: less_mult_imp_div_less mult.commute)
    moreover have "i = (i div (sx * sy) * sy + i div sx mod sy) * sx + i mod sx"
      by (simp add: div_mult2_eq)
    ultimately show "\<exists>rx ry rz. x = ox + rx \<and> y = oy + ry \<and> z = oz + rz \<and> rx < sx \<and> ry < sy \<and> rz < sz \<and> i = (rz * sy + ry) * sx + rx"
      using i vol(1,2) mod_less_divisor by blast
  qed
  finally show ?thesis .
qed

lemma index_less: "window_volume w = Ok v \<Longrightarrow> window_index w p = Some i \<Longrightarrow> i < v"
  by (auto simp: index_iff_position window_position_def split: if_splits)

lemma position_exists: "window_volume w = Ok v \<Longrightarrow> i < v \<Longrightarrow> \<exists>p. window_position w i = Some p"
  by (auto simp: window_position_def split: prod.split)

subsection \<open>The invariant of a breadth-first search\<close>

text \<open>
  \<open>V\<close> are the nodes seen, \<open>par\<close> and \<open>d\<close> their parents and depths, \<open>Q\<close> the queue: it is ordered by depth
  and spans at most two depths, and what has left it has all its neighbours among the nodes seen.
\<close>

definition bfs_inv ::
    "(nat \<Rightarrow> nat \<Rightarrow> bool) \<Rightarrow> nat set \<Rightarrow> nat set \<Rightarrow> (nat \<Rightarrow> nat) \<Rightarrow> (nat \<Rightarrow> nat) \<Rightarrow> nat list \<Rightarrow> bool" where
  "bfs_inv adj S V par d Q \<longleftrightarrow>
     distinct Q \<and> set Q \<subseteq> V \<and> S \<subseteq> V \<and> (\<forall>s \<in> S. d s = 0 \<and> par s = s) \<and>
     (\<forall>v \<in> V - S. par v \<in> V \<and> adj (par v) v \<and> d v = d (par v) + 1) \<and>
     (\<forall>u \<in> V - set Q. \<forall>v. adj u v \<longrightarrow> v \<in> V \<and> d v \<le> d u + 1) \<and>
     sorted (map d Q) \<and> (\<forall>q \<in> set Q. d q \<le> d (hd Q) + 1) \<and> (\<forall>u \<in> V - set Q. \<forall>q \<in> set Q. d u \<le> d q)"

lemma bfs_invD:
  assumes "bfs_inv adj S V par d Q"
  shows "distinct Q" "set Q \<subseteq> V" "S \<subseteq> V" "s \<in> S \<Longrightarrow> d s = 0 \<and> par s = s"
    "v \<in> V \<Longrightarrow> v \<notin> S \<Longrightarrow> par v \<in> V \<and> adj (par v) v \<and> d v = d (par v) + 1"
    "u \<in> V \<Longrightarrow> u \<notin> set Q \<Longrightarrow> adj u v \<Longrightarrow> v \<in> V \<and> d v \<le> d u + 1"
    "sorted (map d Q)" "q \<in> set Q \<Longrightarrow> d q \<le> d (hd Q) + 1"
    "u \<in> V \<Longrightarrow> u \<notin> set Q \<Longrightarrow> q \<in> set Q \<Longrightarrow> d u \<le> d q"
  using assms unfolding bfs_inv_def by blast+

lemma bfs_start:
  assumes "distinct Q" "set Q = S" "\<forall>s \<in> S. d s = 0 \<and> par s = s"
  shows "bfs_inv adj S S par d Q"
proof -
  have "sorted (map d Q)" using assms by (auto simp: sorted_map intro: sorted_wrt_mono_rel [of _ "\<lambda>x y. True"])
  then show ?thesis using assms by (auto simp: bfs_inv_def)
qed

lemma bfs_step:
  assumes inv: "bfs_inv adj S V par d (c # Q)" and news: "distinct news" "set news = {v. adj c v} - V"
  shows "bfs_inv adj S (V \<union> set news) (\<lambda>v. if v \<in> set news then c else par v)
    (\<lambda>v. if v \<in> set news then d c + 1 else d v) (Q @ news)"
proof -
  let ?d = "\<lambda>v. if v \<in> set news then d c + 1 else d v"
  have c: "c \<in> V" "c \<notin> set Q" "distinct Q" "set Q \<subseteq> V" "S \<subseteq> V" using bfs_invD(1-3) [OF inv] by simp_all
  have new: "v \<notin> set news" if "v \<in> V" for v using that news(2) by auto
  have queue: "sorted (map d Q)" "\<forall>q \<in> set Q. d c \<le> d q" "\<forall>q \<in> set Q. d q \<le> d c + 1"
    using bfs_invD(7,8) [OF inv] by simp_all
  have left: "\<forall>u \<in> V - set (c # Q). d u \<le> d c" using bfs_invD(9) [OF inv] by simp
  have closed: "\<forall>u \<in> V - set (c # Q). \<forall>v. adj u v \<longrightarrow> v \<in> V \<and> d v \<le> d u + 1"
    and ups: "\<forall>v \<in> V - S. par v \<in> V \<and> adj (par v) v \<and> d v = d (par v) + 1"
    and roots: "\<forall>s \<in> S. d s = 0 \<and> par s = s"
    using bfs_invD(4-6) [OF inv] by blast+
  have near: "d v \<le> d c + 1" if "v \<in> V" for v
  proof (cases "v \<in> set (c # Q)")
    case False
    then have "d v \<le> d c" using left that by blast
    then show ?thesis by simp
  qed (use queue(3) in auto)
  have "map ?d Q = map d Q" using c(4) new by auto
  moreover have "map ?d news = replicate (length news) (d c + 1)"
    by (simp add: map_replicate_const [symmetric] cong: map_cong)
  ultimately have sorted: "sorted (map ?d (Q @ news))"
    using queue by (auto simp: sorted_append simp del: map_eq_conv)
  have head: "\<forall>q \<in> set (Q @ news). ?d q \<le> ?d (hd (Q @ news)) + 1"
  proof (cases Q)
    case Nil
    then show ?thesis by (cases news) auto
  next
    case (Cons q Q')
    then have "q \<in> V" "d c \<le> d q" using c(4) queue(2) by auto
    then show ?thesis using Cons queue(3) new c(4) by auto
  qed
  have still_closed: "\<forall>u \<in> (V \<union> set news) - set (Q @ news). \<forall>v. adj u v \<longrightarrow> v \<in> V \<union> set news \<and> ?d v \<le> ?d u + 1"
  proof (intro ballI allI impI)
    fix u v assume u: "u \<in> (V \<union> set news) - set (Q @ news)" and uv: "adj u v"
    show "v \<in> V \<union> set news \<and> ?d v \<le> ?d u + 1"
    proof (cases "u = c")
      case True
      then show ?thesis using uv news(2) near c(1) new by auto
    next
      case False
      then have u': "u \<in> V - set (c # Q)" using u by auto
      then have "v \<in> V \<and> d v \<le> d u + 1" using closed uv by blast
      then show ?thesis using u' new by simp
    qed
  qed
  have behind: "\<forall>u \<in> (V \<union> set news) - set (Q @ news). \<forall>q \<in> set (Q @ news). ?d u \<le> ?d q"
  proof (intro ballI)
    fix u q assume u: "u \<in> (V \<union> set news) - set (Q @ news)" and q: "q \<in> set (Q @ news)"
    have "d u \<le> d c" using u left by (cases "u = c") auto
    moreover have "?d u = d u" using u new by auto
    ultimately have du: "?d u = d u" "d u \<le> d c" by auto
    show "?d u \<le> ?d q" using du q queue(2) c(4) new by (cases "q \<in> set news") (auto intro: order.trans)
  qed
  have tree: "\<forall>v \<in> (V \<union> set news) - S. (if v \<in> set news then c else par v) \<in> V \<union> set news \<and>
      adj (if v \<in> set news then c else par v) v \<and> ?d v = ?d (if v \<in> set news then c else par v) + 1"
  proof
    fix v assume v: "v \<in> (V \<union> set news) - S"
    show "(if v \<in> set news then c else par v) \<in> V \<union> set news \<and>
      adj (if v \<in> set news then c else par v) v \<and> ?d v = ?d (if v \<in> set news then c else par v) + 1"
    proof (cases "v \<in> set news")
      case True
      then show ?thesis using news(2) c(1) new by auto
    next
      case False
      then have "par v \<in> V \<and> adj (par v) v \<and> d v = d (par v) + 1" using v ups by blast
      then show ?thesis using False new by simp
    qed
  qed
  have "distinct (Q @ news)" "set (Q @ news) \<subseteq> V \<union> set news" "S \<subseteq> V \<union> set news"
    using c news new by auto
  moreover have "\<forall>s \<in> S. ?d s = 0 \<and> (if s \<in> set news then c else par s) = s"
    using roots c(5) new by auto
  moreover note tree still_closed sorted head behind
  ultimately show ?thesis unfolding bfs_inv_def by (intro conjI)
qed

lemma bfs_tree:
  assumes "bfs_inv adj S V par d Q" "v \<in> V"
  shows "\<exists>s \<in> S. (adj ^^ d v) s v"
  using assms(2)
proof (induction "d v" arbitrary: v rule: less_induct)
  case less
  show ?case
  proof (cases "v \<in> S")
    case True
    then show ?thesis using bfs_invD(4) [OF assms(1)] by (intro bexI [of _ v]) auto
  next
    case False
    then have up: "par v \<in> V" "adj (par v) v" "d v = Suc (d (par v))" using bfs_invD(5) [OF assms(1)] less.prems by auto
    then obtain s where "s \<in> S" "(adj ^^ d (par v)) s (par v)" using less.hyps [of "par v"] by auto
    then show ?thesis using up by (auto intro!: bexI [of _ s])
  qed
qed

lemma bfs_progress:
  assumes "bfs_inv adj S V par d Q" "s \<in> S" "(adj ^^ k) s v"
  shows "v \<in> V \<and> d v \<le> k \<or> (\<exists>q \<in> set Q. d q \<le> k)"
  using assms(3)
proof (induction k arbitrary: v)
  case 0
  then show ?case using bfs_invD(3,4) [OF assms(1)] assms(2) by auto
next
  case (Suc k)
  then obtain u where u: "(adj ^^ k) s u" "adj u v" by auto
  from Suc.IH [OF u(1)] show ?case
  proof
    assume u': "u \<in> V \<and> d u \<le> k"
    show ?thesis
    proof (cases "u \<in> set Q")
      case True
      with u' show ?thesis by (auto intro: le_SucI)
    next
      case False
      then have "v \<in> V \<and> d v \<le> d u + 1" using bfs_invD(6) [OF assms(1)] u(2) u' by blast
      with u' show ?thesis by simp
    qed
  qed (auto intro: le_SucI)
qed

lemma bfs_head_nearest:
  assumes "bfs_inv adj S V par d (c # Q)" "s \<in> S" "(adj ^^ k) s c"
  shows "d c \<le> k"
proof -
  have "\<forall>q \<in> set (c # Q). d c \<le> d q" using bfs_invD(7) [OF assms(1)] by simp
  then show ?thesis using bfs_progress [OF assms] by (auto intro: order.trans)
qed

lemma bfs_done:
  assumes "bfs_inv adj S V par d []"
  shows "v \<in> V \<longleftrightarrow> (\<exists>s \<in> S. adj\<^sup>*\<^sup>* s v)"
    and "s \<in> S \<Longrightarrow> (adj ^^ k) s v \<Longrightarrow> d v \<le> k"
proof -
  show "d v \<le> k" if "s \<in> S" "(adj ^^ k) s v" using bfs_progress [OF assms that] by simp
  show "v \<in> V \<longleftrightarrow> (\<exists>s \<in> S. adj\<^sup>*\<^sup>* s v)"
  proof
    assume "v \<in> V"
    then show "\<exists>s \<in> S. adj\<^sup>*\<^sup>* s v" using bfs_tree [OF assms] relpowp_imp_rtranclp by metis
  next
    assume "\<exists>s \<in> S. adj\<^sup>*\<^sup>* s v"
    then show "v \<in> V" using bfs_progress [OF assms] rtranclp_imp_relpowp by fastforce
  qed
qed

subsection \<open>Steps between tiles\<close>

definition tile_of :: "map_region \<Rightarrow> tile_pos \<Rightarrow> map_tile option" where
  "tile_of m p =
     (case window_index (mp_region m) p of
        None \<Rightarrow> None
      | Some i \<Rightarrow> (case mp_cells m ! i of Visible t \<Rightarrow> Some t | _ \<Rightarrow> None))"

definition walkable :: "map_region \<Rightarrow> tile_pos \<Rightarrow> bool" where
  "walkable m p \<longleftrightarrow> (case tile_of m p of None \<Rightarrow> False | Some t \<Rightarrow> tile_candidate t)"

text \<open>What a step is: to a side on one level, or along complementary stairs between two levels.\<close>

definition route_step :: "map_region \<Rightarrow> tile_pos \<Rightarrow> tile_pos \<Rightarrow> bool" where
  "route_step m p q \<longleftrightarrow>
     walkable m p \<and> walkable m q \<and>
     (case (p, q) of ((x, y, z), (x', y', z')) \<Rightarrow>
        z' = z \<and> (y' = y \<and> (x' = Suc x \<or> x = Suc x') \<or> x' = x \<and> (y' = Suc y \<or> y = Suc y')) \<or>
        x' = x \<and> y' = y \<and>
          (case (tile_of m p, tile_of m q) of
             (Some a, Some b) \<Rightarrow>
               z' = Suc z \<and> shape_up (mt_shape a) \<and> shape_down (mt_shape b)
               \<or> z = Suc z' \<and> shape_down (mt_shape a) \<and> shape_up (mt_shape b)
           | _ \<Rightarrow> False))"

definition index_step :: "map_region \<Rightarrow> nat \<Rightarrow> nat \<Rightarrow> bool" where
  "index_step m i j \<longleftrightarrow>
     (\<exists>p n. window_position (mp_region m) i = Some p \<and> n \<in> set (route_neighbors (mp_region m) p) \<and>
        fst n = j \<and> enterable m i n)"

lemma route_neighbors_iff:
  "(j, axis, increase) \<in> set (route_neighbors w p) \<longleftrightarrow>
     (\<exists>q. (q, axis, increase) \<in> set (stepped p) \<and> window_index w q = Some j)"
  by (force simp: route_neighbors_def map_filter_def image_iff)

lemma length_route_neighbors: "length (route_neighbors w p) \<le> 6"
proof -
  have "length (List.map_filter f xs) \<le> length xs" for f :: "tile_pos \<times> nat \<times> bool \<Rightarrow> (nat \<times> nat \<times> bool) option" and xs
    by (induction xs) (auto simp: map_filter_simps split: option.split)
  moreover have "length (stepped p) \<le> 6" by (simp add: stepped_def split: prod.split)
  ultimately show ?thesis unfolding route_neighbors_def length_sort by (rule order.trans)
qed

lemma valid_cells:
  assumes "map_validate m = Ok ()"
  shows "window_volume (mp_region m) = Ok (length (mp_cells m))"
  using assms by (auto simp: map_validate_def split: if_splits)

lemma walkable_iff:
  assumes "map_validate m = Ok ()" "window_index (mp_region m) p = Some i"
  shows "walkable m p \<longleftrightarrow> map_candidate m i"
  using index_less [OF valid_cells [OF assms(1)] assms(2)] assms(2)
  by (auto simp: walkable_def tile_of_def map_candidate_def split: map_cell.splits)

lemma walkable_index: "walkable m p \<Longrightarrow> \<exists>i. window_index (mp_region m) p = Some i"
  by (auto simp: walkable_def tile_of_def split: option.splits)

lemma stepped_iff:
  "(q, axis, increase) \<in> set (stepped (x, y, z)) \<longleftrightarrow>
     (axis = 0 \<and> (increase \<and> q = (Suc x, y, z) \<or> \<not> increase \<and> (\<exists>x'. x = Suc x' \<and> q = (x', y, z)))) \<or>
     (axis = 1 \<and> (increase \<and> q = (x, Suc y, z) \<or> \<not> increase \<and> (\<exists>y'. y = Suc y' \<and> q = (x, y', z)))) \<or>
     (axis = 2 \<and> (increase \<and> q = (x, y, Suc z) \<or> \<not> increase \<and> (\<exists>z'. z = Suc z' \<and> q = (x, y, z'))))"
  by (cases x; cases y; cases z) (auto simp: stepped_def)

lemma stepped_level:
  "(\<exists>axis increase. ((x', y', z'), axis, increase) \<in> set (stepped (x, y, z)) \<and> (axis = 2 \<longrightarrow> (if increase then U else D))) \<longleftrightarrow>
     z' = z \<and> (y' = y \<and> (x' = Suc x \<or> x = Suc x') \<or> x' = x \<and> (y' = Suc y \<or> y = Suc y')) \<or>
     x' = x \<and> y' = y \<and> (z' = Suc z \<and> U \<or> z = Suc z' \<and> D)"
  unfolding stepped_iff conj_disj_distribR conj_disj_distribL ex_disj_distrib by auto

lemma candidate_tile:
  assumes "map_candidate m i" "window_index (mp_region m) p = Some i"
  obtains t where "mp_cells m ! i = Visible t" "tile_of m p = Some t"
  using assms by (auto simp: map_candidate_def tile_of_def split: map_cell.splits)

lemma index_step_iff:
  assumes valid: "map_validate m = Ok ()" and i: "window_index (mp_region m) p = Some i" "map_candidate m i"
  shows "index_step m i j \<longleftrightarrow> (\<exists>q. window_index (mp_region m) q = Some j \<and> route_step m p q)"
proof -
  obtain x y z where p: "p = (x, y, z)" by (metis surj_pair)
  obtain a where a: "mp_cells m ! i = Visible a" "tile_of m p = Some a" using i(2,1) by (rule candidate_tile)
  have "enterable m i (j, axis, increase) \<and> (q, axis, increase) \<in> set (stepped p) \<longleftrightarrow>
      walkable m q \<and> (\<exists>b. tile_of m q = Some b \<and> (q, axis, increase) \<in> set (stepped p) \<and>
        (axis = 2 \<longrightarrow> (if increase then shape_up (mt_shape a) \<and> shape_down (mt_shape b)
          else shape_down (mt_shape a) \<and> shape_up (mt_shape b))))"
    if q: "window_index (mp_region m) q = Some j" for q axis increase
  proof (cases "map_candidate m j")
    case True
    then obtain b where b: "mp_cells m ! j = Visible b" "tile_of m q = Some b" using q by (rule candidate_tile)
    show ?thesis
      using True walkable_iff [OF valid q] a b by (auto simp: enterable_def level_change_allowed_def)
  next
    case False
    then show ?thesis using walkable_iff [OF valid q] by (auto simp: enterable_def)
  qed
  note enter = this
  have "index_step m i j \<longleftrightarrow> (\<exists>q axis increase. window_index (mp_region m) q = Some j \<and>
      enterable m i (j, axis, increase) \<and> (q, axis, increase) \<in> set (stepped p))"
  proof -
    have "window_position (mp_region m) i = Some p" using i(1) by (simp add: index_iff_position)
    then have "index_step m i j \<longleftrightarrow> (\<exists>axis increase. (j, axis, increase) \<in> set (route_neighbors (mp_region m) p) \<and>
        enterable m i (j, axis, increase))"
      by (force simp: index_step_def)
    then show ?thesis unfolding route_neighbors_iff by blast
  qed
  also have "\<dots> \<longleftrightarrow> (\<exists>q. window_index (mp_region m) q = Some j \<and> route_step m p q)"
  proof (intro ex_cong1 conj_cong refl)
    show "(\<exists>axis increase. window_index (mp_region m) q = Some j \<and> enterable m i (j, axis, increase) \<and>
        (q, axis, increase) \<in> set (stepped p)) \<longleftrightarrow> window_index (mp_region m) q = Some j \<and> route_step m p q" for q
    proof (cases "window_index (mp_region m) q = Some j")
      case True
      obtain x' y' z' where q: "q = (x', y', z')" by (metis surj_pair)
      have "walkable m p" using walkable_iff [OF valid i(1)] i(2) by simp
      moreover have "(\<exists>axis increase. enterable m i (j, axis, increase) \<and> (q, axis, increase) \<in> set (stepped p)) \<longleftrightarrow>
          walkable m q \<and> (\<exists>b. tile_of m q = Some b \<and> (\<exists>axis increase. (q, axis, increase) \<in> set (stepped p) \<and>
            (axis = 2 \<longrightarrow> (if increase then shape_up (mt_shape a) \<and> shape_down (mt_shape b)
              else shape_down (mt_shape a) \<and> shape_up (mt_shape b)))))"
        unfolding enter [OF True] by blast
      ultimately show ?thesis
        using True a(2) unfolding p q stepped_level
        by (auto simp: route_step_def walkable_def split: option.splits)
    qed simp
  qed
  finally show ?thesis .
qed

lemma index_step_candidate: "index_step m i j \<Longrightarrow> map_candidate m j"
  by (auto simp: index_step_def enterable_def)

lemma index_steps_candidate: "(index_step m ^^ k) i j \<Longrightarrow> map_candidate m i \<Longrightarrow> map_candidate m j"
  by (cases k) (auto dest: index_step_candidate)

lemma index_steps_iff:
  assumes "map_validate m = Ok ()" "window_index (mp_region m) p = Some i" "map_candidate m i"
  shows "(index_step m ^^ k) i j \<longleftrightarrow> (\<exists>q. window_index (mp_region m) q = Some j \<and> (route_step m ^^ k) p q)"
proof (induction k arbitrary: j)
  case 0
  then show ?case using assms(2) by (auto simp del: split_paired_Ex)
next
  case (Suc k)
  show ?case
  proof
    assume "(index_step m ^^ Suc k) i j"
    then obtain u where u: "(index_step m ^^ k) i u" "index_step m u j" by auto
    then obtain q where q: "window_index (mp_region m) q = Some u" "(route_step m ^^ k) p q" using Suc.IH by blast
    have "map_candidate m u" using index_steps_candidate [OF u(1) assms(3)] .
    then obtain q' where "window_index (mp_region m) q' = Some j" "route_step m q q'"
      using index_step_iff [OF assms(1) q(1)] u(2) by blast
    then show "\<exists>q. window_index (mp_region m) q = Some j \<and> (route_step m ^^ Suc k) p q"
      using q(2) by (meson relpowp_Suc_I)
  next
    assume "\<exists>q. window_index (mp_region m) q = Some j \<and> (route_step m ^^ Suc k) p q"
    then obtain q q' where q: "window_index (mp_region m) q' = Some j" "(route_step m ^^ k) p q" "route_step m q q'" by auto
    then obtain u where u: "window_index (mp_region m) q = Some u"
      using walkable_index [of m q] by (auto simp: route_step_def)
    then have "(index_step m ^^ k) i u" using Suc.IH q(2) by blast
    moreover have "index_step m u j"
      using index_step_iff [OF assms(1) u index_steps_candidate [OF calculation assms(3)]] q(1,3) by blast
    ultimately show "(index_step m ^^ Suc k) i j" by auto
  qed
qed

subsection \<open>What visiting the neighbours does\<close>

definition fresh :: "map_region \<Rightarrow> nat \<Rightarrow> (nat \<times> nat \<times> bool) list \<Rightarrow> 'a option list \<Rightarrow> nat set" where
  "fresh m current ns marks = {j. marks ! j = None \<and> (\<exists>n \<in> set ns. fst n = j \<and> enterable m current n)}"

lemma fresh_skip:
  "marks ! fst n \<noteq> None \<or> \<not> enterable m current n \<Longrightarrow> fresh m current (n # ns) marks = fresh m current ns marks"
  by (auto simp: fresh_def)

lemma fresh_mark:
  assumes "fst n < length marks" "marks ! fst n = None" "enterable m current n"
  shows "fresh m current (n # ns) marks = insert (fst n) (fresh m current ns (marks[fst n := Some x]))"
    and "fst n \<notin> fresh m current ns (marks[fst n := Some x])"
proof -
  have "marks[fst n := Some x] ! j = None \<longleftrightarrow> marks ! j = None \<and> j \<noteq> fst n" for j
    using assms(1) by (cases "j = fst n") simp_all
  then have "fresh m current ns (marks[fst n := Some x]) = fresh m current ns marks - {fst n}"
    by (simp add: fresh_def set_eq_iff conj_commute conj_left_commute)
  moreover have "fresh m current (n # ns) marks = insert (fst n) (fresh m current ns marks)"
    using assms(2,3) by (auto simp: fresh_def)
  ultimately show "fresh m current (n # ns) marks = insert (fst n) (fresh m current ns (marks[fst n := Some x]))"
    "fst n \<notin> fresh m current ns (marks[fst n := Some x])"
    by auto
qed

lemma visit_neighbors_effect:
  "visit_neighbors m maximum current ns parents queue r = Ok (parents', queue', r') \<Longrightarrow>
   \<forall>n \<in> set ns. fst n < length parents \<Longrightarrow>
   \<exists>news. queue' = queue @ news \<and> distinct news \<and> set news = fresh m current ns parents \<and>
     length parents' = length parents \<and>
     (\<forall>i < length parents. parents' ! i = (if i \<in> set news then Some current else parents ! i))"
proof (induction ns arbitrary: parents queue r)
  case Nil
  then show ?case by (auto simp: fresh_def)
next
  case (Cons n ns)
  obtain r1 where r1: "route_charge maximum r = Ok r1" using Cons.prems(1) by auto
  show ?case
  proof (cases "parents ! fst n \<noteq> None \<or> \<not> enterable m current n")
    case True
    then have "visit_neighbors m maximum current ns parents queue r1 = Ok (parents', queue', r')"
      using Cons.prems(1) r1 by auto
    moreover have "fresh m current (n # ns) parents = fresh m current ns parents" using True by (rule fresh_skip)
    ultimately show ?thesis using Cons.IH Cons.prems(2) by simp
  next
    case False
    let ?ps = "parents[fst n := Some current]"
    have n: "fst n < length parents" using Cons.prems(2) by simp
    have "visit_neighbors m maximum current ns ?ps (queue @ [fst n]) r1 = Ok (parents', queue', r')"
      using Cons.prems(1) r1 False by auto
    then obtain news where news: "queue' = (queue @ [fst n]) @ news" "distinct news" "set news = fresh m current ns ?ps"
        "length parents' = length parents"
        "\<forall>i < length parents. parents' ! i = (if i \<in> set news then Some current else ?ps ! i)"
      using Cons.IH [of ?ps "queue @ [fst n]" r1] Cons.prems(2) by auto
    have set: "set (fst n # news) = fresh m current (n # ns) parents" "fst n \<notin> set news"
      using False n news(3) fresh_mark [OF n, of m current ns] by auto
    moreover have "\<forall>i < length parents. parents' ! i = (if i \<in> set (fst n # news) then Some current else parents ! i)"
      using news(5) by (auto simp: nth_list_update)
    ultimately show ?thesis
      using news(1,2,4) by (intro exI [of _ "fst n # news"]) simp
  qed
qed

lemma flood_neighbors_effect:
  "flood_neighbors m maximum current depth ns queue r = Ok (queue', r') \<Longrightarrow>
   \<forall>n \<in> set ns. fst n < length (rc_distance r) \<Longrightarrow> length (rc_parent r) = length (rc_distance r) \<Longrightarrow>
   \<exists>news. queue' = queue @ news \<and> distinct news \<and> set news = fresh m current ns (rc_distance r) \<and>
     length (rc_distance r') = length (rc_distance r) \<and> length (rc_parent r') = length (rc_distance r) \<and>
     rc_region r' = rc_region r \<and>
     (\<forall>i < length (rc_distance r). rc_distance r' ! i = (if i \<in> set news then Some (depth + 1) else rc_distance r ! i) \<and>
        rc_parent r' ! i = (if i \<in> set news then Some current else rc_parent r ! i))"
proof (induction ns arbitrary: queue r)
  case Nil
  then show ?case by (auto simp: fresh_def)
next
  case (Cons n ns)
  let ?r = "r\<lparr>rc_work_units := rc_work_units r + 1\<rparr>"
  have charged: "reach_charge 1 maximum r = Ok ?r" using Cons.prems(1) by (auto simp: reach_charge_Ok)
  show ?case
  proof (cases "rc_distance r ! fst n \<noteq> None \<or> \<not> enterable m current n")
    case True
    then have "flood_neighbors m maximum current depth ns queue ?r = Ok (queue', r')"
      using Cons.prems(1) charged by auto
    moreover have "fresh m current (n # ns) (rc_distance r) = fresh m current ns (rc_distance r)"
      using True by (rule fresh_skip)
    ultimately show ?thesis using Cons.IH [of queue ?r] Cons.prems(2,3) by (simp cong: if_cong)
  next
    case False
    let ?s = "?r\<lparr>rc_distance := (rc_distance r)[fst n := Some (depth + 1)], rc_parent := (rc_parent r)[fst n := Some current]\<rparr>"
    have n: "fst n < length (rc_distance r)" using Cons.prems(2) by simp
    have "flood_neighbors m maximum current depth ns (queue @ [fst n]) ?s = Ok (queue', r')"
      using Cons.prems(1) charged False by auto
    then obtain news where news: "queue' = (queue @ [fst n]) @ news" "distinct news" "set news = fresh m current ns (rc_distance ?s)"
        "length (rc_distance r') = length (rc_distance r)" "length (rc_parent r') = length (rc_distance r)" "rc_region r' = rc_region r"
        "\<forall>i < length (rc_distance r). rc_distance r' ! i = (if i \<in> set news then Some (depth + 1) else rc_distance ?s ! i) \<and>
          rc_parent r' ! i = (if i \<in> set news then Some current else rc_parent ?s ! i)"
      using Cons.IH [of "queue @ [fst n]" ?s] Cons.prems(2,3) by auto
    have set: "set (fst n # news) = fresh m current (n # ns) (rc_distance r)" "fst n \<notin> set news"
      using False n news(3) fresh_mark [OF n, of m current ns] by auto
    moreover have "\<forall>i < length (rc_distance r).
        rc_distance r' ! i = (if i \<in> set (fst n # news) then Some (depth + 1) else rc_distance r ! i) \<and>
        rc_parent r' ! i = (if i \<in> set (fst n # news) then Some current else rc_parent r ! i)"
      using news(7) Cons.prems(3) by (auto simp: nth_list_update)
    ultimately show ?thesis
      using news(1,2,4,5,6) by (intro exI [of _ "fst n # news"]) simp
  qed
qed

lemma bfs_parent:
  "bfs_inv adj S V par d Q \<Longrightarrow> v \<in> V \<Longrightarrow> v \<notin> S \<Longrightarrow> par v \<in> V \<and> adj (par v) v \<and> d v = Suc (d (par v))"
  by (simp add: bfs_inv_def)

lemma bfs_cong:
  assumes inv: "bfs_inv adj S V par d Q" and same: "\<forall>v \<in> V. par' v = par v \<and> d' v = d v"
  shows "bfs_inv adj S V par' d' Q"
proof -
  have Q: "distinct Q" "set Q \<subseteq> V" "S \<subseteq> V" "sorted (map d Q)" using inv by (auto simp: bfs_inv_def)
  have depths: "map d' Q = map d Q" using Q(2) same by auto
  have roots: "\<forall>s \<in> S. d' s = 0 \<and> par' s = s"
  proof
    fix s assume s: "s \<in> S"
    then have "d s = 0" "par s = s" "s \<in> V" using inv Q(3) by (auto simp: bfs_inv_def)
    then show "d' s = 0 \<and> par' s = s" using same by simp
  qed
  have tree: "\<forall>v \<in> V - S. par' v \<in> V \<and> adj (par' v) v \<and> d' v = d' (par' v) + 1"
    using bfs_parent [OF inv] same by simp
  have closed: "\<forall>u \<in> V - set Q. \<forall>v. adj u v \<longrightarrow> v \<in> V \<and> d' v \<le> d' u + 1"
  proof (intro ballI allI impI)
    fix u v assume u: "u \<in> V - set Q" "adj u v"
    then have "v \<in> V" "d v \<le> d u + 1" using inv by (simp_all add: bfs_inv_def)
    then show "v \<in> V \<and> d' v \<le> d' u + 1" using u same by simp
  qed
  have head: "\<forall>q \<in> set Q. d' q \<le> d' (hd Q) + 1"
  proof
    fix q assume q: "q \<in> set Q"
    then have "hd Q \<in> set Q" by (cases Q) auto
    then have "hd Q \<in> V" "q \<in> V" using q Q(2) by auto
    moreover have "d q \<le> d (hd Q) + 1" using inv q by (simp add: bfs_inv_def)
    ultimately show "d' q \<le> d' (hd Q) + 1" using same by simp
  qed
  have behind: "\<forall>u \<in> V - set Q. \<forall>q \<in> set Q. d' u \<le> d' q"
  proof (intro ballI)
    fix u q assume u: "u \<in> V - set Q" "q \<in> set Q"
    then have "d u \<le> d q" using inv by (simp add: bfs_inv_def)
    moreover have "u \<in> V" "q \<in> V" using u Q(2) by auto
    ultimately show "d' u \<le> d' q" using same by simp
  qed
  have "sorted (map d' Q)" using Q(4) unfolding depths .
  with Q(1-3) roots tree closed head behind show ?thesis unfolding bfs_inv_def by (intro conjI)
qed

lemma bfs_depths:
  assumes "bfs_inv adj S V par d Q" "v \<in> V"
  shows "{..d v} \<subseteq> d ` V"
  using assms(2)
proof (induction "d v" arbitrary: v rule: less_induct)
  case less
  show ?case
  proof (cases "v \<in> S")
    case True
    then show ?thesis using assms(1) less.prems by (force simp: bfs_inv_def)
  next
    case False
    then have up: "par v \<in> V" "d v = Suc (d (par v))" using less.prems assms(1) by (auto simp: bfs_inv_def)
    then have "{..d (par v)} \<subseteq> d ` V" using less.hyps [of "par v"] by simp
    moreover have "{..d v} = insert (d v) {..d (par v)}" unfolding up(2) by auto
    ultimately show ?thesis using less.prems by auto
  qed
qed

lemma bfs_depth_less:
  assumes "bfs_inv adj S V par d Q" "v \<in> V" "V \<subseteq> {..<n}"
  shows "d v < n"
proof -
  have fin: "finite V" using assms(3) finite_subset by blast
  have "card {..d v} \<le> card (d ` V)" using bfs_depths [OF assms(1,2)] fin by (intro card_mono) auto
  also have "\<dots> \<le> card V" using fin by (rule card_image_le)
  also have "\<dots> \<le> n" using card_mono [OF _ assms(3)] by simp
  finally show ?thesis by simp
qed

subsection \<open>Routes\<close>

definition seen :: "'a option list \<Rightarrow> nat set" where
  "seen marks = {i. i < length marks \<and> marks ! i \<noteq> None}"

definition chain :: "('a \<Rightarrow> 'a \<Rightarrow> bool) \<Rightarrow> 'a \<Rightarrow> 'a \<Rightarrow> 'a list \<Rightarrow> bool" where
  "chain step a b xs \<longleftrightarrow> xs \<noteq> [] \<and> hd xs = a \<and> last xs = b \<and> successively step xs"

lemma chain_snoc: "chain step a b xs \<Longrightarrow> step b c \<Longrightarrow> chain step a c (xs @ [c])"
  by (auto simp: chain_def successively_append_iff)

lemma chain_single [simp]: "chain step a b [c] \<longleftrightarrow> a = c \<and> b = c"
  by (auto simp: chain_def)

definition place :: "map_window \<Rightarrow> nat \<Rightarrow> tile_pos" where
  "place w i = (case window_position w i of Some p \<Rightarrow> p | None \<Rightarrow> (0, 0, 0))"

lemma read_back_chain:
  assumes "bfs_inv adj {source} (seen parents) (\<lambda>v. the (parents ! v)) d Q"
    and "window_volume w = Ok (length parents)"
  shows "node \<in> seen parents \<Longrightarrow> d node < left \<Longrightarrow>
    \<exists>is. chain adj source node is \<and> length is = Suc (d node) \<and>
      read_back w parents source left node path = Ok (map (place w) is @ rev path)"
proof (induction left arbitrary: node path)
  case (Suc left)
  have pos: "window_position w node = Some (place w node)"
    using position_exists [OF assms(2), of node] Suc.prems(1) by (auto simp: seen_def place_def)
  show ?case
  proof (cases "node = source")
    case True
    then have "d node = 0" using assms(1) by (simp add: bfs_inv_def)
    then show ?thesis using True pos by (intro exI [of _ "[node]"]) simp
  next
    case False
    obtain up where up: "parents ! node = Some up" using Suc.prems(1) by (auto simp: seen_def)
    then have tree: "up \<in> seen parents" "adj up node" "d node = Suc (d up)"
      using bfs_parent [OF assms(1) Suc.prems(1)] False by simp_all
    then obtain "is" where "chain adj source up is" "length is = Suc (d up)"
        "read_back w parents source left up (path @ [place w node]) = Ok (map (place w) is @ rev (path @ [place w node]))"
      using Suc.IH [of up "path @ [place w node]"] Suc.prems(2) by auto
    then show ?thesis
      using False pos up tree by (intro exI [of _ "is @ [node]"]) (auto intro: chain_snoc)
  qed
qed simp

text \<open>One step of either search, on marks that record who was seen.\<close>

lemma search_step:
  assumes inv: "bfs_inv (index_step m) S (seen marks) par d (c # Q)" and n: "length marks = length (mp_cells m)"
    and p: "window_position (mp_region m) c = Some p"
    and news: "distinct news" "set news = fresh m c (route_neighbors (mp_region m) p) marks"
    and marks': "length marks' = length marks" "\<forall>i < length marks. marks' ! i \<noteq> None \<longleftrightarrow> i \<in> set news \<or> marks ! i \<noteq> None"
    and par': "\<forall>i < length marks. i \<in> seen marks' \<longrightarrow> par' i = (if i \<in> set news then c else par i)"
  shows "\<exists>d'. bfs_inv (index_step m) S (seen marks') par' d' (Q @ news) \<and>
    (\<forall>i. d' i = (if i \<in> set news then d c + 1 else d i))"
    and "seen marks' = seen marks \<union> set news" "set news \<inter> seen marks = {}"
proof -
  have news_iff: "set news = {v. index_step m c v} - seen marks"
  proof -
    have "index_step m c v \<longleftrightarrow> (\<exists>n \<in> set (route_neighbors (mp_region m) p). fst n = v \<and> enterable m c n)" for v
      unfolding index_step_def p option.inject by blast
    moreover have "v < length marks" if "index_step m c v" for v
      using index_step_candidate [OF that] n by (simp add: map_candidate_def)
    ultimately have "index_step m c v \<and> v \<notin> seen marks \<longleftrightarrow> marks ! v = None \<and>
        (\<exists>n \<in> set (route_neighbors (mp_region m) p). fst n = v \<and> enterable m c n)" for v
      by (auto simp: seen_def)
    then show ?thesis unfolding news(2) fresh_def by (simp add: set_eq_iff)
  qed
  have small: "v < length marks" if "v \<in> set news" for v
    using that index_step_candidate n by (auto simp: news_iff map_candidate_def)
  show seen': "seen marks' = seen marks \<union> set news" using marks' small by (auto simp: seen_def)
  show "set news \<inter> seen marks = {}" unfolding news_iff by blast
  have "bfs_inv (index_step m) S (seen marks') (\<lambda>v. if v \<in> set news then c else par v)
      (\<lambda>v. if v \<in> set news then d c + 1 else d v) (Q @ news)"
    using bfs_step [OF inv news(1) news_iff] unfolding seen' .
  then have "bfs_inv (index_step m) S (seen marks') par' (\<lambda>v. if v \<in> set news then d c + 1 else d v) (Q @ news)"
    by (rule bfs_cong) (use par' marks'(1) in \<open>auto simp: seen_def\<close>)
  then show "\<exists>d'. bfs_inv (index_step m) S (seen marks') par' d' (Q @ news) \<and>
      (\<forall>i. d' i = (if i \<in> set news then d c + 1 else d i))"
    by blast
qed

lemma visit_neighbors_Err:
  "visit_neighbors m maximum current ns parents queue r = Err e \<Longrightarrow>
   e = MapBudgetExceeded \<and> maximum < rt_work_units r + length ns"
proof (induction ns arbitrary: parents queue r)
  case (Cons n ns)
  show ?case
  proof (cases "route_charge maximum r")
    case (Ok r1)
    then have "rt_work_units r1 = rt_work_units r + 1" by (simp add: route_charge_Ok)
    then show ?thesis using Cons.prems Cons.IH Ok by (fastforce split: if_splits)
  next
    case (Err e')
    then show ?thesis using Cons.prems by (auto simp: route_charge_def Let_def split: if_splits)
  qed
qed simp

definition unpopped :: "'a option list \<Rightarrow> nat list \<Rightarrow> nat set" where
  "unpopped marks queue = {..<length marks} - (seen marks - set queue)"

lemma unpopped_head:
  assumes "c < length marks" shows "1 \<le> card (unpopped marks (c # Q))"
proof -
  have "c \<in> unpopped marks (c # Q)" using assms by (simp add: unpopped_def)
  then show ?thesis by (metis One_nat_def Suc_leI card_gt_0_iff empty_iff finite_Diff finite_lessThan unpopped_def)
qed

lemma unpopped_step:
  assumes "c \<in> seen marks" "c \<notin> set Q" "set Q \<subseteq> seen marks" "seen marks' = seen marks \<union> set news"
    "set news \<inter> seen marks = {}" "length marks' = length marks"
  shows "card (unpopped marks (c # Q)) = Suc (card (unpopped marks' (Q @ news)))"
proof -
  have "seen marks' - set (Q @ news) = insert c (seen marks - set (c # Q))" using assms(1-5) by auto
  then have "unpopped marks' (Q @ news) = unpopped marks (c # Q) - {c}" using assms(6) by (auto simp: unpopped_def)
  moreover have "c \<in> unpopped marks (c # Q)" using assms(1) by (auto simp: unpopped_def seen_def)
  moreover have "finite (unpopped marks (c # Q))" by (simp add: unpopped_def)
  ultimately show ?thesis using card_Suc_Diff1 by metis
qed

text \<open>What the search answers, and that it only stops early when the budget is smaller than seven units a tile.\<close>

definition route_answer :: "map_region \<Rightarrow> nat \<Rightarrow> nat \<Rightarrow> tile_pos list \<Rightarrow> bool" where
  "route_answer m source target path \<longleftrightarrow>
     (if path = [] then \<not> (index_step m)\<^sup>*\<^sup>* source target
      else \<exists>is. chain (index_step m) source target is \<and> path = map (place (mp_region m)) is \<and>
        (\<forall>k. (index_step m ^^ k) source target \<longrightarrow> length is \<le> Suc k))"

lemma route_loop_Nil: "route_loop m maximum source target parents [] r = Ok r"
  by (simp add: route_loop.simps [of m maximum source target parents "[]" r])

lemma route_loop_correct:
  "map_validate m = Ok () \<Longrightarrow>
   bfs_inv (index_step m) {source} (seen parents) (\<lambda>v. the (parents ! v)) d queue \<Longrightarrow>
   length parents = length (mp_cells m) \<Longrightarrow> rt_path r = [] \<Longrightarrow> (target \<in> seen parents \<longrightarrow> target \<in> set queue) \<Longrightarrow>
   (case route_loop m maximum source target parents queue r of
      Err e \<Rightarrow> e = MapBudgetExceeded \<and> maximum < rt_work_units r + 7 * card (unpopped parents queue)
    | Ok r' \<Rightarrow> rt_endpoint_excluded r' = rt_endpoint_excluded r \<and> route_answer m source target (rt_path r'))"
proof (induction m maximum source target parents queue r arbitrary: d rule: route_loop.induct)
  case (1 m maximum source target parents queue r)
  note valid = 1(2) and n = 1(4) and empty = 1(5) and target = 1(6)
  show ?case
  proof (cases queue)
    case Nil
    then have "target \<notin> seen parents" using target by simp
    then have "\<not> (index_step m)\<^sup>*\<^sup>* source target" using bfs_done(1) [OF 1(3) [unfolded Nil]] by blast
    then show ?thesis using empty by (simp add: Nil route_loop_Nil route_answer_def)
  next
    case (Cons c Q)
    note inv = 1(3) [unfolded Cons]
    note vol = valid_cells [OF valid]
    have c: "c \<in> seen parents" "c \<notin> set Q" "set Q \<subseteq> seen parents" using bfs_invD(1,2) [OF inv] by auto
    then have small: "c < length parents" by (simp add: seen_def)
    then obtain p where p: "window_position (mp_region m) c = Some p" using position_exists [OF vol, of c] n by metis
    show ?thesis
    proof (cases "rt_work_units r < maximum")
      case False
      then have "route_charge maximum r = Err MapBudgetExceeded" by (simp add: route_charge_def)
      then have "route_loop m maximum source target parents (c # Q) r = Err MapBudgetExceeded"
        by (simp add: route_loop.simps [of m maximum source target parents "c # Q" r])
      then show ?thesis using False unpopped_head [OF small, of Q] by (simp add: Cons)
    next
      case True
      define r3 where "r3 = (let r2 = r\<lparr>rt_work_units := rt_work_units r + 1, rt_visited_tiles := rt_visited_tiles r + 1\<rparr> in
          if touches_boundary (mp_region m) p then r2\<lparr>rt_touched_region_boundary := True\<rparr> else r2)"
      have charged: "route_charge maximum r = Ok (r\<lparr>rt_work_units := rt_work_units r + 1\<rparr>)" using True by (simp add: route_charge_Ok)
      have loop: "route_loop m maximum source target parents (c # Q) r =
          (if c = target
           then and_then (read_back (mp_region m) parents source (length (mp_cells m)) target []) (\<lambda>path. Ok (r3\<lparr>rt_path := path\<rparr>))
           else and_then (visit_neighbors m maximum c (route_neighbors (mp_region m) p) parents Q r3) (\<lambda>s.
              route_loop m maximum source target (fst s) (fst (snd s)) (snd (snd s))))"
        by (simp add: route_loop.simps [of m maximum source target parents "c # Q" r] charged p r3_def Let_def)
      have r3: "rt_work_units r3 = Suc (rt_work_units r)" "rt_path r3 = []" "rt_endpoint_excluded r3 = rt_endpoint_excluded r"
        using empty by (simp_all add: r3_def Let_def)
      show ?thesis
      proof (cases "c = target")
        case True
        have "d c < length (mp_cells m)"
          using bfs_depth_less [OF inv c(1)] n by (auto simp: seen_def)
        then obtain "is" where "is": "chain (index_step m) source c is" "length is = Suc (d c)"
            "read_back (mp_region m) parents source (length (mp_cells m)) c [] = Ok (map (place (mp_region m)) is)"
          using read_back_chain [OF inv, of "mp_region m" c "length (mp_cells m)" "[]"] vol n c(1) by auto
        have "is \<noteq> []" using "is"(2) by auto
        then have "route_answer m source target (map (place (mp_region m)) is)"
          using "is"(1,2) True bfs_head_nearest [OF inv] by (auto simp: route_answer_def)
        moreover have "route_loop m maximum source target parents queue r = Ok (r3\<lparr>rt_path := map (place (mp_region m)) is\<rparr>)"
          using "is"(3) True loop by (simp add: Cons)
        ultimately show ?thesis using r3(3) by simp
      next
        case False
        show ?thesis
        proof (cases "visit_neighbors m maximum c (route_neighbors (mp_region m) p) parents Q r3")
          case (Err e)
          then have "e = MapBudgetExceeded" "maximum < rt_work_units r3 + 6"
            using visit_neighbors_Err [OF Err] length_route_neighbors [of "mp_region m" p] by auto
          then show ?thesis using False Err unpopped_head [OF small, of Q] r3(1) by (simp add: Cons loop)
        next
          case (Ok s)
          obtain parents' queue' r4 where s: "s = (parents', queue', r4)" by (metis surj_pair)
          note visited = Ok [unfolded s]
          have bound: "\<forall>x \<in> set (route_neighbors (mp_region m) p). fst x < length parents"
            using index_less [OF vol] n by (auto simp: route_neighbors_iff)
          obtain news where news: "queue' = Q @ news" "distinct news"
              "set news = fresh m c (route_neighbors (mp_region m) p) parents" "length parents' = length parents"
              "\<forall>i < length parents. parents' ! i = (if i \<in> set news then Some c else parents ! i)"
            using visit_neighbors_effect [OF visited bound] by blast
          have marks: "\<forall>i < length parents. parents' ! i \<noteq> None \<longleftrightarrow> i \<in> set news \<or> parents ! i \<noteq> None"
            "\<forall>i < length parents. i \<in> seen parents' \<longrightarrow> the (parents' ! i) = (if i \<in> set news then c else the (parents ! i))"
            using news(5) by auto
          note step = search_step [OF inv n p news(2,3,4) marks]
          then obtain d' where inv': "bfs_inv (index_step m) {source} (seen parents') (\<lambda>v. the (parents' ! v)) d' queue'"
            unfolding news(1) by blast
          have r4: "rt_work_units r4 \<le> rt_work_units r + 7" "rt_path r4 = []" "rt_endpoint_excluded r4 = rt_endpoint_excluded r"
            using visit_neighbors_work [OF visited] r3 length_route_neighbors [of "mp_region m" p] by auto
          have aim: "target \<in> seen parents' \<longrightarrow> target \<in> set queue'"
            using target step(2) False unfolding Cons news(1) by auto
          have left: "card (unpopped parents (c # Q)) = Suc (card (unpopped parents' queue'))"
            unfolding news(1) using c step(2,3) news(4) by (rule unpopped_step)
          have call: "visit_neighbors m maximum c (route_neighbors (mp_region m) p) parents Q
              (if touches_boundary (mp_region m) p
               then r\<lparr>rt_work_units := rt_work_units r + 1\<rparr>
                 \<lparr>rt_visited_tiles := rt_visited_tiles (r\<lparr>rt_work_units := rt_work_units r + 1\<rparr>) + 1\<rparr>
                 \<lparr>rt_touched_region_boundary := True\<rparr>
               else r\<lparr>rt_work_units := rt_work_units r + 1\<rparr>
                 \<lparr>rt_visited_tiles := rt_visited_tiles (r\<lparr>rt_work_units := rt_work_units r + 1\<rparr>) + 1\<rparr>) = Ok s"
            using Ok by (simp add: r3_def Let_def split: if_splits)
          have rest: "case route_loop m maximum source target parents' queue' r4 of
              Err e \<Rightarrow> e = MapBudgetExceeded \<and> maximum < rt_work_units r4 + 7 * card (unpopped parents' queue')
            | Ok r' \<Rightarrow> rt_endpoint_excluded r' = rt_endpoint_excluded r4 \<and> route_answer m source target (rt_path r')"
            using 1(1) [OF Cons charged refl _ refl False call valid, of d', unfolded s fst_conv snd_conv] p inv' aim news(4) n r4(2)
            by simp
          have "route_loop m maximum source target parents (c # Q) r = route_loop m maximum source target parents' queue' r4"
            using False visited by (simp add: loop)
          then show ?thesis using rest left r4(1,3) by (auto simp: Cons split: result.splits)
        qed
      qed
    qed
  qed
qed

lemma place_index: "window_index w p = Some i \<Longrightarrow> place w i = p"
  by (simp add: index_iff_position place_def)

lemma index_place:
  assumes "window_volume w = Ok v" "i < v"
  shows "window_index w (place w i) = Some i"
  using position_exists [OF assms] by (auto simp: index_iff_position place_def)

lemma place_step:
  assumes "map_validate m = Ok ()" "index_step m i j" "map_candidate m i"
  shows "route_step m (place (mp_region m) i) (place (mp_region m) j)"
proof -
  have "i < length (mp_cells m)" using assms(3) by (simp add: map_candidate_def)
  then have i: "window_index (mp_region m) (place (mp_region m) i) = Some i"
    by (rule index_place [OF valid_cells [OF assms(1)]])
  then obtain q where "window_index (mp_region m) q = Some j" "route_step m (place (mp_region m) i) q"
    using index_step_iff [OF assms(1) i assms(3)] assms(2) by blast
  then show ?thesis by (simp add: place_index)
qed

lemma place_chain:
  assumes "map_validate m = Ok ()"
  shows "successively (index_step m) is \<Longrightarrow> is \<noteq> [] \<Longrightarrow> map_candidate m (hd is) \<Longrightarrow>
    successively (route_step m) (map (place (mp_region m)) is)"
proof (induction "is" rule: induct_list012)
  case (3 i j "is")
  then show ?case using place_step [OF assms, of i j] index_step_candidate [of m i j] by simp
qed simp_all

lemma route_steps_index:
  assumes "map_validate m = Ok ()" "window_index (mp_region m) start = Some i" "window_index (mp_region m) goal = Some j"
    "map_candidate m i"
  shows "(route_step m ^^ k) start goal \<longleftrightarrow> (index_step m ^^ k) i j"
proof -
  have "(\<exists>q. window_index (mp_region m) q = Some j \<and> (route_step m ^^ k) start q) \<longleftrightarrow> (route_step m ^^ k) start goal"
    using assms(3) place_index by metis
  then show ?thesis using index_steps_iff [OF assms(1,2,4), of k j] by simp
qed

definition shortest_answer :: "map_region \<Rightarrow> tile_pos \<Rightarrow> tile_pos \<Rightarrow> tile_pos list \<Rightarrow> bool" where
  "shortest_answer m start goal path \<longleftrightarrow>
     (if path = [] then \<not> (route_step m)\<^sup>*\<^sup>* start goal
      else chain (route_step m) start goal path \<and> (\<forall>k. (route_step m ^^ k) start goal \<longrightarrow> length path \<le> Suc k))"

lemma shortest_from_index:
  assumes valid: "map_validate m = Ok ()" and i: "window_index (mp_region m) start = Some i" "window_index (mp_region m) goal = Some j"
    "map_candidate m i" and answer: "route_answer m i j path"
  shows "shortest_answer m start goal path"
proof (cases "path = []")
  case True
  then have "\<not> (index_step m)\<^sup>*\<^sup>* i j" using answer by (simp add: route_answer_def)
  then have "\<not> (route_step m)\<^sup>*\<^sup>* start goal"
    using route_steps_index [OF valid i] by (simp add: rtranclp_power)
  then show ?thesis using True by (simp add: shortest_answer_def)
next
  case False
  then obtain "is" where "is": "chain (index_step m) i j is" "path = map (place (mp_region m)) is"
      "\<forall>k. (index_step m ^^ k) i j \<longrightarrow> length is \<le> Suc k"
    using answer by (auto simp: route_answer_def)
  have "successively (route_step m) path"
    using place_chain [OF valid, of "is"] "is"(1,2) i(3) by (simp add: chain_def)
  then have "chain (route_step m) start goal path"
    using "is"(1,2) i(1,2) by (auto simp: chain_def hd_map last_map place_index)
  then show ?thesis
    using False "is"(2,3) route_steps_index [OF valid i] by (simp add: shortest_answer_def)
qed

lemma route_search_start:
  assumes "i < n"
  shows "bfs_inv adj {i} (seen ((replicate n None)[i := Some i])) (\<lambda>v. the ((replicate n None)[i := Some i] ! v)) (\<lambda>_. 0) [i]"
    "seen ((replicate n None)[i := Some i]) = {i}"
proof -
  show seen: "seen ((replicate n None)[i := Some i]) = {i}"
    using assms by (auto simp: seen_def nth_list_update split: if_splits)
  show "bfs_inv adj {i} (seen ((replicate n None)[i := Some i])) (\<lambda>v. the ((replicate n None)[i := Some i] ! v)) (\<lambda>_. 0) [i]"
    unfolding seen using assms by (intro bfs_start) simp_all
qed

text \<open>
  C5: The route search finds shortest routes and misses none. When it answers, either an endpoint is
  not walkable and it says so; or the path is empty and no route over walkable tiles and
  complementary stairs joins the endpoints; or the path is such a route from the start to the goal
  and no route has fewer steps.
\<close>

theorem route_shortest:
  assumes "route_between m start goal maximum = Ok r"
  shows "if rt_endpoint_excluded r then \<not> (walkable m start \<and> walkable m goal) \<and> rt_path r = []
    else walkable m start \<and> walkable m goal \<and> shortest_answer m start goal (rt_path r)"
proof -
  from assms obtain i j where valid: "map_validate m = Ok ()" and i: "window_index (mp_region m) start = Some i"
    and j: "window_index (mp_region m) goal = Some j"
    by (auto simp: route_between_def split: if_splits)
  note walk = walkable_iff [OF valid i] walkable_iff [OF valid j]
  let ?r = "\<lparr>rt_path = [], rt_visited_tiles = 0, rt_work_units = 0, rt_touched_region_boundary = False, rt_endpoint_excluded = False\<rparr>"
  let ?parents = "(replicate (length (mp_cells m)) None)[i := Some i]"
  show ?thesis
  proof (cases "map_candidate m i \<and> map_candidate m j")
    case False
    then have "r = ?r\<lparr>rt_endpoint_excluded := True\<rparr>"
      using assms i j by (auto simp: route_between_def split: if_splits)
    then show ?thesis using False walk by auto
  next
    case True
    then have loop: "route_loop m maximum i j ?parents [i] ?r = Ok r"
      using assms i j by (auto simp: route_between_def split: if_splits)
    have "i < length (mp_cells m)" using True by (simp add: map_candidate_def)
    note start = route_search_start [OF this]
    have "rt_endpoint_excluded r = False \<and> route_answer m i j (rt_path r)"
      using route_loop_correct [OF valid start(1), of ?r j maximum] loop start(2) by auto
    then show ?thesis using True walk shortest_from_index [OF valid i j] by simp
  qed
qed

lemma route_within_budget:
  assumes "map_validate m = Ok ()" "window_index (mp_region m) start = Some i" "window_index (mp_region m) goal = Some j"
    and "7 * length (mp_cells m) \<le> maximum" "maximum \<le> max_route_work"
  shows "\<exists>r. route_between m start goal maximum = Ok r"
proof (cases "map_candidate m i \<and> map_candidate m j")
  case True
  let ?r = "\<lparr>rt_path = [], rt_visited_tiles = 0, rt_work_units = 0, rt_touched_region_boundary = False, rt_endpoint_excluded = False\<rparr>"
  let ?parents = "(replicate (length (mp_cells m)) None)[i := Some i]"
  have small: "i < length (mp_cells m)" using True by (simp add: map_candidate_def)
  note start = route_search_start [OF small]
  have "card (unpopped ?parents [i]) \<le> length (mp_cells m)"
    using card_mono [of "{..<length ?parents}" "unpopped ?parents [i]"] by (simp add: unpopped_def)
  moreover have "case route_loop m maximum i j ?parents [i] ?r of
      Err e \<Rightarrow> e = MapBudgetExceeded \<and> maximum < rt_work_units ?r + 7 * card (unpopped ?parents [i])
    | Ok r' \<Rightarrow> rt_endpoint_excluded r' = rt_endpoint_excluded ?r \<and> route_answer m i j (rt_path r')"
    using start(2) by (intro route_loop_correct [OF assms(1) start(1)]) auto
  ultimately have "\<exists>r. route_loop m maximum i j ?parents [i] ?r = Ok r"
    using assms(4) by (auto split: result.splits)
  then show ?thesis using assms small True by (auto simp: route_between_def)
next
  case False
  have "0 < maximum" using index_less [OF valid_cells [OF assms(1)] assms(2)] assms(4) by linarith
  then show ?thesis using assms False by (auto simp: route_between_def)
qed

text \<open>
  C39: The route search always answers within seven units of work a tile: on a valid window, for
  endpoints in it, it never runs out of such a budget and never hits an internal error.
\<close>

theorem route_completes:
  assumes "map_validate m = Ok ()" "window_index (mp_region m) start = Some i" "window_index (mp_region m) goal = Some j"
    and "7 * length (mp_cells m) \<le> maximum" "maximum \<le> max_route_work"
  shows "\<exists>r. route_between m start goal maximum = Ok r"
  by (rule route_within_budget [OF assms])

subsection \<open>Distances\<close>

lemma flood_neighbors_Err:
  "flood_neighbors m maximum current depth ns queue r = Err e \<Longrightarrow>
   e = MapBudgetExceeded \<and> maximum < rc_work_units r + length ns"
proof (induction ns arbitrary: queue r)
  case (Cons n ns)
  show ?case
  proof (cases "reach_charge 1 maximum r")
    case (Ok r1)
    then have "rc_work_units r1 = rc_work_units r + 1" by (simp add: reach_charge_Ok)
    then show ?thesis using Cons.prems Cons.IH Ok by (fastforce split: if_splits)
  next
    case (Err e')
    then show ?thesis using Cons.prems by (auto simp: reach_charge_def Let_def split: if_splits)
  qed
qed simp

definition flood_inv_at :: "map_region \<Rightarrow> nat set \<Rightarrow> nat list \<Rightarrow> reachability \<Rightarrow> bool" where
  "flood_inv_at m S queue r \<longleftrightarrow>
     rc_region r = mp_region m \<and> length (rc_distance r) = length (mp_cells m) \<and> length (rc_parent r) = length (mp_cells m) \<and>
     (\<forall>i < length (mp_cells m). rc_parent r ! i = None \<longleftrightarrow> rc_distance r ! i = None) \<and>
     bfs_inv (index_step m) S (seen (rc_distance r)) (\<lambda>v. the (rc_parent r ! v)) (\<lambda>v. the (rc_distance r ! v)) queue"

lemma flood_loop_Nil: "flood_loop m maximum [] r = Ok r"
  by (simp add: flood_loop.simps [of m maximum "[]" r])

lemma flood_step:
  assumes inv: "flood_inv_at m S (c # Q) r" and p: "window_position (mp_region m) c = Some p"
    and valid: "map_validate m = Ok ()" and depth: "rc_distance r ! c = Some depth"
    and flooded: "flood_neighbors m maximum c depth (route_neighbors (mp_region m) p) Q r = Ok (queue', r')"
  shows "flood_inv_at m S queue' r' \<and>
    card (unpopped (rc_distance r) (c # Q)) = Suc (card (unpopped (rc_distance r') queue'))"
proof -
  have n: "length (rc_distance r) = length (mp_cells m)" "length (rc_parent r) = length (rc_distance r)"
    and bfs: "bfs_inv (index_step m) S (seen (rc_distance r)) (\<lambda>v. the (rc_parent r ! v)) (\<lambda>v. the (rc_distance r ! v)) (c # Q)"
    using inv by (simp_all add: flood_inv_at_def)
  have bound: "\<forall>x \<in> set (route_neighbors (mp_region m) p). fst x < length (rc_distance r)"
    using index_less [OF valid_cells [OF valid]] n by (auto simp: route_neighbors_iff)
  obtain news where news: "queue' = Q @ news" "distinct news"
      "set news = fresh m c (route_neighbors (mp_region m) p) (rc_distance r)"
      "length (rc_distance r') = length (rc_distance r)" "length (rc_parent r') = length (rc_distance r)"
      "rc_region r' = rc_region r"
      "\<forall>i < length (rc_distance r). rc_distance r' ! i = (if i \<in> set news then Some (depth + 1) else rc_distance r ! i) \<and>
        rc_parent r' ! i = (if i \<in> set news then Some c else rc_parent r ! i)"
    using flood_neighbors_effect [OF flooded bound n(2)] by blast
  have marks: "\<forall>i < length (rc_distance r). rc_distance r' ! i \<noteq> None \<longleftrightarrow> i \<in> set news \<or> rc_distance r ! i \<noteq> None"
    "\<forall>i < length (rc_distance r). i \<in> seen (rc_distance r') \<longrightarrow>
       the (rc_parent r' ! i) = (if i \<in> set news then c else the (rc_parent r ! i))"
    using news(7) by auto
  note step = search_step [OF bfs n(1) p news(2,3,4) marks]
  then obtain d' where d': "bfs_inv (index_step m) S (seen (rc_distance r')) (\<lambda>v. the (rc_parent r' ! v)) d' queue'"
      "\<forall>i. d' i = (if i \<in> set news then the (rc_distance r ! c) + 1 else the (rc_distance r ! i))"
    unfolding news(1) by blast
  have "bfs_inv (index_step m) S (seen (rc_distance r')) (\<lambda>v. the (rc_parent r' ! v)) (\<lambda>v. the (rc_distance r' ! v)) queue'"
    using d'(1) by (rule bfs_cong) (use news(4,7) d'(2) depth in \<open>auto simp: seen_def\<close>)
  moreover have "\<forall>i < length (mp_cells m). rc_parent r' ! i = None \<longleftrightarrow> rc_distance r' ! i = None"
    using inv news(7) n by (simp add: flood_inv_at_def)
  moreover have "rc_region r' = mp_region m" using inv news(6) by (simp add: flood_inv_at_def)
  moreover have "c \<in> seen (rc_distance r)" "c \<notin> set Q" "set Q \<subseteq> seen (rc_distance r)"
    using bfs_invD(1,2) [OF bfs] by auto
  ultimately show ?thesis
    using unpopped_step [OF _ _ _ step(2,3) news(4)] news(1,4,5) n by (simp add: flood_inv_at_def)
qed

lemma flood_loop_correct:
  "map_validate m = Ok () \<Longrightarrow> flood_inv_at m S queue r \<Longrightarrow>
   (case flood_loop m maximum queue r of
      Err e \<Rightarrow> e = MapBudgetExceeded \<and> maximum < rc_work_units r + 7 * card (unpopped (rc_distance r) queue)
    | Ok r' \<Rightarrow> flood_inv_at m S [] r')"
proof (induction m maximum queue r rule: flood_loop.induct)
  case (1 m maximum queue r)
  note valid = 1(2)
  show ?case
  proof (cases queue)
    case Nil
    then show ?thesis using 1(3) by (simp add: flood_loop_Nil)
  next
    case (Cons c Q)
    note inv = 1(3) [unfolded Cons]
    note vol = valid_cells [OF valid]
    have n: "length (rc_distance r) = length (mp_cells m)" using inv by (simp add: flood_inv_at_def)
    have "c \<in> seen (rc_distance r)" using inv bfs_invD(2) unfolding flood_inv_at_def by fastforce
    then obtain depth where depth: "rc_distance r ! c = Some depth" and small: "c < length (rc_distance r)"
      by (auto simp: seen_def)
    then obtain p where p: "window_position (mp_region m) c = Some p" using position_exists [OF vol, of c] n by metis
    show ?thesis
    proof (cases "rc_work_units r < maximum")
      case False
      then have "reach_charge 1 maximum r = Err MapBudgetExceeded" by (simp add: reach_charge_def)
      then have "flood_loop m maximum (c # Q) r = Err MapBudgetExceeded"
        by (simp add: flood_loop.simps [of m maximum "c # Q" r])
      then show ?thesis using False unpopped_head [OF small, of Q] by (simp add: Cons)
    next
      case True
      let ?r1 = "r\<lparr>rc_work_units := rc_work_units r + 1\<rparr>"
      let ?r2 = "?r1\<lparr>rc_visited_tiles := rc_visited_tiles ?r1 + 1\<rparr>"
      let ?r3 = "if touches_boundary (mp_region m) p then ?r2\<lparr>rc_touched_region_boundary := True\<rparr> else ?r2"
      have charged: "reach_charge 1 maximum r = Ok ?r1" using True by (simp add: reach_charge_Ok)
      have r3: "rc_work_units ?r3 = Suc (rc_work_units r)" "rc_distance ?r3 = rc_distance r" "flood_inv_at m S (c # Q) ?r3"
        using inv by (simp_all add: flood_inv_at_def)
      have loop: "flood_loop m maximum (c # Q) r =
          and_then (flood_neighbors m maximum c depth (route_neighbors (mp_region m) p) Q ?r3) (\<lambda>s. flood_loop m maximum (fst s) (snd s))"
        by (simp add: flood_loop.simps [of m maximum "c # Q" r] charged [unfolded One_nat_def] p depth Let_def)
      show ?thesis
      proof (cases "flood_neighbors m maximum c depth (route_neighbors (mp_region m) p) Q ?r3")
        case (Err e)
        then have "e = MapBudgetExceeded" "maximum < rc_work_units ?r3 + 6"
          using flood_neighbors_Err [OF Err] length_route_neighbors [of "mp_region m" p] by auto
        moreover have "flood_loop m maximum queue r = Err e" unfolding Cons loop Err by simp
        ultimately show ?thesis using unpopped_head [OF small, of Q] r3(1) by (simp add: Cons)
      next
        case (Ok s)
        obtain queue' r4 where s: "s = (queue', r4)" by (metis surj_pair)
        note flooded = Ok [unfolded s]
        have depth3: "rc_distance ?r3 ! c = Some depth" using depth r3(2) by simp
        note step = flood_step [OF r3(3) p valid depth3 flooded]
        have work: "rc_work_units r4 \<le> rc_work_units r + 7"
          using flood_neighbors_work [OF flooded] length_route_neighbors [of "mp_region m" p] r3(1) by linarith
        have rest: "case flood_loop m maximum queue' r4 of
            Err e \<Rightarrow> e = MapBudgetExceeded \<and> maximum < rc_work_units r4 + 7 * card (unpopped (rc_distance r4) queue')
          | Ok r' \<Rightarrow> flood_inv_at m S [] r'"
          using 1(1) [OF Cons charged refl _ _ refl Ok valid, unfolded s fst_conv snd_conv] p depth step by simp
        have "flood_loop m maximum queue r = flood_loop m maximum queue' r4" unfolding Cons loop flooded by simp
        then show ?thesis using rest work step r3(2) by (auto simp: Cons split: result.splits)
      qed
    qed
  qed
qed

lemma collect_roots_Ok:
  "collect_roots m roots sources = Ok out \<Longrightarrow> bt_sorted sources \<Longrightarrow>
   bt_sorted out \<and> (\<forall>p \<in> set roots. \<exists>i. window_index (mp_region m) p = Some i \<and> map_candidate m i) \<and>
   fst ` set out = fst ` set sources \<union> {i. \<exists>p \<in> set roots. window_index (mp_region m) p = Some i}"
proof (induction roots arbitrary: sources)
  case (Cons root roots)
  then obtain i where i: "window_index (mp_region m) root = Some i" "map_candidate m i"
      "collect_roots m roots (bt_insert i () sources) = Ok out"
    by (auto split: if_splits)
  from Cons.IH [OF i(3)] Cons.prems(2) i(1,2) show ?case
    by (auto simp: bt_sorted_insert fst_set_bt_insert)
qed simp

lemma fold_mark:
  "\<forall>s \<in> set ss. s < length ds \<Longrightarrow>
   length (fold (\<lambda>s ds. ds[s := f s]) ss ds) = length ds \<and>
   (\<forall>i < length ds. fold (\<lambda>s ds. ds[s := f s]) ss ds ! i = (if i \<in> set ss then f i else ds ! i))"
  by (induction ss arbitrary: ds) (auto simp: nth_list_update)

lemma flood_start:
  assumes "bt_sorted sources" "\<forall>s \<in> fst ` set sources. s < n" "n = length (mp_cells m)"
    and r: "rc_region r = mp_region m" "rc_distance r = fold (\<lambda>s ds. ds[s := Some 0]) (map fst sources) (replicate n None)"
      "rc_parent r = fold (\<lambda>s ps. ps[s := Some s]) (map fst sources) (replicate n None)"
  shows "flood_inv_at m (fst ` set sources) (map fst sources) r"
proof -
  have "\<forall>s \<in> set (map fst sources). s < length (replicate n (None :: nat option))" using assms(2) by simp
  note marked = fold_mark [OF this, of "\<lambda>_. Some 0"] fold_mark [OF this, of "\<lambda>s. Some s"]
  define S where "S = fst ` set sources"
  have distance: "length (rc_distance r) = n" "\<And>i. i < n \<Longrightarrow> rc_distance r ! i = (if i \<in> S then Some 0 else None)"
    and parent: "length (rc_parent r) = n" "\<And>i. i < n \<Longrightarrow> rc_parent r ! i = (if i \<in> S then Some i else None)"
    using marked by (simp_all add: r S_def)
  have small: "i < n" if "i \<in> S" for i using that assms(2) unfolding S_def by blast
  have seen: "seen (rc_distance r) = S"
    using distance small by (auto simp: seen_def split: if_splits)
  have "bfs_inv (index_step m) S S (\<lambda>v. the (rc_parent r ! v)) (\<lambda>v. the (rc_distance r ! v)) (map fst sources)"
    using bt_sorted_distinct [OF assms(1)] distance(2) parent(2) small by (intro bfs_start) (auto simp: S_def)
  then show ?thesis
    using seen distance parent r(1) assms(3) unfolding flood_inv_at_def S_def [symmetric] by simp
qed

lemma reach_compute_parts:
  assumes "reach_compute m roots maximum = Ok r"
  obtains sources r0 where "map_validate m = Ok ()" "collect_roots m roots [] = Ok sources"
    "flood_loop m maximum (map fst sources) r0 = Ok r" "flood_inv_at m (fst ` set sources) (map fst sources) r0"
proof -
  let ?n = "length (mp_cells m)"
  let ?init = "\<lparr>rc_region = mp_region m, rc_distance = replicate ?n None, rc_parent = replicate ?n None,
      rc_visited_tiles = 0, rc_work_units = ?n, rc_touched_region_boundary = False\<rparr>"
  from assms obtain sources where parts: "map_validate m = Ok ()" "collect_roots m roots [] = Ok sources"
      "flood_loop m maximum (map fst sources)
         (?init\<lparr>rc_distance := fold (\<lambda>s ds. ds[s := Some 0]) (map fst sources) (replicate ?n None),
            rc_parent := fold (\<lambda>s ps. ps[s := Some s]) (map fst sources) (replicate ?n None)\<rparr>) = Ok r"
    by (auto simp: reach_compute_def reach_charge_Ok split: if_splits)
  have roots: "bt_sorted sources" "fst ` set sources = {i. \<exists>p \<in> set roots. window_index (mp_region m) p = Some i}"
    using collect_roots_Ok [OF parts(2) bt_sorted_Nil] by simp_all
  then have "\<forall>s \<in> fst ` set sources. s < ?n" using index_less [OF valid_cells [OF parts(1)]] by auto
  from that [OF parts] flood_start [OF roots(1) this refl] show ?thesis by simp
qed

text \<open>
  C40: The flood computes exact distances. When it answers, a tile has distance \<open>k\<close> if and only if some
  root reaches it in \<open>k\<close> steps and no root in fewer; tiles without a distance cannot be reached.
\<close>

theorem distances_exact:
  assumes "reach_compute m roots maximum = Ok r"
  shows "distance_to r p = Some k \<longleftrightarrow>
    (\<exists>s \<in> set roots. (route_step m ^^ k) s p) \<and> (\<forall>s \<in> set roots. \<forall>j. (route_step m ^^ j) s p \<longrightarrow> k \<le> j)"
proof -
  obtain sources r0 where parts: "map_validate m = Ok ()" "collect_roots m roots [] = Ok sources"
      "flood_loop m maximum (map fst sources) r0 = Ok r" "flood_inv_at m (fst ` set sources) (map fst sources) r0"
    using assms by (rule reach_compute_parts)
  have roots: "\<forall>s \<in> set roots. \<exists>i. window_index (mp_region m) s = Some i \<and> map_candidate m i"
      "fst ` set sources = {i. \<exists>s \<in> set roots. window_index (mp_region m) s = Some i}"
    using collect_roots_Ok [OF parts(2) bt_sorted_Nil] by simp_all
  let ?S = "fst ` set sources" and ?d = "\<lambda>v. the (rc_distance r ! v)"
  have inv: "flood_inv_at m ?S [] r"
    using flood_loop_correct [OF parts(1,4), of maximum] parts(3) by simp
  then have bfs: "bfs_inv (index_step m) ?S (seen (rc_distance r)) (\<lambda>v. the (rc_parent r ! v)) ?d []"
    and n: "rc_region r = mp_region m" "length (rc_distance r) = length (mp_cells m)"
    by (simp_all add: flood_inv_at_def)
  show ?thesis
  proof (cases "window_index (mp_region m) p")
    case None
    have "\<not> (route_step m ^^ j) s p" if root: "s \<in> set roots" for s j
    proof
      assume "(route_step m ^^ j) s p"
      moreover obtain i where "window_index (mp_region m) s = Some i" using bspec [OF roots(1) root] by blast
      ultimately show False using None walkable_index [of m p] by (cases j) (auto simp: route_step_def)
    qed
    then show ?thesis using None n(1) by (auto simp: distance_to_def)
  next
    case (Some t)
    have t: "t < length (rc_distance r)" using index_less [OF valid_cells [OF parts(1)] Some] n(2) by simp
    have steps: "(\<exists>s \<in> set roots. (route_step m ^^ j) s p) \<longleftrightarrow> (\<exists>i \<in> ?S. (index_step m ^^ j) i t)" for j
    proof -
      have "(route_step m ^^ j) s p \<longleftrightarrow> (index_step m ^^ j) i t"
        if "s \<in> set roots" "window_index (mp_region m) s = Some i" for s i
      proof -
        have "map_candidate m i" using roots(1) that by fastforce
        then show ?thesis by (rule route_steps_index [OF parts(1) that(2) Some])
      qed
      note same = this
      show ?thesis
      proof
        assume "\<exists>s \<in> set roots. (route_step m ^^ j) s p"
        then obtain s i where "s \<in> set roots" "(route_step m ^^ j) s p" "window_index (mp_region m) s = Some i"
          using roots(1) by blast
        then show "\<exists>i \<in> ?S. (index_step m ^^ j) i t" using same unfolding roots(2) by blast
      next
        assume "\<exists>i \<in> ?S. (index_step m ^^ j) i t"
        then show "\<exists>s \<in> set roots. (route_step m ^^ j) s p" using same unfolding roots(2) by blast
      qed
    qed
    have "distance_to r p = Some k \<longleftrightarrow> t \<in> seen (rc_distance r) \<and> ?d t = k"
      using Some n(1) t by (auto simp: distance_to_def seen_def)
    also have "\<dots> \<longleftrightarrow> (\<exists>i \<in> ?S. (index_step m ^^ k) i t) \<and> (\<forall>j. (\<exists>i \<in> ?S. (index_step m ^^ j) i t) \<longrightarrow> k \<le> j)"
    proof
      assume "t \<in> seen (rc_distance r) \<and> ?d t = k"
      then show "(\<exists>i \<in> ?S. (index_step m ^^ k) i t) \<and> (\<forall>j. (\<exists>i \<in> ?S. (index_step m ^^ j) i t) \<longrightarrow> k \<le> j)"
        using bfs_tree [OF bfs, of t] bfs_done(2) [OF bfs] by blast
    next
      assume least: "(\<exists>i \<in> ?S. (index_step m ^^ k) i t) \<and> (\<forall>j. (\<exists>i \<in> ?S. (index_step m ^^ j) i t) \<longrightarrow> k \<le> j)"
      then obtain i where i: "i \<in> ?S" "(index_step m ^^ k) i t" by blast
      then have seen: "t \<in> seen (rc_distance r)" using bfs_done(1) [OF bfs] relpowp_imp_rtranclp by metis
      moreover have "?d t \<le> k" using bfs_done(2) [OF bfs i] .
      moreover have "k \<le> ?d t" using least bfs_tree [OF bfs seen] by blast
      ultimately show "t \<in> seen (rc_distance r) \<and> ?d t = k" by simp
    qed
    finally show ?thesis unfolding steps [symmetric] by blast
  qed
qed

lemma path_loop_chain:
  assumes inv: "flood_inv_at m S Q r" and vol: "window_volume (mp_region m) = Ok (length (mp_cells m))"
  shows "node \<in> seen (rc_distance r) \<Longrightarrow> the (rc_distance r ! node) < left \<Longrightarrow>
    \<exists>is s. s \<in> S \<and> chain (index_step m) s node is \<and> length is = Suc (the (rc_distance r ! node)) \<and>
      path_loop_to r left node path = Ok (Some (map (place (mp_region m)) is @ rev path))"
proof (induction left arbitrary: node path)
  case (Suc left)
  let ?d = "\<lambda>v. the (rc_distance r ! v)"
  have bfs: "bfs_inv (index_step m) S (seen (rc_distance r)) (\<lambda>v. the (rc_parent r ! v)) ?d Q"
    and n: "rc_region r = mp_region m" "length (rc_distance r) = length (mp_cells m)"
      "\<forall>i < length (mp_cells m). rc_parent r ! i = None \<longleftrightarrow> rc_distance r ! i = None"
    using inv by (simp_all add: flood_inv_at_def)
  have pos: "window_position (rc_region r) node = Some (place (mp_region m) node)"
    using position_exists [OF vol, of node] Suc.prems(1) n by (auto simp: seen_def place_def)
  obtain up where up: "rc_parent r ! node = Some up" using Suc.prems(1) n(2,3) by (auto simp: seen_def)
  show ?case
  proof (cases "node \<in> S")
    case True
    then have "?d node = 0" "up = node" using bfs_invD(4) [OF bfs True] up by auto
    then show ?thesis using True pos up by (intro exI [of _ "[node]"] exI [of _ node]) simp
  next
    case False
    then have tree: "up \<in> seen (rc_distance r)" "index_step m up node" "?d node = Suc (?d up)"
      using bfs_invD(5) [OF bfs Suc.prems(1)] up by simp_all
    then obtain "is" s where "s \<in> S" "chain (index_step m) s up is" "length is = Suc (?d up)"
        "path_loop_to r left up (path @ [place (mp_region m) node]) =
           Ok (Some (map (place (mp_region m)) is @ rev (path @ [place (mp_region m) node])))"
      using Suc.IH [of up "path @ [place (mp_region m) node]"] Suc.prems(2) by auto
    moreover have "up \<noteq> node" using tree(3) by auto
    ultimately show ?thesis
      using pos up tree by (intro exI [of _ "is @ [node]"] exI [of _ s]) (auto intro: chain_snoc)
  qed
qed simp

text \<open>
  Paths realize the distances. For a tile of the window the flood reads back nothing when the tile
  has no distance; otherwise it reads back, without failing, a route from one of the roots to the
  tile with exactly the distance as its number of steps.
\<close>

theorem paths_realize_distances:
  assumes "reach_compute m roots maximum = Ok r" "window_index (mp_region m) p = Some t"
  shows "case distance_to r p of
      None \<Rightarrow> path_to r p = Ok None
    | Some k \<Rightarrow> \<exists>path s. path_to r p = Ok (Some path) \<and> s \<in> set roots \<and> chain (route_step m) s p path \<and> length path = Suc k"
proof -
  obtain sources r0 where parts: "map_validate m = Ok ()" "collect_roots m roots [] = Ok sources"
      "flood_loop m maximum (map fst sources) r0 = Ok r" "flood_inv_at m (fst ` set sources) (map fst sources) r0"
    using assms(1) by (rule reach_compute_parts)
  have roots: "\<forall>s \<in> set roots. \<exists>i. window_index (mp_region m) s = Some i \<and> map_candidate m i"
      "fst ` set sources = {i. \<exists>s \<in> set roots. window_index (mp_region m) s = Some i}"
    using collect_roots_Ok [OF parts(2) bt_sorted_Nil] by simp_all
  note vol = valid_cells [OF parts(1)]
  have inv: "flood_inv_at m (fst ` set sources) [] r"
    using flood_loop_correct [OF parts(1,4), of maximum] parts(3) by simp
  then have n: "rc_region r = mp_region m" "length (rc_distance r) = length (mp_cells m)" "length (rc_parent r) = length (mp_cells m)"
    by (simp_all add: flood_inv_at_def)
  have t: "t < length (rc_distance r)" using index_less [OF vol assms(2)] n(2) by simp
  show ?thesis
  proof (cases "rc_distance r ! t")
    case None
    then show ?thesis using assms(2) n(1) by (simp add: distance_to_def path_to_def)
  next
    case (Some k)
    then have seen: "t \<in> seen (rc_distance r)" using t by (simp add: seen_def)
    moreover have "the (rc_distance r ! t) < length (rc_parent r)"
    proof -
      have bfs: "bfs_inv (index_step m) (fst ` set sources) (seen (rc_distance r))
          (\<lambda>v. the (rc_parent r ! v)) (\<lambda>v. the (rc_distance r ! v)) []"
        using inv by (simp add: flood_inv_at_def)
      have "seen (rc_distance r) \<subseteq> {..<length (mp_cells m)}" using n(2) by (auto simp: seen_def)
      from bfs_depth_less [OF bfs seen this] show ?thesis using n(3) by simp
    qed
    ultimately obtain "is" i where "is": "i \<in> fst ` set sources" "chain (index_step m) i t is" "length is = Suc k"
        "path_loop_to r (length (rc_parent r)) t [] = Ok (Some (map (place (mp_region m)) is))"
      using path_loop_chain [OF inv vol seen, of "length (rc_parent r)" "[]"] Some by auto
    obtain s where s: "s \<in> set roots" "window_index (mp_region m) s = Some i" using "is"(1) roots(2) by blast
    then have "map_candidate m i" using roots(1) by fastforce
    then have "chain (route_step m) s p (map (place (mp_region m)) is)"
      using place_chain [OF parts(1), of "is"] "is"(2) s(2) assms(2) by (auto simp: chain_def hd_map last_map place_index)
    then show ?thesis
      using Some "is"(3,4) s(1) assms(2) n(1) by (auto simp: distance_to_def path_to_def simp del: split_paired_Ex)
  qed
qed

subsection \<open>A small map\<close>

definition sample_floor :: map_tile where
  "sample_floor = \<lparr>mt_native_tiletype = 1, mt_shape = ShFloor, mt_liquid_depth = 0, mt_magma = False, mt_traffic = 0,
     mt_dig_designation = 0, mt_building_occupancy = 0, mt_unit_occupancy = 0, mt_walkable_region = 1,
     mt_temperature_1 = 0, mt_temperature_2 = 0\<rparr>"

definition sample_map :: map_region where
  "sample_map = \<lparr>mp_region = \<lparr>mw_origin = (4, 5, 6), mw_size = (2, 1, 1)\<rparr>, mp_cells = [Visible sample_floor, Visible sample_floor]\<rparr>"

lemma sample_map_facts:
  "map_validate sample_map = Ok ()"
  "window_index (mp_region sample_map) (4, 5, 6) = Some 0"
  "window_index (mp_region sample_map) (5, 5, 6) = Some (Suc 0)"
  "length (mp_cells sample_map) = 2"
  by (simp_all add: map_validate_def sample_map_def window_volume_def max_map_side_def max_map_tiles_def
      map_tile_validate_def sample_floor_def window_index_def relative_def)

lemma sample_search:
  obtains r where "route_between sample_map (4, 5, 6) (5, 5, 6) 14 = Ok r"
proof -
  have "\<exists>r. route_between sample_map (4, 5, 6) (5, 5, 6) 14 = Ok r"
    by (rule route_within_budget) (simp_all add: sample_map_facts max_route_work_def)
  then show ?thesis using that by blast
qed

lemma reach_within_budget:
  assumes "map_validate m = Ok ()" "collect_roots m roots [] = Ok sources" "roots \<noteq> []" "length roots \<le> 128"
    and "8 * length (mp_cells m) \<le> maximum" "maximum \<le> max_route_work"
  shows "\<exists>r. reach_compute m roots maximum = Ok r"
proof -
  let ?n = "length (mp_cells m)"
  let ?r = "\<lparr>rc_region = mp_region m, rc_distance = fold (\<lambda>s ds. ds[s := Some 0]) (map fst sources) (replicate ?n None),
      rc_parent = fold (\<lambda>s ps. ps[s := Some s]) (map fst sources) (replicate ?n None),
      rc_visited_tiles = 0, rc_work_units = ?n, rc_touched_region_boundary = False\<rparr>"
  have roots: "bt_sorted sources" "fst ` set sources = {i. \<exists>p \<in> set roots. window_index (mp_region m) p = Some i}"
      "\<forall>s \<in> set roots. \<exists>i. window_index (mp_region m) s = Some i \<and> map_candidate m i"
    using collect_roots_Ok [OF assms(2) bt_sorted_Nil] by simp_all
  then have small: "\<forall>s \<in> fst ` set sources. s < ?n" using index_less [OF valid_cells [OF assms(1)]] by auto
  obtain s where "s \<in> set roots" using assms(3) by (cases roots) auto
  then have "0 < ?n" using roots(3) by (fastforce simp: map_candidate_def)
  then have pos: "0 < maximum" "?n \<le> maximum" using assms(5) by linarith+
  have inv: "flood_inv_at m (fst ` set sources) (map fst sources) ?r"
    using flood_start [OF roots(1) small refl] by simp
  have "length (rc_distance ?r) = ?n" using inv unfolding flood_inv_at_def by (elim conjE)
  then have "card (unpopped (rc_distance ?r) (map fst sources)) \<le> ?n"
    using card_mono [of "{..<?n}" "unpopped (rc_distance ?r) (map fst sources)"] by (simp add: unpopped_def)
  then have "\<exists>r. flood_loop m maximum (map fst sources) ?r = Ok r"
    using flood_loop_correct [OF assms(1) inv, of maximum] assms(5) by (auto split: result.splits)
  then show ?thesis
    using assms(1-4,6) pos by (simp add: reach_compute_def reach_charge_def)
qed

lemma sample_flood:
  obtains r where "reach_compute sample_map [(4, 5, 6)] 16 = Ok r"
proof -
  have "map_candidate sample_map 0"
    by (simp add: map_candidate_def sample_map_def sample_floor_def tile_candidate_def shape_supported_def)
  then have "collect_roots sample_map [(4, 5, 6)] [] = Ok (bt_insert 0 () [])"
    by (simp add: sample_map_facts)
  then have "\<exists>r. reach_compute sample_map [(4, 5, 6)] 16 = Ok r"
    using sample_map_facts by (intro reach_within_budget) (simp_all add: max_route_work_def)
  then show ?thesis using that by blast
qed

theorem route_completes_witness:
  "\<exists>r. route_between sample_map (4, 5, 6) (5, 5, 6) 14 = Ok r"
  by (rule route_completes) (simp_all add: sample_map_facts max_route_work_def)

lemma sample_walkable: "walkable sample_map (4, 5, 6)" "walkable sample_map (5, 5, 6)"
  by (simp_all add: walkable_def tile_of_def sample_map_facts sample_map_def sample_floor_def tile_candidate_def
      shape_supported_def window_index_def window_volume_def relative_def max_map_side_def max_map_tiles_def)

theorem route_shortest_witness:
  "\<exists>r. route_between sample_map (4, 5, 6) (5, 5, 6) 14 = Ok r \<and>
     \<not> rt_endpoint_excluded r \<and> shortest_answer sample_map (4, 5, 6) (5, 5, 6) (rt_path r)"
proof -
  obtain r where r: "route_between sample_map (4, 5, 6) (5, 5, 6) 14 = Ok r" by (rule sample_search)
  from route_shortest [OF r] r sample_walkable show ?thesis by (auto split: if_splits)
qed

theorem distances_exact_witness:
  "\<exists>r. reach_compute sample_map [(4, 5, 6)] 16 = Ok r \<and> distance_to r (4, 5, 6) = Some 0"
proof -
  obtain r where r: "reach_compute sample_map [(4, 5, 6)] 16 = Ok r" by (rule sample_flood)
  from distances_exact [OF r, of "(4, 5, 6)" 0] r show ?thesis by auto
qed

theorem paths_realize_distances_witness:
  "\<exists>r. reach_compute sample_map [(4, 5, 6)] 16 = Ok r \<and>
     (case distance_to r (5, 5, 6) of
        None \<Rightarrow> path_to r (5, 5, 6) = Ok None
      | Some k \<Rightarrow> \<exists>path. path_to r (5, 5, 6) = Ok (Some path) \<and>
          chain (route_step sample_map) (4, 5, 6) (5, 5, 6) path \<and> length path = Suc k)"
proof -
  obtain r where r: "reach_compute sample_map [(4, 5, 6)] 16 = Ok r" by (rule sample_flood)
  from paths_realize_distances [OF r sample_map_facts(3)] r show ?thesis by (auto split: option.splits)
qed

end
