(* ===== verification/Rebase.thy ===== *)
theory Rebase
  imports Ledger Delta_Codec
begin

text \<open>
  \<^verbatim>\<open>crates/dfmcp-world/src/rebase.rs\<close>: moving a change set from one snapshot to a later one, with or
  without the witnesses of what it read, and merging two branches of a snapshot record by record.
  The merge is shown to contain every edit of both branches and nothing else and not to depend on
  which branch is called ours; a clean rebase transplants the changes it was given. The texts of
  certificates enter their digest and are modelled.
\<close>

subsection \<open>Texts\<close>

text \<open>\<^verbatim>\<open>Display\<close> and \<^verbatim>\<open>Debug\<close> of the identifiers and of chunk coordinates.\<close>

definition show_int :: "int \<Rightarrow> string" where
  "show_int i = (if i < 0 then ''-'' @ show_nat (nat (- i)) else show_nat (nat i))"

definition show_hex128 :: "u128 \<Rightarrow> string" where
  "show_hex128 v = to_hex (put_u128 v)"

definition show_chunk_coord :: "chunk_coord \<Rightarrow> string" where
  "show_chunk_coord c =
     ''ChunkCoord { x: '' @ show_int (cc_x c) @ '', y: '' @ show_int (cc_y c) @ '', z: '' @ show_int (cc_z c) @ '' }''"

definition debug_entity_id :: "entity_id \<Rightarrow> string" where
  "debug_entity_id i = ''EntityId('' @ show_nat (unat i) @ '')''"

definition debug_edge_id :: "edge_id \<Rightarrow> string" where
  "debug_edge_id i = ''EdgeId('' @ show_hex128 i @ '')''"

definition debug_event_id :: "event_id \<Rightarrow> string" where
  "debug_event_id i = ''EventId('' @ show_hex128 i @ '')''"

subsection \<open>Conflict certificates\<close>

datatype conflict_kind =
    AnchorDivergence
  | PreconditionViolated string
  | SpatialOverlap
  | EntityUnavailable
  | ResourceDepleted

record conflict_certificate =
  cf_plan_id :: plan_id
  cf_base_anchor :: state_anchor
  cf_target_anchor :: state_anchor
  cf_conflict_kind :: conflict_kind
  cf_diagnosis :: string
  cf_certificate_digest :: digest32

primrec encode_conflict_kind :: "conflict_kind \<Rightarrow> u8 list" where
  "encode_conflict_kind AnchorDivergence = [0]"
| "encode_conflict_kind (PreconditionViolated description) = 1 # put_str description"
| "encode_conflict_kind SpatialOverlap = [2]"
| "encode_conflict_kind EntityUnavailable = [3]"
| "encode_conflict_kind ResourceDepleted = [4]"

definition conflict_certificate_new ::
  "plan_id \<Rightarrow> state_anchor \<Rightarrow> state_anchor \<Rightarrow> conflict_kind \<Rightarrow> string \<Rightarrow> conflict_certificate" where
  "conflict_certificate_new plan base_anchor target_anchor kind diagnosis =
     \<lparr>cf_plan_id = plan, cf_base_anchor = base_anchor, cf_target_anchor = target_anchor,
      cf_conflict_kind = kind, cf_diagnosis = diagnosis,
      cf_certificate_digest =
        digest_of_bytes (put_str ''dfmcp-conflict-certificate-v1'' @ put_u128 plan @ put_anchor base_anchor @
          put_anchor target_anchor @ encode_conflict_kind kind @ put_str diagnosis)\<rparr>"

datatype rebase_outcome = Clean state_anchor "world_change list" | Conflicted conflict_certificate

definition conflicted ::
  "plan_id \<Rightarrow> state_anchor \<Rightarrow> state_anchor \<Rightarrow> conflict_kind \<Rightarrow> string \<Rightarrow> rebase_outcome" where
  "conflicted plan base_anchor target_anchor kind diagnosis =
     Conflicted (conflict_certificate_new plan base_anchor target_anchor kind diagnosis)"

definition merge_conflict ::
  "plan_id \<Rightarrow> state_anchor \<Rightarrow> state_anchor \<Rightarrow> string \<Rightarrow> string \<Rightarrow> conflict_certificate" where
  "merge_conflict plan base_anchor target_anchor record_kind key =
     conflict_certificate_new plan base_anchor target_anchor
       (PreconditionViolated (''concurrent '' @ record_kind @ '' edit''))
       (''concurrent '' @ record_kind @ '' edit at stable key '' @ key)"

subsection \<open>Branches\<close>

definition transition_is_valid :: "world_snapshot \<Rightarrow> world_snapshot \<Rightarrow> bool" where
  "transition_is_valid base target =
     (case cursor_checked_next (ws_cursor base) of
        None \<Rightarrow> False
      | Some successor \<Rightarrow> is_ok (diff_snapshots base (refresh_hash (target\<lparr>ws_cursor := successor\<rparr>))))"

definition branch_is_valid :: "world_snapshot \<Rightarrow> world_snapshot \<Rightarrow> bool" where
  "branch_is_valid base branch =
     (if snapshot_anchor base = snapshot_anchor branch then base = branch
      else transition_is_valid base branch)"

subsection \<open>Rebasing a change set\<close>

datatype stable_decision = StableApply | StableAlreadyApplied | StableConflict

definition stable_upsert :: "'v option \<Rightarrow> 'v option \<Rightarrow> 'v \<Rightarrow> stable_decision" where
  "stable_upsert base target incoming =
     (if target = Some incoming then StableAlreadyApplied
      else if target = base then StableApply
      else StableConflict)"

definition stable_remove :: "'v option \<Rightarrow> 'v option \<Rightarrow> ('v \<Rightarrow> bool) \<Rightarrow> stable_decision" where
  "stable_remove base target expected =
     (case base of
        None \<Rightarrow> StableConflict
      | Some base_record \<Rightarrow>
          if \<not> expected base_record then StableConflict
          else
            (case target of
               None \<Rightarrow> StableAlreadyApplied
             | Some target_record \<Rightarrow> if target_record = base_record then StableApply else StableConflict))"

definition change_decision :: "world_graph \<Rightarrow> world_graph \<Rightarrow> world_change \<Rightarrow> stable_decision" where
  "change_decision base target change =
     (case change of
        UpsertEntity incoming \<Rightarrow>
          stable_upsert (map_of (wg_entities base) (er_id incoming)) (map_of (wg_entities target) (er_id incoming)) incoming
      | RemoveEntity i expected_generation expected_revision \<Rightarrow>
          stable_remove (map_of (wg_entities base) i) (map_of (wg_entities target) i)
            (\<lambda>r. er_generation r = expected_generation \<and> er_revision r = expected_revision)
      | UpsertEdge incoming \<Rightarrow>
          stable_upsert (map_of (wg_edges base) (ed_id incoming)) (map_of (wg_edges target) (ed_id incoming)) incoming
      | RemoveEdge i expected_revision \<Rightarrow>
          stable_remove (map_of (wg_edges base) i) (map_of (wg_edges target) i) (\<lambda>r. ed_revision r = expected_revision)
      | UpsertMapChunk incoming \<Rightarrow>
          stable_upsert (map_of (wg_chunks base) (mc_coord incoming)) (map_of (wg_chunks target) (mc_coord incoming)) incoming
      | RemoveMapChunk coord expected_revision \<Rightarrow>
          stable_remove (map_of (wg_chunks base) coord) (map_of (wg_chunks target) coord)
            (\<lambda>r. mc_revision r = expected_revision)
      | AppendEvent incoming \<Rightarrow>
          stable_upsert (map_of (wg_events base) (ev_id incoming)) (map_of (wg_events target) (ev_id incoming)) incoming)"

definition conflict_reason :: "world_graph \<Rightarrow> world_change \<Rightarrow> conflict_kind \<times> string" where
  "conflict_reason target change =
     (let changed = (PreconditionViolated ''stable-key record changed concurrently'',
        ''stable-key record changed concurrently; semantic replay is required'')
      in case change of
           UpsertEntity incoming \<Rightarrow>
             (case map_of (wg_entities target) (er_id incoming) of
                Some r \<Rightarrow>
                  if er_generation r > er_generation incoming
                  then (EntityUnavailable, ''ABA generation mismatch for entity '' @ show_nat (unat (er_id incoming)))
                  else changed
              | None \<Rightarrow> changed)
         | _ \<Rightarrow> changed)"

fun rebase_loop ::
  "world_graph \<Rightarrow> world_graph \<Rightarrow> world_change list \<Rightarrow> world_change list
     \<Rightarrow> (world_change list, conflict_kind \<times> string) result" where
  "rebase_loop base target [] rebased = Ok rebased"
| "rebase_loop base target (change # changes) rebased =
     (case change_decision base target change of
        StableApply \<Rightarrow> rebase_loop base target changes (rebased @ [change])
      | StableAlreadyApplied \<Rightarrow> rebase_loop base target changes rebased
      | StableConflict \<Rightarrow> Err (conflict_reason target change))"

definition rebase_changes ::
  "world_snapshot \<Rightarrow> world_snapshot \<Rightarrow> world_change list \<Rightarrow> plan_id \<Rightarrow> rebase_outcome" where
  "rebase_changes base target changes plan =
     (let refuse = conflicted plan (snapshot_anchor base) (snapshot_anchor target) in
      if \<not> hash_is_valid base \<or> \<not> hash_is_valid target \<or> ws_fortress_id base \<noteq> ws_fortress_id target
        \<or> cur_epoch (ws_cursor base) \<noteq> cur_epoch (ws_cursor target)
        \<or> cur_sequence (ws_cursor target) < cur_sequence (ws_cursor base)
        \<or> ws_tick target < ws_tick base \<or> \<not> branch_is_valid base target
      then refuse AnchorDivergence ''rebase snapshots have invalid hashes, fortresses, or epochs''
      else
        (case cursor_checked_next (ws_cursor base) of
           None \<Rightarrow> refuse AnchorDivergence ''base observation cursor is exhausted''
         | Some validation_cursor \<Rightarrow>
             if \<not> is_ok (build_delta base validation_cursor (ws_tick base) changes)
             then refuse (PreconditionViolated ''change set is invalid against its declared base'')
               ''change set could not be applied to the base snapshot''
             else
               (case rebase_loop (ws_graph base) (ws_graph target) changes [] of
                  Err (kind, diagnosis) \<Rightarrow> refuse kind diagnosis
                | Ok rebased \<Rightarrow>
                    if rebased = [] then Clean (snapshot_anchor target) rebased
                    else
                      (case cursor_checked_next (ws_cursor target) of
                         None \<Rightarrow> refuse AnchorDivergence ''target observation cursor is exhausted''
                       | Some rebased_cursor \<Rightarrow>
                           if \<not> is_ok (build_delta target rebased_cursor (ws_tick target) rebased)
                           then refuse (PreconditionViolated ''rebased writes violate target invariants'')
                             ''rebased changes cannot be applied safely to the target snapshot''
                           else Clean (snapshot_anchor target) rebased))))"

subsection \<open>Rebasing under witnesses\<close>

definition entity_witnessed :: "entity_id \<Rightarrow> u32 \<Rightarrow> u64 \<Rightarrow> world_snapshot \<Rightarrow> bool" where
  "entity_witnessed i generation revision s =
     (case map_of (wg_entities (ws_graph s)) i of
        None \<Rightarrow> False
      | Some r \<Rightarrow> er_generation r = generation \<and> er_revision r = revision)"

definition chunk_witnessed :: "chunk_coord \<Rightarrow> u64 \<Rightarrow> world_snapshot \<Rightarrow> bool" where
  "chunk_witnessed coord revision s =
     (case map_of (wg_chunks (ws_graph s)) coord of None \<Rightarrow> False | Some c \<Rightarrow> mc_revision c = revision)"

fun check_positive_entities ::
  "world_snapshot \<Rightarrow> world_snapshot \<Rightarrow> ((entity_id \<times> u32 \<times> u64) \<times> unit) list \<Rightarrow> (unit, conflict_kind \<times> string) result" where
  "check_positive_entities base target [] = Ok ()"
| "check_positive_entities base target (((i, generation, revision), _) # ws) =
     (if \<not> entity_witnessed i generation revision base \<or> \<not> entity_witnessed i generation revision target
      then Err (EntityUnavailable, ''witnessed positive entity '' @ show_nat (unat i) @ '' changed or disappeared'')
      else check_positive_entities base target ws)"

fun check_negative_entities ::
  "world_snapshot \<Rightarrow> world_snapshot \<Rightarrow> (entity_id \<times> unit) list \<Rightarrow> (unit, conflict_kind \<times> string) result" where
  "check_negative_entities base target [] = Ok ()"
| "check_negative_entities base target ((i, _) # ws) =
     (if bt_contains i (wg_entities (ws_graph base)) \<or> bt_contains i (wg_entities (ws_graph target))
      then Err (PreconditionViolated (''phantom entity '' @ show_nat (unat i) @ '' appeared''),
        ''witnessed absent entity '' @ show_nat (unat i) @ '' was created in target snapshot'')
      else check_negative_entities base target ws)"

fun check_witnessed_chunks ::
  "world_snapshot \<Rightarrow> world_snapshot \<Rightarrow> (chunk_coord \<times> u64) list \<Rightarrow> (unit, conflict_kind \<times> string) result" where
  "check_witnessed_chunks base target [] = Ok ()"
| "check_witnessed_chunks base target ((coord, revision) # ws) =
     (if \<not> chunk_witnessed coord revision base \<or> \<not> chunk_witnessed coord revision target
      then Err (SpatialOverlap, ''witnessed map chunk '' @ show_chunk_coord coord @ '' changed or disappeared'')
      else check_witnessed_chunks base target ws)"

definition rebase_with_witness ::
  "world_snapshot \<Rightarrow> world_snapshot \<Rightarrow> witness_set \<Rightarrow> world_change list \<Rightarrow> plan_id \<Rightarrow> rebase_outcome" where
  "rebase_with_witness base target w changes plan =
     (case and_then (check_positive_entities base target (wit_positive_entities w)) (\<lambda>_.
           and_then (check_negative_entities base target (wit_negative_entities w)) (\<lambda>_.
             check_witnessed_chunks base target (wit_chunks w))) of
        Err (kind, diagnosis) \<Rightarrow> conflicted plan (snapshot_anchor base) (snapshot_anchor target) kind diagnosis
      | Ok _ \<Rightarrow> rebase_changes base target changes plan)"

subsection \<open>Merging\<close>

definition merge_keys ::
  "('k::linorder, 'v) btree_map \<Rightarrow> ('k, 'v) btree_map \<Rightarrow> ('k, 'v) btree_map \<Rightarrow> 'k list" where
  "merge_keys base ours theirs =
     map fst (fold (\<lambda>k keys. bt_insert k () keys) (map fst base @ map fst ours @ map fst theirs) [])"

fun merge_loop ::
  "('k::linorder, 'v) btree_map \<Rightarrow> ('k, 'v) btree_map \<Rightarrow> ('k, 'v) btree_map \<Rightarrow> 'k list \<Rightarrow> ('k, 'v) btree_map
     \<Rightarrow> (('k, 'v) btree_map, 'k) result" where
  "merge_loop base ours theirs [] merged = Ok merged"
| "merge_loop base ours theirs (key # keys) merged =
     and_then
       (if map_of ours key = map_of base key then Ok (map_of theirs key)
        else if map_of theirs key = map_of base key \<or> map_of ours key = map_of theirs key then Ok (map_of ours key)
        else Err key)
       (\<lambda>choice. merge_loop base ours theirs keys
          (case choice of None \<Rightarrow> merged | Some v \<Rightarrow> bt_insert key v merged))"

definition merge_map ::
  "('k::linorder, 'v) btree_map \<Rightarrow> ('k, 'v) btree_map \<Rightarrow> ('k, 'v) btree_map \<Rightarrow> (('k, 'v) btree_map, 'k) result" where
  "merge_map base ours theirs = merge_loop base ours theirs (merge_keys base ours theirs) []"

definition merge_scalar :: "'a \<Rightarrow> 'a \<Rightarrow> 'a \<Rightarrow> 'a option" where
  "merge_scalar base ours theirs =
     (if ours = base then Some theirs
      else if theirs = base \<or> ours = theirs then Some ours
      else None)"

definition three_way_merge ::
  "world_snapshot \<Rightarrow> world_snapshot \<Rightarrow> world_snapshot \<Rightarrow> plan_id \<Rightarrow> (world_snapshot, conflict_certificate) result" where
  "three_way_merge base ours theirs plan =
     (let refuse = conflict_certificate_new plan (snapshot_anchor base) (snapshot_anchor theirs);
          clash = merge_conflict plan (snapshot_anchor base) (snapshot_anchor theirs);
          b = ws_graph base; o1 = ws_graph ours; t = ws_graph theirs in
      if \<not> hash_is_valid base \<or> \<not> hash_is_valid ours \<or> \<not> hash_is_valid theirs
        \<or> ws_fortress_id base \<noteq> ws_fortress_id ours \<or> ws_fortress_id base \<noteq> ws_fortress_id theirs
        \<or> cur_epoch (ws_cursor base) \<noteq> cur_epoch (ws_cursor ours)
        \<or> cur_epoch (ws_cursor base) \<noteq> cur_epoch (ws_cursor theirs)
        \<or> cur_sequence (ws_cursor ours) < cur_sequence (ws_cursor base)
        \<or> cur_sequence (ws_cursor theirs) < cur_sequence (ws_cursor base)
        \<or> ws_tick ours < ws_tick base \<or> ws_tick theirs < ws_tick base
        \<or> \<not> branch_is_valid base ours \<or> \<not> branch_is_valid base theirs
      then Err (refuse AnchorDivergence ''three-way merge snapshots have invalid hashes, fortresses, or epochs'')
      else
        and_then (map_err (\<lambda>k. clash ''entity'' (debug_entity_id k))
          (merge_map (wg_entities b) (wg_entities o1) (wg_entities t))) (\<lambda>entities.
        and_then (map_err (\<lambda>k. clash ''edge'' (debug_edge_id k))
          (merge_map (wg_edges b) (wg_edges o1) (wg_edges t))) (\<lambda>edges.
        and_then (map_err (\<lambda>k. clash ''chunk'' (show_chunk_coord k))
          (merge_map (wg_chunks b) (wg_chunks o1) (wg_chunks t))) (\<lambda>chunks.
        and_then (map_err (\<lambda>k. clash ''event'' (debug_event_id k))
          (merge_map (wg_events b) (wg_events o1) (wg_events t))) (\<lambda>events.
        and_then (ok_or (merge_scalar (ws_paused base) (ws_paused ours) (ws_paused theirs))
          (clash ''pause state'' ''\"paused\"'')) (\<lambda>paused.
        and_then (ok_or (checked_add (max (cur_sequence (ws_cursor ours)) (cur_sequence (ws_cursor theirs))) 1)
          (refuse AnchorDivergence ''merged observation cursor would overflow'')) (\<lambda>sequence.
          let merged = world_snapshot_new (ws_fortress_id base) (max (ws_tick ours) (ws_tick theirs))
                (ObservationCursor (cur_epoch (ws_cursor base)) sequence) paused
                \<lparr>wg_entities = entities, wg_edges = edges, wg_chunks = chunks, wg_events = events\<rparr>
          in if \<not> transition_is_valid base merged
             then Err (refuse (PreconditionViolated ''merged graph violates canonical state invariants'')
               ''independent record merges do not form a valid world snapshot'')
             else Ok merged)))))))"

subsection \<open>What a merge promises\<close>

text \<open>
  The contract of a merge, key by key: every edit of either branch is in the result, and what
  neither branch edited is as in the base.
\<close>

definition merges :: "('k \<Rightarrow> 'v option) \<Rightarrow> ('k \<Rightarrow> 'v option) \<Rightarrow> ('k \<Rightarrow> 'v option) \<Rightarrow> ('k \<Rightarrow> 'v option) \<Rightarrow> bool" where
  "merges base ours theirs m \<longleftrightarrow>
     (\<forall>k. (ours k \<noteq> base k \<longrightarrow> m k = ours k) \<and> (theirs k \<noteq> base k \<longrightarrow> m k = theirs k) \<and>
          (ours k = base k \<and> theirs k = base k \<longrightarrow> m k = base k))"

lemma merges_commute: "merges base ours theirs m \<longleftrightarrow> merges base theirs ours m"
  by (auto simp: merges_def)

lemma merges_choice:
  "merges base ours theirs m \<longleftrightarrow>
   (\<forall>k. ours k = base k \<or> theirs k = base k \<or> ours k = theirs k) \<and>
   m = (\<lambda>k. if ours k = base k then theirs k else ours k)"
  unfolding merges_def by (auto simp: fun_eq_iff) metis+

lemma fold_keys:
  "bt_sorted keys \<Longrightarrow> bt_sorted (fold (\<lambda>k keys. bt_insert k () keys) ks keys)"
  "fst ` set (fold (\<lambda>k keys. bt_insert k () keys) ks keys) = set ks \<union> fst ` set keys"
  by (induction ks arbitrary: keys) (auto simp: bt_simps)

lemma merge_keys_facts:
  "distinct (merge_keys b o1 t)" "set (merge_keys b o1 t) = fst ` set b \<union> fst ` set o1 \<union> fst ` set t"
  unfolding merge_keys_def using fold_keys(1) [OF bt_sorted_Nil] bt_sorted_distinct
  by (blast, auto simp: fold_keys(2))

lemma merge_loop_iff:
  assumes "distinct keys" "\<forall>k \<in> set keys. map_of merged k = None" "bt_sorted merged"
  shows "merge_loop b o1 t keys merged = Ok m \<longleftrightarrow>
    (\<forall>k \<in> set keys. map_of o1 k = map_of b k \<or> map_of t k = map_of b k \<or> map_of o1 k = map_of t k) \<and> bt_sorted m \<and>
    map_of m = (\<lambda>k. if k \<in> set keys then if map_of o1 k = map_of b k then map_of t k else map_of o1 k else map_of merged k)"
  using assms
proof (induction keys arbitrary: merged)
  case Nil
  then show ?case by (auto intro: bt_ext)
next
  case (Cons key keys)
  let ?choice = "if map_of o1 key = map_of b key then map_of t key else map_of o1 key"
  let ?next = "case ?choice of None \<Rightarrow> merged | Some v \<Rightarrow> bt_insert key v merged"
  have step: "merge_loop b o1 t (key # keys) merged = Ok m \<longleftrightarrow>
      (map_of o1 key = map_of b key \<or> map_of t key = map_of b key \<or> map_of o1 key = map_of t key) \<and>
      merge_loop b o1 t keys ?next = Ok m" by auto
  have "\<forall>k \<in> set keys. map_of ?next k = None" "bt_sorted ?next"
    using Cons.prems by (auto simp: bt_simps split: option.splits)
  moreover have "map_of ?next = (map_of merged)(key := ?choice)"
    using Cons.prems by (auto simp: fun_eq_iff bt_simps split: option.splits)
  ultimately show ?case
    unfolding step using Cons.IH [of ?next] Cons.prems(1) by (auto simp: fun_eq_iff)
qed

lemma merge_map_iff: "merge_map b o1 t = Ok m \<longleftrightarrow> bt_sorted m \<and> merges (map_of b) (map_of o1) (map_of t) (map_of m)"
proof -
  have none: "map_of b k = None" "map_of o1 k = None" "map_of t k = None" if "k \<notin> set (merge_keys b o1 t)" for k
    using that by (auto simp: merge_keys_facts(2) map_of_eq_None_iff)
  let ?K = "set (merge_keys b o1 t)"
  have loop: "merge_map b o1 t = Ok m \<longleftrightarrow>
      (\<forall>k \<in> ?K. map_of o1 k = map_of b k \<or> map_of t k = map_of b k \<or> map_of o1 k = map_of t k) \<and> bt_sorted m \<and>
      map_of m = (\<lambda>k. if k \<in> ?K then if map_of o1 k = map_of b k then map_of t k else map_of o1 k else None)"
    unfolding merge_map_def by (subst merge_loop_iff) (simp_all add: merge_keys_facts(1) cong: if_cong)
  have "(\<lambda>k. if k \<in> ?K then if map_of o1 k = map_of b k then map_of t k else map_of o1 k else None) =
      (\<lambda>k. if map_of o1 k = map_of b k then map_of t k else map_of o1 k)"
    using none by (auto simp: fun_eq_iff)
  then show ?thesis unfolding loop merges_choice using none by fastforce
qed

lemma merge_map_commute: "merge_map b o1 t = Ok m \<longleftrightarrow> merge_map b t o1 = Ok m"
  by (simp add: merge_map_iff merges_commute)

lemma merge_map_keyed:
  assumes "merge_map b o1 t = Ok m" "keyed key b" "keyed key o1" "keyed key t"
  shows "keyed key m"
proof -
  have m: "bt_sorted m" "merges (map_of b) (map_of o1) (map_of t) (map_of m)" using assms(1) by (simp_all add: merge_map_iff)
  have from_key: "key v = k" if "map_of n k = Some v" "keyed key n" for n k v
    using keyedD(2) [OF that(2) map_of_SomeD [OF that(1)]] .
  have "key v = k" if "(k, v) \<in> set m" for k v
  proof -
    have "map_of m k = Some v" using that m(1) by (simp add: bt_entry_iff)
    then have "map_of b k = Some v \<or> map_of o1 k = Some v \<or> map_of t k = Some v"
      using m(2) unfolding merges_def by metis
    then show ?thesis using from_key assms(2-4) by blast
  qed
  then show ?thesis using m(1) by (auto simp: keyed_def)
qed

lemma merge_scalar_commute: "merge_scalar b o1 t = merge_scalar b t o1"
  by (auto simp: merge_scalar_def)

text \<open>What the merge demands of a branch before it looks at records.\<close>

definition mergeable :: "world_snapshot \<Rightarrow> world_snapshot \<Rightarrow> bool" where
  "mergeable base branch \<longleftrightarrow>
     hash_is_valid branch \<and> ws_fortress_id base = ws_fortress_id branch \<and>
     cur_epoch (ws_cursor base) = cur_epoch (ws_cursor branch) \<and>
     cur_sequence (ws_cursor base) \<le> cur_sequence (ws_cursor branch) \<and> ws_tick base \<le> ws_tick branch \<and>
     branch_is_valid base branch"

lemma three_way_merge_iff:
  "three_way_merge base ours theirs plan = Ok m \<longleftrightarrow>
   hash_is_valid base \<and> mergeable base ours \<and> mergeable base theirs \<and> transition_is_valid base m \<and>
   (\<exists>entities edges chunks events paused sequence.
      merge_map (wg_entities (ws_graph base)) (wg_entities (ws_graph ours)) (wg_entities (ws_graph theirs)) = Ok entities \<and>
      merge_map (wg_edges (ws_graph base)) (wg_edges (ws_graph ours)) (wg_edges (ws_graph theirs)) = Ok edges \<and>
      merge_map (wg_chunks (ws_graph base)) (wg_chunks (ws_graph ours)) (wg_chunks (ws_graph theirs)) = Ok chunks \<and>
      merge_map (wg_events (ws_graph base)) (wg_events (ws_graph ours)) (wg_events (ws_graph theirs)) = Ok events \<and>
      merge_scalar (ws_paused base) (ws_paused ours) (ws_paused theirs) = Some paused \<and>
      checked_add (max (cur_sequence (ws_cursor ours)) (cur_sequence (ws_cursor theirs))) 1 = Some sequence \<and>
      m = world_snapshot_new (ws_fortress_id base) (max (ws_tick ours) (ws_tick theirs))
        (ObservationCursor (cur_epoch (ws_cursor base)) sequence) paused
        \<lparr>wg_entities = entities, wg_edges = edges, wg_chunks = chunks, wg_events = events\<rparr>)"
  unfolding three_way_merge_def Let_def mergeable_def
  by (auto simp: not_less split: if_splits)

lemma merge_scalar_Some: "merge_scalar b o1 t = Some x \<Longrightarrow> (o1 \<noteq> b \<longrightarrow> x = o1) \<and> (t \<noteq> b \<longrightarrow> x = t)"
  by (auto simp: merge_scalar_def split: if_splits)

lemma three_way_merge_commutes:
  "three_way_merge base ours theirs plan = Ok m \<longleftrightarrow> three_way_merge base theirs ours plan = Ok m"
  unfolding three_way_merge_iff
  by (simp only: merge_map_commute [of _ "_ (ws_graph ours)"] merge_scalar_commute [of _ "ws_paused ours"]
      max.commute [of "_ (ws_cursor ours)"] max.commute [of "ws_tick ours"]) blast

definition graph_merges :: "world_graph \<Rightarrow> world_graph \<Rightarrow> world_graph \<Rightarrow> world_graph \<Rightarrow> bool" where
  "graph_merges base ours theirs m \<longleftrightarrow>
     merges (map_of (wg_entities base)) (map_of (wg_entities ours)) (map_of (wg_entities theirs)) (map_of (wg_entities m)) \<and>
     merges (map_of (wg_edges base)) (map_of (wg_edges ours)) (map_of (wg_edges theirs)) (map_of (wg_edges m)) \<and>
     merges (map_of (wg_chunks base)) (map_of (wg_chunks ours)) (map_of (wg_chunks theirs)) (map_of (wg_chunks m)) \<and>
     merges (map_of (wg_events base)) (map_of (wg_events ours)) (map_of (wg_events theirs)) (map_of (wg_events m))"

lemma diff_Ok_legal:
  assumes "diff_snapshots base target = Ok d" "graph_keyed (ws_graph base)" "graph_keyed (ws_graph target)"
  shows "legal_successor (ws_graph base) (ws_graph target)" "validate_graph (ws_graph target) = Ok ()"
proof -
  from assms(1) have kept: "events_kept (ws_graph base) (ws_graph target)"
    and "is_ok (build_delta base (ws_cursor target) (ws_tick target) (graph_diff (ws_graph base) (ws_graph target)))"
    by (auto simp: diff_snapshots_def compute_snapshot_diff_def events_kept_def is_ok_iff split: if_splits)
  then obtain g where "apply_change_list (graph_diff (ws_graph base) (ws_graph target)) (ws_graph base) = Ok g"
      "validate_graph g = Ok ()"
    by (auto simp: is_ok_iff build_delta_Ok)
  then show "legal_successor (ws_graph base) (ws_graph target)" "validate_graph (ws_graph target) = Ok ()"
    using graph_diff_apply [OF assms(2,3) kept] by auto
qed

lemma transition_legal:
  assumes "transition_is_valid base target" "graph_keyed (ws_graph base)" "graph_keyed (ws_graph target)"
  shows "legal_successor (ws_graph base) (ws_graph target)" "validate_graph (ws_graph target) = Ok ()"
proof -
  obtain c d where d: "diff_snapshots base (refresh_hash (target\<lparr>ws_cursor := c\<rparr>)) = Ok d"
    using assms(1) by (auto simp: transition_is_valid_def is_ok_iff split: option.splits)
  have same: "ws_graph (refresh_hash (target\<lparr>ws_cursor := c\<rparr>)) = ws_graph target" by (simp add: refresh_hash_def)
  show "legal_successor (ws_graph base) (ws_graph target)" "validate_graph (ws_graph target) = Ok ()"
    using diff_Ok_legal [OF d assms(2)] assms(3) unfolding same by blast+
qed

text \<open>
  C9: A merge keeps both branches and does not depend on their order. When it succeeds, merging the
  branches the other way round gives the same snapshot; in each of the four maps every edit of
  either branch is in the result and every record that neither branch touched is as in the base;
  the pause flag likewise; the cursor is one past the later branch and the tick the later one; the
  hash is valid, records are stored under their own keys, the graph is a legal successor of the
  base (no version goes back, no published event is lost) and no edge dangles.
\<close>

theorem three_way_merge_exact:
  assumes "three_way_merge base ours theirs plan = Ok m"
    and "graph_keyed (ws_graph base)" "graph_keyed (ws_graph ours)" "graph_keyed (ws_graph theirs)"
  shows "three_way_merge base theirs ours plan = Ok m \<and>
    graph_merges (ws_graph base) (ws_graph ours) (ws_graph theirs) (ws_graph m) \<and>
    (ws_paused ours \<noteq> ws_paused base \<longrightarrow> ws_paused m = ws_paused ours) \<and>
    (ws_paused theirs \<noteq> ws_paused base \<longrightarrow> ws_paused m = ws_paused theirs) \<and>
    unat (cur_sequence (ws_cursor m)) = Suc (max (unat (cur_sequence (ws_cursor ours))) (unat (cur_sequence (ws_cursor theirs)))) \<and>
    ws_tick m = max (ws_tick ours) (ws_tick theirs) \<and> hash_is_valid m \<and> graph_keyed (ws_graph m) \<and>
    legal_successor (ws_graph base) (ws_graph m) \<and> validate_graph (ws_graph m) = Ok ()"
proof -
  from assms(1) obtain entities edges chunks events paused sequence where
    valid: "transition_is_valid base m"
    and maps: "merge_map (wg_entities (ws_graph base)) (wg_entities (ws_graph ours)) (wg_entities (ws_graph theirs)) = Ok entities"
      "merge_map (wg_edges (ws_graph base)) (wg_edges (ws_graph ours)) (wg_edges (ws_graph theirs)) = Ok edges"
      "merge_map (wg_chunks (ws_graph base)) (wg_chunks (ws_graph ours)) (wg_chunks (ws_graph theirs)) = Ok chunks"
      "merge_map (wg_events (ws_graph base)) (wg_events (ws_graph ours)) (wg_events (ws_graph theirs)) = Ok events"
    and scalars: "merge_scalar (ws_paused base) (ws_paused ours) (ws_paused theirs) = Some paused"
      "checked_add (max (cur_sequence (ws_cursor ours)) (cur_sequence (ws_cursor theirs))) 1 = Some sequence"
    and m: "m = world_snapshot_new (ws_fortress_id base) (max (ws_tick ours) (ws_tick theirs))
        (ObservationCursor (cur_epoch (ws_cursor base)) sequence) paused
        \<lparr>wg_entities = entities, wg_edges = edges, wg_chunks = chunks, wg_events = events\<rparr>"
    unfolding three_way_merge_iff by blast
  have keyed: "graph_keyed (ws_graph m)"
    using merge_map_keyed [OF maps(1)] merge_map_keyed [OF maps(2)] merge_map_keyed [OF maps(3)] merge_map_keyed [OF maps(4)]
      assms(2-4) by (simp add: graph_keyed_def m)
  have "graph_merges (ws_graph base) (ws_graph ours) (ws_graph theirs) (ws_graph m)"
    using maps by (simp add: graph_merges_def merge_map_iff m)
  moreover have "unat sequence = Suc (max (unat (cur_sequence (ws_cursor ours))) (unat (cur_sequence (ws_cursor theirs))))"
    using scalars(2) by (simp add: checked_add_Some_iff max_def word_le_nat_alt)
  moreover have "ws_paused ours \<noteq> ws_paused base \<longrightarrow> paused = ws_paused ours"
    "ws_paused theirs \<noteq> ws_paused base \<longrightarrow> paused = ws_paused theirs"
    using merge_scalar_Some [OF scalars(1)] by blast+
  moreover have "ws_paused m = paused" "cur_sequence (ws_cursor m) = sequence"
    "ws_tick m = max (ws_tick ours) (ws_tick theirs)" "hash_is_valid m"
    by (simp_all add: m)
  moreover have "three_way_merge base theirs ours plan = Ok m"
    using assms(1) three_way_merge_commutes by blast
  ultimately show ?thesis using keyed transition_legal [OF valid assms(2) keyed] by metis
qed

subsection \<open>A concrete merge\<close>

definition unit_world :: "u64 \<Rightarrow> (entity_id \<times> entity_record) list \<Rightarrow> world_snapshot" where
  "unit_world seq entities =
     world_snapshot_new 7 100 (ObservationCursor 1 seq) True (empty_graph\<lparr>wg_entities := entities\<rparr>)"

definition second_unit :: entity_record where
  "second_unit = (sample_unit 1 ''Doren'')\<lparr>er_id := 2\<rparr>"

lemma unit_world_fields [simp]:
  "ws_paused (unit_world n es) = True" "hash_is_valid (unit_world n es)" "ws_fortress_id (unit_world n es) = 7"
  "ws_cursor (unit_world n es) = ObservationCursor 1 n" "ws_tick (unit_world n es) = 100"
  "ws_graph (unit_world n es) = empty_graph\<lparr>wg_entities := es\<rparr>"
  by (simp_all add: unit_world_def)

lemma unit_world_keyed: "keyed er_id es \<Longrightarrow> graph_keyed (ws_graph (unit_world n es))"
  by (simp add: graph_keyed_def keyed_def empty_graph_def)

lemma unit_world_transition:
  assumes "keyed er_id es" "keyed er_id fs" "admissible entity_check es fs" "length es + length fs \<le> 1000"
  shows "transition_is_valid (unit_world 1 es) (unit_world n fs)"
proof -
  let ?probe = "refresh_hash ((unit_world n fs)\<lparr>ws_cursor := ObservationCursor 1 2\<rparr>)"
  have probe: "ws_graph ?probe = empty_graph\<lparr>wg_entities := fs\<rparr>" "ws_paused ?probe = True" "ws_fortress_id ?probe = 7"
      "ws_cursor ?probe = ObservationCursor 1 2" "ws_tick ?probe = 100" "hash_is_valid ?probe"
    by (simp_all add: refresh_hash_def hash_is_valid_def snapshot_compute_hash_def snapshot_canonical_bytes_def)
  have keyed: "graph_keyed (ws_graph (unit_world 1 es))" "graph_keyed (ws_graph ?probe)"
    using unit_world_keyed [OF assms(1)] unit_world_keyed [OF assms(2)] by (simp_all add: probe(1))
  have "length (graph_diff (empty_graph\<lparr>wg_entities := es\<rparr>) (empty_graph\<lparr>wg_entities := fs\<rparr>)) \<le> length es + length fs"
    by (simp add: graph_diff_def empty_graph_def removed_entries_def upserted_entries_def add_mono)
  moreover have "validate_graph (empty_graph\<lparr>wg_entities := fs\<rparr>) = Ok ()"
    by (simp add: validate_graph_def empty_graph_def)
  moreover have "legal_successor (empty_graph\<lparr>wg_entities := es\<rparr>) (empty_graph\<lparr>wg_entities := fs\<rparr>)"
    using assms(3) by (simp add: legal_successor_def admissible_def events_kept_def empty_graph_def)
  ultimately have "\<exists>d. diff_snapshots (unit_world 1 es) ?probe = Ok d"
    using assms(4) diff_succeeds_iff_legal_successor [OF keyed]
    by (simp add: probe cursor_checked_next_def checked_add_def max_state_delta_changes_def)
  then show ?thesis by (simp add: transition_is_valid_def is_ok_iff cursor_checked_next_def checked_add_def)
qed

lemma merge_map_Nil: "merge_map [] [] [] = Ok []"
  by (simp add: merge_map_iff merges_def)

lemma sample_merge:
  "three_way_merge (unit_world 1 [(1, sample_unit 5 ''Olin'')]) (unit_world 2 [(1, sample_unit 6 ''Urist'')])
     (unit_world 3 [(1, sample_unit 5 ''Olin''), (2, second_unit)]) 9
   = Ok (unit_world 4 [(1, sample_unit 6 ''Urist''), (2, second_unit)])"
proof -
  let ?b = "[(1 :: entity_id, sample_unit 5 ''Olin'')]" and ?o = "[(1 :: entity_id, sample_unit 6 ''Urist'')]"
  let ?t = "[(1 :: entity_id, sample_unit 5 ''Olin''), (2, second_unit)]" and ?m = "[(1 :: entity_id, sample_unit 6 ''Urist''), (2, second_unit)]"
  have keyed: "keyed er_id ?b" "keyed er_id ?o" "keyed er_id ?t" "keyed er_id ?m"
    by (simp_all add: keyed_def sample_unit_def second_unit_def)
  have adm: "admissible entity_check ?b ?o" "admissible entity_check ?b ?t" "admissible entity_check ?b ?m"
    by (simp_all add: admissible_def entity_check_def validate_entity_upsert_def sample_unit_def second_unit_def empty_graph_def)
  note valid = unit_world_transition [OF keyed(1,2) adm(1), of 2] unit_world_transition [OF keyed(1,3) adm(2), of 3]
    unit_world_transition [OF keyed(1,4) adm(3), of 4]
  have "merge_map ?b ?o ?t = Ok ?m"
    by (simp add: merge_map_iff merges_def sample_unit_def second_unit_def)
  moreover have "mergeable (unit_world 1 ?b) (unit_world 2 ?o)" "mergeable (unit_world 1 ?b) (unit_world 3 ?t)"
    using valid(1,2) by (simp_all add: mergeable_def branch_is_valid_def snapshot_anchor_def)
  moreover have "checked_add (max (2 :: u64) 3) 1 = Some 4" by (simp add: checked_add_def max_def)
  moreover have "unit_world 4 ?m = world_snapshot_new 7 (max 100 100) (ObservationCursor 1 4) True
      \<lparr>wg_entities = ?m, wg_edges = [], wg_chunks = [], wg_events = []\<rparr>"
    by (simp add: unit_world_def empty_graph_def)
  ultimately show ?thesis
    unfolding three_way_merge_iff using valid(3)
    by (intro conjI exI [of _ ?m] exI [of _ "[]"] exI [of _ True] exI [of _ 4])
      (simp_all add: empty_graph_def merge_map_Nil merge_scalar_def)
qed

theorem three_way_merge_exact_witness:
  "three_way_merge (unit_world 1 [(1, sample_unit 5 ''Olin'')]) (unit_world 3 [(1, sample_unit 5 ''Olin''), (2, second_unit)])
     (unit_world 2 [(1, sample_unit 6 ''Urist'')]) 9
   = Ok (unit_world 4 [(1, sample_unit 6 ''Urist''), (2, second_unit)])"
  by (rule three_way_merge_exact [OF sample_merge, THEN conjunct1])
    (auto intro!: unit_world_keyed simp: keyed_def sample_unit_def second_unit_def simp del: unit_world_fields)

subsection \<open>What a clean rebase promises\<close>

text \<open>One view of the four maps: the keys of a graph and the record at a key.\<close>

datatype stable_key = KeyEntity entity_id | KeyEdge edge_id | KeyChunk chunk_coord | KeyEvent event_id

datatype stable_record =
  RecordEntity entity_record | RecordEdge edge_record | RecordChunk map_chunk | RecordEvent world_event

primrec record_at :: "world_graph \<Rightarrow> stable_key \<Rightarrow> stable_record option" where
  "record_at g (KeyEntity i) = map_option RecordEntity (map_of (wg_entities g) i)"
| "record_at g (KeyEdge i) = map_option RecordEdge (map_of (wg_edges g) i)"
| "record_at g (KeyChunk c) = map_option RecordChunk (map_of (wg_chunks g) c)"
| "record_at g (KeyEvent i) = map_option RecordEvent (map_of (wg_events g) i)"

primrec change_key :: "world_change \<Rightarrow> stable_key" where
  "change_key (UpsertEntity e) = KeyEntity (er_id e)"
| "change_key (RemoveEntity i a b) = KeyEntity i"
| "change_key (UpsertEdge e) = KeyEdge (ed_id e)"
| "change_key (RemoveEdge i b) = KeyEdge i"
| "change_key (UpsertMapChunk c) = KeyChunk (mc_coord c)"
| "change_key (RemoveMapChunk c b) = KeyChunk c"
| "change_key (AppendEvent e) = KeyEvent (ev_id e)"

primrec change_value :: "world_change \<Rightarrow> stable_record option" where
  "change_value (UpsertEntity e) = Some (RecordEntity e)"
| "change_value (RemoveEntity i a b) = None"
| "change_value (UpsertEdge e) = Some (RecordEdge e)"
| "change_value (RemoveEdge i b) = None"
| "change_value (UpsertMapChunk c) = Some (RecordChunk c)"
| "change_value (RemoveMapChunk c b) = None"
| "change_value (AppendEvent e) = Some (RecordEvent e)"

lemma apply_change_at:
  assumes "apply_change c g = Ok g'"
  shows "record_at g' k = (if k = change_key c then change_value c else record_at g k)"
  using assms by (cases c; cases k) (auto simp: apply_change_def bt_simps split: option.splits if_splits)

lemma apply_change_list_at:
  assumes "apply_change_list cs g = Ok g'" "distinct (map change_key cs)"
  shows "record_at g' k = (if k \<in> change_key ` set cs then change_value (the (find (\<lambda>c. change_key c = k) cs)) else record_at g k)"
  using assms
proof (induction cs arbitrary: g)
  case (Cons c cs)
  then obtain h where h: "apply_change c g = Ok h" "apply_change_list cs h = Ok g'" by auto
  show ?case
    using Cons.IH [OF h(2)] Cons.prems(2) apply_change_at [OF h(1), of k] by auto
qed simp

lemma decision_at:
  "change_decision b t c \<noteq> StableConflict \<Longrightarrow>
   (change_decision b t c = StableAlreadyApplied \<longleftrightarrow> record_at t (change_key c) = change_value c) \<and>
   (change_decision b t c = StableApply \<longrightarrow> record_at t (change_key c) = record_at b (change_key c))"
  by (cases c) (auto simp: change_decision_def stable_upsert_def stable_remove_def split: if_splits option.splits)

lemma rebase_loop_Ok:
  "rebase_loop b t cs rebased = Ok out \<Longrightarrow>
   (\<forall>c \<in> set cs. change_decision b t c \<noteq> StableConflict) \<and>
   out = rebased @ filter (\<lambda>c. change_decision b t c = StableApply) cs"
proof (induction cs arbitrary: rebased)
  case (Cons c cs)
  then show ?case by (cases "change_decision b t c") fastforce+
qed simp

lemma find_filter:
  assumes "distinct (map f cs)" "c \<in> set cs"
  shows "find (\<lambda>d. f d = f c) cs = Some c" "find (\<lambda>d. f d = f c) (filter P cs) = (if P c then Some c else None)"
  using assms by (induction cs) (auto simp: rev_image_eqI find_None_iff)

lemma rebase_changes_Clean:
  assumes "rebase_changes base target changes plan = Clean anchor rebased"
  shows "anchor = snapshot_anchor target" "rebase_loop (ws_graph base) (ws_graph target) changes [] = Ok rebased"
    "\<exists>g. apply_change_list changes (ws_graph base) = Ok g"
    "\<exists>g. apply_change_list rebased (ws_graph target) = Ok g \<and> (rebased = [] \<or> validate_graph g = Ok ())"
  using assms
  by (auto simp: rebase_changes_def conflicted_def Let_def is_ok_iff build_delta_Ok
      split: if_splits option.splits result.splits)

text \<open>
  A clean rebase transplants the change set. When no two changes have the same key, both the
  given changes on the base and the rebased ones on the target apply; the rebased result has at
  every key of the change set the record that the changes give it, and everywhere else that of
  the target.
\<close>

theorem rebase_transplants_changes:
  assumes "rebase_changes base target changes plan = Clean anchor rebased" "distinct (map change_key changes)"
  shows "anchor = snapshot_anchor target \<and>
    (\<exists>g h. apply_change_list changes (ws_graph base) = Ok g \<and> apply_change_list rebased (ws_graph target) = Ok h \<and>
       (rebased = [] \<or> validate_graph h = Ok ()) \<and>
       (\<forall>k. record_at h k = (if k \<in> change_key ` set changes then record_at g k else record_at (ws_graph target) k)))"
proof -
  note clean = rebase_changes_Clean [OF assms(1)]
  let ?P = "\<lambda>c. change_decision (ws_graph base) (ws_graph target) c = StableApply"
  have rebased: "rebased = filter ?P changes"
    and decided: "\<forall>c \<in> set changes. change_decision (ws_graph base) (ws_graph target) c \<noteq> StableConflict"
    using rebase_loop_Ok [OF clean(2)] by simp_all
  obtain g h where g: "apply_change_list changes (ws_graph base) = Ok g"
    and h: "apply_change_list rebased (ws_graph target) = Ok h" "rebased = [] \<or> validate_graph h = Ok ()"
    using clean(3,4) by blast
  have dist: "distinct (map change_key rebased)" using assms(2) unfolding rebased by (simp add: distinct_map_filter)
  have at_change: "record_at h (change_key c) = record_at g (change_key c)" if c: "c \<in> set changes" for c
  proof -
    note found = find_filter [OF assms(2) c]
    have "record_at g (change_key c) = change_value c"
      using apply_change_list_at [OF g assms(2), of "change_key c"] c found(1) by simp
    moreover have "change_key c \<in> change_key ` set rebased \<longleftrightarrow> ?P c"
      using assms(2) c unfolding rebased by (auto simp: distinct_map inj_on_def)
    moreover have "record_at (ws_graph target) (change_key c) = change_value c" if "\<not> ?P c"
      using decision_at [of "ws_graph base" "ws_graph target" c] bspec [OF decided c] that
      by (cases "change_decision (ws_graph base) (ws_graph target) c") simp_all
    ultimately show ?thesis
      using apply_change_list_at [OF h(1) dist, of "change_key c"] found(2) [of ?P] unfolding rebased by (simp split: if_splits)
  qed
  have "record_at h k = record_at (ws_graph target) k" if "k \<notin> change_key ` set changes" for k
    using apply_change_list_at [OF h(1) dist, of k] that unfolding rebased by auto
  then show ?thesis using clean(1) g h at_change by (intro conjI exI [of _ g] exI [of _ h]) auto
qed

text \<open>
  Under witnesses a clean rebase also says that nothing the change set relied on differs between
  base and target: witnessed entities and chunks have the witnessed version in both, entities
  witnessed as absent are in neither.
\<close>

lemma check_positive_entities_Ok:
  "check_positive_entities base target ws = Ok () \<longleftrightarrow>
   (\<forall>((i, g, r), _) \<in> set ws. entity_witnessed i g r base \<and> entity_witnessed i g r target)"
  by (induction base target ws rule: check_positive_entities.induct) auto

lemma check_negative_entities_Ok:
  "check_negative_entities base target ws = Ok () \<longleftrightarrow>
   (\<forall>(i, _) \<in> set ws. map_of (wg_entities (ws_graph base)) i = None \<and> map_of (wg_entities (ws_graph target)) i = None)"
  by (induction base target ws rule: check_negative_entities.induct) (auto simp: bt_contains_iff)

lemma check_witnessed_chunks_Ok:
  "check_witnessed_chunks base target ws = Ok () \<longleftrightarrow>
   (\<forall>(coord, r) \<in> set ws. chunk_witnessed coord r base \<and> chunk_witnessed coord r target)"
  by (induction base target ws rule: check_witnessed_chunks.induct) auto

theorem rebase_with_witness_unchanged:
  assumes "rebase_with_witness base target w changes plan = Clean anchor rebased"
  shows "rebase_changes base target changes plan = Clean anchor rebased \<and>
    (\<forall>((i, g, r), _) \<in> set (wit_positive_entities w). entity_witnessed i g r base \<and> entity_witnessed i g r target) \<and>
    (\<forall>(i, _) \<in> set (wit_negative_entities w).
       map_of (wg_entities (ws_graph base)) i = None \<and> map_of (wg_entities (ws_graph target)) i = None) \<and>
    (\<forall>(coord, r) \<in> set (wit_chunks w). chunk_witnessed coord r base \<and> chunk_witnessed coord r target)"
  using assms
  unfolding rebase_with_witness_def check_positive_entities_Ok [symmetric] check_negative_entities_Ok [symmetric]
    check_witnessed_chunks_Ok [symmetric]
  by (auto simp: conflicted_def split: result.splits)

text \<open>
  Without distinct keys the promise fails. A change set that removes an entity and inserts the same
  record again does nothing to its base; rebased onto that very base it becomes the removal alone,
  because the insertion is taken for already applied.
\<close>

theorem rebase_drops_reinsertion:
  "apply_change_list [RemoveEntity 1 0 5, UpsertEntity (sample_unit 5 ''Olin'')] (ws_graph (sample_world 1 5 ''Olin'')) =
     Ok (ws_graph (sample_world 1 5 ''Olin'')) \<and>
   rebase_changes (sample_world 1 5 ''Olin'') (sample_world 1 5 ''Olin'')
     [RemoveEntity 1 0 5, UpsertEntity (sample_unit 5 ''Olin'')] plan =
     Clean (snapshot_anchor (sample_world 1 5 ''Olin'')) [RemoveEntity 1 0 5] \<and>
   apply_change_list [RemoveEntity 1 0 5] (ws_graph (sample_world 1 5 ''Olin'')) = Ok empty_graph"
proof -
  let ?w = "sample_world 1 5 ''Olin''" and ?cs = "[RemoveEntity 1 0 5, UpsertEntity (sample_unit 5 ''Olin'')]"
  have run: "apply_change_list ?cs (ws_graph ?w) = Ok (ws_graph ?w)"
    "apply_change_list [RemoveEntity 1 0 5] (ws_graph ?w) = Ok empty_graph"
    by (simp_all add: apply_change_def sample_world_fields sample_unit_def validate_entity_upsert_def bt_remove_def empty_graph_def)
  have valid: "validate_graph (ws_graph ?w) = Ok ()" "validate_graph empty_graph = Ok ()"
    by (simp_all add: validate_graph_def sample_world_fields empty_graph_def)
  have next_cursor: "cursor_checked_next (ws_cursor ?w) = Some (ObservationCursor 1 2)"
    by (simp add: sample_world_fields cursor_checked_next_def checked_add_def)
  have "is_ok (build_delta ?w (ObservationCursor 1 2) (ws_tick ?w) ?cs)"
    "is_ok (build_delta ?w (ObservationCursor 1 2) (ws_tick ?w) [RemoveEntity 1 0 5])"
    using run valid next_cursor by (auto simp: is_ok_iff build_delta_Ok sample_world_fields(2) max_state_delta_changes_def)
  moreover have "rebase_loop (ws_graph ?w) (ws_graph ?w) ?cs [] = Ok [RemoveEntity 1 0 5]"
    by (simp add: change_decision_def stable_remove_def stable_upsert_def sample_world_fields sample_unit_def)
  ultimately show ?thesis
    using run next_cursor by (simp add: rebase_changes_def branch_is_valid_def sample_world_fields(2))
qed

text \<open>
  A branch that paused or resumed the game is never valid, although the merge has a rule for the
  pause flag: replaying it as a delta keeps the flag of the base, so accepting it takes two
  different byte strings with the same hash.
\<close>

theorem pause_branch_needs_collision:
  assumes "branch_is_valid base branch" "ws_paused branch \<noteq> ws_paused base"
    and "graph_keyed (ws_graph base)" "graph_keyed (ws_graph branch)"
  shows "\<exists>x y. x \<noteq> y \<and> digest_of_bytes x = digest_of_bytes y"
proof -
  have "snapshot_anchor base \<noteq> snapshot_anchor branch" using assms(1,2) by (auto simp: branch_is_valid_def split: if_splits)
  then obtain c d where d: "diff_snapshots base (refresh_hash (branch\<lparr>ws_cursor := c\<rparr>)) = Ok d"
    using assms(1) by (auto simp: branch_is_valid_def transition_is_valid_def is_ok_iff split: option.splits)
  let ?probe = "refresh_hash (branch\<lparr>ws_cursor := c\<rparr>)"
  have probe: "ws_graph ?probe = ws_graph branch" "ws_cursor ?probe = c" "ws_paused ?probe = ws_paused branch"
    "ws_fortress_id ?probe = ws_fortress_id branch" "ws_tick ?probe = ws_tick branch"
    "ws_state_hash ?probe = digest_of_bytes (snapshot_canonical_bytes ?probe)"
    by (simp_all add: refresh_hash_def snapshot_compute_hash_def snapshot_canonical_bytes_def)
  have kept: "events_kept (ws_graph base) (ws_graph branch)" and same: "ws_fortress_id branch = ws_fortress_id base"
    and built: "build_delta base c (ws_tick branch) (graph_diff (ws_graph base) (ws_graph branch)) = Ok d"
      "sd_target_hash d = ws_state_hash ?probe"
    using d by (auto simp: diff_snapshots_def compute_snapshot_diff_def events_kept_def probe split: if_splits)
  let ?kept = "world_snapshot_new (ws_fortress_id base) (ws_tick branch) c (ws_paused base) (ws_graph branch)"
  have "sd_target_hash d = ws_state_hash ?kept"
    using built(1) graph_diff_apply [OF assms(3,4) kept] by (auto simp: build_delta_Ok)
  then have "digest_of_bytes (snapshot_canonical_bytes ?kept) = digest_of_bytes (snapshot_canonical_bytes ?probe)"
    using built(2) probe(6) hash_is_valid_new [unfolded hash_is_valid_def snapshot_compute_hash_def] by metis
  moreover have "snapshot_canonical_bytes ?kept \<noteq> snapshot_canonical_bytes ?probe"
    using assms(2) by (simp add: snapshot_canonical_bytes_def probe same put_bool_def)
  ultimately show ?thesis by blast
qed

end
