(* ===== verification/Checkpoints.thy ===== *)
theory Checkpoints
  imports World_Model
begin

text \<open>
  \<^verbatim>\<open>crates/dfmcp-world/src/checkpoint.rs\<close>: manifests of saved games, their verification against the
  files, the store of manifests and the certificate of a restore. Shown: what is stored is intact
  and under its own identity in every reachable store, a restore is granted exactly under the
  conditions that keep anchors of the old epoch from being used again, and the verification of
  files accepts exactly the recorded contents.
\<close>

definition max_checkpoint_manifest_files :: nat where "max_checkpoint_manifest_files = 4096"
definition max_checkpoints :: nat where "max_checkpoints = 65536"
definition max_checkpoint_file_bytes :: u64 where "max_checkpoint_file_bytes = 1024 * 1024 * 1024"
definition max_checkpoint_total_bytes :: u64 where "max_checkpoint_total_bytes = 64 * 1024 * 1024 * 1024"

type_synonym checkpoint_id = u128
type_synonym manifest_files = "(string, u64 \<times> digest32) btree_map"

record checkpoint_manifest =
  cm_checkpoint_id :: checkpoint_id
  cm_fortress_id :: fortress_id
  cm_epoch :: u64
  cm_tick :: game_tick
  cm_state_hash :: digest32
  cm_files :: manifest_files
  cm_manifest_digest :: digest32

definition enc_manifest_file :: "string \<times> u64 \<times> digest32 \<Rightarrow> u8 list" where
  "enc_manifest_file f = (case f of (path, n, file_hash) \<Rightarrow> put_str path @ put_u64 n @ put_bytes file_hash)"

definition compute_manifest_digest ::
  "checkpoint_id \<Rightarrow> fortress_id \<Rightarrow> u64 \<Rightarrow> game_tick \<Rightarrow> digest32 \<Rightarrow> manifest_files \<Rightarrow> digest32" where
  "compute_manifest_digest checkpoint fortress epoch tick state_hash files =
     digest_of_bytes (put_str ''dfmcp-checkpoint-manifest-v1'' @ put_u128 checkpoint @ put_u64 fortress @
       put_u64 epoch @ put_u64 tick @ put_bytes state_hash @ put_list enc_manifest_file files)"

definition checkpoint_manifest_new ::
  "checkpoint_id \<Rightarrow> fortress_id \<Rightarrow> u64 \<Rightarrow> game_tick \<Rightarrow> digest32 \<Rightarrow> manifest_files \<Rightarrow> checkpoint_manifest" where
  "checkpoint_manifest_new checkpoint fortress epoch tick state_hash files =
     \<lparr>cm_checkpoint_id = checkpoint, cm_fortress_id = fortress, cm_epoch = epoch, cm_tick = tick,
      cm_state_hash = state_hash, cm_files = files,
      cm_manifest_digest = compute_manifest_digest checkpoint fortress epoch tick state_hash files\<rparr>"

definition manifest_integrity_is_valid :: "checkpoint_manifest \<Rightarrow> bool" where
  "manifest_integrity_is_valid m \<longleftrightarrow>
     cm_manifest_digest m = compute_manifest_digest (cm_checkpoint_id m) (cm_fortress_id m) (cm_epoch m) (cm_tick m)
       (cm_state_hash m) (cm_files m)"

subsection \<open>Paths\<close>

text \<open>
  The components of a relative or absolute path as the standard library reads them: a leading
  separator is the root, empty segments and dots are skipped except for a dot in front.
\<close>

datatype path_component = RootDir | CurDir | ParentDir | NormalDir string

fun path_segments :: "string \<Rightarrow> string list" where
  "path_segments [] = [[]]"
| "path_segments (c # cs) =
     (if c = CHR ''/'' then [] # path_segments cs
      else (case path_segments cs of [] \<Rightarrow> [[c]] | s # ss \<Rightarrow> (c # s) # ss))"

definition segment_component :: "string \<Rightarrow> path_component option" where
  "segment_component s =
     (if s = [] \<or> s = ''.'' then None else if s = ''..'' then Some ParentDir else Some (NormalDir s))"

definition path_components :: "string \<Rightarrow> path_component list" where
  "path_components path =
     (if take 1 path = ''/'' then [RootDir] else if hd (path_segments path) = ''.'' then [CurDir] else []) @
     List.map_filter segment_component (path_segments path)"

fun has_double_separator :: "string \<Rightarrow> bool" where
  "has_double_separator (a # b # cs) \<longleftrightarrow> a = CHR ''/'' \<and> b = CHR ''/'' \<or> has_double_separator (b # cs)"
| "has_double_separator _ \<longleftrightarrow> False"

definition valid_manifest_path :: "string \<Rightarrow> bool" where
  "valid_manifest_path path =
     (if path = [] \<or> length path > 4096 \<or> (\<exists>c \<in> set path. c = CHR 0x00 \<or> c = CHR 0x5C) \<or> has_double_separator path
      then False
      else list_all (\<lambda>c. case c of NormalDir _ \<Rightarrow> True | _ \<Rightarrow> False) (path_components path))"

subsection \<open>Manifests\<close>

fun validate_manifest_files :: "(string \<times> u64 \<times> digest32) list \<Rightarrow> u64 \<Rightarrow> unit res" where
  "validate_manifest_files [] total_bytes = Ok ()"
| "validate_manifest_files ((path, n, _) # fs) total_bytes =
     (if \<not> valid_manifest_path path \<or> n > max_checkpoint_file_bytes then fail CorruptLedger
      else
        (case checked_add total_bytes n of
           None \<Rightarrow> fail BudgetExceeded
         | Some total_bytes' \<Rightarrow>
             if total_bytes' > max_checkpoint_total_bytes then fail BudgetExceeded
             else validate_manifest_files fs total_bytes'))"

definition validate_manifest_shape :: "checkpoint_manifest \<Rightarrow> unit res" where
  "validate_manifest_shape m =
     (if cm_checkpoint_id m = 0 \<or> cm_fortress_id m = 0 \<or> cm_state_hash m = digest_zero
        \<or> length (cm_files m) > max_checkpoint_manifest_files
      then fail CorruptLedger
      else validate_manifest_files (cm_files m) 0)"

fun verify_file_list :: "(string \<Rightarrow> u8 list option) \<Rightarrow> (string \<times> u64 \<times> digest32) list \<Rightarrow> unit res" where
  "verify_file_list read_file [] = Ok ()"
| "verify_file_list read_file ((path, expected_size, expected_hash) # fs) =
     (if \<not> valid_manifest_path path then fail CorruptLedger
      else
        (case read_file path of
           None \<Rightarrow> fail CorruptLedger
         | Some file_bytes \<Rightarrow>
             if length file_bytes \<ge> 2 ^ 64 then fail BudgetExceeded
             else if word_of_nat (length file_bytes) \<noteq> expected_size then fail CorruptLedger
             else if digest_of_bytes file_bytes \<noteq> expected_hash then fail CorruptLedger
             else verify_file_list read_file fs))"

definition verify_files :: "checkpoint_manifest \<Rightarrow> (string \<Rightarrow> u8 list option) \<Rightarrow> unit res" where
  "verify_files m read_file =
     and_then (validate_manifest_shape m) (\<lambda>_.
       if \<not> manifest_integrity_is_valid m then fail CorruptLedger
       else verify_file_list read_file (cm_files m))"

subsection \<open>Restore certificates\<close>

record restore_certificate =
  rcf_fortress_id :: fortress_id
  rcf_prior_anchor :: state_anchor
  rcf_restored_anchor :: state_anchor
  rcf_manifest_digest :: digest32
  rcf_restored_content_digest :: digest32
  rcf_certificate_digest :: digest32

definition restore_certificate_digest ::
  "fortress_id \<Rightarrow> state_anchor \<Rightarrow> state_anchor \<Rightarrow> digest32 \<Rightarrow> digest32 \<Rightarrow> digest32" where
  "restore_certificate_digest fortress prior restored manifest_digest content =
     digest_of_bytes (put_str ''dfmcp-restore-certificate-v1'' @ put_u64 fortress @ put_anchor prior @
       put_anchor restored @ put_bytes manifest_digest @ put_bytes content)"

definition restore_certificate_new ::
  "fortress_id \<Rightarrow> state_anchor \<Rightarrow> state_anchor \<Rightarrow> digest32 \<Rightarrow> digest32 \<Rightarrow> restore_certificate" where
  "restore_certificate_new fortress prior restored manifest_digest content =
     \<lparr>rcf_fortress_id = fortress, rcf_prior_anchor = prior, rcf_restored_anchor = restored,
      rcf_manifest_digest = manifest_digest, rcf_restored_content_digest = content,
      rcf_certificate_digest = restore_certificate_digest fortress prior restored manifest_digest content\<rparr>"

definition restore_integrity_is_valid :: "restore_certificate \<Rightarrow> bool" where
  "restore_integrity_is_valid c \<longleftrightarrow>
     rcf_certificate_digest c = restore_certificate_digest (rcf_fortress_id c) (rcf_prior_anchor c)
       (rcf_restored_anchor c) (rcf_manifest_digest c) (rcf_restored_content_digest c)"

subsection \<open>The store\<close>

record checkpoint_store =
  cs_manifests :: "(checkpoint_id, checkpoint_manifest) btree_map"
  cs_next_checkpoint_id :: u64

definition checkpoint_store_new :: checkpoint_store where
  "checkpoint_store_new = \<lparr>cs_manifests = [], cs_next_checkpoint_id = 1\<rparr>"

definition checkpoint_get :: "checkpoint_store \<Rightarrow> checkpoint_id \<Rightarrow> checkpoint_manifest option" where
  "checkpoint_get cs i = map_of (cs_manifests cs) i"

fun refused_file :: "(string \<times> u64 \<times> digest32) list \<Rightarrow> u64 \<Rightarrow> bool" where
  "refused_file [] total_bytes \<longleftrightarrow> False"
| "refused_file ((path, n, _) # fs) total_bytes \<longleftrightarrow>
     (let total_bytes' = saturating_add total_bytes n in
      \<not> valid_manifest_path path \<or> n > max_checkpoint_file_bytes \<or> total_bytes' > max_checkpoint_total_bytes
      \<or> refused_file fs total_bytes')"

definition create_checkpoint ::
  "checkpoint_store \<Rightarrow> world_snapshot \<Rightarrow> manifest_files \<Rightarrow> checkpoint_store \<times> checkpoint_manifest res" where
  "create_checkpoint cs snapshot files =
     (if \<not> hash_is_valid snapshot then (cs, fail InternalInvariantViolation)
      else if length files > max_checkpoint_manifest_files then (cs, fail BudgetExceeded)
      else if refused_file files 0 then (cs, fail InvalidRequest)
      else if length (cs_manifests cs) \<ge> max_checkpoints then (cs, fail BudgetExceeded)
      else
        let cid = ucast (cs_next_checkpoint_id cs) in
        if bt_contains cid (cs_manifests cs) then (cs, fail InternalInvariantViolation)
        else
          (case checked_add (cs_next_checkpoint_id cs) 1 of
             None \<Rightarrow> (cs, fail InternalInvariantViolation)
           | Some next_checkpoint_id \<Rightarrow>
               let manifest = checkpoint_manifest_new cid (ws_fortress_id snapshot) (cur_epoch (ws_cursor snapshot))
                     (ws_tick snapshot) (ws_state_hash snapshot) files
               in (\<lparr>cs_manifests = bt_insert cid manifest (cs_manifests cs), cs_next_checkpoint_id = next_checkpoint_id\<rparr>,
                   Ok manifest)))"

definition restore_checkpoint ::
  "checkpoint_store \<Rightarrow> checkpoint_id \<Rightarrow> state_anchor \<Rightarrow> state_anchor \<Rightarrow> digest32 \<Rightarrow> restore_certificate res" where
  "restore_checkpoint cs checkpoint prior restored content =
     (case map_of (cs_manifests cs) checkpoint of
        None \<Rightarrow> fail InvalidRequest
      | Some manifest \<Rightarrow>
          and_then (validate_manifest_shape manifest) (\<lambda>_.
            if \<not> manifest_integrity_is_valid manifest then fail CorruptLedger
            else if sa_fortress_id prior \<noteq> cm_fortress_id manifest \<or> sa_fortress_id restored \<noteq> cm_fortress_id manifest
            then fail StaleAnchor
            else
              (case checked_add (cur_epoch (sa_cursor prior)) 1 of
                 None \<Rightarrow> fail CursorGap
               | Some expected_epoch \<Rightarrow>
                   if cur_epoch (sa_cursor restored) \<noteq> expected_epoch then fail CursorGap
                   else if cur_sequence (sa_cursor restored) \<noteq> 0 then fail CursorGap
                   else if sa_tick restored \<noteq> cm_tick manifest then fail StaleAnchor
                   else if content \<noteq> cm_state_hash manifest then fail CorruptLedger
                   else Ok (restore_certificate_new (cm_fortress_id manifest) prior restored
                     (cm_manifest_digest manifest) content))))"

definition validate_anchor_epoch :: "state_anchor \<Rightarrow> u64 \<Rightarrow> unit res" where
  "validate_anchor_epoch anchor current_epoch =
     (if cur_epoch (sa_cursor anchor) \<noteq> current_epoch then fail CursorGap else Ok ())"

subsection \<open>Runs of the store\<close>

inductive checkpoint_step :: "checkpoint_store \<Rightarrow> checkpoint_store \<Rightarrow> bool" where
  checkpoint_step_create: "checkpoint_step cs (fst (create_checkpoint cs s files))"

inductive_cases checkpoint_stepE: "checkpoint_step cs ds"

definition checkpoint_init :: "checkpoint_store \<Rightarrow> bool" where
  "checkpoint_init cs \<longleftrightarrow> cs = checkpoint_store_new"

definition manifest_sealed :: "checkpoint_manifest \<Rightarrow> bool" where
  "manifest_sealed m \<longleftrightarrow>
     cm_checkpoint_id m \<noteq> 0 \<and> manifest_integrity_is_valid m \<and>
     length (cm_files m) \<le> max_checkpoint_manifest_files \<and> validate_manifest_files (cm_files m) 0 = Ok ()"

definition checkpoint_inv :: "checkpoint_store \<Rightarrow> bool" where
  "checkpoint_inv cs \<longleftrightarrow>
     bt_sorted (cs_manifests cs) \<and> 0 < cs_next_checkpoint_id cs \<and>
     (\<forall>(i, m) \<in> set (cs_manifests cs).
        cm_checkpoint_id m = i \<and> unat i < unat (cs_next_checkpoint_id cs) \<and> manifest_sealed m)"

text \<open>
  The two walks over the declared sizes agree: within the bounds neither addition overflows, so the
  saturating total of the creation is the checked total of the validation.
\<close>

lemma bounded_total:
  fixes t n :: u64
  assumes "t \<le> max_checkpoint_total_bytes" "n \<le> max_checkpoint_file_bytes"
  shows "checked_add t n = Some (t + n)" "saturating_add t n = t + n"
proof -
  have "unat t \<le> 68719476736" "unat n \<le> 1073741824"
    using assms by (simp_all add: word_le_nat_alt max_checkpoint_total_bytes_def max_checkpoint_file_bytes_def)
  then show "checked_add t n = Some (t + n)" by (simp add: checked_add_def)
  then show "saturating_add t n = t + n" by (simp add: saturating_add_def)
qed

lemma refused_file_iff:
  "t \<le> max_checkpoint_total_bytes \<Longrightarrow> \<not> refused_file fs t \<longleftrightarrow> validate_manifest_files fs t = Ok ()"
proof (induction fs t rule: refused_file.induct)
  case (2 path n h fs t)
  show ?case
  proof (cases "valid_manifest_path path \<and> n \<le> max_checkpoint_file_bytes")
    case True
    then show ?thesis
      using 2 bounded_total [OF 2(2), of n] by (auto simp: Let_def not_less)
  qed auto
qed simp

lemma create_checkpoint_Ok:
  "create_checkpoint cs s files = (ds, Ok m) \<longleftrightarrow>
   hash_is_valid s \<and> length files \<le> max_checkpoint_manifest_files \<and> validate_manifest_files files 0 = Ok () \<and>
   length (cs_manifests cs) < max_checkpoints \<and>
   map_of (cs_manifests cs) (ucast (cs_next_checkpoint_id cs)) = None \<and>
   unat (cs_next_checkpoint_id cs) + 1 < 2 ^ 64 \<and>
   m = checkpoint_manifest_new (ucast (cs_next_checkpoint_id cs)) (ws_fortress_id s) (cur_epoch (ws_cursor s)) (ws_tick s)
     (ws_state_hash s) files \<and>
   ds = \<lparr>cs_manifests = bt_insert (ucast (cs_next_checkpoint_id cs)) m (cs_manifests cs),
     cs_next_checkpoint_id = cs_next_checkpoint_id cs + 1\<rparr>"
proof -
  have "refused_file files 0 \<longleftrightarrow> validate_manifest_files files 0 \<noteq> Ok ()"
    using refused_file_iff [of 0 files] by (auto simp: max_checkpoint_total_bytes_def)
  then show ?thesis
    unfolding create_checkpoint_def
    by (auto simp: Let_def bt_contains_iff checked_add_def not_less not_le split: if_splits option.splits)
qed

lemma create_checkpoint_refused: "create_checkpoint cs s files = (ds, Err e) \<Longrightarrow> ds = cs"
  by (auto simp: create_checkpoint_def Let_def split: if_splits option.splits)

lemma checkpoint_step_inv: "checkpoint_inv cs \<Longrightarrow> checkpoint_step cs ds \<Longrightarrow> checkpoint_inv ds"
proof (elim checkpoint_stepE)
  fix s files
  assume inv: "checkpoint_inv cs" and ds: "ds = fst (create_checkpoint cs s files)"
  obtain r where run: "create_checkpoint cs s files = (ds, r)" using ds by (cases "create_checkpoint cs s files") simp
  show "checkpoint_inv ds"
  proof (cases r)
    case (Ok m)
    let ?next = "cs_next_checkpoint_id cs" and ?cid = "ucast (cs_next_checkpoint_id cs) :: checkpoint_id"
    note made = run [unfolded Ok create_checkpoint_Ok]
    have cid: "unat ?cid = unat ?next" by (simp add: unat_ucast_u128)
    have "0 < unat ?next" using inv by (simp add: checkpoint_inv_def word_less_nat_alt)
    then have "?cid \<noteq> 0" using cid by (metis neq0_conv unat_0)
    moreover have next1: "unat (?next + 1) = unat ?next + 1" using made by (simp add: unat_word_ariths)
    ultimately have "manifest_sealed m" "cm_checkpoint_id m = ?cid"
      using made by (simp_all add: manifest_sealed_def checkpoint_manifest_new_def manifest_integrity_is_valid_def)
    then show ?thesis
      using inv made cid next1 unfolding checkpoint_inv_def
      by (auto simp: set_bt_insert bt_sorted_insert word_less_nat_alt less_Suc_eq)
  qed (use inv create_checkpoint_refused run in blast)
qed

interpretation checkpoints: invariant_system checkpoint_init checkpoint_step checkpoint_inv
proof unfold_locales
  show "checkpoint_inv cs" if "checkpoint_init cs" for cs
    using that by (simp add: checkpoint_init_def checkpoint_inv_def checkpoint_store_new_def)
qed (rule checkpoint_step_inv)

lemma checkpoint_step_keeps:
  "checkpoint_step cs ds \<Longrightarrow> map_of (cs_manifests cs) i = Some m \<Longrightarrow> map_of (cs_manifests ds) i = Some m"
proof (elim checkpoint_stepE)
  fix s files
  assume ds: "ds = fst (create_checkpoint cs s files)" and m: "map_of (cs_manifests cs) i = Some m"
  obtain r where run: "create_checkpoint cs s files = (ds, r)" using ds by (cases "create_checkpoint cs s files") simp
  show "map_of (cs_manifests ds) i = Some m"
    using run m by (cases r) (auto simp: create_checkpoint_Ok map_of_bt_insert dest: create_checkpoint_refused)
qed

lemma checkpoint_steps_keep:
  "checkpoint_step\<^sup>*\<^sup>* cs ds \<Longrightarrow> map_of (cs_manifests cs) i = Some m \<Longrightarrow> map_of (cs_manifests ds) i = Some m"
  by (induction rule: rtranclp_induct) (auto intro: checkpoint_step_keeps)

subsection \<open>Restoring\<close>

text \<open>
  A checkpoint stays restorable. Once a checkpoint of a fortress was created, whatever is created
  after it, a restore of it is granted exactly when both anchors are of the fortress, the
  restored one starts the next epoch at sequence zero with the tick of the checkpoint, and the
  restored content hashes to the state hash of the snapshot; the certificate then binds the two
  anchors, the manifest and the content.
\<close>

theorem checkpoint_stays_restorable:
  assumes "reach checkpoint_init checkpoint_step cs" "create_checkpoint cs s files = (ds, Ok m)"
    and "checkpoint_step\<^sup>*\<^sup>* ds es" "ws_fortress_id s \<noteq> 0" "ws_state_hash s \<noteq> digest_zero"
  shows "restore_checkpoint es (cm_checkpoint_id m) prior restored content = Ok certificate \<longleftrightarrow>
    sa_fortress_id prior = ws_fortress_id s \<and> sa_fortress_id restored = ws_fortress_id s \<and>
    unat (cur_epoch (sa_cursor restored)) = unat (cur_epoch (sa_cursor prior)) + 1 \<and>
    cur_sequence (sa_cursor restored) = 0 \<and> sa_tick restored = ws_tick s \<and> content = ws_state_hash s \<and>
    certificate = restore_certificate_new (ws_fortress_id s) prior restored (cm_manifest_digest m) content"
proof -
  have fields: "cm_fortress_id m = ws_fortress_id s" "cm_tick m = ws_tick s" "cm_state_hash m = ws_state_hash s"
      "cm_checkpoint_id m = ucast (cs_next_checkpoint_id cs)"
      "ds = \<lparr>cs_manifests = bt_insert (ucast (cs_next_checkpoint_id cs)) m (cs_manifests cs),
         cs_next_checkpoint_id = cs_next_checkpoint_id cs + 1\<rparr>"
    using assms(2) by (auto simp: create_checkpoint_Ok checkpoint_manifest_new_def)
  have step: "checkpoint_step cs ds" using checkpoint_step_create [of cs s files] assms(2) by simp
  have stored: "map_of (cs_manifests ds) (cm_checkpoint_id m) = Some m" by (simp add: fields(4,5) map_of_bt_insert)
  have "checkpoint_inv ds" using checkpoints.reach_inv [OF assms(1)] step by (rule checkpoint_step_inv)
  then have "manifest_sealed m" using map_of_SomeD [OF stored] by (auto simp: checkpoint_inv_def)
  then have sealed: "validate_manifest_shape m = Ok ()" "manifest_integrity_is_valid m"
    using assms(4,5) fields(1,3) by (auto simp: manifest_sealed_def validate_manifest_shape_def not_less)
  have epoch: "unat (cur_epoch (sa_cursor restored)) = unat (cur_epoch (sa_cursor prior)) + 1 \<longleftrightarrow>
      checked_add (cur_epoch (sa_cursor prior)) 1 = Some (cur_epoch (sa_cursor restored))"
    by (simp add: checked_add_Some_iff)
  show ?thesis
    unfolding epoch using checkpoint_steps_keep [OF assms(3) stored] sealed
    by (auto simp: restore_checkpoint_def fields(1-3) split: option.splits if_splits)
qed

text \<open>
  No anchor outlives a restore: an anchor of the epoch before a granted restore is refused by the
  check against the restored epoch.
\<close>

lemma restore_fences_old_anchors:
  assumes "restore_checkpoint cs i prior restored content = Ok certificate"
    and "cur_epoch (sa_cursor anchor) \<le> cur_epoch (sa_cursor prior)"
  shows "validate_anchor_epoch anchor (cur_epoch (sa_cursor restored)) = fail CursorGap"
proof -
  have "checked_add (cur_epoch (sa_cursor prior)) 1 = Some (cur_epoch (sa_cursor restored))"
    using assms(1) by (auto simp: restore_checkpoint_def split: option.splits if_splits)
  then have "cur_epoch (sa_cursor anchor) \<noteq> cur_epoch (sa_cursor restored)"
    using assms(2) by (auto simp: checked_add_Some_iff word_less_nat_alt word_le_nat_alt)
  then show ?thesis by (simp add: validate_anchor_epoch_def)
qed

text \<open>
  The creation does not look at the identity of the fortress, the restore does: a checkpoint of a
  snapshot without fortress identity is stored and can never be restored.
\<close>

lemma nil_fortress_unrestorable:
  assumes "create_checkpoint cs s files = (ds, Ok m)" "ws_fortress_id s = 0"
  shows "restore_checkpoint ds (cm_checkpoint_id m) prior restored content = fail CorruptLedger"
  using assms
  by (auto simp: create_checkpoint_Ok restore_checkpoint_def map_of_bt_insert checkpoint_manifest_new_def validate_manifest_shape_def)

subsection \<open>Files\<close>

definition file_matches :: "(string \<Rightarrow> u8 list option) \<Rightarrow> string \<times> u64 \<times> digest32 \<Rightarrow> bool" where
  "file_matches read_file f =
     (case f of (path, n, h) \<Rightarrow>
        (case read_file path of None \<Rightarrow> False | Some bytes \<Rightarrow> length bytes = unat n \<and> digest_of_bytes bytes = h))"

lemma verify_file_list_Ok:
  "\<forall>f \<in> set fs. valid_manifest_path (fst f) \<Longrightarrow>
   verify_file_list read_file fs = Ok () \<longleftrightarrow> (\<forall>f \<in> set fs. file_matches read_file f)"
proof (induction fs)
  case (Cons f fs)
  obtain path n h where f: "f = (path, n, h)" by (cases f)
  show ?case
  proof (cases "read_file path")
    case (Some bytes)
    have "length bytes < 2 ^ 64 \<and> word_of_nat (length bytes) = n \<longleftrightarrow> length bytes = unat n"
      using unat_less_u64 [of n] by (auto simp: unat_of_nat)
    moreover have "verify_file_list read_file (f # fs) = Ok () \<longleftrightarrow>
        (length bytes < 2 ^ 64 \<and> word_of_nat (length bytes) = n) \<and> digest_of_bytes bytes = h \<and> verify_file_list read_file fs = Ok ()"
      using Some Cons.prems by (simp add: f)
    ultimately show ?thesis using Cons by (simp add: f file_matches_def Some)
  qed (use Cons.prems in \<open>simp add: f file_matches_def\<close>)
qed simp

lemma validate_manifest_files_paths:
  "validate_manifest_files fs t = Ok () \<Longrightarrow> \<forall>f \<in> set fs. valid_manifest_path (fst f)"
  by (induction fs t rule: validate_manifest_files.induct) (auto split: if_splits option.splits)

text \<open>
  Verification accepts exactly the recorded contents: for a well-formed, intact manifest it succeeds
  if and only if every file is present with the recorded length and hash.
\<close>

theorem verify_files_exact:
  assumes "validate_manifest_shape m = Ok ()" "manifest_integrity_is_valid m"
  shows "verify_files m read_file = Ok () \<longleftrightarrow> (\<forall>f \<in> set (cm_files m). file_matches read_file f)"
  using assms validate_manifest_files_paths [of "cm_files m" 0]
  by (auto simp: verify_files_def validate_manifest_shape_def verify_file_list_Ok split: if_splits)

text \<open>
  Accepted paths stay below the directory they are resolved in: they are relative and have no
  parent segment. They need not be in normal form, so two of them can name one file.
\<close>

lemma map_filter_set: "set (List.map_filter f xs) = {y. \<exists>x \<in> set xs. f x = Some y}"
  by (induction xs) (auto simp: List.map_filter_simps split: option.splits)

lemma valid_path_stays_below:
  assumes "valid_manifest_path path"
  shows "take 1 path \<noteq> ''/'' \<and> ''..'' \<notin> set (path_segments path)"
proof -
  have normal: "list_all (\<lambda>c. case c of NormalDir _ \<Rightarrow> True | _ \<Rightarrow> False) (path_components path)"
    using assms by (simp add: valid_manifest_path_def split: if_splits)
  then have "''..'' \<notin> set (path_segments path)"
    by (force simp: path_components_def list_all_iff map_filter_set segment_component_def)
  moreover have "take 1 path \<noteq> ''/''" using normal by (auto simp: path_components_def)
  ultimately show ?thesis by blast
qed

lemma paths_alias:
  "valid_manifest_path ''save/./world.dat'' \<and> valid_manifest_path ''save/world.dat'' \<and>
   path_components ''save/./world.dat'' = path_components ''save/world.dat''"
  by (simp add: valid_manifest_path_def path_components_def segment_component_def List.map_filter_simps)

subsection \<open>A concrete checkpoint\<close>

definition checkpoint_world :: world_snapshot where
  "checkpoint_world = world_snapshot_new 7 100 (ObservationCursor 1 5) True empty_graph"

definition checkpoint_files :: manifest_files where
  "checkpoint_files = [(''world.dat'', 3, digest_of_bytes [1, 2, 3])]"

lemma checkpoint_created:
  obtains m where "create_checkpoint checkpoint_store_new checkpoint_world checkpoint_files =
    (\<lparr>cs_manifests = [(1, m)], cs_next_checkpoint_id = 2\<rparr>, Ok m)" "cm_checkpoint_id m = 1"
proof -
  define m where "m = checkpoint_manifest_new 1 7 1 100 (ws_state_hash checkpoint_world) checkpoint_files"
  have path: "valid_manifest_path ''world.dat''"
    by (simp add: valid_manifest_path_def path_components_def segment_component_def List.map_filter_simps)
  have files: "validate_manifest_files checkpoint_files 0 = Ok ()"
    using path by (simp add: checkpoint_files_def max_checkpoint_file_bytes_def max_checkpoint_total_bytes_def checked_add_def)
  have "create_checkpoint checkpoint_store_new checkpoint_world checkpoint_files =
      (\<lparr>cs_manifests = [(1, m)], cs_next_checkpoint_id = 2\<rparr>, Ok m)"
    unfolding create_checkpoint_Ok using files
    by (simp add: checkpoint_store_new_def checkpoint_world_def checkpoint_files_def m_def max_checkpoints_def max_checkpoint_manifest_files_def)
  then show ?thesis using that [of m] by (simp add: m_def checkpoint_manifest_new_def)
qed

end
