(* ===== verification/Spec2Isabelle.thy ===== *)
theory Spec2Isabelle
  imports Leases Clock_Governor Roles Anchors Delta_Codec Publication Merkle Terrain Journal_Delta
    Retention Alert_Fsm World_Query Obligations Workforce Map_Route Rebase Checkpoints
begin

text \<open>
  \<^bold>\<open>A verification development for dwarf_fortress_mcp.\<close>

  The program lets several autonomous agents observe and steer one Dwarf Fortress game through an
  MCP server. Everything that decides something is pure Rust in three crates:

  \<^item> \<^verbatim>\<open>dfmcp-core\<close>: identifiers, digests, cursors and anchors, capability grants, leases, the clock
    governor, roles. It knows nothing of the game.
  \<^item> \<^verbatim>\<open>dfmcp-world\<close>: the world snapshot and its canonical bytes; deltas between snapshots; the durable
    ledger of observations and effects with the publisher above it; Merkle proofs; retention;
    predicates and queries over snapshots, and the evidence under which a predicate may be answered.
  \<^item> \<^verbatim>\<open>dfmcp-intent\<close>: actions, the obligations that wait for their effects, the civilian alert
    monitor.

  Around them the adapters (remote procedure calls to the game, file journals), the server (JSON
  over the core), the laboratory simulator and the bridge plugins move data in and out. An agent's
  turn goes through the parts in this order: a snapshot is decoded, published in the ledger and
  anchored; the agent reads it through queries; an action is authorized by grants, fenced by leases
  and a vote of the clock governor, journalled before it is sent; its outcome is awaited by an
  obligation, evaluated on later snapshots under their evidence.

  \<^bold>\<open>Theories and sources\<close> (paths under \<^verbatim>\<open>src/crates\<close>). Each theory has the data and operations of its
  source in the order of the source, then an invariant, then the theorems, then concrete witnesses.

  \<^item> \<open>Prelude\<close>: results, fixed-width arithmetic, ordered maps, byte readers, transition systems.
  \<^item> \<open>Errors\<close>, \<open>Ids\<close>, \<open>Digest\<close>, \<open>Core_Model\<close>: \<^verbatim>\<open>dfmcp-core\<close> \<^verbatim>\<open>error.rs\<close>, \<^verbatim>\<open>ids.rs\<close>, \<^verbatim>\<open>digest.rs\<close>, \<^verbatim>\<open>model.rs\<close>.
    Session identities of live sessions do not alias; SHA-256 is the real algorithm; grants with a
    use limit are never replayed.
  \<^item> \<open>Leases\<close> (\<^verbatim>\<open>lease.rs\<close>): mutual exclusion of live leases over tiles and entities in every reachable
    state. \<open>Clock_Governor\<close> (\<^verbatim>\<open>clock.rs\<close>): when the clock advances, emergency pauses, tick budgets.
    \<open>Roles\<close> (\<^verbatim>\<open>roles.rs\<close>): a delegation never amplifies its issuer. \<open>Anchors\<close> (\<^verbatim>\<open>anchor_v2.rs\<close>): the version
    tuple, its strict codec and its order.
  \<^item> \<open>Codecs\<close>, \<open>World_Model\<close>, \<open>Canonical_Decode\<close>: \<^verbatim>\<open>dfmcp-world\<close> \<^verbatim>\<open>canonical.rs\<close>, \<^verbatim>\<open>model.rs\<close>,
    \<^verbatim>\<open>canonical_decode.rs\<close>. The decoder accepts exactly the canonical bytes of well-formed snapshots, so
    bytes, worlds and state hashes correspond.
  \<^item> \<open>Delta\<close>, \<open>Delta_Codec\<close>: \<^verbatim>\<open>delta.rs\<close>, \<^verbatim>\<open>canonical_decode/delta.rs\<close>. Deltas apply to their exact base only,
    keep the graph closed, and the computed difference rebuilds the target.
  \<^item> \<open>Ledger\<close>, \<open>Publication\<close>: \<^verbatim>\<open>ledger.rs\<close>, \<^verbatim>\<open>publication.rs\<close>. The head is the replay of the capsules;
    journalled effects only move forward, also through a crash; the publisher refines an
    append-only log of complete world versions and can always recover.
  \<^item> \<open>Rebase\<close> (\<^verbatim>\<open>rebase.rs\<close>): a merge of two branches keeps every edit of both and nothing else, in
    either order; a clean rebase transplants the change set. \<open>Checkpoints\<close> (\<^verbatim>\<open>checkpoint.rs\<close>): stored manifests
    stay intact and restorable, and a restore fences the anchors of earlier epochs.
  \<^item> \<open>Merkle\<close>, \<open>Retention\<close>, \<open>Journal_Delta\<close>, \<open>Terrain\<close>: \<^verbatim>\<open>merkle.rs\<close>, \<^verbatim>\<open>retention.rs\<close>, \<^verbatim>\<open>journal_delta.rs\<close>,
    \<^verbatim>\<open>terrain.rs\<close>. Completeness and soundness of inclusion proofs; what a collection keeps; the payload
    codec with its size promise; tile access and the region predicate.
  \<^item> \<open>Lab_Facts\<close>, \<open>Flood\<close>, \<open>Lab_Access\<close>, \<open>Lab_Grids\<close>, \<open>Lab_Routes\<close>, \<open>Lab_Civilian\<close>: \<^verbatim>\<open>laboratory_access.rs\<close> and
    \<^verbatim>\<open>laboratory_civilian.rs\<close>. The breadth-first searches over difference arrays decide the existence of
    routes between map tiles; the census decides when releasing civilians is safe.
  \<^item> \<open>Predicates\<close>, \<open>Predicate_Shape\<close>, \<open>World_Query\<close>: \<^verbatim>\<open>query.rs\<close>. Normal forms keep the truth value, the
    work-list validator accepts exactly the bounded trees, and following continuation tokens
    enumerates exactly the sorted matches. \<open>Evidence\<close>: \<^verbatim>\<open>evidence.rs\<close>. A definite answer under partial
    evidence is the answer over the whole snapshot.
  \<^item> \<open>Actions\<close>, \<open>Alert_Fsm\<close>, \<open>Obligations\<close>: \<^verbatim>\<open>dfmcp-intent\<close> \<^verbatim>\<open>action.rs\<close>, \<^verbatim>\<open>alert_fsm.rs\<close>, \<^verbatim>\<open>obligation.rs\<close> with
    \<^verbatim>\<open>obligation/drain.rs\<close> and \<^verbatim>\<open>obligation/recovery.rs\<close>. Releases need sustained clearance; an obligation is
    fulfilled only by a full window of samples, settled at its deadline, cancelled only when drained,
    and no restart extends it.
  \<^item> \<open>Workforce\<close> (\<^verbatim>\<open>workforce_allocation.rs\<close>): successive shortest paths over a flow network with vector costs;
    the assignment it returns, and any whose certificate the verifier accepts, is a largest and among
    those a cheapest one. \<open>Map_Route\<close> (\<^verbatim>\<open>map_region.rs\<close>, \<^verbatim>\<open>map_reachability.rs\<close>): the budgeted searches over an
    observed window find shortest routes and exact distances, and a budget linear in the window
    suffices.

  \<^bold>\<open>Interfaces\<close> are locales, interpreted on the model's own definitions. \<open>ordered_map\<close> is what a
  \<^verbatim>\<open>BTreeMap\<close> promises; \<open>codec\<close>, \<open>strict_codec\<close> and \<open>prefix_code\<close> what a pair of encoder and reader
  promises (interpreted for strings, anchors, graphs, changes, deltas); \<open>invariant_system\<close> a transition
  system with its invariant (leases, clock, roles, ledger, retention, alert monitor, obligations, checkpoints);
  \<open>version_log\<close> the append-only log that the ledger and the publisher both implement;
  \<open>versioned_map\<close> the revision rules that deltas enforce on entities, edges, chunks and events;
  \<open>predicate_evaluator\<close> a three-valued evaluator, and \<open>evaluator_refinement\<close> two of them of which one
  knows less (evidence and snapshot, less and more evidence).

  \<^bold>\<open>How the code is represented.\<close>

  \<^item> Unsigned machine integers are words of their width; checked, saturating and wrapping arithmetic
    is written out. Signed 32- and 64-bit integers are \<^typ>\<open>int\<close> with range predicates; \<^verbatim>\<open>usize\<close> is \<^typ>\<open>nat\<close>.
  \<^item> Strings are the lists of their UTF-8 bytes as characters; a \<^verbatim>\<open>BTreeMap\<close> is the list of its
    entries in key order; a mutable borrow is a state that is passed and returned.
  \<^item> An error is its code and its retryable flag. A method that fails returns the state it leaves
    behind, so that what a refusal changes is part of the model.
  \<^item> A reader's state is the list of bytes still to be read.
  \<^item> Loops are recursive functions with a termination proof: measures are the length of the input, the
    size of the work list, or the number of unvisited cells. No definition takes fuel; the depth
    arguments in the decoders and the validators are the source's own limits.
  \<^item> Runs are \<open>inductive\<close> step relations over all operations of a component. Where a theorem speaks about
    the past, the run carries a log of the accepted calls.
  \<^item> Hashes are evaluated, and nothing is assumed about them: the theorem on Merkle proofs exhibits
    the collision that a forged proof would need.
  \<^item> The process scope of session identifiers, the facts that adapters deliver and the reader of
    checkpoint files are arguments.

  \<^bold>\<open>What is not modelled\<close>, and why: the adapters, the server and the binary (calls, files, JSON and
  threads around the core, with external runtimes); the laboratory simulator, which produces
  snapshots but takes no decision about them; the bridge plugins (C++ and Lua inside the game);
  text search, graph walks, spatial indices, connectivity reports and inventory allocation, which
  report on snapshots and windows of the kind modelled here; planners and plan execution, which
  build and order the modelled actions and wait on the modelled obligations; the validators of the
  agents' vocabulary, which confer no authority; and the storage back ends, which keep what the
  modelled ledger, deltas and Merkle trees define. Human-readable messages of errors
  carry no control flow and are dropped, except in the conflict certificates, whose digest covers
  them.
\<close>

end
